(* ===== verification/Prelude.thy ===== *)
theory Prelude
  imports Main "HOL-Library.Word" "HOL-Library.List_Lexorder" "HOL-Library.Product_Lexorder"
begin

unbundle bit_operations_syntax

section \<open>Shared types, errors, byte layouts and map laws\<close>

text \<open>
  This theory holds what every component shares.
  \<^item> The machine types of the C++ sources. A byte of a \<open>std::string\<close> is an 8-bit word, a
    \<open>std::string\<close> is a list of bytes. Its comparison is the lexicographic order on unsigned
    bytes, which is the order that the list order of the library gives.
  \<^item> Exceptions as values. A C++ function that may throw returns \<open>exn + 'a\<close>. A read outside of
    a buffer, which the sources do not check, is the value \<open>OutOfBounds\<close>, and an overflow of a
    signed integer is the value \<open>SignedOverflow\<close>: the model stops at the first such step, which the
    language leaves undefined. The messages of exceptions are kept up to the run time values that the
    sources append to them. \<open>OutOfRange\<close> and \<open>LengthError\<close> are the exceptions of
    \<open>std::string::substr\<close> and of the constructors of \<open>std::string\<close>.
  \<^item> The memory image of machine integers on the little endian hosts the program is built for.
  \<^item> \<open>std::map\<close> as an association list with strictly increasing keys.
\<close>

named_theorems codec_simps \<open>round trip equations of the encoders and decoders\<close>
named_theorems result_simps \<open>equations of the exception monad\<close>

type_synonym byte = "8 word"
type_synonym bytes = "byte list"
type_synonym UInt8 = "8 word"
type_synonym UInt32 = "32 word"
type_synonym Int32 = "32 word"
type_synonym UInt64 = "64 word"
type_synonym Int64 = "64 word"
type_synonym Timestamp = "64 word"
type_synonym TableID = "64 word"
type_synonym HandleID = "64 word"
type_synonym RegionID = "64 word"

subsection \<open>Exceptions\<close>

datatype exn =
    LogicalError string
  | ReadAfterEof
  | CannotReadAllData
  | UnknownFormatVersion
  | ArgumentOutOfBound
  | BadGet
  | OutOfRange
  | LengthError
  | SignedOverflow
  | OutOfBounds
  | TableIsDropped

type_synonym 'a result = "exn + 'a"

definition rbind :: "'a result \<Rightarrow> ('a \<Rightarrow> 'b result) \<Rightarrow> 'b result" where
  "rbind m f = (case m of Inl e \<Rightarrow> Inl e | Inr x \<Rightarrow> f x)"

definition throw :: "string \<Rightarrow> 'a result" where
  "throw msg = Inl (LogicalError msg)"

lemma rbind_Inl [simp, result_simps]: "rbind (Inl e) f = Inl e"
  by (simp add: rbind_def)

lemma rbind_Inr [simp, result_simps]: "rbind (Inr x) f = f x"
  by (simp add: rbind_def)

lemma rbind_eq_Inr [result_simps]: "rbind m f = Inr y \<longleftrightarrow> (\<exists>x. m = Inr x \<and> f x = Inr y)"
  by (cases m) auto

lemma rbind_eq_Inl [result_simps]:
  "rbind m f = Inl e \<longleftrightarrow> m = Inl e \<or> (\<exists>x. m = Inr x \<and> f x = Inl e)"
  by (cases m) auto

lemma rbind_assoc: "rbind (rbind m f) g = rbind m (\<lambda>x. rbind (f x) g)"
  by (cases m) auto

lemma rbind_cong [fundef_cong]:
  "m = n \<Longrightarrow> (\<And>x. n = Inr x \<Longrightarrow> f x = g x) \<Longrightarrow> rbind m f = rbind n g"
  by (cases n) auto

text \<open>Reading one character of a \<open>std::string\<close>: the position after the last one holds a zero.\<close>

definition str_at :: "bytes \<Rightarrow> nat \<Rightarrow> byte result" where
  "str_at s i = (if i < length s then Inr (s ! i) else if i = length s then Inr 0 else Inl OutOfBounds)"

lemma str_at_append [simp]: "str_at (pre @ x # rest) (length pre) = Inr x"
  by (simp add: str_at_def)

lemma str_at_nth: "i < length s \<Longrightarrow> str_at s i = Inr (s ! i)"
  by (simp add: str_at_def)

lemma throw_neq_Inr [simp]: "throw msg \<noteq> Inr x" "Inr x \<noteq> throw msg"
  by (simp_all add: throw_def)

lemma rbind_throw [simp]: "rbind (throw msg) f = throw msg"
  by (simp add: throw_def)

text \<open>\<open>rfold\<close> runs a loop body over a list, from the front, stopping at the first exception.\<close>

fun rfold :: "('a \<Rightarrow> 's \<Rightarrow> 's result) \<Rightarrow> 'a list \<Rightarrow> 's \<Rightarrow> 's result" where
  "rfold f [] s = Inr s"
| "rfold f (x # xs) s = rbind (f x s) (rfold f xs)"

lemma rfold_append: "rfold f (xs @ ys) s = rbind (rfold f xs s) (rfold f ys)"
  by (induction xs arbitrary: s) (auto simp: rbind_assoc intro: rbind_cong)

lemma rfold_invariant:
  assumes "rfold f xs s = Inr t" and "P s"
    and "\<And>x s t. x \<in> set xs \<Longrightarrow> P s \<Longrightarrow> f x s = Inr t \<Longrightarrow> P t"
  shows "P t"
  using assms by (induction xs arbitrary: s) (auto simp: rbind_eq_Inr)

subsection \<open>Memory images of machine integers\<close>

text \<open>
  \<open>mem_of n w\<close> is the little endian memory image of the \<open>n\<close> low bytes of \<open>w\<close>;
  \<open>load_le\<close> reads such an image back.
\<close>

definition mem_of :: "nat \<Rightarrow> 'a::len word \<Rightarrow> bytes" where
  "mem_of n w = map (\<lambda>i. ucast (drop_bit (8 * i) w)) [0..<n]"

fun load_le :: "bytes \<Rightarrow> 'a::len word" where
  "load_le [] = 0"
| "load_le (b # bs) = ucast b OR push_bit 8 (load_le bs)"

lemma length_mem_of [simp]: "length (mem_of n w) = n"
  by (simp add: mem_of_def)

lemma nth_mem_of: "i < n \<Longrightarrow> mem_of n w ! i = ucast (drop_bit (8 * i) w)"
  by (simp add: mem_of_def)

lemma bit_nth_mem_of:
  "i < n \<Longrightarrow> bit (mem_of n w ! i) k \<longleftrightarrow> k < 8 \<and> bit w (8 * i + k)"
  by (auto simp: nth_mem_of bit_ucast_iff bit_drop_bit_eq ac_simps)

lemma bit_load_le:
  "bit (load_le bs :: 'a::len word) k \<longleftrightarrow>
     k < LENGTH('a) \<and> k div 8 < length bs \<and> bit (bs ! (k div 8)) (k mod 8)"
proof (induction bs arbitrary: k)
  case Nil
  then show ?case by simp
next
  case (Cons b bs)
  show ?case
  proof (cases "k < 8")
    case True
    then show ?thesis
      by (auto simp: bit_or_iff bit_push_bit_iff bit_ucast_iff)
  next
    case False
    then have "k div 8 = Suc ((k - 8) div 8)" and "k mod 8 = (k - 8) mod 8"
      by (auto simp: le_div_geq le_mod_geq)
    moreover have "\<not> bit b k" using False by (simp add: bit_imp_le_length not_less)
        (use bit_imp_le_length in fastforce)
    ultimately show ?thesis using False Cons.IH [of "k - 8"]
      by (auto simp: bit_or_iff bit_push_bit_iff bit_ucast_iff)
  qed
qed

lemma load_le_mem_of:
  assumes "LENGTH('a::len) = 8 * n"
  shows "load_le (mem_of n w) = (w :: 'a word)"
proof (rule bit_word_eqI)
  fix k assume k: "k < LENGTH('a)"
  then have "k div 8 < n" using assms by auto
  then show "bit (load_le (mem_of n w) :: 'a word) k = bit w k"
    using k by (simp add: bit_load_le bit_nth_mem_of)
qed

lemma mem_of_load_le:
  assumes "LENGTH('a::len) = 8 * n" and "length bs = n"
  shows "mem_of n (load_le bs :: 'a word) = bs"
proof (rule nth_equalityI)
  show "length (mem_of n (load_le bs :: 'a word)) = length bs" using assms by simp
next
  fix i assume "i < length (mem_of n (load_le bs :: 'a word))"
  then have i: "i < n" by simp
  show "mem_of n (load_le bs :: 'a word) ! i = bs ! i"
  proof (rule bit_word_eqI)
    fix k assume "k < LENGTH(8)"
    then have k: "k < 8" by simp
    then have "8 * i + k < LENGTH('a)" using i assms by simp
    moreover have "(8 * i + k) div 8 = i" "(8 * i + k) mod 8 = k" using k by auto
    ultimately show "bit (mem_of n (load_le bs :: 'a word) ! i) k = bit (bs ! i) k"
      using i k assms by (simp add: bit_nth_mem_of bit_load_le)
  qed
qed

lemma mem_of_inject:
  assumes "LENGTH('a::len) = 8 * n"
  shows "mem_of n (v :: 'a word) = mem_of n w \<longleftrightarrow> v = w"
  by (metis assms load_le_mem_of)

subsection \<open>Byte order and numeric order\<close>

text \<open>The number a little endian byte list denotes; the lexicographic order of the reversed
  (big endian) lists is the numeric order.\<close>

fun val_le :: "bytes \<Rightarrow> nat" where
  "val_le [] = 0"
| "val_le (b # bs) = unat b + 256 * val_le bs"

lemma unat_byte_less: "unat (b :: byte) < 256"
  by (rule order_less_le_trans [OF unsigned_less]) simp

lemma val_le_less: "val_le bs < 256 ^ length bs"
proof (induction bs)
  case Nil
  then show ?case by simp
next
  case (Cons b bs)
  then have "Suc (val_le bs) \<le> 256 ^ length bs" by simp
  then have "256 * Suc (val_le bs) \<le> 256 * 256 ^ length bs" by (rule mult_le_mono2)
  then show ?case using unat_byte_less [of b] by simp
qed

lemma digit_eq_iff:
  "(a::nat) < 256 \<Longrightarrow> c < 256 \<Longrightarrow> a + 256 * x = c + 256 * y \<longleftrightarrow> a = c \<and> x = y"
  by (cases x y rule: linorder_cases) auto

lemma digit_less_iff:
  "(a::nat) < 256 \<Longrightarrow> c < 256 \<Longrightarrow> a + 256 * x < c + 256 * y \<longleftrightarrow> x < y \<or> x = y \<and> a < c"
  by (cases x y rule: linorder_cases) auto

lemma val_le_inject: "length bs = length cs \<Longrightarrow> val_le bs = val_le cs \<longleftrightarrow> bs = cs"
proof (induction bs cs rule: list_induct2)
  case Nil
  then show ?case by simp
next
  case (Cons b bs c cs)
  then show ?case by (simp add: digit_eq_iff unat_byte_less word_unat_eq_iff)
qed

lemma append_less_append_same_length:
  "length xs = length ys \<Longrightarrow> xs @ us < ys @ vs \<longleftrightarrow> xs < ys \<or> xs = ys \<and> us < (vs :: 'a::linorder list)"
  by (induction xs ys rule: list_induct2) auto

lemma rev_less_iff_val_le:
  "length bs = length cs \<Longrightarrow> rev bs < rev cs \<longleftrightarrow> val_le bs < val_le cs"
proof (induction bs cs rule: list_induct2)
  case Nil
  then show ?case by simp
next
  case (Cons b bs c cs)
  have "rev (b # bs) < rev (c # cs) \<longleftrightarrow> rev bs < rev cs \<or> rev bs = rev cs \<and> [b] < [c]"
    using Cons.hyps by (simp add: append_less_append_same_length)
  also have "\<dots> \<longleftrightarrow> val_le bs < val_le cs \<or> val_le bs = val_le cs \<and> unat b < unat c"
    using Cons by (simp add: val_le_inject word_less_nat_alt)
  also have "\<dots> \<longleftrightarrow> unat b + 256 * val_le bs < unat c + 256 * val_le cs"
    by (simp add: digit_less_iff unat_byte_less)
  finally show ?case by simp
qed

lemma load_le_of_nat: "(load_le bs :: 'a::len word) = of_nat (val_le bs)"
proof (induction bs)
  case Nil
  then show ?case by simp
next
  case (Cons b bs)
  let ?w = "load_le bs :: 'a word"
  have disj: "ucast b AND push_bit 8 ?w = 0"
  proof (rule bit_word_eqI)
    fix k
    have "bit b k \<Longrightarrow> k < 8" using bit_imp_le_length [of b k] by simp
    then show "bit (ucast b AND push_bit 8 ?w) k = bit (0 :: 'a word) k"
      by (auto simp: bit_and_iff bit_push_bit_iff bit_ucast_iff)
  qed
  have "load_le (b # bs) = ucast b + push_bit 8 ?w"
    using word_plus_and_or [of "ucast b" "push_bit 8 ?w"] by (simp add: disj)
  also have "\<dots> = of_nat (unat b) + of_nat (val_le bs) * 2 ^ 8"
    by (simp only: Cons.IH push_bit_eq_mult of_nat_unat)
  finally show ?case by (simp add: ac_simps)
qed

lemma unat_load_le:
  assumes "8 * length bs \<le> LENGTH('a::len)"
  shows "unat (load_le bs :: 'a word) = val_le bs"
proof -
  have "(256::nat) ^ length bs = 2 ^ (8 * length bs)" by (simp add: power_mult)
  then have "val_le bs < 2 ^ LENGTH('a)"
    using val_le_less [of bs] power_increasing [OF assms, of "2::nat"] by linarith
  then show ?thesis by (simp add: load_le_of_nat unat_of_nat)
qed

lemma rev_mem_of_less_iff:
  assumes "LENGTH('a::len) = 8 * n"
  shows "rev (mem_of n (v :: 'a word)) < rev (mem_of n w) \<longleftrightarrow> v < w"
proof -
  have val: "unat u = val_le (mem_of n u)" for u :: "'a word"
  proof -
    have "unat (load_le (mem_of n u) :: 'a word) = val_le (mem_of n u)"
      by (rule unat_load_le) (simp only: length_mem_of assms)
    then show ?thesis by (simp only: load_le_mem_of [OF assms])
  qed
  show ?thesis
    by (simp only: rev_less_iff_val_le length_mem_of word_less_nat_alt val)
qed

lemma unat_drop_bit_div: "unat (drop_bit n (w :: 'a::len word)) = unat w div 2 ^ n"
  by (metis drop_bit_eq_div unat_drop_bit_eq)

lemma unat_of_nat_64: "n < 2 ^ 64 \<Longrightarrow> unat (of_nat n :: 64 word) = n"
  by (simp only: unat_of_nat) simp

end
