(* ===== verification/IntCodec.thy ===== *)
theory IntCodec
  imports Prelude
begin

unbundle bit_operations_syntax

section \<open>Integer codecs\<close>

text \<open>
  The integer encodings of the storage layer: the endian helpers of \<open>IO/Endian.h\<close>, the fixed width
  memory comparable integers and floats of \<open>Storages/Transaction/DatumCodec.h\<close> and \<open>.cpp\<close>, and the
  variable length integers of \<open>Storages/Transaction/TiKVVarInt.h\<close>.

  An encoder appends to a stream; its model returns the bytes it appends. A decoder with a
  \<open>cursor\<close> argument returns its value with the new cursor. A decoder on a \<open>(data, len)\<close> pair takes
  the bytes that remain and returns its value with the bytes that remain afterwards.
  A \<open>Float64\<close> is its 64 bit pattern, since the code only casts it (\<open>enforce_cast\<close>).
\<close>

subsection \<open>Endian helpers\<close>

definition toBigEndian :: "'a::len word \<Rightarrow> 'a word" where
  "toBigEndian x = load_le (rev (mem_of (LENGTH('a) div 8) x))"

definition readBigEndian64 :: "nat \<Rightarrow> bytes \<Rightarrow> UInt64 result" where
  "readBigEndian64 addr buf =
     (if addr + 8 \<le> length buf then Inr (toBigEndian (load_le (take 8 (drop addr buf))))
      else Inl OutOfBounds)"

lemma mem_of_toBigEndian64: "mem_of 8 (toBigEndian (x :: UInt64)) = rev (mem_of 8 x)"
  unfolding toBigEndian_def by (simp add: mem_of_load_le)

lemma toBigEndian64_idem [simp]: "toBigEndian (toBigEndian (x :: UInt64)) = x"
  using mem_of_toBigEndian64 [of x] load_le_mem_of [of 8 x]
  by (simp add: toBigEndian_def)

lemma load_toBigEndian64: "load_le (mem_of 8 (x :: UInt64)) = x"
  by (rule load_le_mem_of) simp

subsection \<open>Fixed width integers and floats\<close>

definition SIGN_MASK :: UInt64 where
  "SIGN_MASK = push_bit 63 1"

definition EncodeUInt64 :: "UInt64 \<Rightarrow> bytes" where
  "EncodeUInt64 u = mem_of 8 (toBigEndian u)"

definition DecodeUInt64 :: "nat \<Rightarrow> bytes \<Rightarrow> (UInt64 \<times> nat) result" where
  "DecodeUInt64 cursor raw_value =
     rbind (readBigEndian64 cursor raw_value) (\<lambda>res. Inr (res, cursor + 8))"

definition EncodeInt64 :: "Int64 \<Rightarrow> bytes" where
  "EncodeInt64 i = EncodeUInt64 (i XOR SIGN_MASK)"

definition DecodeInt64 :: "nat \<Rightarrow> bytes \<Rightarrow> (Int64 \<times> nat) result" where
  "DecodeInt64 cursor raw_value =
     rbind (DecodeUInt64 cursor raw_value) (\<lambda>(u, c). Inr (u XOR SIGN_MASK, c))"

definition EncodeFloat64 :: "UInt64 \<Rightarrow> bytes" where
  "EncodeFloat64 num =
     EncodeUInt64 (if num AND SIGN_MASK \<noteq> 0 then NOT num else num OR SIGN_MASK)"

definition DecodeFloat64 :: "nat \<Rightarrow> bytes \<Rightarrow> (UInt64 \<times> nat) result" where
  "DecodeFloat64 cursor raw_value =
     rbind (DecodeUInt64 cursor raw_value)
       (\<lambda>(num, c). Inr (if num AND SIGN_MASK \<noteq> 0 then num XOR SIGN_MASK else NOT num, c))"

lemma length_EncodeUInt64 [simp]: "length (EncodeUInt64 u) = 8"
  by (simp add: EncodeUInt64_def)

lemma length_EncodeInt64 [simp]: "length (EncodeInt64 i) = 8"
  by (simp add: EncodeInt64_def)

lemma length_EncodeFloat64 [simp]: "length (EncodeFloat64 f) = 8"
  by (simp add: EncodeFloat64_def)

lemma DecodeUInt64_EncodeUInt64 [codec_simps]:
  "DecodeUInt64 (length pre) (pre @ EncodeUInt64 u @ rest) = Inr (u, length pre + 8)"
  by (simp add: DecodeUInt64_def readBigEndian64_def EncodeUInt64_def load_toBigEndian64)

lemma xor_SIGN_MASK_idem [simp]: "(x XOR SIGN_MASK) XOR SIGN_MASK = x"
  by (simp add: xor.assoc)

lemma DecodeInt64_EncodeInt64 [codec_simps]:
  "DecodeInt64 (length pre) (pre @ EncodeInt64 i @ rest) = Inr (i, length pre + 8)"
  by (simp add: DecodeInt64_def EncodeInt64_def DecodeUInt64_EncodeUInt64)

lemma bit_SIGN_MASK: "bit SIGN_MASK n \<longleftrightarrow> n = 63"
  unfolding SIGN_MASK_def bit_push_bit_iff bit_1_iff by auto

lemma and_SIGN_MASK_iff: "x AND SIGN_MASK \<noteq> 0 \<longleftrightarrow> bit x 63"
proof
  assume "x AND SIGN_MASK \<noteq> 0"
  then obtain n where "bit (x AND SIGN_MASK) n" by (metis bit_0_eq bit_word_eqI bot_apply bot_boolE)
  then show "bit x 63" by (auto simp: bit_and_iff bit_SIGN_MASK)
next
  assume "bit x 63"
  then have "bit (x AND SIGN_MASK) 63" by (simp add: bit_and_iff bit_SIGN_MASK)
  then show "x AND SIGN_MASK \<noteq> 0" by auto
qed

lemma or_SIGN_MASK_xor: "\<not> bit x 63 \<Longrightarrow> (x OR SIGN_MASK) XOR SIGN_MASK = x"
  by (rule bit_word_eqI) (auto simp: bit_or_iff bit_xor_iff bit_SIGN_MASK)

lemma DecodeFloat64_EncodeFloat64 [codec_simps]:
  "DecodeFloat64 (length pre) (pre @ EncodeFloat64 f @ rest) = Inr (f, length pre + 8)"
  by (simp add: DecodeFloat64_def EncodeFloat64_def DecodeUInt64_EncodeUInt64 and_SIGN_MASK_iff
      bit_not_iff bit_or_iff bit_SIGN_MASK or_SIGN_MASK_xor)

subsection \<open>Memory comparable order\<close>

lemma EncodeUInt64_less_iff: "EncodeUInt64 u < EncodeUInt64 v \<longleftrightarrow> u < v"
  by (simp add: EncodeUInt64_def mem_of_toBigEndian64 rev_mem_of_less_iff)

lemma xor_SIGN_MASK_add: "x XOR SIGN_MASK = x + SIGN_MASK"
proof -
  have low: "y + SIGN_MASK = y XOR SIGN_MASK" if "\<not> bit y 63" for y :: UInt64
  proof -
    have "y AND SIGN_MASK = 0" using that and_SIGN_MASK_iff by blast
    then show ?thesis by (rule disjunctive_add_eq_xor)
  qed
  show ?thesis
  proof (cases "bit x 63")
    case True
    then have "\<not> bit (x XOR SIGN_MASK) 63" by (simp add: bit_xor_iff bit_SIGN_MASK)
    from low [OF this] have x: "(x XOR SIGN_MASK) + SIGN_MASK = x" by simp
    have "SIGN_MASK + SIGN_MASK = 0" by (simp add: SIGN_MASK_def)
    then have "x XOR SIGN_MASK = (x XOR SIGN_MASK) + (SIGN_MASK + SIGN_MASK)" by simp
    also have "\<dots> = x + SIGN_MASK" by (simp only: x add.assoc [symmetric])
    finally show ?thesis .
  next
    case False
    then show ?thesis using low by simp
  qed
qed

lemma sint_xor_SIGN_MASK: "uint (x XOR SIGN_MASK) = sint (x :: Int64) + 2 ^ 63"
proof -
  have "sint x + 2 ^ 63 = take_bit 64 (uint x + 2 ^ 63)"
    by (simp add: sint_uint signed_take_bit_eq_take_bit_shift)
  also have "\<dots> = uint (x + SIGN_MASK)"
    by (simp add: uint_word_ariths SIGN_MASK_def take_bit_eq_mod)
  finally show ?thesis by (simp add: xor_SIGN_MASK_add)
qed

lemma EncodeInt64_less_iff: "EncodeInt64 i < EncodeInt64 j \<longleftrightarrow> i <s j"
  by (simp add: EncodeInt64_def EncodeUInt64_less_iff word_less_def sint_xor_SIGN_MASK word_sless_alt)

subsection \<open>Variable length integers\<close>

text \<open>A \<open>char\<close> of the buffer is signed on the hosts the program is built for, so a cast of one
  to \<open>UInt64\<close> extends its sign.\<close>

definition char_to_u64 :: "byte \<Rightarrow> UInt64" where
  "char_to_u64 b = scast b"

function writeVarUInt :: "UInt64 \<Rightarrow> bytes" where
  "writeVarUInt x =
     (if 0x80 \<le> x then (ucast x OR 0x80) # writeVarUInt (drop_bit 7 x) else [ucast x])"
  by pat_completeness auto
termination
proof (relation "measure unat")
  fix x :: UInt64 assume "0x80 \<le> x"
  then have "0x80 \<le> unat x" by (simp add: word_le_nat_alt)
  then show "(drop_bit 7 x, x) \<in> measure unat" by (simp add: unat_drop_bit_div)
qed simp

fun readVarUInt_loop :: "nat \<Rightarrow> UInt64 \<Rightarrow> bytes \<Rightarrow> (UInt64 \<times> bytes) result" where
  "readVarUInt_loop i x istr =
     (if i < 10 then
        (case istr of
           [] \<Rightarrow> Inl ReadAfterEof
         | c # istr' \<Rightarrow>
             (let b = char_to_u64 c; x' = x OR push_bit (7 * i) (b AND 0x7F)
              in if b AND 0x80 = 0 then Inr (x', istr') else readVarUInt_loop (Suc i) x' istr'))
      else throw ''Read unfinished'')"

definition readVarUInt :: "bytes \<Rightarrow> (UInt64 \<times> bytes) result" where
  "readVarUInt istr = readVarUInt_loop 0 0 istr"

definition zigzag :: "Int64 \<Rightarrow> UInt64" where
  "zigzag x = push_bit 1 x XOR signed_drop_bit 63 x"

definition unzigzag :: "UInt64 \<Rightarrow> Int64" where
  "unzigzag x = drop_bit 1 x XOR (- (x AND 1))"

definition writeVarInt :: "Int64 \<Rightarrow> bytes" where
  "writeVarInt x = writeVarUInt (zigzag x)"

definition readVarInt :: "bytes \<Rightarrow> (Int64 \<times> bytes) result" where
  "readVarInt istr =
     rbind (readVarUInt istr) (\<lambda>(x, rest). Inr (unzigzag x, rest))"

definition getLengthOfVarUInt :: "UInt64 \<Rightarrow> nat" where
  "getLengthOfVarUInt x =
     (if x < push_bit 7 1 then 1
      else if x < push_bit 14 1 then 2
      else if x < push_bit 21 1 then 3
      else if x < push_bit 28 1 then 4
      else if x < push_bit 35 1 then 5
      else if x < push_bit 42 1 then 6
      else if x < push_bit 49 1 then 7
      else if x < push_bit 56 1 then 8
      else if x < push_bit 63 1 then 9
      else 10)"

definition getLengthOfVarInt :: "Int64 \<Rightarrow> nat" where
  "getLengthOfVarInt x = getLengthOfVarUInt (zigzag x)"

function DecodeVarUInt_loop ::
    "nat \<Rightarrow> nat \<Rightarrow> UInt64 \<Rightarrow> nat \<Rightarrow> bytes \<Rightarrow> (UInt64 \<times> nat) result" where
  "DecodeVarUInt_loop i s res cursor raw_value =
     (if cursor < length raw_value then
        (let v = char_to_u64 (raw_value ! cursor); cursor' = cursor + 1
         in if v < 0x80 then
              (if i > 9 \<or> i = 9 \<and> v > 1 then throw ''Overflow when DecodeVarUInt''
               else Inr (res OR push_bit s v, cursor'))
            else DecodeVarUInt_loop (i + 1) (s + 7) (res OR push_bit s (v AND 0x7f)) cursor' raw_value)
      else throw ''Wrong format. (DecodeVarUInt)'')"
  by pat_completeness auto
termination
  by (relation "measure (\<lambda>(i, s, res, cursor, raw_value). length raw_value - cursor)") auto

definition DecodeVarUInt :: "nat \<Rightarrow> bytes \<Rightarrow> (UInt64 \<times> nat) result" where
  "DecodeVarUInt cursor raw_value = DecodeVarUInt_loop 0 0 0 cursor raw_value"

definition DecodeVarInt :: "nat \<Rightarrow> bytes \<Rightarrow> (Int64 \<times> nat) result" where
  "DecodeVarInt cursor raw_value =
     rbind (DecodeVarUInt cursor raw_value)
       (\<lambda>(v, c). let vx = drop_bit 1 v in Inr (if v AND 1 \<noteq> 0 then NOT vx else vx, c))"

declare writeVarUInt.simps [simp del] readVarUInt_loop.simps [simp del]
  DecodeVarUInt_loop.simps [simp del]

subsection \<open>Seven bit groups\<close>

lemma and_0x7F: "(x :: UInt64) AND 0x7F = take_bit 7 x"
  by (simp add: take_bit_eq_mask mask_eq_exp_minus_1)

lemma and_0x80_iff: "(x :: UInt64) AND 0x80 = 0 \<longleftrightarrow> \<not> bit x 7"
  using and_exp_eq_0_iff_not_bit [of x 7] by simp

lemma or_0x80: "(x :: byte) OR 0x80 = set_bit 7 x"
  by (simp add: set_bit_eq_or)

lemma bit_char_to_u64: "bit (char_to_u64 b) n \<longleftrightarrow> n < 64 \<and> bit b (min n 7)"
  by (auto simp: char_to_u64_def bit_signed_iff min.commute)

lemma char_to_u64_low: "char_to_u64 b AND 0x7F = take_bit 7 (ucast b)"
  unfolding and_0x7F
  by (rule bit_word_eqI) (auto simp: bit_take_bit_iff bit_char_to_u64 bit_ucast_iff min_def)

lemma char_to_u64_high: "char_to_u64 b AND 0x80 = 0 \<longleftrightarrow> \<not> bit b 7"
  by (simp add: and_0x80_iff bit_char_to_u64)

lemma char_to_u64_small: "\<not> bit b 7 \<Longrightarrow> char_to_u64 b = ucast b"
proof (rule bit_word_eqI)
  fix n assume b: "\<not> bit b 7"
  have "bit b n \<Longrightarrow> n < 8" using bit_imp_le_length [of b n] by simp
  moreover have "n < 8 \<Longrightarrow> n \<noteq> 7 \<Longrightarrow> n < 7" by simp
  ultimately show "bit (char_to_u64 b) n = bit (ucast b :: UInt64) n"
    using b by (auto simp: bit_char_to_u64 bit_ucast_iff min_def)
qed

lemma unat_ucast_byte: "unat (ucast (b :: byte) :: UInt64) = unat b"
proof -
  have "unat b < 2 ^ 64" using unat_byte_less [of b] by simp
  then show ?thesis by (simp add: unsigned_ucast_eq take_bit_nat_eq_self)
qed

lemma not_bit7_less: "\<not> bit (b :: byte) 7 \<longleftrightarrow> unat b < 128"
proof -
  have "bit b 7 \<longleftrightarrow> odd (unat b div 128)"
    using bit_unsigned_iff [of b 7, where 'a = nat] by (simp add: bit_iff_odd)
  moreover have "unat b div 128 < 2" using unat_byte_less [of b] by simp
  ultimately show ?thesis by (auto simp: less_2_cases_iff div_eq_0_iff)
qed

lemma char_to_u64_less: "char_to_u64 b < 0x80 \<longleftrightarrow> \<not> bit b 7"
proof
  assume "\<not> bit b 7"
  then show "char_to_u64 b < 0x80"
    by (simp add: char_to_u64_small word_less_nat_alt unat_ucast_byte not_bit7_less)
next
  assume less: "char_to_u64 b < 0x80"
  show "\<not> bit b 7"
  proof
    assume "bit b 7"
    then have "bit (char_to_u64 b) 63" by (simp add: bit_char_to_u64)
    then have "odd (unat (char_to_u64 b) div 2 ^ 63)"
      using bit_unsigned_iff [of "char_to_u64 b" 63, where 'a = nat] by (simp add: bit_iff_odd)
    moreover have "unat (char_to_u64 b) < 128" using less by (simp add: word_less_nat_alt)
    ultimately show False by (simp add: div_less)
  qed
qed

lemma bit7_or_0x80: "bit (x OR 0x80 :: byte) 7"
  unfolding or_0x80 by (simp add: bit_set_bit_iff)

lemma group_of_byte: "char_to_u64 (ucast x OR 0x80) AND 0x7F = take_bit 7 (x :: UInt64)"
  unfolding char_to_u64_low or_0x80
  by (rule bit_word_eqI) (auto simp: bit_take_bit_iff bit_ucast_iff bit_set_bit_iff)

lemma join_group:
  "push_bit m (take_bit 7 (x :: UInt64)) OR push_bit (m + 7) (drop_bit 7 x) = push_bit m x"
proof (rule bit_word_eqI)
  fix n
  show "bit (push_bit m (take_bit 7 x) OR push_bit (m + 7) (drop_bit 7 x)) n = bit (push_bit m x) n"
  proof (cases "n - m < 7")
    case True
    then show ?thesis by (auto simp: bit_take_bit_iff bit_or_iff bit_push_bit_iff)
  next
    case False
    then have "7 + (n - (m + 7)) = n - m" and "m + 7 \<le> n" by simp_all
    then show ?thesis
      by (auto simp: bit_take_bit_iff bit_or_iff bit_push_bit_iff bit_drop_bit_eq)
  qed
qed

lemma unat_ucast_small: "(x :: UInt64) < 0x80 \<Longrightarrow> unat (ucast x :: byte) = unat x"
  by (simp add: unsigned_ucast_eq take_bit_nat_eq_self word_less_nat_alt)

lemma not_bit7_ucast: "(x :: UInt64) < 0x80 \<Longrightarrow> \<not> bit (ucast x :: byte) 7"
  by (simp add: not_bit7_less unat_ucast_small word_less_nat_alt)

lemma char_to_u64_last: "(x :: UInt64) < 0x80 \<Longrightarrow> char_to_u64 (ucast x) = x"
  by (simp add: char_to_u64_small not_bit7_ucast word_unat_eq_iff unat_ucast_byte unat_ucast_small)

lemma group_step:
  assumes "0x80 \<le> (x :: UInt64)" and "unat x < 2 ^ (64 - 7 * i)"
  shows "Suc i < 10" and "unat (drop_bit 7 x) < 2 ^ (64 - 7 * Suc i)"
proof -
  have "2 ^ 7 \<le> unat x" using assms(1) by (simp add: word_le_nat_alt)
  then have "(2::nat) ^ 7 < 2 ^ (64 - 7 * i)" using assms(2) by (rule le_less_trans)
  then have "7 < 64 - 7 * i" by (subst (asm) power_strict_increasing_iff) auto
  then show "Suc i < 10" and "unat (drop_bit 7 x) < 2 ^ (64 - 7 * Suc i)"
  proof -
    assume gt: "7 < 64 - 7 * i"
    then show "Suc i < 10" by simp
    have "64 - 7 * i = (64 - 7 * Suc i) + 7" using gt by simp
    then have "unat x < 2 ^ (64 - 7 * Suc i) * 2 ^ 7" using assms(2) by (metis power_add)
    then show "unat (drop_bit 7 x) < 2 ^ (64 - 7 * Suc i)"
      unfolding unat_drop_bit_div by (rule less_mult_imp_div_less)
  qed
qed

lemma readVarUInt_loop_write:
  "unat x < 2 ^ (64 - 7 * i) \<Longrightarrow> i < 10 \<Longrightarrow>
   readVarUInt_loop i acc (writeVarUInt x @ rest) = Inr (acc OR push_bit (7 * i) x, rest)"
proof (induction x arbitrary: i acc rule: writeVarUInt.induct)
  case (1 x)
  show ?case
  proof (cases "0x80 \<le> x")
    case True
    note step = group_step [OF True "1.prems"(1)]
    from "1.IH" [OF True step(2) step(1)] show ?thesis
      using True step(1) join_group [of "7 * i" x]
      by (simp add: writeVarUInt.simps [of x] readVarUInt_loop.simps [of i] Let_def
          group_of_byte char_to_u64_high bit7_or_0x80 or.assoc add.commute
          del: push_bit_and)
  next
    case False
    then have x: "x < 0x80" by simp
    have "x AND 0x80 = 0"
      using char_to_u64_high [of "ucast x"] x by (simp add: char_to_u64_last not_bit7_ucast)
    moreover have "take_bit 7 x = x" using x
      by (simp add: word_unat_eq_iff unsigned_take_bit_eq take_bit_nat_eq_self word_less_nat_alt)
    ultimately show ?thesis using False x "1.prems"(2)
      by (simp add: writeVarUInt.simps [of x] readVarUInt_loop.simps [of i] Let_def and_0x7F
          char_to_u64_last)
  qed
qed

lemma readVarUInt_writeVarUInt [codec_simps]: "readVarUInt (writeVarUInt x @ rest) = Inr (x, rest)"
proof -
  have "unat x < 2 ^ (64 - 7 * 0)" using unsigned_less [of x] by simp
  from readVarUInt_loop_write [OF this, of 0] show ?thesis by (simp add: readVarUInt_def)
qed

lemma DecodeVarUInt_loop_write:
  "unat x < 2 ^ (64 - 7 * i) \<Longrightarrow> i < 10 \<Longrightarrow>
   DecodeVarUInt_loop i (7 * i) acc (length pre) (pre @ writeVarUInt x @ rest) =
     Inr (acc OR push_bit (7 * i) x, length pre + length (writeVarUInt x))"
proof (induction x arbitrary: i acc pre rule: writeVarUInt.induct)
  case (1 x)
  show ?case
  proof (cases "0x80 \<le> x")
    case True
    note step = group_step [OF True "1.prems"(1)]
    from "1.IH" [OF True step(2) step(1), of "acc OR push_bit (7 * i) (take_bit 7 x)" "pre @ [ucast x OR 0x80]"]
    show ?thesis
      using True step(1) join_group [of "7 * i" x]
      by (simp add: writeVarUInt.simps [of x] DecodeVarUInt_loop.simps [of i] Let_def
          group_of_byte char_to_u64_less bit7_or_0x80 or.assoc add.commute
          del: push_bit_and)
  next
    case False
    then have x: "x < 0x80" by simp
    have "\<not> (i = 9 \<and> 1 < x)"
    proof
      assume "i = 9 \<and> 1 < x"
      with "1.prems"(1) show False by (simp add: word_less_nat_alt)
    qed
    with False x "1.prems"(2) show ?thesis
      by (simp add: writeVarUInt.simps [of x] DecodeVarUInt_loop.simps [of i] Let_def
          char_to_u64_last nth_append)
  qed
qed

lemma DecodeVarUInt_writeVarUInt [codec_simps]:
  "DecodeVarUInt (length pre) (pre @ writeVarUInt x @ rest) =
     Inr (x, length pre + length (writeVarUInt x))"
proof -
  have "unat x < 2 ^ (64 - 7 * 0)" using unsigned_less [of x] by simp
  from DecodeVarUInt_loop_write [OF this, of 0] show ?thesis by (simp add: DecodeVarUInt_def)
qed


subsection \<open>Zigzag\<close>

lemma bit_zigzag: "bit (zigzag x) n \<longleftrightarrow> n < 64 \<and> ((1 \<le> n \<and> bit x (n - 1)) \<noteq> bit x 63)"
  unfolding zigzag_def bit_xor_iff bit_push_bit_iff bit_signed_drop_bit_iff
  by (cases "n = 0") (auto dest: bit_imp_le_length)

lemma zigzag_odd: "zigzag x AND 1 = of_bool (bit x 63)"
  using bit_zigzag [of x 0] by (simp add: and_one_eq mod_2_eq_odd bit_0)

lemma drop_bit_zigzag: "drop_bit 1 (zigzag x) = (if bit x 63 then NOT x else x)"
proof (rule bit_word_eqI)
  fix n assume "n < LENGTH(64)"
  then have "n < 63 \<or> n = 63" by auto
  then show "bit (drop_bit 1 (zigzag x)) n = bit (if bit x 63 then NOT x else x) n"
    by (auto simp: bit_drop_bit_eq bit_zigzag bit_not_iff)
qed

lemma unzigzag_zigzag: "unzigzag (zigzag x) = x"
  unfolding unzigzag_def drop_bit_zigzag zigzag_odd by simp

lemma readVarInt_writeVarInt [codec_simps]: "readVarInt (writeVarInt x @ rest) = Inr (x, rest)"
  by (simp add: readVarInt_def writeVarInt_def readVarUInt_writeVarUInt unzigzag_zigzag)

lemma DecodeVarInt_writeVarInt [codec_simps]:
  "DecodeVarInt (length pre) (pre @ writeVarInt x @ rest) =
     Inr (x, length pre + length (writeVarInt x))"
  unfolding DecodeVarInt_def writeVarInt_def DecodeVarUInt_writeVarUInt rbind_Inr prod.case Let_def
    drop_bit_zigzag zigzag_odd
  by simp

subsection \<open>Length of a variable length integer\<close>

lemma length_writeVarUInt_le: "unat x < 2 ^ (7 * Suc k) \<Longrightarrow> length (writeVarUInt x) \<le> Suc k"
proof (induction x arbitrary: k rule: writeVarUInt.induct)
  case (1 x)
  show ?case
  proof (cases "0x80 \<le> x")
    case True
    then have "2 ^ 7 \<le> unat x" by (simp add: word_le_nat_alt)
    with "1.prems" obtain k' where k: "k = Suc k'" by (cases k) auto
    have "unat x < 2 ^ (7 * Suc k') * 2 ^ 7"
      using "1.prems" unfolding k by (simp add: power_add [symmetric] del: power_numeral)
    then have "unat (drop_bit 7 x) < 2 ^ (7 * Suc k')"
      unfolding unat_drop_bit_div by (rule less_mult_imp_div_less)
    from "1.IH" [OF True this] True k show ?thesis by (simp add: writeVarUInt.simps [of x])
  next
    case False
    then show ?thesis by (simp add: writeVarUInt.simps [of x])
  qed
qed

lemma length_writeVarUInt_gt: "2 ^ (7 * k) \<le> unat x \<Longrightarrow> k < length (writeVarUInt x)"
proof (induction x arbitrary: k rule: writeVarUInt.induct)
  case (1 x)
  show ?case
  proof (cases k)
    case 0
    then show ?thesis by (subst writeVarUInt.simps) simp
  next
    case (Suc k')
    then have le: "2 ^ (7 * k') * 2 ^ 7 \<le> unat x"
      using "1.prems" by (simp add: power_add [symmetric] add.commute del: power_numeral)
    then have "2 ^ 7 \<le> unat x" by (metis le_trans mult_le_mono1 nat_mult_1 one_le_numeral one_le_power)
    then have ge: "0x80 \<le> x" by (simp add: word_le_nat_alt)
    have "2 ^ (7 * k') \<le> unat (drop_bit 7 x)"
      unfolding unat_drop_bit_div using div_le_mono [OF le, of "2 ^ 7"] by simp
    from "1.IH" [OF ge this] ge Suc show ?thesis by (simp add: writeVarUInt.simps [of x])
  qed
qed

lemma less_push_bit_one: "n < 64 \<Longrightarrow> (x :: UInt64) < push_bit n 1 \<longleftrightarrow> unat x < 2 ^ n"
proof -
  assume "n < 64"
  then have "(2::nat) ^ n < 2 ^ LENGTH(64)" by (intro power_strict_increasing) auto
  then have "unat (of_nat (2 ^ n) :: UInt64) = 2 ^ n" by (simp only: unat_of_nat mod_less)
  then show ?thesis by (simp add: word_less_nat_alt push_bit_eq_mult)
qed

lemma length_writeVarUInt_eq:
  assumes "k = 0 \<or> 2 ^ (7 * k) \<le> unat x" and "unat x < 2 ^ (7 * Suc k)"
  shows "length (writeVarUInt x) = Suc k"
  using length_writeVarUInt_le [OF assms(2)] length_writeVarUInt_gt [of k x] assms(1)
    length_writeVarUInt_gt [of 0 x]
  by (cases "k = 0") (auto simp: writeVarUInt.simps [of x])

lemma length_writeVarUInt: "length (writeVarUInt x) = getLengthOfVarUInt x"
proof -
  have top: "unat x < 2 ^ (7 * Suc 9)"
    by (rule less_le_trans [OF unsigned_less]) simp
  have bounds: "x < push_bit 7 1 \<longleftrightarrow> unat x < 2 ^ 7" "x < push_bit 14 1 \<longleftrightarrow> unat x < 2 ^ 14"
    "x < push_bit 21 1 \<longleftrightarrow> unat x < 2 ^ 21" "x < push_bit 28 1 \<longleftrightarrow> unat x < 2 ^ 28"
    "x < push_bit 35 1 \<longleftrightarrow> unat x < 2 ^ 35" "x < push_bit 42 1 \<longleftrightarrow> unat x < 2 ^ 42"
    "x < push_bit 49 1 \<longleftrightarrow> unat x < 2 ^ 49" "x < push_bit 56 1 \<longleftrightarrow> unat x < 2 ^ 56"
    "x < push_bit 63 1 \<longleftrightarrow> unat x < 2 ^ 63"
    by (rule less_push_bit_one, simp)+
  show ?thesis
    unfolding getLengthOfVarUInt_def bounds
    using top length_writeVarUInt_eq [of 0 x] length_writeVarUInt_eq [of 1 x]
      length_writeVarUInt_eq [of 2 x] length_writeVarUInt_eq [of 3 x] length_writeVarUInt_eq [of 4 x]
      length_writeVarUInt_eq [of 5 x] length_writeVarUInt_eq [of 6 x] length_writeVarUInt_eq [of 7 x]
      length_writeVarUInt_eq [of 8 x] length_writeVarUInt_eq [of 9 x]
    by simp
qed

lemma getLengthOfVarUInt_range: "1 \<le> getLengthOfVarUInt x \<and> getLengthOfVarUInt x \<le> 10"
  unfolding getLengthOfVarUInt_def by simp

lemma length_writeVarInt: "length (writeVarInt x) = getLengthOfVarInt x"
  by (simp add: getLengthOfVarInt_def writeVarInt_def length_writeVarUInt)

subsection \<open>Properties\<close>

text \<open>
  The codecs of integers. The unsigned byte order of the fixed width encodings of two signed numbers is the
  signed order of the numbers. Every decoder, at the cursor where an encoding starts or on a stream, gives
  the number back and stops right after it: for the fixed width, for unsigned numbers of variable length and for
  their zigzag form, which one decoder undoes with an exclusive or and the other with a branch. The encoding of
  variable length has the predicted length, between one and ten bytes.
\<close>

lemma integer_codecs:
  "(EncodeInt64 i < EncodeInt64 j \<longleftrightarrow> i <s j) \<and>
   DecodeInt64 (length pre) (pre @ EncodeInt64 i @ rest) = Inr (i, length pre + 8) \<and>
   readVarUInt (writeVarUInt x @ rest) = Inr (x, rest) \<and>
   DecodeVarUInt (length pre) (pre @ writeVarUInt x @ rest) = Inr (x, length pre + getLengthOfVarUInt x) \<and>
   length (writeVarUInt x) = getLengthOfVarUInt x \<and> 1 \<le> getLengthOfVarUInt x \<and> getLengthOfVarUInt x \<le> 10 \<and>
   readVarInt (writeVarInt i @ rest) = Inr (i, rest) \<and>
   DecodeVarInt (length pre) (pre @ writeVarInt i @ rest) = Inr (i, length pre + getLengthOfVarInt i)"
  using getLengthOfVarUInt_range [of x]
  by (simp add: EncodeInt64_less_iff DecodeInt64_EncodeInt64 readVarUInt_writeVarUInt DecodeVarUInt_writeVarUInt length_writeVarUInt
      readVarInt_writeVarInt DecodeVarInt_writeVarInt length_writeVarInt)

end
