(* ===== verification/BytesCodec.thy ===== *)
theory BytesCodec
  imports IntCodec
begin

unbundle bit_operations_syntax

section \<open>Byte string codecs\<close>

text \<open>
  \<open>EncodeBytes\<close>, \<open>DecodeBytes\<close> and \<open>SkipBytes\<close> of \<open>Storages/Transaction/DatumCodec.cpp\<close>: the memory
  comparable encoding cuts a string into groups of eight bytes, pads the last group with zeros and
  puts a marker after each group that tells how much of it is padding. \<open>EncodeCompactBytes\<close> and
  \<open>DecodeCompactBytes\<close> put a variable length size in front of the string.
\<close>

definition ENC_GROUP_SIZE :: nat where
  "ENC_GROUP_SIZE = 8"

definition ENC_MARKER :: UInt8 where
  "ENC_MARKER = 0xff"

subsection \<open>Encoding and decoding loops\<close>

function EncodeBytes_loop :: "bytes \<Rightarrow> nat \<Rightarrow> bytes" where
  "EncodeBytes_loop ori_str index =
     (if index \<le> length ori_str then
        (let remain = length ori_str - index;
             pad = (if ENC_GROUP_SIZE \<le> remain then 0 else ENC_GROUP_SIZE - remain);
             group = (if ENC_GROUP_SIZE \<le> remain then take ENC_GROUP_SIZE (drop index ori_str)
                      else drop index ori_str @ replicate pad 0)
         in group @ [ENC_MARKER - of_nat pad] @ EncodeBytes_loop ori_str (index + ENC_GROUP_SIZE))
      else [])"
  by pat_completeness auto
termination
  by (relation "measure (\<lambda>(s, i). Suc (length s) - i)") (auto simp: ENC_GROUP_SIZE_def)

definition EncodeBytes :: "bytes \<Rightarrow> bytes" where
  "EncodeBytes ori_str = EncodeBytes_loop ori_str 0"

function DecodeBytes_loop :: "nat \<Rightarrow> bytes \<Rightarrow> bytes \<Rightarrow> (bytes \<times> nat) result" where
  "DecodeBytes_loop cursor raw_value ss =
     (let next_cursor = cursor + 9
      in if next_cursor > length raw_value
         then throw ''Wrong format, cursor over buffer size. (DecodeBytes)''
         else
           (let marker = raw_value ! (cursor + 8); pad_size = ENC_MARKER - marker
            in if pad_size > 8 then throw ''Wrong format, too many padding bytes. (DecodeBytes)''
               else
                 (let ss' = ss @ take (8 - unat pad_size) (drop cursor raw_value)
                  in if pad_size \<noteq> 0 then Inr (ss', next_cursor)
                     else DecodeBytes_loop next_cursor raw_value ss')))"
  by pat_completeness auto
termination
  by (relation "measure (\<lambda>(c, r, ss). length r - c)") auto

definition DecodeBytes :: "nat \<Rightarrow> bytes \<Rightarrow> (bytes \<times> nat) result" where
  "DecodeBytes cursor raw_value = DecodeBytes_loop cursor raw_value []"

text \<open>\<open>SkipBytes\<close> runs the same loop on a stream that drops what is written to it.\<close>

definition SkipBytes :: "nat \<Rightarrow> bytes \<Rightarrow> nat result" where
  "SkipBytes cursor raw_value =
     rbind (DecodeBytes_loop cursor raw_value []) (\<lambda>(ss, c). Inr c)"

definition EncodeCompactBytes :: "bytes \<Rightarrow> bytes" where
  "EncodeCompactBytes str = writeVarInt (of_nat (length str)) @ str"

definition DecodeCompactBytes :: "nat \<Rightarrow> bytes \<Rightarrow> (bytes \<times> nat) result" where
  "DecodeCompactBytes cursor raw_value =
     rbind (DecodeVarInt cursor raw_value)
       (\<lambda>(size, c). if c + unat size \<le> length raw_value
          then Inr (take (unat size) (drop c raw_value), c + unat size)
          else Inl OutOfBounds)"

definition SkipCompactBytes :: "nat \<Rightarrow> bytes \<Rightarrow> nat result" where
  "SkipCompactBytes cursor raw_value =
     rbind (DecodeVarInt cursor raw_value) (\<lambda>(size, c). Inr (unat (of_nat c + size)))"

declare EncodeBytes_loop.simps [simp del] DecodeBytes_loop.simps [simp del]

subsection \<open>The encoding as a recursion on groups\<close>

definition pad_group :: "bytes \<Rightarrow> bytes" where
  "pad_group s = s @ replicate (8 - length s) 0"

definition group_marker :: "nat \<Rightarrow> byte" where
  "group_marker n = ENC_MARKER - of_nat (8 - n)"

function enc_groups :: "bytes \<Rightarrow> bytes" where
  "enc_groups s = pad_group (take 8 s) @ group_marker (length (take 8 s)) #
     (if 8 \<le> length s then enc_groups (drop 8 s) else [])"
  by pat_completeness auto
termination
  by (relation "measure length") auto

declare enc_groups.simps [simp del]

lemma length_pad_group [simp]: "length s \<le> 8 \<Longrightarrow> length (pad_group s) = 8"
  by (simp add: pad_group_def)

lemma unat_group_marker: "n \<le> 8 \<Longrightarrow> unat (group_marker n) = 247 + n"
proof -
  assume "n \<le> 8"
  then have "group_marker n = of_nat (247 + n)"
    by (simp add: group_marker_def ENC_MARKER_def)
  moreover have "unat (of_nat (247 + n) :: byte) = 247 + n"
    using \<open>n \<le> 8\<close> by (simp only: unat_of_nat) simp
  ultimately show ?thesis by simp
qed

lemma group_marker_less_iff: "m \<le> 8 \<Longrightarrow> n \<le> 8 \<Longrightarrow> group_marker m < group_marker n \<longleftrightarrow> m < n"
  by (simp add: word_less_nat_alt unat_group_marker)

lemma group_marker_eq_iff: "m \<le> 8 \<Longrightarrow> n \<le> 8 \<Longrightarrow> group_marker m = group_marker n \<longleftrightarrow> m = n"
  by (simp add: word_unat_eq_iff unat_group_marker)

lemma EncodeBytes_loop_groups:
  "index \<le> length s \<Longrightarrow> EncodeBytes_loop s index = enc_groups (drop index s)"
proof (induction s index rule: EncodeBytes_loop.induct)
  case (1 s index)
  have loop: "EncodeBytes_loop s index =
      pad_group (take 8 (drop index s)) @ [group_marker (length (take 8 (drop index s)))] @
      EncodeBytes_loop s (index + 8)"
    using "1.prems" by (subst EncodeBytes_loop.simps)
      (auto simp: ENC_GROUP_SIZE_def pad_group_def group_marker_def Let_def)
  show ?case
  proof (cases "8 \<le> length s - index")
    case True
    then have "EncodeBytes_loop s (index + 8) = enc_groups (drop (index + 8) s)"
      using "1.IH" "1.prems" by (auto simp: ENC_GROUP_SIZE_def)
    with True loop show ?thesis
      by (subst enc_groups.simps) (simp add: add.commute)
  next
    case False
    then have "\<not> index + 8 \<le> length s" using "1.prems" by auto
    then have "EncodeBytes_loop s (index + 8) = []"
      by (subst EncodeBytes_loop.simps) (simp only: if_False)
    with False loop show ?thesis
      by (subst enc_groups.simps) simp
  qed
qed

lemma EncodeBytes_groups: "EncodeBytes s = enc_groups s"
  by (simp add: EncodeBytes_def EncodeBytes_loop_groups)

subsection \<open>Order\<close>

lemma less_take_drop:
  "(a :: 'a::linorder list) < b \<longleftrightarrow> take n a < take n b \<or> take n a = take n b \<and> drop n a < drop n b"
proof (cases "a = [] \<or> b = []")
  case True
  then show ?thesis by (cases n; cases a; cases b) simp_all
next
  case False
  then show ?thesis
  proof (induction n arbitrary: a b)
    case 0
    then show ?case by simp
  next
    case (Suc n)
    then obtain x a' y b' where ab: "a = x # a'" "b = y # b'" by (meson neq_Nil_conv)
    have "a' < b' \<longleftrightarrow> take n a' < take n b' \<or> take n a' = take n b' \<and> drop n a' < drop n b'"
    proof (cases "a' = [] \<or> b' = []")
      case True
      then show ?thesis by (cases n; cases a'; cases b') simp_all
    next
      case False
      then show ?thesis by (rule Suc.IH)
    qed
    then show ?case unfolding ab by (simp only: take_Suc_Cons drop_Suc_Cons Cons_less_Cons list.inject) blast
  qed
qed

lemma zeros_min: "length c = n \<Longrightarrow> replicate n (0::byte) \<le> c"
proof (induction n arbitrary: c)
  case 0
  then show ?case by simp
next
  case (Suc n)
  then obtain y c' where "c = y # c'" "length c' = n" by (cases c) auto
  then show ?case using Suc.IH [of c'] word_neq_0_conv [of y] by auto
qed

lemma pad_less_aux:
  assumes "length a \<le> n" and "length b \<le> n"
  shows "(a @ replicate (n - length a) (0::byte) < b @ replicate (n - length b) 0 \<or>
    a @ replicate (n - length a) 0 = b @ replicate (n - length b) 0 \<and> length a < length b) \<longleftrightarrow> a < b"
  using assms
proof (induction n arbitrary: a b)
  case 0
  then show ?case by simp
next
  case (Suc n)
  show ?case
  proof (cases "a = [] \<or> b = []")
    case True
    then show ?thesis
    proof
      assume a: "a = []"
      have "replicate (Suc n) 0 \<le> b @ replicate (Suc n - length b) 0"
        by (rule zeros_min) (use Suc.prems in simp)
      with a show ?thesis by (cases b) (auto simp: order_le_less)
    next
      assume b: "b = []"
      have "replicate (Suc n) 0 \<le> a @ replicate (Suc n - length a) 0"
        by (rule zeros_min) (use Suc.prems in simp)
      with b show ?thesis by (auto simp: not_less)
    qed
  next
    case False
    then obtain x a' y b' where ab: "a = x # a'" "b = y # b'" by (meson neq_Nil_conv)
    with Suc.prems have "length a' \<le> n" "length b' \<le> n" by simp_all
    from Suc.IH [OF this] show ?thesis unfolding ab by auto
  qed
qed

lemma pad_group_less_iff:
  "length a \<le> 8 \<Longrightarrow> length b \<le> 8 \<Longrightarrow>
   pad_group a @ [group_marker (length a)] < pad_group b @ [group_marker (length b)] \<longleftrightarrow> a < b"
  using pad_less_aux [of a 8 b]
  by (simp add: append_less_append_same_length group_marker_less_iff)
    (simp add: pad_group_def)

lemma pad_group_eq_iff:
  "length a \<le> 8 \<Longrightarrow> length b \<le> 8 \<Longrightarrow>
   pad_group a @ [group_marker (length a)] = pad_group b @ [group_marker (length b)] \<longleftrightarrow> a = b"
  by (auto simp: group_marker_eq_iff pad_group_def)

lemma enc_groups_append:
  "enc_groups s @ r = (pad_group (take 8 s) @ [group_marker (length (take 8 s))]) @
     (if 8 \<le> length s then enc_groups (drop 8 s) @ r else r)"
  by (subst enc_groups.simps) simp

lemma enc_groups_less_iff:
  "enc_groups a @ r < enc_groups b @ t \<longleftrightarrow> a < b \<or> a = b \<and> r < t"
proof (induction a arbitrary: b rule: enc_groups.induct)
  case (1 a)
  let ?a = "take 8 a" and ?b = "take 8 b"
  let ?ra = "if 8 \<le> length a then enc_groups (drop 8 a) @ r else r"
  let ?rb = "if 8 \<le> length b then enc_groups (drop 8 b) @ t else t"
  have len: "length ?a \<le> 8" "length ?b \<le> 8" by simp_all
  have "enc_groups a @ r < enc_groups b @ t \<longleftrightarrow> ?a < ?b \<or> ?a = ?b \<and> ?ra < ?rb"
    unfolding enc_groups_append [of a r] enc_groups_append [of b t]
    by (subst append_less_append_same_length)
      (simp_all only: length_append length_pad_group len list.size pad_group_less_iff pad_group_eq_iff)
  also have "\<dots> \<longleftrightarrow> ?a < ?b \<or> ?a = ?b \<and> (drop 8 a < drop 8 b \<or> drop 8 a = drop 8 b \<and> r < t)"
  proof (cases "?a = ?b")
    case True
    then have "length ?a = length ?b" by simp
    then have l: "8 \<le> length a \<longleftrightarrow> 8 \<le> length b" by auto
    show ?thesis
    proof (cases "8 \<le> length a")
      case True
      then show ?thesis using "1.IH" [of "drop 8 b"] l by simp
    next
      case False
      then show ?thesis using l by simp
    qed
  qed simp
  also have "\<dots> \<longleftrightarrow> a < b \<or> a = b \<and> r < t"
    using less_take_drop [of a b 8] by (metis append_take_drop_id)
  finally show ?case .
qed

subsection \<open>Round trip\<close>

lemma DecodeBytes_step:
  assumes "cursor + 9 \<le> length raw" and "raw ! (cursor + 8) = group_marker n" and "n \<le> 8"
  shows "DecodeBytes_loop cursor raw ss =
    (if n < 8 then Inr (ss @ take n (drop cursor raw), cursor + 9)
     else DecodeBytes_loop (cursor + 9) raw (ss @ take n (drop cursor raw)))"
proof -
  have pad: "ENC_MARKER - raw ! (cursor + 8) = of_nat (8 - n)"
    using assms(2) by (simp add: group_marker_def)
  have u: "unat (of_nat (8 - n) :: byte) = 8 - n" by (simp only: unat_of_nat) simp
  have nz: "(of_nat (8 - n) :: byte) \<noteq> 0 \<longleftrightarrow> n < 8"
    using u assms(3) by (metis unat_eq_zero diff_is_0_eq not_le)
  have le: "\<not> (of_nat (8 - n) :: byte) > 8"
    using u by (simp add: word_less_nat_alt)
  have size: "\<not> cursor + 9 > length raw" using assms(1) by simp
  have n: "8 - (8 - n) = n" using assms(3) by simp
  show ?thesis
    by (subst DecodeBytes_loop.simps) (simp only: Let_def pad size le if_False nz u n)
qed

lemma DecodeBytes_loop_groups:
  "DecodeBytes_loop (length pre) (pre @ enc_groups s @ rest) ss =
     Inr (ss @ s, length pre + length (enc_groups s))"
proof (induction s arbitrary: pre ss rule: enc_groups.induct)
  case (1 s)
  let ?g = "pad_group (take 8 s)" and ?m = "group_marker (length (take 8 s))"
  let ?pre = "pre @ ?g @ [?m]"
  define raw where "raw = pre @ enc_groups s @ rest"
  have raw: "raw = ?pre @ (if 8 \<le> length s then enc_groups (drop 8 s) @ rest else rest)"
    unfolding raw_def enc_groups_append [of s rest] by simp
  have g: "length ?g = 8" by simp
  then have pre: "length ?pre = length pre + 9" by simp
  have marker: "raw ! (length pre + 8) = ?m"
    unfolding raw using g by (simp add: nth_append)
  have size: "length pre + 9 \<le> length raw" unfolding raw using pre by simp
  have chunk: "take (length (take 8 s)) (drop (length pre) raw) = take 8 s"
    unfolding raw by (simp add: pad_group_def min_def)
  have len: "length (enc_groups s) = 9 + (if 8 \<le> length s then length (enc_groups (drop 8 s)) else 0)"
    using g by (subst enc_groups.simps) simp
  have step: "DecodeBytes_loop (length pre) raw ss =
    (if length (take 8 s) < 8 then Inr (ss @ take 8 s, length pre + 9)
     else DecodeBytes_loop (length pre + 9) raw (ss @ take 8 s))"
    using DecodeBytes_step [OF size marker] by (simp only: chunk) simp
  show ?case
  proof (cases "8 \<le> length s")
    case True
    then have raw': "raw = ?pre @ enc_groups (drop 8 s) @ rest" unfolding raw by simp
    have "DecodeBytes_loop (length pre + 9) raw (ss @ take 8 s) =
        Inr ((ss @ take 8 s) @ drop 8 s, length ?pre + length (enc_groups (drop 8 s)))"
      unfolding raw' pre [symmetric] by (rule "1.IH" [OF True])
    with True step pre len show ?thesis unfolding raw_def by simp
  next
    case False
    with step len show ?thesis unfolding raw_def by simp
  qed
qed

lemma DecodeBytes_at [codec_simps]:
  "DecodeBytes (length pre) (pre @ EncodeBytes s @ rest) =
     Inr (s, length pre + length (EncodeBytes s))"
  by (simp add: DecodeBytes_def EncodeBytes_groups DecodeBytes_loop_groups)

lemma SkipBytes_eq: "SkipBytes c raw = rbind (DecodeBytes c raw) (\<lambda>p. Inr (snd p))"
  by (simp add: SkipBytes_def DecodeBytes_def case_prod_unfold)

lemma EncodeBytes_less_iff:
  "EncodeBytes a @ r < EncodeBytes b @ t \<longleftrightarrow> a < b \<or> a = b \<and> r < t"
  by (simp add: EncodeBytes_groups enc_groups_less_iff)

lemma length_enc_groups: "length (enc_groups s) = 9 * (length s div 8 + 1)"
proof (induction s rule: enc_groups.induct)
  case (1 s)
  then show ?case by (subst enc_groups.simps) (auto simp: le_div_geq)
qed

lemma DecodeCompactBytes_at [codec_simps]:
  "length s < 2 ^ 63 \<Longrightarrow> DecodeCompactBytes (length pre) (pre @ EncodeCompactBytes s @ rest) =
     Inr (s, length pre + length (EncodeCompactBytes s))"
  by (simp add: DecodeCompactBytes_def EncodeCompactBytes_def codec_simps unat_of_nat_64)

lemma SkipCompactBytes_at [codec_simps]:
  assumes "length pre + length (EncodeCompactBytes s) < 2 ^ 63"
  shows "SkipCompactBytes (length pre) (pre @ EncodeCompactBytes s @ rest) =
     Inr (length pre + length (EncodeCompactBytes s))"
proof -
  have "(of_nat (length pre + length (writeVarInt (of_nat (length s)))) :: 64 word) + of_nat (length s)
      = of_nat (length pre + length (EncodeCompactBytes s))"
    by (simp add: EncodeCompactBytes_def)
  moreover have "unat (of_nat (length pre + length (EncodeCompactBytes s)) :: 64 word) =
      length pre + length (EncodeCompactBytes s)"
    by (rule unat_of_nat_64) (use assms in simp)
  moreover have "SkipCompactBytes (length pre) (pre @ EncodeCompactBytes s @ rest) =
    Inr (unat ((of_nat (length pre + length (writeVarInt (of_nat (length s)))) :: 64 word) + of_nat (length s)))"
    by (simp only: SkipCompactBytes_def EncodeCompactBytes_def append_assoc DecodeVarInt_writeVarInt
        rbind_Inr prod.case)
  ultimately show ?thesis by (simp only:)
qed

subsection \<open>Properties\<close>

text \<open>
  C40: \<open>DecodeBytes\<close> reads back what \<open>EncodeBytes\<close> wrote, at any cursor and with any bytes
  after it, and moves the cursor past it; \<open>SkipBytes\<close> moves the cursor to the same place. The
  encoding has nine bytes for every started group of eight, and one more group when the length is a
  multiple of eight. It is memory comparable and stays so when anything is appended to it: the encoded
  keys with suffixes compare as the pairs of raw key and suffix. In particular no encoding is a
  proper prefix of another one.
\<close>

theorem bytes_codec:
  "DecodeBytes (length pre) (pre @ EncodeBytes s @ rest) = Inr (s, length pre + length (EncodeBytes s)) \<and>
   SkipBytes (length pre) (pre @ EncodeBytes s @ rest) = Inr (length pre + length (EncodeBytes s)) \<and>
   length (EncodeBytes s) = 9 * (length s div 8 + 1) \<and>
   (EncodeBytes a @ r < EncodeBytes b @ t \<longleftrightarrow> a < b \<or> a = b \<and> r < t)"
  unfolding EncodeBytes_less_iff
  by (simp add: DecodeBytes_at SkipBytes_eq EncodeBytes_groups [of s] length_enc_groups
      DecodeBytes_at [unfolded EncodeBytes_groups])

end
