(* ===== verification/DecimalCodec.thy ===== *)
theory DecimalCodec
  imports BytesCodec "HOL-Library.Signed_Division"
begin

unbundle bit_operations_syntax

section \<open>The decimal codec\<close>

text \<open>
  The decimal part of \<open>Storages/Transaction/DatumCodec.cpp\<close>: a decimal value is written as its
  precision, its scale and its digits in words of nine digits, most significant word first. The
  first and the last word of the integer and of the fraction part take only as many bytes as their
  digits need. A negative value has all bits flipped, and the first bit is flipped again so that the
  encodings compare like the values. The model keeps the native integer of the decimal type at its
  width where the sources compute with it (\<open>SignedOverflow\<close>); \<open>Int256\<close> of the encoder is an
  integer, since no value reaches its bounds.
\<close>

subsection \<open>Types and layout\<close>

datatype decimal_type = Decimal32 | Decimal64 | Decimal128 | Decimal256

fun native_bits :: "decimal_type \<Rightarrow> nat" where
  "native_bits Decimal32 = 32"
| "native_bits Decimal64 = 64"
| "native_bits Decimal128 = 128"
| "native_bits Decimal256 = 256"

fun maxDecimalPrecision :: "decimal_type \<Rightarrow> nat" where
  "maxDecimalPrecision Decimal32 = 9"
| "maxDecimalPrecision Decimal64 = 18"
| "maxDecimalPrecision Decimal128 = 38"
| "maxDecimalPrecision Decimal256 = 65"

definition decimal_max_prec :: UInt64 where
  "decimal_max_prec = 65"

definition decimal_max_scale :: UInt64 where
  "decimal_max_scale = 30"

definition DataTypeDecimal :: "decimal_type \<Rightarrow> UInt64 \<Rightarrow> UInt64 \<Rightarrow> decimal_type result" where
  "DataTypeDecimal ty precision scale =
     (if precision > decimal_max_prec \<or> scale > precision \<or> scale > decimal_max_scale
      then Inl ArgumentOutOfBound else Inr ty)"

definition createDecimal :: "UInt64 \<Rightarrow> UInt64 \<Rightarrow> decimal_type result" where
  "createDecimal prec scale =
     (if prec < 1 \<or> unat prec > maxDecimalPrecision Decimal256 then Inl ArgumentOutOfBound
      else if scale > prec then Inl ArgumentOutOfBound
      else if unat prec \<le> maxDecimalPrecision Decimal32 then DataTypeDecimal Decimal32 prec scale
      else if unat prec \<le> maxDecimalPrecision Decimal64 then DataTypeDecimal Decimal64 prec scale
      else if unat prec \<le> maxDecimalPrecision Decimal128 then DataTypeDecimal Decimal128 prec scale
      else DataTypeDecimal Decimal256 prec scale)"

definition digitsPerWord :: int where
  "digitsPerWord = 9"

definition wordSize :: nat where
  "wordSize = 4"

definition dig2Bytes :: "nat list" where
  "dig2Bytes = [0, 1, 1, 2, 2, 3, 3, 4, 4, 4]"

definition powers10 :: "int list" where
  "powers10 = [1, 10, 100, 1000, 10000, 100000, 1000000, 10000000, 100000000, 1000000000]"

definition dig2Bytes_at :: "int \<Rightarrow> nat result" where
  "dig2Bytes_at i = (if 0 \<le> i \<and> i < 10 then Inr (dig2Bytes ! nat i) else Inl OutOfBounds)"

text \<open>The four numbers that the codec functions all compute first: full words and remaining digits
  of the integer part, full words and remaining digits of the fraction.\<close>

definition wordsInt :: "UInt32 \<Rightarrow> UInt32 \<Rightarrow> int" where
  "wordsInt prec frac = sint (prec - frac) sdiv digitsPerWord"

definition leadingDigits :: "UInt32 \<Rightarrow> UInt32 \<Rightarrow> int" where
  "leadingDigits prec frac = sint (prec - frac) - wordsInt prec frac * digitsPerWord"

definition wordsFrac :: "UInt32 \<Rightarrow> int" where
  "wordsFrac frac = sint (frac div word_of_int digitsPerWord)"

definition trailingDigits :: "UInt32 \<Rightarrow> int" where
  "trailingDigits frac = sint (frac - word_of_int (wordsFrac frac * digitsPerWord))"

definition getWords :: "UInt32 \<Rightarrow> UInt32 \<Rightarrow> int" where
  "getWords prec scale =
     (let scale_word = ucast (scale div 9 + of_bool (scale mod 9 > 0)) :: 8 word;
          int_word = ucast ((prec - scale) div 9 + of_bool ((prec - scale) mod 9 > 0)) :: 8 word
      in sint (scale_word + int_word))"

definition getBytes :: "UInt32 \<Rightarrow> UInt32 \<Rightarrow> int result" where
  "getBytes prec scale =
     rbind (dig2Bytes_at (leadingDigits prec scale)) (\<lambda>bInt.
     rbind (dig2Bytes_at (trailingDigits scale)) (\<lambda>bFrac.
       Inr (wordsInt prec scale * int wordSize + int bInt + wordsFrac scale * int wordSize + int bFrac)))"

subsection \<open>Words of digits\<close>

definition readWord :: "nat \<Rightarrow> bytes \<Rightarrow> nat \<Rightarrow> UInt32 result" where
  "readWord binIdx dec sz =
     (if sz = 1 then rbind (str_at dec binIdx) (\<lambda>b0. Inr (scast b0))
      else if sz = 2 then
        rbind (str_at dec binIdx) (\<lambda>b0. rbind (str_at dec (binIdx + 1)) (\<lambda>b1.
          Inr ((if b0 AND 128 \<noteq> 0 then push_bit 24 255 OR push_bit 16 255 else 0)
               OR push_bit 8 (ucast b0) OR ucast b1)))
      else if sz = 3 then
        rbind (str_at dec binIdx) (\<lambda>b0. rbind (str_at dec (binIdx + 1)) (\<lambda>b1.
        rbind (str_at dec (binIdx + 2)) (\<lambda>b2.
          Inr ((if b0 AND 128 \<noteq> 0 then push_bit 24 255 else 0)
               OR push_bit 16 (ucast b0) OR push_bit 8 (ucast b1) OR ucast b2))))
      else if sz = 4 then
        rbind (str_at dec binIdx) (\<lambda>b0. rbind (str_at dec (binIdx + 1)) (\<lambda>b1.
        rbind (str_at dec (binIdx + 2)) (\<lambda>b2. rbind (str_at dec (binIdx + 3)) (\<lambda>b3.
          Inr (push_bit 24 (ucast b0) OR push_bit 16 (ucast b1) OR push_bit 8 (ucast b2) OR ucast b3)))))
      else Inr 0)"

definition writeWord :: "Int32 \<Rightarrow> nat \<Rightarrow> bytes" where
  "writeWord w sz =
     (if sz = 1 then [ucast w]
      else if sz = 2 then [ucast (signed_drop_bit 8 w), ucast w]
      else if sz = 3 then [ucast (signed_drop_bit 16 w), ucast (signed_drop_bit 8 w), ucast w]
      else if sz = 4 then
        [ucast (signed_drop_bit 24 w), ucast (signed_drop_bit 16 w), ucast (signed_drop_bit 8 w), ucast w]
      else [])"

subsection \<open>Decoding\<close>

text \<open>\<open>native ty v\<close> is the result \<open>v\<close> of a signed operation in the native type.\<close>

definition native :: "decimal_type \<Rightarrow> int \<Rightarrow> int result" where
  "native ty v = (if - (2 ^ (native_bits ty - 1)) \<le> v \<and> v < 2 ^ (native_bits ty - 1)
     then Inr v else Inl SignedOverflow)"

text \<open>Conversion of a \<open>UInt32\<close> to the native type, and its addition: in \<open>Int32\<close> both go through
  unsigned arithmetic.\<close>

definition native_of_u32 :: "decimal_type \<Rightarrow> UInt32 \<Rightarrow> int" where
  "native_of_u32 ty w = (if ty = Decimal32 then sint w else uint w)"

definition native_add_u32 :: "decimal_type \<Rightarrow> int \<Rightarrow> UInt32 \<Rightarrow> int result" where
  "native_add_u32 ty v w =
     (if ty = Decimal32 then Inr (sint (word_of_int v + w)) else native ty (v + uint w))"

fun decode_words :: "decimal_type \<Rightarrow> bytes \<Rightarrow> UInt32 \<Rightarrow> nat \<Rightarrow> nat \<Rightarrow> int \<Rightarrow> (int \<times> nat) result" where
  "decode_words ty dec msk 0 binIdx v = Inr (v, binIdx)"
| "decode_words ty dec msk (Suc n) binIdx v =
     rbind (readWord binIdx dec 4) (\<lambda>x.
       let w = x XOR msk
       in if w \<ge> 1000000000 then throw ''bad number: ''
          else rbind (native ty (v * 1000000000)) (\<lambda>v1.
               rbind (native_add_u32 ty v1 w) (\<lambda>v2.
                 decode_words ty dec msk n (binIdx + wordSize) v2)))"

fun mult_10_times :: "decimal_type \<Rightarrow> nat \<Rightarrow> int \<Rightarrow> int result" where
  "mult_10_times ty 0 v = Inr v"
| "mult_10_times ty (Suc n) v = rbind (native ty (v * 10)) (mult_10_times ty n)"

definition DecodeDecimalImpl ::
  "decimal_type \<Rightarrow> nat \<Rightarrow> bytes \<Rightarrow> UInt32 \<Rightarrow> UInt32 \<Rightarrow> (int \<times> nat) result" where
  "DecodeDecimalImpl ty cursor raw_value prec frac =
     rbind (getBytes prec frac) (\<lambda>binSize.
     if cursor > length raw_value then Inl OutOfRange
     else
       (let dec0 = take (unat (word_of_int binSize :: UInt64)) (drop cursor raw_value)
        in if dec0 = [] then Inl OutOfBounds
           else
             (let msk = (if dec0 ! 0 AND 0x80 \<noteq> 0 then 0 else - 1);
                  dec = dec0[0 := dec0 ! 0 XOR 0x80]
              in rbind (if leadingDigits prec frac \<noteq> 0
                   then rbind (dig2Bytes_at (leadingDigits prec frac)) (\<lambda>i.
                        rbind (readWord 0 dec i) (\<lambda>x. Inr (native_of_u32 ty (x XOR msk), i)))
                   else Inr (0, 0)) (\<lambda>(v0, binIdx0).
                 rbind (decode_words ty dec msk (nat (wordsInt prec frac + wordsFrac frac)) binIdx0 v0)
                   (\<lambda>(v1, binIdx1).
                 rbind (if trailingDigits frac \<noteq> 0
                   then rbind (dig2Bytes_at (trailingDigits frac)) (\<lambda>len.
                        rbind (readWord binIdx1 dec len) (\<lambda>x.
                        rbind (mult_10_times ty (nat (trailingDigits frac)) v1) (\<lambda>v2.
                          native_add_u32 ty v2 (x XOR msk))))
                   else Inr v1) (\<lambda>v3.
                 rbind (if msk \<noteq> 0 then native ty (- v3) else Inr v3) (\<lambda>v4.
                   Inr (v4, cursor + nat binSize))))))))"

definition SkipDecimal :: "nat \<Rightarrow> bytes \<Rightarrow> nat result" where
  "SkipDecimal cursor raw_value =
     rbind (str_at raw_value cursor) (\<lambda>p. rbind (str_at raw_value (cursor + 1)) (\<lambda>f.
     rbind (getBytes (scast p) (scast f)) (\<lambda>binSize. Inr (nat (int cursor + 2 + binSize)))))"

subsection \<open>Encoding\<close>

lemma abs_sdiv_10: "\<bar>x sdiv (10::int)\<bar> = \<bar>x\<bar> div 10"
  by (cases "x < 0"; cases "x = 0") (auto simp: signed_divide_int_def sgn_if abs_mult pos_imp_zdiv_nonneg_iff)

function getPrec_loop :: "int \<Rightarrow> UInt32 \<Rightarrow> UInt32" where
  "getPrec_loop x cnt = (if x \<noteq> 0 then getPrec_loop (x sdiv 10) (cnt + 1) else cnt)"
  by pat_completeness auto
termination
  by (relation "measure (\<lambda>(x, cnt). nat \<bar>x\<bar>)") (auto simp: abs_sdiv_10)

definition getPrec :: "int \<Rightarrow> UInt32" where
  "getPrec v = (let cnt = getPrec_loop v 0 in if cnt = 0 then 1 else cnt)"

text \<open>The words of the value, least significant first, and what is left of it.\<close>

fun decimal_words :: "nat \<Rightarrow> nat \<Rightarrow> int \<Rightarrow> int \<Rightarrow> Int32 list \<times> int" where
  "decimal_words 0 i trailing v = ([], v)"
| "decimal_words (Suc n) i trailing v =
     (let d = (if i = 0 \<and> trailing > 0 then powers10 ! nat trailing else powers10 ! nat digitsPerWord);
          (vs, rest) = decimal_words n (Suc i) trailing (v div d)
      in (word_of_int (v mod d) # vs, rest))"

definition word_bytes :: "int \<Rightarrow> int \<Rightarrow> nat \<Rightarrow> nat \<Rightarrow> nat" where
  "word_bytes leading trailing words i =
     (if i = 0 \<and> leading > 0 then dig2Bytes ! nat leading
      else if i + 1 = words \<and> trailing > 0 then dig2Bytes ! nat trailing
      else 4)"

definition EncodeDecimalImpl :: "int \<Rightarrow> UInt32 \<Rightarrow> UInt32 \<Rightarrow> bytes result" where
  "EncodeDecimalImpl dec prec0 frac =
     (let prec = (if prec0 < frac then frac else prec0);
          words = nat (getWords prec frac);
          msk = (if dec < 0 then - 1 else 0) :: Int32;
          (vs, rest) = decimal_words words 0 (trailingDigits frac) \<bar>dec\<bar>;
          v = rev vs
      in if rest > 0 then throw ''Value is overflow! (EncodeDecimal)''
         else
           (let buf = concat (map (\<lambda>i. writeWord (v ! i XOR msk)
                  (word_bytes (leadingDigits prec frac) (trailingDigits frac) words i)) [0..<words])
            in if buf = [] then Inl OutOfBounds
               else Inr ([ucast prec, ucast frac] @ buf[0 := buf ! 0 XOR 0x80])))"

declare getPrec_loop.simps [simp del]

subsection \<open>Words of digits read back\<close>

text \<open>A word that has the sign bit of its \<open>s\<close> low bytes in all higher positions.\<close>

definition sext :: "nat \<Rightarrow> Int32 \<Rightarrow> bool" where
  "sext s w \<longleftrightarrow> (\<forall>k. 8 * s - 1 \<le> k \<longrightarrow> k < 32 \<longrightarrow> bit w k = bit w 31)"

lemma bit_byte_of: "k < 8 \<Longrightarrow> i < 4 \<Longrightarrow> bit (ucast (signed_drop_bit (8 * i) (w :: 32 word)) :: byte) k \<longleftrightarrow> bit w (8 * i + k)"
  by (auto simp: bit_ucast_iff bit_signed_drop_bit_iff)

lemma bit_readWord_part:
  "bit (push_bit n (ucast (b :: byte)) :: 32 word) k \<longleftrightarrow> n \<le> k \<and> k < 32 \<and> k - n < 8 \<and> bit b (k - n)"
  using bit_imp_le_length [of b "k - n"] by (auto simp: bit_push_bit_iff bit_ucast_iff)

lemma and_128_iff: "(b :: byte) AND 128 \<noteq> 0 \<longleftrightarrow> bit b 7"
proof -
  have "(128 :: byte) = 2 ^ 7" by simp
  then show ?thesis by (simp only: and_exp_eq_0_iff_not_bit) simp
qed

lemma bit_high_ones: "bit (push_bit 24 255 :: 32 word) k \<longleftrightarrow> 24 \<le> k \<and> k < 32"
proof -
  have "(255 :: 32 word) = Bit_Operations.mask 8" by (simp add: mask_eq_exp_minus_1)
  then show ?thesis by (auto simp only: bit_push_bit_iff bit_mask_iff) auto
qed

lemma bit_high_ones': "bit (push_bit 16 255 :: 32 word) k \<longleftrightarrow> 16 \<le> k \<and> k < 24"
proof -
  have "(255 :: 32 word) = Bit_Operations.mask 8" by (simp add: mask_eq_exp_minus_1)
  then show ?thesis by (auto simp only: bit_push_bit_iff bit_mask_iff) auto
qed

lemma length_writeWord [simp]: "s \<le> 4 \<Longrightarrow> length (writeWord w s) = s"
  by (auto simp: writeWord_def)

lemma nth_writeWord:
  "i < s \<Longrightarrow> s \<le> 4 \<Longrightarrow> writeWord w s ! i = ucast (signed_drop_bit (8 * (s - 1 - i)) w)"
proof -
  assume "i < s" "s \<le> 4"
  then have "s = 1 \<and> i = 0 \<or> s = 2 \<and> (i = 0 \<or> i = 1) \<or> s = 3 \<and> (i = 0 \<or> i = 1 \<or> i = 2) \<or>
     s = 4 \<and> (i = 0 \<or> i = 1 \<or> i = 2 \<or> i = 3)" by arith
  then show ?thesis by (elim disjE conjE) (simp_all add: writeWord_def)
qed

lemma bit_nth_writeWord:
  "i < s \<Longrightarrow> s \<le> 4 \<Longrightarrow> k < 8 \<Longrightarrow> bit (writeWord w s ! i) k \<longleftrightarrow> bit w (8 * (s - 1 - i) + k)"
  by (simp add: nth_writeWord bit_byte_of)

lemma bit_writeWord_part:
  assumes "i < s" "s \<le> 4" "n = 8 * (s - 1 - i)"
  shows "bit (push_bit n (ucast (writeWord w s ! i)) :: 32 word) k \<longleftrightarrow> n \<le> k \<and> k < n + 8 \<and> bit w k"
  using assms bit_nth_writeWord [of i s "k - n" w] by (auto simp only: bit_readWord_part) auto

lemma sext_top: "sext s w \<Longrightarrow> 8 * s - 1 \<le> k \<Longrightarrow> k < 32 \<Longrightarrow> bit w k = bit w 31"
  unfolding sext_def by blast

lemma writeWord_top_bit:
  assumes "1 \<le> s" "s \<le> 4" "sext s w"
  shows "bit (writeWord w s ! 0) 7 \<longleftrightarrow> bit w 31"
  using bit_nth_writeWord [of 0 s 7 w] sext_top [OF assms(3), of "8 * (s - 1) + 7"] assms(1,2) by simp

lemma readWord_bytes_1:
  assumes "sext 1 w"
  shows "scast (writeWord w 1 ! 0) = w"
proof (rule bit_word_eqI)
  fix k assume "k < LENGTH(32)"
  then have k: "k < 32" by simp
  have "bit (scast (writeWord w 1 ! 0) :: 32 word) k \<longleftrightarrow> bit (writeWord w 1 ! 0) (min 7 k)"
    using k by (simp add: bit_signed_iff)
  also have "\<dots> \<longleftrightarrow> bit w (min 7 k)" using bit_nth_writeWord [of 0 1 "min 7 k" w] by simp
  also have "\<dots> \<longleftrightarrow> bit w k"
    using sext_top [OF assms, of k] sext_top [OF assms, of 7] k by (cases "k \<le> 7") (auto simp: min_def)
  finally show "bit (scast (writeWord w 1 ! 0) :: 32 word) k = bit w k" .
qed

lemma readWord_bytes_2:
  assumes "sext 2 w"
  shows "(if writeWord w 2 ! 0 AND 128 \<noteq> 0 then push_bit 24 255 OR push_bit 16 255 else 0)
    OR push_bit 8 (ucast (writeWord w 2 ! 0)) OR push_bit 0 (ucast (writeWord w 2 ! 1)) = w" (is "?l = w")
proof (rule bit_word_eqI)
  fix k assume "k < LENGTH(32)"
  then show "bit ?l k = bit w k"
    unfolding bit_or_iff and_128_iff if_distrib [of "\<lambda>x. bit x k"] bit_high_ones bit_high_ones' bit_0_eq
    using sext_top [OF assms, of k] writeWord_top_bit [OF _ _ assms] bit_writeWord_part [of 0 2 8 w k]
      bit_writeWord_part [of 1 2 0 w k] by (cases "k < 8"; cases "k < 16"; cases "k < 24") auto
qed

lemma readWord_bytes_3:
  assumes "sext 3 w"
  shows "(if writeWord w 3 ! 0 AND 128 \<noteq> 0 then push_bit 24 255 else 0)
    OR push_bit 16 (ucast (writeWord w 3 ! 0)) OR push_bit 8 (ucast (writeWord w 3 ! 1))
    OR push_bit 0 (ucast (writeWord w 3 ! 2)) = w" (is "?l = w")
proof (rule bit_word_eqI)
  fix k assume "k < LENGTH(32)"
  then show "bit ?l k = bit w k"
    unfolding bit_or_iff and_128_iff if_distrib [of "\<lambda>x. bit x k"] bit_high_ones bit_0_eq
    using sext_top [OF assms, of k] writeWord_top_bit [OF _ _ assms] bit_writeWord_part [of 0 3 16 w k]
      bit_writeWord_part [of 1 3 8 w k] bit_writeWord_part [of 2 3 0 w k]
    by (cases "k < 8"; cases "k < 16"; cases "k < 24") auto
qed

lemma readWord_bytes_4:
  "push_bit 24 (ucast (writeWord w 4 ! 0)) OR push_bit 16 (ucast (writeWord w 4 ! 1))
    OR push_bit 8 (ucast (writeWord w 4 ! 2)) OR push_bit 0 (ucast (writeWord w 4 ! 3)) = w" (is "?l = w")
proof (rule bit_word_eqI)
  fix k assume "k < LENGTH(32)"
  then show "bit ?l k = bit w k"
    unfolding bit_or_iff
    using bit_writeWord_part [of 0 4 24 w k] bit_writeWord_part [of 1 4 16 w k]
      bit_writeWord_part [of 2 4 8 w k] bit_writeWord_part [of 3 4 0 w k] by auto
qed

lemma readWord_writeWord:
  assumes s: "1 \<le> s" "s \<le> 4" and w: "sext s w"
  shows "readWord (length pre) (pre @ writeWord w s @ rest) s = Inr w"
proof -
  have at: "str_at (pre @ writeWord w s @ rest) (length pre + i) = Inr (writeWord w s ! i)" if "i < s" for i
    using that s by (subst str_at_nth) (auto simp: nth_append)
  consider "s = 1" | "s = 2" | "s = 3" | "s = 4" using s by linarith
  then show ?thesis
  proof cases
    case 1
    then show ?thesis using at [of 0] readWord_bytes_1 w by (simp add: readWord_def)
  next
    case 2
    then show ?thesis using at [of 0] at [of 1] readWord_bytes_2 w by (simp add: readWord_def)
  next
    case 3
    then show ?thesis using at [of 0] at [of 1] at [of 2] readWord_bytes_3 w by (simp add: readWord_def)
  next
    case 4
    then show ?thesis using at [of 0] at [of 1] at [of 2] at [of 3] readWord_bytes_4 [of w]
      by (simp add: readWord_def)
  qed
qed

lemma of_nat_bit_high:
  assumes "x < 2 ^ n" "n \<le> k"
  shows "\<not> bit (of_nat x :: 32 word) k"
proof -
  have "x < 2 ^ k"
    by (rule less_le_trans [OF assms(1)]) (rule power_increasing [OF assms(2)], simp)
  then have "\<not> bit x k" by (simp add: bit_iff_odd)
  then show ?thesis by (simp add: bit_of_nat_iff)
qed

lemma masked_word:
  assumes "x < 2 ^ (8 * s - 1)" "1 \<le> s" "s \<le> 4" and m: "m = 0 \<or> m = (- 1 :: Int32)"
  shows "sext s (of_nat x XOR m)" and "bit (of_nat x XOR m) 31 \<longleftrightarrow> m = - 1"
proof -
  have b: "bit (of_nat x XOR m) k \<longleftrightarrow> m = - 1" if "8 * s - 1 \<le> k" "k < 32" for k
    using of_nat_bit_high [OF assms(1) that(1)] m that by (auto simp: bit_xor_iff)
  show "bit (of_nat x XOR m) 31 \<longleftrightarrow> m = - 1" using b assms(3) by simp
  then show "sext s (of_nat x XOR m)" using b unfolding sext_def by blast
qed

lemma dig2Bytes_bounds:
  assumes "1 \<le> d" "d \<le> 9"
  shows "1 \<le> dig2Bytes ! d" and "dig2Bytes ! d \<le> 4" and "10 ^ d \<le> (2 :: nat) ^ (8 * dig2Bytes ! d - 1)"
    and "powers10 ! d = 10 ^ d"
proof -
  have "d \<in> {1, 2, 3, 4, 5, 6, 7, 8, 9}" using assms by auto
  then show "1 \<le> dig2Bytes ! d" and "dig2Bytes ! d \<le> 4" and "10 ^ d \<le> (2 :: nat) ^ (8 * dig2Bytes ! d - 1)"
    and "powers10 ! d = 10 ^ d"
    by (auto simp: dig2Bytes_def powers10_def)
qed

subsection \<open>Words of a value\<close>

fun le_words :: "nat \<Rightarrow> nat \<Rightarrow> nat list" where
  "le_words 0 x = []"
| "le_words (Suc n) x = x mod 1000000000 # le_words n (x div 1000000000)"

definition horner :: "int \<Rightarrow> nat list \<Rightarrow> int" where
  "horner v ws = foldl (\<lambda>a x. a * 1000000000 + int x) v ws"

lemma length_le_words [simp]: "length (le_words n x) = n"
  by (induction n arbitrary: x) auto

lemma le_words_less: "w \<in> set (le_words n x) \<Longrightarrow> w < 1000000000"
  by (induction n arbitrary: x) auto

lemma le_words_Suc_append: "le_words (Suc n) x = le_words n x @ [x div 1000000000 ^ n mod 1000000000]"
  by (induction n arbitrary: x) (auto simp: div_mult2_eq)

lemma horner_simps [simp]:
  "horner v [] = v" "horner v (w # ws) = horner (v * 1000000000 + int w) ws"
  "horner v (ws @ us) = horner (horner v ws) us"
  by (simp_all add: horner_def)

lemma horner_ge: "0 \<le> v \<Longrightarrow> v \<le> horner v ws"
proof (induction ws arbitrary: v)
  case (Cons w ws)
  have "v \<le> v * 1000000000 + int w" using Cons.prems by simp
  also have "\<dots> \<le> horner (v * 1000000000 + int w) ws" by (rule Cons.IH) (use Cons.prems in simp)
  finally show ?case by simp
qed simp

lemma horner_le_words: "horner v (rev (le_words n x)) = v * 1000000000 ^ n + int (x mod 1000000000 ^ n)"
proof (induction n arbitrary: x)
  case 0
  then show ?case by simp
next
  case (Suc n)
  have "x mod 1000000000 ^ Suc n = 1000000000 * (x div 1000000000 mod 1000000000 ^ n) + x mod 1000000000"
    by (simp add: mod_mult2_eq)
  then show ?case by (simp add: Suc.IH algebra_simps)
qed

lemma word_of_int_mod: "(word_of_int (int x mod int c) :: 32 word) = of_nat (x mod c)"
  by (simp only: zmod_int [symmetric] of_int_of_nat_eq)

lemma decimal_words_le_words:
  assumes "i > 0 \<or> t = 0"
  shows "decimal_words n i t (int x) = (map of_nat (le_words n x), int (x div 1000000000 ^ n))"
  using assms
proof (induction n arbitrary: i x)
  case 0
  then show ?case by simp
next
  case (Suc n)
  have d: "powers10 ! nat digitsPerWord = 1000000000" by (simp add: powers10_def digitsPerWord_def)
  have "decimal_words n (Suc i) t (int (x div 1000000000)) =
    (map of_nat (le_words n (x div 1000000000)), int (x div 1000000000 div 1000000000 ^ n))"
    by (rule Suc.IH) simp
  moreover have "\<not> (i = 0 \<and> t > 0)" using Suc.prems by auto
  moreover have "(word_of_int (int x mod 1000000000) :: 32 word) = of_nat (x mod 1000000000)"
    using word_of_int_mod [of x 1000000000] by simp
  ultimately show ?case by (simp only: decimal_words.simps if_False d Let_def) (simp add: zdiv_int div_mult2_eq)
qed

lemma native_ok: "0 \<le> v \<Longrightarrow> v < 2 ^ (native_bits ty - 1) \<Longrightarrow> native ty v = Inr v"
  unfolding native_def by (auto intro: order_trans [of _ 0])

lemma native_of_u32_ok:
  assumes "int w < 2 ^ (native_bits ty - 1)" and "w < 2 ^ 32"
  shows "native_of_u32 ty (of_nat w) = int w"
proof (cases "ty = Decimal32")
  case True
  then show ?thesis using assms by (simp add: native_of_u32_def signed_of_nat signed_take_bit_int_eq_self)
next
  case False
  then show ?thesis using assms(2) by (simp add: native_of_u32_def uint_nat unat_of_nat)
qed

lemma native_add_u32_ok:
  assumes "0 \<le> v" and "v + int w < 2 ^ (native_bits ty - 1)" and "w < 2 ^ 32"
  shows "native_add_u32 ty v (of_nat w) = Inr (v + int w)"
proof (cases "ty = Decimal32")
  case True
  have "word_of_int v + of_nat w = (word_of_int (v + int w) :: 32 word)" by simp
  then show ?thesis using True assms
    by (simp only: native_add_u32_def simp_thms if_True signed_of_int) (simp add: signed_take_bit_int_eq_self)
next
  case False
  then show ?thesis using assms by (simp add: native_add_u32_def uint_nat unat_of_nat native_ok)
qed

lemma decode_words_ok:
  assumes "\<forall>w \<in> set ws. w < 1000000000" and "0 \<le> v" and "horner v ws < 2 ^ (native_bits ty - 1)"
    and m: "m = 0 \<or> m = (- 1 :: Int32)"
  shows "decode_words ty (pre @ concat (map (\<lambda>w. writeWord (of_nat w XOR m) 4) ws) @ rest) m
    (length ws) (length pre) v = Inr (horner v ws, length pre + 4 * length ws)"
  using assms(1-3)
proof (induction ws arbitrary: pre v)
  case Nil
  then show ?case by simp
next
  case (Cons w ws)
  let ?d = "pre @ concat (map (\<lambda>w. writeWord (of_nat w XOR m) 4) (w # ws)) @ rest"
  let ?v = "v * 1000000000 + int w"
  have w: "w < 1000000000" using Cons.prems by simp
  have u: "unat (of_nat w :: 32 word) = w" using w by (simp add: unat_of_nat)
  have rd: "readWord (length pre) ?d 4 = Inr (of_nat w XOR m)"
    using readWord_writeWord [of 4 "of_nat w XOR m" pre "concat (map (\<lambda>w. writeWord (of_nat w XOR m) 4) ws) @ rest"]
      masked_word(1) [of w 4 m] w m by simp
  have xm: "(of_nat w XOR m) XOR m = (of_nat w :: 32 word)" by (simp add: xor.assoc)
  have lt: "\<not> (of_nat w :: 32 word) \<ge> 1000000000" using w u by (simp add: word_le_nat_alt)
  have v: "?v \<le> horner ?v ws" by (rule horner_ge) (use Cons.prems in simp)
  then have v2: "?v < 2 ^ (native_bits ty - 1)" using Cons.prems(3) by simp
  have n1: "native ty (v * 1000000000) = Inr (v * 1000000000)"
    by (rule native_ok) (use v2 Cons.prems(2) in simp_all)
  have n2: "native_add_u32 ty (v * 1000000000) (of_nat w) = Inr ?v"
    by (rule native_add_u32_ok) (use v2 Cons.prems(2) w in simp_all)
  have "decode_words ty ((pre @ writeWord (of_nat w XOR m) 4) @ concat (map (\<lambda>w. writeWord (of_nat w XOR m) 4) ws) @ rest) m
    (length ws) (length (pre @ writeWord (of_nat w XOR m) 4)) ?v =
    Inr (horner ?v ws, length (pre @ writeWord (of_nat w XOR m) 4) + 4 * length ws)"
    by (rule Cons.IH) (use Cons.prems in auto)
  then show ?case using rd lt n1 n2 by (simp add: xm Let_def wordSize_def)
qed

subsection \<open>The layout in natural numbers\<close>

lemma sint_of_nat_small: "k < 2 ^ 31 \<Longrightarrow> sint (of_nat k :: 32 word) = int k"
  by (simp add: signed_of_nat signed_take_bit_int_eq_self)

lemma sint_of_nat_8: "k < 128 \<Longrightarrow> sint (of_nat k :: 8 word) = int k"
  by (simp add: signed_of_nat signed_take_bit_int_eq_self)

lemma unat_of_nat_small: "k < 2 ^ 31 \<Longrightarrow> unat (of_nat k :: 32 word) = k"
  by (simp only: unat_of_nat) simp

lemma of_nat_div_9: "k < 2 ^ 31 \<Longrightarrow> (of_nat k :: 32 word) div 9 = of_nat (k div 9)"
  by (subst word_arith_nat_div) (simp add: unat_of_nat_small)

lemma of_nat_mod_9: "k < 2 ^ 31 \<Longrightarrow> (of_nat k :: 32 word) mod 9 = of_nat (k mod 9)"
  by (subst word_arith_nat_mod) (simp add: unat_of_nat_small)

lemma words_of_digits:
  assumes "k < 256"
  shows "(ucast ((of_nat k :: 32 word) div 9 + of_bool ((of_nat k :: 32 word) mod 9 > 0)) :: 8 word)
    = of_nat (k div 9 + of_bool (k mod 9 > 0))"
proof -
  have "(of_nat (k mod 9) :: 32 word) > 0 \<longleftrightarrow> k mod 9 > 0"
    by (simp add: word_less_nat_alt unat_of_nat_small)
  then have "(of_nat k :: 32 word) div 9 + of_bool ((of_nat k :: 32 word) mod 9 > 0)
      = of_nat (k div 9 + of_bool (k mod 9 > 0))"
    using assms by (simp add: of_nat_div_9 of_nat_mod_9)
  moreover have "k div 9 \<le> 28" using assms by linarith
  then have "k div 9 + of_bool (k mod 9 > 0) < 2 ^ LENGTH(32)" by (simp add: of_bool_def)
  ultimately show ?thesis by (simp only: unsigned_of_nat take_bit_nat_eq_self)
qed

lemma int_sdiv_9: "int k sdiv 9 = int (k div 9)"
  by (cases k) (simp_all add: signed_divide_int_def zdiv_int)

lemma of_nat_diff_32: "f \<le> p \<Longrightarrow> (of_nat p - of_nat f :: 32 word) = of_nat (p - f)"
  by (simp add: of_nat_diff)

lemma of_nat_rem_9: "(of_nat f :: 32 word) - word_of_int (int (f div 9) * 9) = of_nat (f mod 9)"
proof -
  have "(of_nat f :: 32 word) = of_nat (f div 9 * 9 + f mod 9)" by simp
  then show ?thesis by (simp only: of_nat_add of_nat_mult of_int_mult of_int_of_nat_eq) simp
qed

lemma layout_int:
  assumes "f \<le> p" "p < 256"
  shows "wordsInt (of_nat p) (of_nat f) = int ((p - f) div 9)"
    and "leadingDigits (of_nat p) (of_nat f) = int ((p - f) mod 9)"
proof -
  have s: "sint (of_nat p - of_nat f :: 32 word) = int (p - f)"
    unfolding of_nat_diff_32 [OF assms(1)] by (rule sint_of_nat_small) (use assms in simp)
  show "wordsInt (of_nat p) (of_nat f) = int ((p - f) div 9)"
    unfolding wordsInt_def s digitsPerWord_def by (rule int_sdiv_9)
  then show "leadingDigits (of_nat p) (of_nat f) = int ((p - f) mod 9)"
    unfolding leadingDigits_def s digitsPerWord_def using div_mult_mod_eq [of "p - f" 9] by linarith
qed

lemma layout_frac:
  assumes "f < 256"
  shows "wordsFrac (of_nat f) = int (f div 9)" and "trailingDigits (of_nat f) = int (f mod 9)"
proof -
  have "f div 9 < 2 ^ 31" "f < 2 ^ 31" "f mod 9 < 2 ^ 31" using assms by simp_all
  then show wf: "wordsFrac (of_nat f) = int (f div 9)"
    by (simp add: wordsFrac_def digitsPerWord_def of_nat_div_9 sint_of_nat_small)
  show "trailingDigits (of_nat f) = int (f mod 9)"
    unfolding trailingDigits_def wf digitsPerWord_def of_nat_rem_9
    by (rule sint_of_nat_small) (use \<open>f mod 9 < 2 ^ 31\<close> in simp)
qed

lemma layout_words:
  assumes "f \<le> p" "p < 256"
  shows "getWords (of_nat p) (of_nat f) =
      int (f div 9 + of_bool (f mod 9 > 0) + ((p - f) div 9 + of_bool ((p - f) mod 9 > 0)))" (is "_ = int ?n")
proof -
  have "f div 9 + (p - f) div 9 \<le> 28" using assms by linarith
  then have "?n < 128" by (simp add: of_bool_def)
  then have s: "sint (of_nat ?n :: 8 word) = int ?n" by (rule sint_of_nat_8)
  have "f < 256" "p - f < 256" using assms by simp_all
  note w = words_of_digits [OF this(1)] words_of_digits [OF this(2)]
  show ?thesis unfolding getWords_def of_nat_diff_32 [OF assms(1)] Let_def w of_nat_add [symmetric]
    by (rule s)
qed

lemmas layout = layout_int layout_frac layout_words

lemma getBytes_layout:
  assumes "f \<le> p" "p < 256"
  shows "getBytes (of_nat p) (of_nat f) =
    Inr (int (4 * ((p - f) div 9) + dig2Bytes ! ((p - f) mod 9) + 4 * (f div 9) + dig2Bytes ! (f mod 9)))"
proof -
  have "(p - f) mod 9 < 10" "f mod 9 < 10" by (simp_all add: less_trans [of _ 9 10])
  then show ?thesis using assms by (simp add: getBytes_def layout dig2Bytes_at_def wordSize_def)
qed

subsection \<open>The encoding as a list of words with their sizes\<close>

abbreviation "BASE \<equiv> 1000000000 :: nat"

definition mid_count :: "nat \<Rightarrow> nat \<Rightarrow> nat" where
  "mid_count p f = (p - f) div 9 + f div 9"

definition lead_blocks :: "nat \<Rightarrow> nat \<Rightarrow> nat \<Rightarrow> (nat \<times> nat) list" where
  "lead_blocks p f u = (if (p - f) mod 9 > 0
     then [(u div 10 ^ (f mod 9) div BASE ^ mid_count p f, dig2Bytes ! ((p - f) mod 9))] else [])"

definition mid_words :: "nat \<Rightarrow> nat \<Rightarrow> nat \<Rightarrow> nat list" where
  "mid_words p f u = rev (le_words (mid_count p f) (u div 10 ^ (f mod 9)))"

definition trail_blocks :: "nat \<Rightarrow> nat \<Rightarrow> (nat \<times> nat) list" where
  "trail_blocks f u = (if f mod 9 > 0 then [(u mod 10 ^ (f mod 9), dig2Bytes ! (f mod 9))] else [])"

definition blocks :: "nat \<Rightarrow> nat \<Rightarrow> nat \<Rightarrow> (nat \<times> nat) list" where
  "blocks p f u = lead_blocks p f u @ map (\<lambda>w. (w, 4)) (mid_words p f u) @ trail_blocks f u"

definition block_bytes :: "Int32 \<Rightarrow> (nat \<times> nat) list \<Rightarrow> bytes" where
  "block_bytes m bl = concat (map (\<lambda>(x, s). writeWord (of_nat x XOR m) s) bl)"

lemma length_mid_words [simp]: "length (mid_words p f u) = mid_count p f"
  by (simp add: mid_words_def)

lemma length_blocks:
  "length (blocks p f u) = of_bool ((p - f) mod 9 > 0) + mid_count p f + of_bool (f mod 9 > 0)"
  by (simp add: blocks_def lead_blocks_def trail_blocks_def)

lemma lead_less:
  assumes "f \<le> p" "u < 10 ^ p"
  shows "u div 10 ^ (f mod 9) div BASE ^ mid_count p f < 10 ^ ((p - f) mod 9)"
proof -
  obtain q where p: "p = f + q" using assms(1) le_Suc_ex by blast
  have "p = (p - f) mod 9 + 9 * mid_count p f + f mod 9"
    using div_mult_mod_eq [of q 9] div_mult_mod_eq [of f 9] unfolding mid_count_def p by simp
  then have "(10::nat) ^ p = 10 ^ ((p - f) mod 9 + 9 * mid_count p f + f mod 9)" by simp
  also have "\<dots> = 10 ^ ((p - f) mod 9) * BASE ^ mid_count p f * 10 ^ (f mod 9)"
    by (simp add: power_add power_mult)
  finally have "(10::nat) ^ p = 10 ^ ((p - f) mod 9) * BASE ^ mid_count p f * 10 ^ (f mod 9)" .
  then have "u < 10 ^ ((p - f) mod 9) * BASE ^ mid_count p f * 10 ^ (f mod 9)" using assms(2) by simp
  then show ?thesis by (simp add: less_mult_imp_div_less)
qed

lemma high_words:
  assumes "f \<le> p" "u < 10 ^ p" and k: "k = mid_count p f + of_bool ((p - f) mod 9 > 0)"
  shows "le_words k (u div 10 ^ (f mod 9)) = rev (map fst (lead_blocks p f u) @ mid_words p f u)"
    and "u div 10 ^ (f mod 9) div BASE ^ k = 0"
proof -
  let ?x = "u div 10 ^ (f mod 9)" and ?n = "mid_count p f"
  note lead = lead_less [OF assms(1,2)]
  have "(p - f) mod 9 \<le> 9" by (simp add: order_less_imp_le)
  then have "(10::nat) ^ ((p - f) mod 9) \<le> 10 ^ 9" by (rule power_increasing) simp
  then have less: "?x div BASE ^ ?n < BASE" using lead by simp
  have "?x div BASE ^ Suc ?n = ?x div BASE ^ ?n div BASE"
    by (simp only: power_Suc2 div_mult2_eq)
  then show "?x div BASE ^ k = 0" unfolding k using lead less by (cases "(p - f) mod 9 > 0") simp_all
  have "?x div BASE ^ ?n mod BASE = ?x div BASE ^ ?n" using less by simp
  then show "le_words k ?x = rev (map fst (lead_blocks p f u) @ mid_words p f u)"
    unfolding k by (cases "(p - f) mod 9 > 0")
      (simp_all del: le_words.simps(2) add: le_words_Suc_append lead_blocks_def mid_words_def)
qed

lemma words_of_value:
  assumes "f \<le> p" "u < 10 ^ p"
  shows "decimal_words (length (blocks p f u)) 0 (int (f mod 9)) (int u) =
    (map of_nat (rev (map fst (blocks p f u))), 0)"
proof -
  let ?x = "u div 10 ^ (f mod 9)"
  define k where k: "k = mid_count p f + of_bool ((p - f) mod 9 > 0)"
  note hi = high_words [OF assms k]
  show ?thesis
  proof (cases "f mod 9 > 0")
    case True
    have t: "powers10 ! (f mod 9) = 10 ^ (f mod 9)"
      by (rule dig2Bytes_bounds(4)) (use True in \<open>auto simp: order_less_imp_le\<close>)
    have "decimal_words k 1 (int (f mod 9)) (int ?x) = (map of_nat (le_words k ?x), int 0)"
      using decimal_words_le_words [of 1 "int (f mod 9)" k ?x] hi(2) by simp
    moreover have "int u div 10 ^ (f mod 9) = int ?x" by (simp add: zdiv_int)
    moreover have "(word_of_int (int u mod 10 ^ (f mod 9)) :: Int32) = of_nat (u mod 10 ^ (f mod 9))"
      using word_of_int_mod [of u "10 ^ (f mod 9)"] by simp
    moreover have len: "length (blocks p f u) = Suc k" using True by (simp add: length_blocks k)
    ultimately show ?thesis unfolding len using True
      by (simp add: t hi(1) blocks_def trail_blocks_def rev_map comp_def)
  next
    case False
    then have "decimal_words k 0 (int (f mod 9)) (int u) = (map of_nat (le_words k ?x), int 0)"
      using decimal_words_le_words [of 0 "int (f mod 9)" k u] hi(2) by simp
    moreover have len: "length (blocks p f u) = k" using False by (simp add: length_blocks k)
    ultimately show ?thesis unfolding len using False
      by (simp add: hi(1) blocks_def trail_blocks_def rev_map comp_def)
  qed
qed

lemma block_sizes:
  assumes "i < length (blocks p f u)"
  shows "word_bytes (int ((p - f) mod 9)) (int (f mod 9)) (length (blocks p f u)) i = snd (blocks p f u ! i)"
proof -
  let ?a = "of_bool ((p - f) mod 9 > 0) :: nat" and ?n = "mid_count p f"
  have lead: "length (lead_blocks p f u) = ?a" by (simp add: lead_blocks_def)
  consider "i < ?a" | "?a \<le> i" "i < ?a + ?n" | "i = ?a + ?n" "f mod 9 > 0"
    using assms unfolding length_blocks by (cases "f mod 9 > 0") (simp_all, linarith+)
  then show ?thesis
  proof cases
    case 1
    then show ?thesis by (auto simp: word_bytes_def blocks_def lead_blocks_def)
  next
    case 2
    then have "blocks p f u ! i = (mid_words p f u ! (i - ?a), 4)"
      by (cases "(p - f) mod 9 > 0") (auto simp: blocks_def nth_append lead)
    moreover have "\<not> (i = 0 \<and> (p - f) mod 9 > 0)" using 2(1) by auto
    ultimately show ?thesis using 2 by (auto simp: word_bytes_def length_blocks)
  next
    case 3
    then have "blocks p f u ! i = trail_blocks f u ! 0"
      by (cases "(p - f) mod 9 > 0") (auto simp: blocks_def nth_append lead)
    moreover have "\<not> (i = 0 \<and> (p - f) mod 9 > 0)" using 3(1) by auto
    ultimately show ?thesis using 3 by (auto simp: word_bytes_def length_blocks trail_blocks_def)
  qed
qed

lemma buffer_of_blocks:
  "concat (map (\<lambda>i. writeWord (map of_nat (map fst (blocks p f u)) ! i XOR m)
      (word_bytes (int ((p - f) mod 9)) (int (f mod 9)) (length (blocks p f u)) i)) [0..<length (blocks p f u)])
   = block_bytes m (blocks p f u)"
proof -
  let ?b = "blocks p f u"
  have "map (\<lambda>i. writeWord (map of_nat (map fst ?b) ! i XOR m)
      (word_bytes (int ((p - f) mod 9)) (int (f mod 9)) (length ?b) i)) [0..<length ?b]
    = map (\<lambda>i. (\<lambda>(x, s). writeWord (of_nat x XOR m) s) (?b ! i)) [0..<length ?b]"
    by (rule map_cong [OF refl]) (simp add: block_sizes case_prod_unfold)
  also have "\<dots> = map (\<lambda>(x, s). writeWord (of_nat x XOR m) s) ?b"
    by (rule nth_equalityI) simp_all
  finally show ?thesis by (simp only: block_bytes_def)
qed

definition good_block :: "nat \<times> nat \<Rightarrow> bool" where
  "good_block b \<longleftrightarrow> 1 \<le> snd b \<and> snd b \<le> 4 \<and> fst b < 2 ^ (8 * snd b - 1)"

lemma blocks_good:
  assumes "f \<le> p" "u < 10 ^ p"
  shows "\<forall>b \<in> set (blocks p f u). good_block b"
proof -
  have "\<forall>b \<in> set (lead_blocks p f u). good_block b"
  proof (cases "(p - f) mod 9 > 0")
    case True
    note d = dig2Bytes_bounds [of "(p - f) mod 9"]
    show ?thesis using True d lead_less [OF assms]
      by (auto simp: lead_blocks_def good_block_def order_less_imp_le intro: less_le_trans)
  qed (simp add: lead_blocks_def)
  moreover have "\<forall>b \<in> set (trail_blocks f u). good_block b"
  proof (cases "f mod 9 > 0")
    case True
    note d = dig2Bytes_bounds [of "f mod 9"]
    have "f mod 9 \<le> 9" by (simp add: order_less_imp_le)
    with True have "u mod 10 ^ (f mod 9) < 2 ^ (8 * dig2Bytes ! (f mod 9) - 1)"
      by (intro less_le_trans [OF _ d(3)]) simp_all
    then show ?thesis using True d(1,2) \<open>f mod 9 \<le> 9\<close> by (simp add: trail_blocks_def good_block_def)
  qed (simp add: trail_blocks_def)
  moreover have "good_block (w, 4)" if "w \<in> set (mid_words p f u)" for w
    using le_words_less [of w] that by (force simp: mid_words_def good_block_def)
  ultimately show ?thesis by (auto simp: blocks_def)
qed

lemma length_block_bytes: "\<forall>b \<in> set bl. good_block b \<Longrightarrow> length (block_bytes m bl) = sum_list (map snd bl)"
  by (induction bl) (auto simp: block_bytes_def good_block_def)

lemma block_bytes_simps [simp]:
  "block_bytes m [] = []"
  "block_bytes m ((x, s) # bl) = writeWord (of_nat x XOR m) s @ block_bytes m bl"
  "block_bytes m (bl @ cl) = block_bytes m bl @ block_bytes m cl"
  by (simp_all add: block_bytes_def)

lemma length_blocks_bytes:
  assumes "f \<le> p" "u < 10 ^ p"
  shows "length (block_bytes m (blocks p f u)) =
    4 * ((p - f) div 9) + dig2Bytes ! ((p - f) mod 9) + 4 * (f div 9) + dig2Bytes ! (f mod 9)"
proof -
  have z: "dig2Bytes ! 0 = 0" by (simp add: dig2Bytes_def)
  have "sum_list (map snd (lead_blocks p f u)) = dig2Bytes ! ((p - f) mod 9)"
    by (simp add: lead_blocks_def z)
  moreover have "sum_list (map snd (trail_blocks f u)) = dig2Bytes ! (f mod 9)"
    by (simp add: trail_blocks_def z)
  moreover have "sum_list (map snd (map (\<lambda>w. (w, 4)) (mid_words p f u))) = 4 * mid_count p f"
    by (simp add: comp_def sum_list_triv)
  ultimately show ?thesis using length_block_bytes [OF blocks_good [OF assms]]
    by (simp add: blocks_def mid_count_def)
qed

lemma first_bit_of_blocks:
  assumes "\<forall>b \<in> set bl. good_block b" "bl \<noteq> []" "m = 0 \<or> m = (- 1 :: Int32)"
  shows "block_bytes m bl \<noteq> []" and "bit (block_bytes m bl ! 0) 7 \<longleftrightarrow> m = - 1"
proof -
  obtain x s cl where bl: "bl = (x, s) # cl" using assms(2) by (cases bl) auto
  then have g: "1 \<le> s" "s \<le> 4" "x < 2 ^ (8 * s - 1)" using assms(1) by (auto simp: good_block_def)
  let ?w = "of_nat x XOR m"
  have len: "length (writeWord ?w s) = s" using g by simp
  then have "writeWord ?w s \<noteq> []" using g(1) by (metis length_0_conv not_one_le_zero)
  then show "block_bytes m bl \<noteq> []" using bl by simp
  have "block_bytes m bl ! 0 = writeWord ?w s ! 0" using len g bl by (simp add: nth_append)
  then show "bit (block_bytes m bl ! 0) 7 \<longleftrightarrow> m = - 1"
    using writeWord_top_bit [OF g(1,2) masked_word(1) [OF g(3,1,2) assms(3)]] masked_word(2) [OF g(3,1,2) assms(3)]
    by simp
qed

lemma blocks_nonempty: "1 \<le> p \<Longrightarrow> f \<le> p \<Longrightarrow> blocks p f u \<noteq> []"
proof -
  assume "1 \<le> p" "f \<le> p"
  have "length (blocks p f u) > 0"
  proof (rule ccontr)
    assume "\<not> length (blocks p f u) > 0"
    then have "(p - f) mod 9 = 0" "(p - f) div 9 = 0" "f div 9 = 0" "f mod 9 = 0"
      by (auto simp: length_blocks mid_count_def split: if_splits)
    then have "p - f = 0" "f = 0" using div_mult_mod_eq [of "p - f" 9] div_mult_mod_eq [of f 9] by simp_all
    then show False using \<open>1 \<le> p\<close> by simp
  qed
  then show ?thesis by simp
qed

definition flip_first :: "bytes \<Rightarrow> bytes" where
  "flip_first buf = buf[0 := buf ! 0 XOR 0x80]"

lemma flip_first:
  "buf \<noteq> [] \<Longrightarrow> flip_first buf \<noteq> []"
  "length (flip_first buf) = length buf"
  "buf \<noteq> [] \<Longrightarrow> (flip_first buf)[0 := flip_first buf ! 0 XOR 0x80] = buf"
  "buf \<noteq> [] \<Longrightarrow> flip_first buf ! 0 AND 0x80 \<noteq> 0 \<longleftrightarrow> \<not> bit (buf ! 0) 7"
proof -
  have "bit (x XOR 0x80) 7 \<longleftrightarrow> \<not> bit x 7" for x :: byte
    by (simp add: bit_xor_iff)
  then show "buf \<noteq> [] \<Longrightarrow> flip_first buf ! 0 AND 0x80 \<noteq> 0 \<longleftrightarrow> \<not> bit (buf ! 0) 7"
    unfolding and_128_iff by (simp add: flip_first_def)
qed (simp_all add: flip_first_def xor.assoc)

lemma EncodeDecimalImpl_blocks:
  assumes "f \<le> p" "1 \<le> p" "p < 256" "nat \<bar>v\<bar> < 10 ^ p" and p0: "p = max p0 f"
  shows "EncodeDecimalImpl v (of_nat p0) (of_nat f) =
    Inr ([of_nat p, of_nat f] @ flip_first (block_bytes (if v < 0 then - 1 else 0) (blocks p f (nat \<bar>v\<bar>))))"
proof -
  let ?u = "nat \<bar>v\<bar>" and ?m = "if v < 0 then - 1 else 0 :: Int32"
  let ?b = "blocks p f ?u"
  have prec: "(if of_nat p0 < (of_nat f :: UInt32) then of_nat f else of_nat p0) = (of_nat p :: UInt32)"
  proof -
    have "unat (of_nat f :: UInt32) = f" "unat (of_nat p0 :: UInt32) = p0"
      using assms(1,3) p0 by (simp_all add: unat_of_nat_small)
    then show ?thesis using p0 by (simp add: word_less_nat_alt max_def)
  qed
  have words: "nat (getWords (of_nat p) (of_nat f)) = length ?b"
    unfolding layout_words [OF assms(1,3)] nat_int by (simp add: length_blocks mid_count_def)
  have w: "decimal_words (length ?b) 0 (int (f mod 9)) \<bar>v\<bar> = (map of_nat (rev (map fst ?b)), 0)"
    using words_of_value [OF assms(1,4)] by simp
  have ne: "block_bytes ?m ?b \<noteq> []"
    by (rule first_bit_of_blocks(1) [OF blocks_good [OF assms(1,4)] blocks_nonempty [OF assms(2,1)]]) simp
  have u8: "ucast (of_nat k :: UInt32) = (of_nat k :: byte)" if "k < 256" for k
    using that by (simp add: unsigned_of_nat take_bit_nat_eq_self)
  have lay: "trailingDigits (of_nat f) = int (f mod 9)" "leadingDigits (of_nat p) (of_nat f) = int ((p - f) mod 9)"
    using assms(1,3) by (simp_all add: layout_int layout_frac)
  show ?thesis
    unfolding EncodeDecimalImpl_def prec Let_def words lay w prod.case rev_map [symmetric] rev_rev_ident
      buffer_of_blocks using ne assms(1,3) by (simp add: flip_first_def u8)
qed

lemma mult_10_times_ok:
  assumes "0 \<le> v" "v * 10 ^ n < 2 ^ (native_bits ty - 1)"
  shows "mult_10_times ty n v = Inr (v * 10 ^ n)"
  using assms
proof (induction n arbitrary: v)
  case 0
  then show ?case by simp
next
  case (Suc n)
  have "v * 10 * 1 \<le> v * 10 * 10 ^ n" using Suc.prems(1) by (intro mult_left_mono) simp_all
  then have "native ty (v * 10) = Inr (v * 10)"
    using Suc.prems by (intro native_ok) simp_all
  then show ?case using Suc.IH [of "v * 10"] Suc.prems by simp
qed

lemma native_bound: "p \<le> maxDecimalPrecision ty \<Longrightarrow> (10::int) ^ p \<le> 2 ^ (native_bits ty - 1)"
proof -
  assume "p \<le> maxDecimalPrecision ty"
  then have "(10::int) ^ p \<le> 10 ^ maxDecimalPrecision ty" by (rule power_increasing) simp
  also have "\<dots> \<le> 2 ^ (native_bits ty - 1)" by (cases ty) simp_all
  finally show ?thesis .
qed

text \<open>The three stages of the decoder on the bytes of the blocks.\<close>

lemma u_bound:
  assumes "u < 10 ^ p" "p \<le> maxDecimalPrecision ty"
  shows "int u < 2 ^ (native_bits ty - 1)"
proof -
  have "int u < 10 ^ p" using assms(1) by (metis of_nat_less_iff of_nat_numeral of_nat_power)
  then show ?thesis using native_bound [OF assms(2)] by linarith
qed

lemma decode_lead:
  assumes fp: "f \<le> p" and u: "u < 10 ^ p" and m: "m = 0 \<or> m = - 1" and ty: "p \<le> maxDecimalPrecision ty"
    and l: "(p - f) mod 9 > 0"
  shows "readWord 0 (block_bytes m (blocks p f u)) (dig2Bytes ! ((p - f) mod 9)) =
      Inr (of_nat (u div 10 ^ (f mod 9) div BASE ^ mid_count p f) XOR m)"
    and "native_of_u32 ty (of_nat (u div 10 ^ (f mod 9) div BASE ^ mid_count p f)) =
      int (u div 10 ^ (f mod 9) div BASE ^ mid_count p f)"
proof -
  let ?L = "u div 10 ^ (f mod 9) div BASE ^ mid_count p f" and ?s = "dig2Bytes ! ((p - f) mod 9)"
  have d9: "(p - f) mod 9 \<le> 9" by (simp add: order_less_imp_le)
  note d = dig2Bytes_bounds [OF _ d9]
  have L: "?L < 2 ^ (8 * ?s - 1)" using lead_less [OF fp u] d(3) l by (auto intro: less_le_trans)
  have s: "1 \<le> ?s" "?s \<le> 4" using d(1,2) l by simp_all
  have bytes: "block_bytes m (blocks p f u) = [] @ writeWord (of_nat ?L XOR m) ?s @
      block_bytes m (map (\<lambda>w. (w, 4)) (mid_words p f u) @ trail_blocks f u)"
    using l by (simp add: blocks_def lead_blocks_def)
  show "readWord 0 (block_bytes m (blocks p f u)) ?s = Inr (of_nat ?L XOR m)"
    unfolding bytes using readWord_writeWord [OF s masked_word(1) [OF L s m], of "[]"] by simp
  have "?L \<le> u" by (metis div_le_dividend le_trans)
  then have 1: "int ?L < 2 ^ (native_bits ty - 1)" using u_bound [OF u ty] by linarith
  have "(2::nat) ^ (8 * ?s - 1) \<le> 2 ^ 32" by (rule power_increasing) (use s in simp_all)
  then have "?L < 2 ^ 32" using L by linarith
  then show "native_of_u32 ty (of_nat ?L) = int ?L" by (rule native_of_u32_ok [OF 1])
qed

lemma decode_mid:
  assumes fp: "f \<le> p" and u: "u < 10 ^ p" and m: "m = 0 \<or> m = - 1" and ty: "p \<le> maxDecimalPrecision ty"
  shows "decode_words ty (block_bytes m (blocks p f u)) m (mid_count p f)
      (length (block_bytes m (lead_blocks p f u))) (int (u div 10 ^ (f mod 9) div BASE ^ mid_count p f)) =
    Inr (int (u div 10 ^ (f mod 9)), length (block_bytes m (lead_blocks p f u @ map (\<lambda>w. (w, 4)) (mid_words p f u))))"
proof -
  let ?x = "u div 10 ^ (f mod 9)" and ?n = "mid_count p f"
  have h: "horner (int (?x div BASE ^ ?n)) (mid_words p f u) = int ?x"
  proof -
    have "horner (int (?x div BASE ^ ?n)) (mid_words p f u) = int (?x div BASE ^ ?n * BASE ^ ?n + ?x mod BASE ^ ?n)"
      by (simp add: mid_words_def horner_le_words)
    then show ?thesis by (simp only: div_mult_mod_eq)
  qed
  have "?x \<le> u" by simp
  then have b: "int ?x < 2 ^ (native_bits ty - 1)" using u_bound [OF u ty] by linarith
  have w: "\<forall>w \<in> set (mid_words p f u). w < 1000000000" using le_words_less by (auto simp: mid_words_def)
  have bytes: "block_bytes m (map (\<lambda>w. (w, 4)) ws) = concat (map (\<lambda>w. writeWord (of_nat w XOR m) 4) ws)" for ws
    by (simp add: block_bytes_def comp_def)
  have len: "length (concat (map (\<lambda>w. writeWord (of_nat w XOR m) 4) ws)) = 4 * length ws" for ws :: "nat list"
    by (induction ws) simp_all
  show ?thesis
    using decode_words_ok [OF w _ _ m, of "int (?x div BASE ^ ?n)" ty "block_bytes m (lead_blocks p f u)"
        "block_bytes m (trail_blocks f u)"] h b
    by (simp add: blocks_def bytes len)
qed

lemma decode_trail:
  assumes u: "u < 10 ^ p" and m: "m = 0 \<or> m = - 1" and ty: "p \<le> maxDecimalPrecision ty" and t: "f mod 9 > 0"
  shows "readWord (length (block_bytes m (lead_blocks p f u @ map (\<lambda>w. (w, 4)) (mid_words p f u))))
      (block_bytes m (blocks p f u)) (dig2Bytes ! (f mod 9)) = Inr (of_nat (u mod 10 ^ (f mod 9)) XOR m)"
    and "mult_10_times ty (f mod 9) (int (u div 10 ^ (f mod 9))) = Inr (int (u div 10 ^ (f mod 9)) * 10 ^ (f mod 9))"
    and "native_add_u32 ty (int (u div 10 ^ (f mod 9)) * 10 ^ (f mod 9)) (of_nat (u mod 10 ^ (f mod 9))) = Inr (int u)"
proof -
  let ?y = "u mod 10 ^ (f mod 9)" and ?s = "dig2Bytes ! (f mod 9)"
  have d9: "f mod 9 \<le> 9" by (simp add: order_less_imp_le)
  note d = dig2Bytes_bounds [OF _ d9]
  have y: "?y < 2 ^ (8 * ?s - 1)" using t by (intro less_le_trans [OF _ d(3)]) simp_all
  have s: "1 \<le> ?s" "?s \<le> 4" using d(1,2) t by simp_all
  have bytes: "block_bytes m (blocks p f u) = block_bytes m (lead_blocks p f u @ map (\<lambda>w. (w, 4)) (mid_words p f u))
      @ writeWord (of_nat ?y XOR m) ?s @ []"
    using t by (simp add: blocks_def trail_blocks_def)
  show "readWord (length (block_bytes m (lead_blocks p f u @ map (\<lambda>w. (w, 4)) (mid_words p f u))))
      (block_bytes m (blocks p f u)) ?s = Inr (of_nat ?y XOR m)"
    unfolding bytes by (rule readWord_writeWord [OF s masked_word(1) [OF y s m]])
  have e: "int (u div 10 ^ (f mod 9)) * 10 ^ (f mod 9) + int ?y = int u"
  proof -
    have "int (u div 10 ^ (f mod 9) * 10 ^ (f mod 9) + ?y) = int u" by (simp only: div_mult_mod_eq)
    then show ?thesis by (simp only: of_nat_add of_nat_mult of_nat_power of_nat_numeral)
  qed
  have b: "int u < 2 ^ (native_bits ty - 1)" by (rule u_bound [OF u ty])
  show "mult_10_times ty (f mod 9) (int (u div 10 ^ (f mod 9))) = Inr (int (u div 10 ^ (f mod 9)) * 10 ^ (f mod 9))"
  proof (rule mult_10_times_ok)
    have "0 \<le> int ?y" by (rule of_nat_0_le_iff)
    with e b show "int (u div 10 ^ (f mod 9)) * 10 ^ (f mod 9) < 2 ^ (native_bits ty - 1)" by linarith
  qed (rule of_nat_0_le_iff)
  have "(2::nat) ^ (8 * ?s - 1) \<le> 2 ^ 32" by (rule power_increasing) (use s in simp_all)
  then have "?y < 2 ^ 32" using y by linarith
  then show "native_add_u32 ty (int (u div 10 ^ (f mod 9)) * 10 ^ (f mod 9)) (of_nat ?y) = Inr (int u)"
    using native_add_u32_ok [of "int (u div 10 ^ (f mod 9)) * 10 ^ (f mod 9)" ?y ty] b by (simp only: e) simp
qed

lemma dig2Bytes_at_mod: "dig2Bytes_at (int (k mod 9)) = Inr (dig2Bytes ! (k mod 9))"
  by (simp add: dig2Bytes_at_def less_trans [of _ 9 10])

lemma xor_mask_twice: "(w XOR m) XOR m = (w :: 32 word)"
  by (simp add: xor.assoc)

lemma decode_lead_stage:
  assumes "f \<le> p" and "u < 10 ^ p" and "m = 0 \<or> m = - 1" and "p \<le> maxDecimalPrecision ty"
  shows "(if int ((p - f) mod 9) \<noteq> 0
       then rbind (dig2Bytes_at (int ((p - f) mod 9))) (\<lambda>i.
            rbind (readWord 0 (block_bytes m (blocks p f u)) i) (\<lambda>x. Inr (native_of_u32 ty (x XOR m), i)))
       else Inr (0, 0)) =
    Inr (int (u div 10 ^ (f mod 9) div BASE ^ mid_count p f), length (block_bytes m (lead_blocks p f u)))"
proof (cases "(p - f) mod 9 > 0")
  case True
  have "(p - f) mod 9 \<le> 9" by (simp add: order_less_imp_le)
  then have "dig2Bytes ! ((p - f) mod 9) \<le> 4" using True by (intro dig2Bytes_bounds(2)) simp_all
  then show ?thesis using True decode_lead [OF assms True]
    by (simp add: dig2Bytes_at_mod xor_mask_twice lead_blocks_def)
next
  case False
  then show ?thesis using lead_less [OF assms(1,2)] by (simp add: lead_blocks_def)
qed

lemma decode_trail_stage:
  assumes "u < 10 ^ p" and "m = 0 \<or> m = - 1" and "p \<le> maxDecimalPrecision ty"
  shows "(if int (f mod 9) \<noteq> 0
       then rbind (dig2Bytes_at (int (f mod 9))) (\<lambda>len.
            rbind (readWord (length (block_bytes m (lead_blocks p f u @ map (\<lambda>w. (w, 4)) (mid_words p f u))))
              (block_bytes m (blocks p f u)) len) (\<lambda>x.
            rbind (mult_10_times ty (nat (int (f mod 9))) (int (u div 10 ^ (f mod 9)))) (\<lambda>v2.
              native_add_u32 ty v2 (x XOR m))))
       else Inr (int (u div 10 ^ (f mod 9)))) = Inr (int u)"
proof (cases "f mod 9 > 0")
  case True
  then have "int (f mod 9) \<noteq> 0" by simp
  then show ?thesis using decode_trail [OF assms True]
    by (simp only: if_True not_False_eq_True dig2Bytes_at_mod xor_mask_twice rbind_Inr nat_int)
next
  case False
  then show ?thesis by simp
qed

lemma decode_sign_stage:
  assumes "nat \<bar>v\<bar> < 10 ^ p" and "p \<le> maxDecimalPrecision ty"
  shows "(if (if v < 0 then - 1 else 0 :: Int32) \<noteq> 0 then native ty (- \<bar>v\<bar>) else Inr \<bar>v\<bar>) = Inr v"
  using u_bound [OF assms] by (auto simp: native_def)

lemma blocks_bytes_short:
  assumes "f \<le> p" "p < 256" "u < 10 ^ p"
  shows "length (block_bytes m (blocks p f u)) < 2 ^ 64"
proof -
  have b: "dig2Bytes ! (k mod 9) \<le> 4" for k
  proof (cases "k mod 9 = 0")
    case False
    then show ?thesis by (intro dig2Bytes_bounds(2)) (simp_all add: order_less_imp_le)
  qed (simp add: dig2Bytes_def)
  have "(p - f) div 9 \<le> 28" "f div 9 \<le> 28" using assms(1,2) by linarith+
  then show ?thesis using b [of "p - f"] b [of f] unfolding length_blocks_bytes [OF assms(1,3)] by simp
qed

lemma DecodeDecimalImpl_blocks:
  assumes fp: "f \<le> p" "1 \<le> p" "p < 256" and u: "nat \<bar>v\<bar> < 10 ^ p" and ty: "p \<le> maxDecimalPrecision ty"
  defines "buf \<equiv> block_bytes (if v < 0 then - 1 else 0) (blocks p f (nat \<bar>v\<bar>))"
  shows "DecodeDecimalImpl ty (length pre) (pre @ flip_first buf @ rest) (of_nat p) (of_nat f) =
    Inr (v, length pre + length buf)"
proof -
  let ?u = "nat \<bar>v\<bar>"
  define m :: Int32 where "m = (if v < 0 then - 1 else 0)"
  have m: "m = 0 \<or> m = - 1" by (simp add: m_def)
  have buf: "buf = block_bytes m (blocks p f ?u)" by (simp add: buf_def m_def)
  note first = first_bit_of_blocks [OF blocks_good [OF fp(1) u] blocks_nonempty [OF fp(2,1)] m, folded buf]
  note flip = flip_first [of buf]
  have bytes: "getBytes (of_nat p) (of_nat f) = Inr (int (length buf))"
    using getBytes_layout [OF fp(1,3)] length_blocks_bytes [OF fp(1) u, of m] by (simp only: buf)
  have len: "unat (word_of_int (int (length buf)) :: UInt64) = length buf"
    using blocks_bytes_short [OF fp(1,3) u, of m] by (simp add: buf unat_of_nat_64)
  have msk: "(if flip_first buf ! 0 AND 0x80 \<noteq> 0 then 0 else - 1) = m"
    using flip(4) first m by auto
  have lay: "wordsInt (of_nat p) (of_nat f) = int ((p - f) div 9)"
      "leadingDigits (of_nat p) (of_nat f) = int ((p - f) mod 9)"
      "wordsFrac (of_nat f) = int (f div 9)" "trailingDigits (of_nat f) = int (f mod 9)"
    using fp by (simp_all add: layout_int layout_frac)
  have n: "nat (int ((p - f) div 9) + int (f div 9)) = mid_count p f"
    by (simp add: mid_count_def nat_add_distrib)
  note stages = decode_lead_stage [OF fp(1) u m ty, folded buf] decode_mid [OF fp(1) u m ty, folded buf]
    decode_trail_stage [OF u m ty, of f, folded buf] decode_sign_stage [OF u ty, folded m_def]
  have abs: "int ?u = \<bar>v\<bar>" by simp
  have d: "take (length buf) (drop (length pre) (pre @ flip_first buf @ rest)) = flip_first buf"
    by (simp add: flip(2))
  show ?thesis
    unfolding DecodeDecimalImpl_def bytes rbind_Inr len d Let_def msk flip(3) [OF first(1)] lay n
      stages prod.case abs
    using flip(1) [OF first(1)] by simp
qed


subsection \<open>Number of digits\<close>

fun ndigits :: "nat \<Rightarrow> nat" where
  "ndigits n = (if n = 0 then 0 else Suc (ndigits (n div 10)))"

declare ndigits.simps [simp del]

lemma less_power_ndigits: "n < 10 ^ ndigits n"
proof (induction n rule: ndigits.induct)
  case (1 n)
  show ?case
  proof (cases "n = 0")
    case False
    then have "n div 10 < 10 ^ ndigits (n div 10)" by (rule "1")
    then have "n < 10 * 10 ^ ndigits (n div 10)" by linarith
    then show ?thesis using False by (subst ndigits.simps) simp
  qed simp
qed

lemma ndigits_le: "n < 10 ^ k \<Longrightarrow> ndigits n \<le> k"
proof (induction n arbitrary: k rule: ndigits.induct)
  case (1 n)
  show ?case
  proof (cases "n = 0")
    case False
    with "1.prems" obtain j where k: "k = Suc j" by (cases k) auto
    then have "n div 10 < 10 ^ j" using "1.prems" by (simp add: less_mult_imp_div_less mult.commute)
    from "1.IH" [OF False this] show ?thesis using False k by (subst ndigits.simps) simp
  qed (simp add: ndigits.simps)
qed

lemma getPrec_loop_ndigits: "getPrec_loop x cnt = cnt + of_nat (ndigits (nat \<bar>x\<bar>))"
proof (induction x cnt rule: getPrec_loop.induct)
  case (1 x cnt)
  have d: "nat \<bar>x sdiv 10\<bar> = nat \<bar>x\<bar> div 10" by (simp add: abs_sdiv_10 nat_div_distrib)
  show ?case
  proof (cases "x = 0")
    case True
    then show ?thesis by (simp add: getPrec_loop.simps ndigits.simps)
  next
    case False
    then have "getPrec_loop x cnt = getPrec_loop (x sdiv 10) (cnt + 1)"
      by (subst getPrec_loop.simps) simp
    also have "\<dots> = cnt + 1 + of_nat (ndigits (nat \<bar>x\<bar> div 10))" using "1" False d by simp
    also have "\<dots> = cnt + of_nat (ndigits (nat \<bar>x\<bar>))"
      using False by (subst (2) ndigits.simps) simp
    finally show ?thesis .
  qed
qed

lemma getPrec_of_nat:
  assumes "nat \<bar>v\<bar> < 10 ^ k" "k < 2 ^ 31"
  shows "getPrec v = of_nat (max 1 (ndigits (nat \<bar>v\<bar>)))"
proof -
  let ?n = "ndigits (nat \<bar>v\<bar>)"
  have "?n < 2 ^ 31" using ndigits_le [OF assms(1)] assms(2) by simp
  then have "unat (of_nat ?n :: UInt32) = ?n" by (rule unat_of_nat_small)
  then have z: "(of_nat ?n :: UInt32) = 0 \<longleftrightarrow> ?n = 0" by (metis unat_eq_zero)
  have "getPrec v = (if (of_nat ?n :: UInt32) = 0 then 1 else of_nat ?n)"
    by (simp only: getPrec_def Let_def getPrec_loop_ndigits add_0)
  then show ?thesis unfolding z by (cases ?n) simp_all
qed

end
