(* ===== verification/DatumCodec.thy ===== *)
theory DatumCodec
  imports DecimalCodec
begin

unbundle bit_operations_syntax

section \<open>Datums\<close>

text \<open>
  \<open>EncodeDatum\<close>, \<open>DecodeDatum\<close> and \<open>SkipDatum\<close> of \<open>Storages/Transaction/DatumCodec.cpp\<close>: one byte
  that tells the codec and the encoded field after it. \<open>Field\<close> has the types that the codec produces
  or accepts; a floating point field holds the bits of the number. The binary JSON of
  \<open>Storages/Transaction/JSONCodec.cpp\<close> is kept as bytes: the decoder only finds its length.
\<close>

datatype Field =
    Null
  | FUInt64 UInt64
  | FInt64 Int64
  | FFloat64 UInt64
  | FString bytes
  | FDecimal decimal_type int UInt32

datatype CodecFlag =
    CodecFlagNil
  | CodecFlagBytes
  | CodecFlagCompactBytes
  | CodecFlagInt
  | CodecFlagUInt
  | CodecFlagFloat
  | CodecFlagDecimal
  | CodecFlagDuration
  | CodecFlagVarInt
  | CodecFlagVarUInt
  | CodecFlagJson
  | CodecFlagMax

fun flag_code :: "CodecFlag \<Rightarrow> byte" where
  "flag_code CodecFlagNil = 0"
| "flag_code CodecFlagBytes = 1"
| "flag_code CodecFlagCompactBytes = 2"
| "flag_code CodecFlagInt = 3"
| "flag_code CodecFlagUInt = 4"
| "flag_code CodecFlagFloat = 5"
| "flag_code CodecFlagDecimal = 6"
| "flag_code CodecFlagDuration = 7"
| "flag_code CodecFlagVarInt = 8"
| "flag_code CodecFlagVarUInt = 9"
| "flag_code CodecFlagJson = 10"
| "flag_code CodecFlagMax = 250"

subsection \<open>Binary JSON\<close>

definition TYPE_CODE_OBJECT :: UInt8 where "TYPE_CODE_OBJECT = 0x01"
definition TYPE_CODE_ARRAY :: UInt8 where "TYPE_CODE_ARRAY = 0x03"
definition TYPE_CODE_LITERAL :: UInt8 where "TYPE_CODE_LITERAL = 0x04"
definition TYPE_CODE_INT64 :: UInt8 where "TYPE_CODE_INT64 = 0x09"
definition TYPE_CODE_UINT64 :: UInt8 where "TYPE_CODE_UINT64 = 0x0a"
definition TYPE_CODE_FLOAT64 :: UInt8 where "TYPE_CODE_FLOAT64 = 0x0b"
definition TYPE_CODE_STRING :: UInt8 where "TYPE_CODE_STRING = 0x0c"

lemmas type_codes = TYPE_CODE_OBJECT_def TYPE_CODE_ARRAY_def TYPE_CODE_LITERAL_def TYPE_CODE_INT64_def
  TYPE_CODE_UINT64_def TYPE_CODE_FLOAT64_def TYPE_CODE_STRING_def

definition decodeNumeric_u32 :: "nat \<Rightarrow> bytes \<Rightarrow> (UInt32 \<times> nat) result" where
  "decodeNumeric_u32 cursor raw_value =
     (if cursor + 4 \<le> length raw_value then Inr (load_le (take 4 (drop cursor raw_value)), cursor + 4)
      else Inl OutOfBounds)"

text \<open>The size of the document with its type byte; \<open>DecodeJson\<close> then sets the cursor to the end.\<close>

definition DecodeJson_size :: "nat \<Rightarrow> bytes \<Rightarrow> UInt64 result" where
  "DecodeJson_size base raw_value =
     rbind (str_at raw_value base) (\<lambda>ty.
       let cursor = base + 1
       in rbind (if ty = TYPE_CODE_OBJECT then
              rbind (decodeNumeric_u32 (cursor + 4) raw_value) (\<lambda>(sz, c). Inr (ucast sz))
            else if ty = TYPE_CODE_ARRAY then
              rbind (decodeNumeric_u32 (cursor + 4) raw_value) (\<lambda>(sz, c). Inr (ucast sz))
            else if ty = TYPE_CODE_LITERAL then Inr 1
            else if ty = TYPE_CODE_INT64 \<or> ty = TYPE_CODE_UINT64 \<or> ty = TYPE_CODE_FLOAT64 then Inr 8
            else if ty = TYPE_CODE_STRING then
              rbind (DecodeVarUInt cursor raw_value) (\<lambda>(sz, c). Inr (sz + of_nat (c - base - 1)))
            else throw ''DecodeJsonBinary: Unknown JSON Element Type:'')
          (\<lambda>sz. Inr (sz + 1)))"

definition SkipJson :: "nat \<Rightarrow> bytes \<Rightarrow> nat result" where
  "SkipJson cursor raw_value =
     rbind (DecodeJson_size cursor raw_value) (\<lambda>sz. Inr (unat (of_nat cursor + sz)))"

definition DecodeJsonAsBinary :: "nat \<Rightarrow> bytes \<Rightarrow> (bytes \<times> nat) result" where
  "DecodeJsonAsBinary cursor raw_value =
     rbind (DecodeJson_size cursor raw_value) (\<lambda>sz.
       Inr (take (unat sz) (drop cursor raw_value), unat (of_nat cursor + sz)))"

definition GetJsonLength :: "bytes \<Rightarrow> UInt64 result" where
  "GetJsonLength raw_value =
     (if raw_value = [] then Inl OutOfBounds
      else if raw_value ! 0 = TYPE_CODE_OBJECT \<or> raw_value ! 0 = TYPE_CODE_ARRAY then
        rbind (decodeNumeric_u32 1 raw_value) (\<lambda>(n, c). Inr (ucast n))
      else Inr 1)"

definition EncodeJSON :: "bytes \<Rightarrow> bytes" where
  "EncodeJSON str = str"

subsection \<open>Decimal fields\<close>

definition DecodeDecimal :: "nat \<Rightarrow> bytes \<Rightarrow> (Field \<times> nat) result" where
  "DecodeDecimal cursor raw_value =
     rbind (str_at raw_value cursor) (\<lambda>p. rbind (str_at raw_value (cursor + 1)) (\<lambda>s.
       let prec = scast p :: UInt32; scale = scast s :: UInt32
       in rbind (createDecimal (ucast prec) (ucast scale)) (\<lambda>ty.
          rbind (DecodeDecimalImpl ty (cursor + 2) raw_value prec scale) (\<lambda>(res, c).
            Inr (FDecimal ty res scale, c)))))"

definition EncodeDecimal :: "Field \<Rightarrow> bytes result" where
  "EncodeDecimal field =
     (case field of
        FDecimal ty v scale \<Rightarrow> EncodeDecimalImpl v (getPrec v) scale
      | _ \<Rightarrow> throw ''Not a decimal when decoding decimal'')"

subsection \<open>Datum functions\<close>

definition SkipVarUInt :: "nat \<Rightarrow> bytes \<Rightarrow> nat result" where
  "SkipVarUInt cursor raw_value = rbind (DecodeVarUInt cursor raw_value) (\<lambda>(v, c). Inr c)"

definition SkipVarInt :: "nat \<Rightarrow> bytes \<Rightarrow> nat result" where
  "SkipVarInt cursor raw_value = SkipVarUInt cursor raw_value"

definition as_field :: "('a \<Rightarrow> Field) \<Rightarrow> ('a \<times> nat) result \<Rightarrow> (Field \<times> nat) result" where
  "as_field f r = rbind r (\<lambda>(x, c). Inr (f x, c))"

definition DecodeDatum :: "nat \<Rightarrow> bytes \<Rightarrow> (Field \<times> nat) result" where
  "DecodeDatum cursor0 raw_value =
     rbind (str_at raw_value cursor0) (\<lambda>flag.
       let cursor = cursor0 + 1
       in if flag = flag_code CodecFlagNil then Inr (Null, cursor)
          else if flag = flag_code CodecFlagInt then as_field FInt64 (DecodeInt64 cursor raw_value)
          else if flag = flag_code CodecFlagUInt then as_field FUInt64 (DecodeUInt64 cursor raw_value)
          else if flag = flag_code CodecFlagBytes then as_field FString (DecodeBytes cursor raw_value)
          else if flag = flag_code CodecFlagCompactBytes then
            as_field FString (DecodeCompactBytes cursor raw_value)
          else if flag = flag_code CodecFlagFloat then as_field FFloat64 (DecodeFloat64 cursor raw_value)
          else if flag = flag_code CodecFlagVarUInt then as_field FUInt64 (DecodeVarUInt cursor raw_value)
          else if flag = flag_code CodecFlagVarInt then as_field FInt64 (DecodeVarInt cursor raw_value)
          else if flag = flag_code CodecFlagDuration then as_field FInt64 (DecodeInt64 cursor raw_value)
          else if flag = flag_code CodecFlagDecimal then DecodeDecimal cursor raw_value
          else if flag = flag_code CodecFlagJson then as_field FString (DecodeJsonAsBinary cursor raw_value)
          else throw ''Unknown Type:'')"

definition SkipDatum :: "nat \<Rightarrow> bytes \<Rightarrow> nat result" where
  "SkipDatum cursor0 raw_value =
     rbind (str_at raw_value cursor0) (\<lambda>flag.
       let cursor = cursor0 + 1
       in if flag = flag_code CodecFlagNil then Inr cursor
          else if flag = flag_code CodecFlagInt then Inr (cursor + 8)
          else if flag = flag_code CodecFlagUInt then Inr (cursor + 8)
          else if flag = flag_code CodecFlagBytes then SkipBytes cursor raw_value
          else if flag = flag_code CodecFlagCompactBytes then SkipCompactBytes cursor raw_value
          else if flag = flag_code CodecFlagFloat then Inr (cursor + 8)
          else if flag = flag_code CodecFlagVarUInt then SkipVarUInt cursor raw_value
          else if flag = flag_code CodecFlagVarInt then SkipVarInt cursor raw_value
          else if flag = flag_code CodecFlagDuration then Inr (cursor + 8)
          else if flag = flag_code CodecFlagDecimal then SkipDecimal cursor raw_value
          else if flag = flag_code CodecFlagJson then SkipJson cursor raw_value
          else throw ''Unknown Type:'')"

text \<open>\<open>Field::safeGet\<close> for the types the encoder asks for.\<close>

definition safeGet_String :: "Field \<Rightarrow> bytes result" where
  "safeGet_String field = (case field of FString s \<Rightarrow> Inr s | _ \<Rightarrow> Inl BadGet)"

definition safeGet_Float64 :: "Field \<Rightarrow> UInt64 result" where
  "safeGet_Float64 field = (case field of FFloat64 x \<Rightarrow> Inr x | _ \<Rightarrow> Inl BadGet)"

definition safeGet_UInt64 :: "Field \<Rightarrow> UInt64 result" where
  "safeGet_UInt64 field = (case field of FUInt64 x \<Rightarrow> Inr x | _ \<Rightarrow> Inl BadGet)"

definition safeGet_Int64 :: "Field \<Rightarrow> Int64 result" where
  "safeGet_Int64 field = (case field of FInt64 x \<Rightarrow> Inr x | _ \<Rightarrow> Inl BadGet)"

definition EncodeDatum_body :: "Field \<Rightarrow> CodecFlag \<Rightarrow> bytes result" where
  "EncodeDatum_body field flag =
     (case flag of
        CodecFlagDecimal \<Rightarrow> EncodeDecimal field
      | CodecFlagCompactBytes \<Rightarrow> rbind (safeGet_String field) (\<lambda>s. Inr (EncodeCompactBytes s))
      | CodecFlagFloat \<Rightarrow> rbind (safeGet_Float64 field) (\<lambda>x. Inr (EncodeFloat64 x))
      | CodecFlagUInt \<Rightarrow> rbind (safeGet_UInt64 field) (\<lambda>x. Inr (EncodeUInt64 x))
      | CodecFlagInt \<Rightarrow> rbind (safeGet_Int64 field) (\<lambda>x. Inr (EncodeInt64 x))
      | CodecFlagVarInt \<Rightarrow> rbind (safeGet_Int64 field) (\<lambda>x. Inr (writeVarInt x))
      | CodecFlagVarUInt \<Rightarrow> rbind (safeGet_UInt64 field) (\<lambda>x. Inr (writeVarUInt x))
      | CodecFlagDuration \<Rightarrow> rbind (safeGet_Int64 field) (\<lambda>x. Inr (EncodeInt64 x))
      | CodecFlagJson \<Rightarrow> rbind (safeGet_String field) (\<lambda>s. Inr (EncodeJSON s))
      | CodecFlagNil \<Rightarrow> Inr []
      | _ \<Rightarrow> throw ''Not implemented codec flag: '')"

definition EncodeDatum :: "Field \<Rightarrow> CodecFlag \<Rightarrow> bytes result" where
  "EncodeDatum field flag0 =
     (let flag = (if field = Null then CodecFlagNil else flag0)
      in rbind (EncodeDatum_body field flag) (\<lambda>bs. Inr (flag_code flag # bs)))"

subsection \<open>Skipping agrees with decoding\<close>

lemma unat_add_of_nat_64:
  assumes "c + unat (n :: UInt64) < 2 ^ 64"
  shows "unat (of_nat c + n) = c + unat n"
proof -
  have "of_nat c + n = (of_nat (c + unat n) :: UInt64)" by simp
  then show ?thesis using unat_of_nat_64 [OF assms] by simp
qed

lemma SkipCompactBytes_agrees:
  assumes "DecodeCompactBytes c raw = Inr (s, c')" "length raw < 2 ^ 64"
  shows "SkipCompactBytes c raw = Inr c'"
  using assms unfolding DecodeCompactBytes_def SkipCompactBytes_def
  by (auto simp: rbind_eq_Inr unat_add_of_nat_64 split: if_splits)

lemma createDecimal_Inr:
  assumes "createDecimal p s = Inr ty"
  shows "unat s \<le> unat p" "unat p \<le> 65" "1 \<le> unat p" "unat s \<le> 30" "unat p \<le> maxDecimalPrecision ty"
  using assms unfolding createDecimal_def DataTypeDecimal_def decimal_max_prec_def decimal_max_scale_def
  by (auto simp: word_le_nat_alt word_less_nat_alt split: if_splits)

lemma unat_ucast_64: "unat (ucast (w :: UInt32) :: UInt64) = unat w"
proof -
  have "unat w < 2 ^ 64" using unsigned_less [of w] by (rule less_trans) simp
  then show ?thesis by (simp add: unsigned_ucast_eq take_bit_nat_eq_self)
qed

lemma getBytes_nonneg:
  assumes "createDecimal (ucast prec) (ucast scale) = Inr ty" "getBytes prec scale = Inr n"
  shows "0 \<le> n"
proof -
  have "unat scale \<le> unat prec" "unat prec < 256"
    using createDecimal_Inr [OF assms(1)] by (simp_all add: unat_ucast_64)
  from getBytes_layout [OF this] assms(2) show ?thesis by simp
qed

lemma DecodeDecimalImpl_cursor:
  "DecodeDecimalImpl ty c raw prec scale = Inr (v, c') \<Longrightarrow>
    \<exists>n. getBytes prec scale = Inr n \<and> c' = c + nat n"
  unfolding DecodeDecimalImpl_def Let_def by (auto simp: rbind_eq_Inr split: if_splits prod.splits)

lemma SkipDecimal_agrees:
  assumes "DecodeDecimal c raw = Inr (f, c')"
  shows "SkipDecimal c raw = Inr c'"
proof -
  from assms obtain p s ty res where r: "str_at raw c = Inr p" "str_at raw (c + 1) = Inr s"
      "createDecimal (ucast (scast p :: UInt32)) (ucast (scast s :: UInt32)) = Inr ty"
      "DecodeDecimalImpl ty (c + 2) raw (scast p) (scast s) = Inr (res, c')"
    unfolding DecodeDecimal_def Let_def by (auto simp: rbind_eq_Inr)
  then obtain n where n: "getBytes (scast p) (scast s) = Inr n" "c' = c + 2 + nat n"
    using DecodeDecimalImpl_cursor by blast
  then have "0 \<le> n" using getBytes_nonneg r(3) by blast
  then show ?thesis using r n by (simp add: SkipDecimal_def nat_add_distrib)
qed

lemma DecodeUInt64_cursor: "DecodeUInt64 c raw = Inr (v, c') \<Longrightarrow> c' = c + 8"
  by (auto simp: DecodeUInt64_def rbind_eq_Inr)

lemma DecodeInt64_cursor: "DecodeInt64 c raw = Inr (v, c') \<Longrightarrow> c' = c + 8"
  by (auto simp: DecodeInt64_def rbind_eq_Inr dest: DecodeUInt64_cursor)

lemma DecodeFloat64_cursor: "DecodeFloat64 c raw = Inr (v, c') \<Longrightarrow> c' = c + 8"
  by (auto simp: DecodeFloat64_def rbind_eq_Inr dest: DecodeUInt64_cursor)

lemma SkipVarUInt_agrees: "DecodeVarUInt c raw = Inr (v, c') \<Longrightarrow> SkipVarUInt c raw = Inr c'"
  by (simp add: SkipVarUInt_def)

lemma SkipVarInt_agrees: "DecodeVarInt c raw = Inr (v, c') \<Longrightarrow> SkipVarInt c raw = Inr c'"
  by (auto simp: DecodeVarInt_def SkipVarInt_def SkipVarUInt_def rbind_eq_Inr Let_def)

lemma SkipJson_agrees: "DecodeJsonAsBinary c raw = Inr (v, c') \<Longrightarrow> SkipJson c raw = Inr c'"
  by (auto simp: DecodeJsonAsBinary_def SkipJson_def rbind_eq_Inr)

lemma SkipBytes_agrees: "DecodeBytes c raw = Inr (v, c') \<Longrightarrow> SkipBytes c raw = Inr c'"
  by (simp add: SkipBytes_eq)

lemma as_field_Inr: "as_field g r = Inr (f, c) \<longleftrightarrow> (\<exists>x. r = Inr (x, c) \<and> f = g x)"
  by (auto simp: as_field_def rbind_eq_Inr)

lemmas skip_agrees = SkipCompactBytes_agrees SkipDecimal_agrees SkipVarUInt_agrees SkipVarInt_agrees
  SkipJson_agrees SkipBytes_agrees DecodeInt64_cursor DecodeUInt64_cursor DecodeFloat64_cursor

lemma SkipDatum_agrees:
  assumes "DecodeDatum c raw = Inr (f, c')" "length raw < 2 ^ 64"
  shows "SkipDatum c raw = Inr c'"
  using assms unfolding DecodeDatum_def SkipDatum_def Let_def
  by (cases "str_at raw c") (auto simp: as_field_Inr skip_agrees split: if_splits
      dest: DecodeInt64_cursor DecodeUInt64_cursor DecodeFloat64_cursor)

subsection \<open>Round trip\<close>

lemma DecodeVarUInt_loop_context:
  "DecodeVarUInt_loop i k res c raw = Inr (v, c') \<Longrightarrow>
   DecodeVarUInt_loop i k res (length pre + c) (pre @ raw @ rest) = Inr (v, length pre + c')"
proof (induction i k res c raw rule: DecodeVarUInt_loop.induct)
  case (1 i k res c raw)
  let ?b = "char_to_u64 (raw ! c)"
  from "1.prems" have c: "c < length raw" by (subst (asm) DecodeVarUInt_loop.simps) (auto split: if_splits)
  then have at: "(pre @ raw @ rest) ! (length pre + c) = raw ! c" "length pre + c < length (pre @ raw @ rest)"
    by (simp_all add: nth_append)
  show ?case
  proof (cases "?b < 0x80")
    case True
    with "1.prems" c show ?thesis
      by (subst DecodeVarUInt_loop.simps, subst (asm) DecodeVarUInt_loop.simps)
        (simp only: at if_True Let_def, auto split: if_splits)
  next
    case False
    with "1.prems" c have "DecodeVarUInt_loop (i + 1) (k + 7) (res OR push_bit k (?b AND 0x7f)) (c + 1) raw = Inr (v, c')"
      by (subst (asm) DecodeVarUInt_loop.simps) (simp only: if_True if_False Let_def)
    from "1.IH" [OF c refl refl False this] False show ?thesis
      by (subst DecodeVarUInt_loop.simps) (simp only: at if_True if_False Let_def add.assoc)
  qed
qed

lemma DecodeVarUInt_context:
  "DecodeVarUInt c raw = Inr (v, c') \<Longrightarrow>
   DecodeVarUInt (length pre + c) (pre @ raw @ rest) = Inr (v, length pre + c')"
  unfolding DecodeVarUInt_def by (rule DecodeVarUInt_loop_context)

text \<open>The bytes of one JSON document: the decoder finds its end at the end of the bytes.\<close>

definition json_document :: "bytes \<Rightarrow> bool" where
  "json_document s \<longleftrightarrow> DecodeJson_size 0 s = Inr (of_nat (length s))"

lemma decodeNumeric_u32_context:
  "decodeNumeric_u32 c raw = Inr (n, c') \<Longrightarrow>
   decodeNumeric_u32 (length pre + c) (pre @ raw @ rest) = Inr (n, length pre + c')"
  by (auto simp: decodeNumeric_u32_def split: if_splits)

lemma DecodeJson_size_context:
  assumes "DecodeJson_size 0 s = Inr n"
  shows "DecodeJson_size (length pre) (pre @ s @ rest) = Inr n"
proof -
  from assms have "s \<noteq> []"
    by (auto simp: DecodeJson_size_def str_at_def type_codes rbind_eq_Inr split: if_splits)
  then have at: "str_at s 0 = Inr (s ! 0)" "str_at (pre @ s @ rest) (length pre) = Inr (s ! 0)"
    by (simp_all add: str_at_def nth_append)
  note ctx = decodeNumeric_u32_context [of 5 s _ _ pre rest, unfolded add.commute [of "length pre" 5]]
    DecodeVarUInt_context [of "Suc 0" s _ _ pre rest]
  show ?thesis using assms unfolding DecodeJson_size_def at rbind_Inr Let_def type_codes
    by (auto simp: rbind_eq_Inr split: if_splits dest!: ctx)
qed

lemma DecodeJsonAsBinary_at:
  assumes "json_document s" "length pre + length s < 2 ^ 64"
  shows "DecodeJsonAsBinary (length pre) (pre @ s @ rest) = Inr (s, length pre + length s)"
proof -
  have "unat (of_nat (length s) :: UInt64) = length s" using assms(2) by (simp add: unat_of_nat_64)
  then show ?thesis
    using DecodeJson_size_context [OF assms(1) [unfolded json_document_def], of pre rest] assms(2)
    by (simp add: DecodeJsonAsBinary_def unat_add_of_nat_64 del: of_nat_add)
qed

text \<open>The decimal type that the decoder creates for a number of digits.\<close>

definition decimal_type_of :: "nat \<Rightarrow> decimal_type" where
  "decimal_type_of p = (if p \<le> 9 then Decimal32 else if p \<le> 18 then Decimal64
     else if p \<le> 38 then Decimal128 else Decimal256)"

definition decimal_prec :: "int \<Rightarrow> UInt32 \<Rightarrow> nat" where
  "decimal_prec v scale = max (max 1 (ndigits (nat \<bar>v\<bar>))) (unat scale)"

lemma scast_of_nat_small: "k < 128 \<Longrightarrow> (scast (of_nat k :: byte) :: UInt32) = of_nat k"
  by (metis sint_of_nat_8 scast_eq of_int_of_nat_eq)

lemma ucast_of_nat_small: "k < 128 \<Longrightarrow> (ucast (of_nat k :: UInt32) :: UInt64) = of_nat k"
  by (simp add: unsigned_of_nat take_bit_nat_eq_self)

lemma createDecimal_of_nat:
  assumes "f \<le> p" "1 \<le> p" "p \<le> 65" "f \<le> 30"
  shows "createDecimal (of_nat p) (of_nat f) = Inr (decimal_type_of p)"
proof -
  have u: "unat (of_nat p :: UInt64) = p" "unat (of_nat f :: UInt64) = f"
    using assms by (simp_all add: unat_of_nat_64)
  have "\<not> (of_nat p :: UInt64) < 1" "\<not> (of_nat f :: UInt64) > of_nat p"
      "\<not> (of_nat p :: UInt64) > 65" "\<not> (of_nat f :: UInt64) > 30"
    using assms by (simp_all only: word_less_nat_alt u) simp_all
  then show ?thesis using assms(3)
    by (simp add: createDecimal_def DataTypeDecimal_def decimal_max_prec_def decimal_max_scale_def
        decimal_type_of_def u)
qed

lemma DecodeDecimal_EncodeDecimal:
  assumes "nat \<bar>v\<bar> < 10 ^ 65" "scale \<le> 30"
  shows "\<exists>bs. EncodeDecimal (FDecimal ty v scale) = Inr bs \<and>
    DecodeDecimal (length pre) (pre @ bs @ rest) =
      Inr (FDecimal (decimal_type_of (decimal_prec v scale)) v scale, length pre + length bs)"
proof -
  let ?n = "max 1 (ndigits (nat \<bar>v\<bar>))" and ?f = "unat scale" and ?p = "decimal_prec v scale"
  let ?buf = "block_bytes (if v < 0 then - 1 else 0) (blocks ?p ?f (nat \<bar>v\<bar>))"
  have f: "?f \<le> 30" using assms(2) by (simp add: word_le_nat_alt)
  have p: "?f \<le> ?p" "1 \<le> ?p" "?p < 256" "?p \<le> 65"
    using ndigits_le [OF assms(1)] f by (simp_all add: decimal_prec_def)
  have "ndigits (nat \<bar>v\<bar>) \<le> ?p" by (simp add: decimal_prec_def)
  then have "(10::nat) ^ ndigits (nat \<bar>v\<bar>) \<le> 10 ^ ?p" by (rule power_increasing) simp
  then have u: "nat \<bar>v\<bar> < 10 ^ ?p" using less_power_ndigits [of "nat \<bar>v\<bar>"] by linarith
  have ty: "?p \<le> maxDecimalPrecision (decimal_type_of ?p)" using p(4) by (simp add: decimal_type_of_def)
  have pf: "?p = max ?n ?f" by (simp add: decimal_prec_def)
  define bs where "bs = [of_nat ?p, of_nat ?f] @ flip_first ?buf"
  have enc: "EncodeDecimal (FDecimal ty v scale) = Inr bs"
    using EncodeDecimalImpl_blocks [OF p(1,2,3) u pf] getPrec_of_nat [OF assms(1)]
    by (simp add: EncodeDecimal_def bs_def)
  have raw: "pre @ bs @ rest = (pre @ [of_nat ?p, of_nat ?f]) @ flip_first ?buf @ rest" by (simp add: bs_def)
  have "?p < 128" "?f < 128" using p f by simp_all
  note casts = scast_of_nat_small [OF this(1)] scast_of_nat_small [OF this(2)]
    ucast_of_nat_small [OF this(1)] ucast_of_nat_small [OF this(2)]
  have at: "str_at (pre @ bs @ rest) (length pre) = Inr (of_nat ?p)"
    "str_at (pre @ bs @ rest) (length pre + 1) = Inr (of_nat ?f)"
    by (simp_all add: bs_def str_at_def nth_append)
  have impl: "DecodeDecimalImpl (decimal_type_of ?p) (length pre + 2) (pre @ bs @ rest) (of_nat ?p) (of_nat ?f) =
      Inr (v, length pre + 2 + length ?buf)"
    using DecodeDecimalImpl_blocks [OF p(1,2,3) u ty, of "pre @ [of_nat ?p, of_nat ?f]" rest] unfolding raw by simp
  have len: "length pre + 2 + length ?buf = length pre + length bs" by (simp add: bs_def flip_first(2))
  have "DecodeDecimal (length pre) (pre @ bs @ rest) =
      Inr (FDecimal (decimal_type_of ?p) v scale, length pre + length bs)"
    unfolding DecodeDecimal_def at rbind_Inr Let_def casts createDecimal_of_nat [OF p(1,2,4) f] impl len by simp
  with enc show ?thesis by blast
qed

text \<open>The fields that a codec flag is meant for, and the field read back: a decimal comes back in the
  smallest type that holds its digits.\<close>

fun datum_ok :: "Field \<Rightarrow> CodecFlag \<Rightarrow> bool" where
  "datum_ok Null flag = True"
| "datum_ok (FUInt64 x) flag = (flag = CodecFlagUInt \<or> flag = CodecFlagVarUInt)"
| "datum_ok (FInt64 x) flag = (flag = CodecFlagInt \<or> flag = CodecFlagVarInt \<or> flag = CodecFlagDuration)"
| "datum_ok (FFloat64 x) flag = (flag = CodecFlagFloat)"
| "datum_ok (FString s) flag =
     (flag = CodecFlagCompactBytes \<and> length s < 2 ^ 63 \<or> flag = CodecFlagJson \<and> json_document s)"
| "datum_ok (FDecimal ty v scale) flag = (flag = CodecFlagDecimal \<and> \<bar>v\<bar> < 10 ^ 65 \<and> scale \<le> 30)"

fun datum_image :: "Field \<Rightarrow> Field" where
  "datum_image (FDecimal ty v scale) = FDecimal (decimal_type_of (decimal_prec v scale)) v scale"
| "datum_image field = field"

lemma datum_body_roundtrip:
  assumes "datum_ok field flag" "field \<noteq> Null"
  shows "\<exists>bs. EncodeDatum_body field flag = Inr bs \<and>
    (length pre + 1 + length bs < 2 ^ 64 \<longrightarrow>
      DecodeDatum (length pre) (pre @ flag_code flag # bs @ rest) =
        Inr (datum_image field, length pre + 1 + length bs))"
proof (cases field)
  case (FUInt64 x)
  with assms consider "flag = CodecFlagUInt" | "flag = CodecFlagVarUInt" by auto
  then show ?thesis
  proof cases
    case 1
    then show ?thesis using FUInt64 DecodeUInt64_EncodeUInt64 [of "pre @ [flag_code flag]" x rest]
      by (auto simp: EncodeDatum_body_def safeGet_UInt64_def DecodeDatum_def as_field_def length_EncodeUInt64)
  next
    case 2
    then show ?thesis using FUInt64 DecodeVarUInt_writeVarUInt [of "pre @ [flag_code flag]" x rest]
      by (auto simp: EncodeDatum_body_def safeGet_UInt64_def DecodeDatum_def as_field_def)
  qed
next
  case (FInt64 x)
  then show ?thesis using assms
      DecodeInt64_EncodeInt64 [of "pre @ [flag_code flag]" x rest] DecodeVarInt_writeVarInt [of "pre @ [flag_code flag]" x rest]
    by (auto simp: EncodeDatum_body_def safeGet_Int64_def DecodeDatum_def as_field_def)
next
  case (FFloat64 x)
  then show ?thesis using assms DecodeFloat64_EncodeFloat64 [of "pre @ [flag_code flag]" x rest]
    by (auto simp: EncodeDatum_body_def safeGet_Float64_def DecodeDatum_def as_field_def)
next
  case (FString s)
  then show ?thesis using assms
      DecodeCompactBytes_at [of s "pre @ [flag_code flag]" rest] DecodeJsonAsBinary_at [of s "pre @ [flag_code flag]" rest]
    by (auto simp: EncodeDatum_body_def safeGet_String_def DecodeDatum_def as_field_def EncodeJSON_def)
next
  case (FDecimal ty v scale)
  then have "flag = CodecFlagDecimal" "nat \<bar>v\<bar> < 10 ^ 65" "scale \<le> 30" using assms by auto
  then show ?thesis using FDecimal DecodeDecimal_EncodeDecimal [of v scale ty "pre @ [flag_code flag]" rest]
    by (auto simp: EncodeDatum_body_def DecodeDatum_def)
qed (use assms in simp)

lemma EncodeDatum_roundtrip:
  assumes "datum_ok field flag"
  shows "\<exists>bs. EncodeDatum field flag = Inr bs \<and>
    (length (pre @ bs @ rest) < 2 ^ 64 \<longrightarrow>
      DecodeDatum (length pre) (pre @ bs @ rest) = Inr (datum_image field, length pre + length bs))"
proof (cases "field = Null")
  case True
  then show ?thesis by (auto simp: EncodeDatum_def EncodeDatum_body_def DecodeDatum_def)
next
  case False
  then show ?thesis using datum_body_roundtrip [OF assms False, of pre rest]
    by (auto simp: EncodeDatum_def)
qed

subsection \<open>Properties\<close>

text \<open>
  C36: a field written with a codec flag it is meant for is encoded without an exception, and
  decoding at the cursor where it was written gives the field back and moves the cursor past it.
  Decimals of every scale up to 30 and up to 65 digits are covered: the value and the scale are the
  same, the type is the smallest one that holds the digits. Whatever bytes \<open>DecodeDatum\<close> reads without an
  exception, \<open>SkipDatum\<close> moves the cursor to the same place.
\<close>

theorem datum_codec:
  assumes "datum_ok field flag"
  shows "(\<exists>bs. EncodeDatum field flag = Inr bs \<and>
      (length (pre @ bs @ rest) < 2 ^ 64 \<longrightarrow>
        DecodeDatum (length pre) (pre @ bs @ rest) = Inr (datum_image field, length pre + length bs)))
    \<and> (\<forall>cursor raw_value field cursor'. DecodeDatum cursor raw_value = Inr (field, cursor') \<longrightarrow> length raw_value < 2 ^ 64 \<longrightarrow>
        SkipDatum cursor raw_value = Inr cursor')"
  using EncodeDatum_roundtrip [OF assms, of pre rest] SkipDatum_agrees by blast

theorem datum_codec_witness:
  "\<exists>bs. EncodeDatum (FDecimal Decimal64 (- 1234567) 2) CodecFlagDecimal = Inr bs \<and>
    (length ([1] @ bs @ [2]) < 2 ^ 64 \<longrightarrow>
      DecodeDatum (length [1 :: byte]) ([1] @ bs @ [2]) =
        Inr (datum_image (FDecimal Decimal64 (- 1234567) 2), length [1 :: byte] + length bs)) \<and>
    SkipDatum 0 [3, 0x80, 0, 0, 0, 0, 0, 0, 5, 9] = Inr 9"
proof -
  have ok: "datum_ok (FDecimal Decimal64 (- 1234567) 2) CodecFlagDecimal" by simp
  have d: "DecodeDatum 0 [3, 0x80, 0, 0, 0, 0, 0, 0, 5, 9] = Inr (FInt64 5, 9)" by code_simp
  show ?thesis using datum_codec [OF ok, of "[1]" "[2]"] d by fastforce
qed

end
