(* ===== verification/RecordFormat.thy ===== *)
theory RecordFormat
  imports DatumCodec
begin

unbundle bit_operations_syntax

section \<open>The record format of TiKV\<close>

text \<open>
  \<open>Storages/Transaction/TiKVRecordFormat.h\<close>: keys of the transaction layer (a table record key in
  the memory comparable encoding, followed by the complement of the timestamp).
\<close>

subsection \<open>Constants\<close>

definition PutFlag :: UInt8 where "PutFlag = 0x50"
definition DelFlag :: UInt8 where "DelFlag = 0x44"
definition TABLE_PREFIX :: byte where "TABLE_PREFIX = 0x74"
definition RECORD_PREFIX_SEP :: bytes where "RECORD_PREFIX_SEP = [0x5F, 0x72]"
definition SHORT_VALUE_PREFIX :: byte where "SHORT_VALUE_PREFIX = 0x76"
definition MIN_COMMIT_TS_PREFIX :: byte where "MIN_COMMIT_TS_PREFIX = 0x63"
definition FOR_UPDATE_TS_PREFIX :: byte where "FOR_UPDATE_TS_PREFIX = 0x66"
definition TXN_SIZE_PREFIX :: byte where "TXN_SIZE_PREFIX = 0x74"
definition ASYNC_COMMIT_PREFIX :: byte where "ASYNC_COMMIT_PREFIX = 0x61"
definition ROLLBACK_TS_PREFIX :: byte where "ROLLBACK_TS_PREFIX = 0x72"
definition FLAG_OVERLAPPED_ROLLBACK :: byte where "FLAG_OVERLAPPED_ROLLBACK = 0x52"
definition GC_FENCE_PREFIX :: byte where "GC_FENCE_PREFIX = 0x46"
definition RAW_KEY_NO_HANDLE_SIZE :: nat where "RAW_KEY_NO_HANDLE_SIZE = 1 + 8 + 2"
definition RAW_KEY_SIZE :: nat where "RAW_KEY_SIZE = RAW_KEY_NO_HANDLE_SIZE + 8"

lemmas record_constants = PutFlag_def DelFlag_def TABLE_PREFIX_def RECORD_PREFIX_SEP_def
  SHORT_VALUE_PREFIX_def MIN_COMMIT_TS_PREFIX_def FOR_UPDATE_TS_PREFIX_def TXN_SIZE_PREFIX_def
  ASYNC_COMMIT_PREFIX_def ROLLBACK_TS_PREFIX_def FLAG_OVERLAPPED_ROLLBACK_def GC_FENCE_PREFIX_def
  RAW_KEY_NO_HANDLE_SIZE_def RAW_KEY_SIZE_def

subsection \<open>Keys\<close>

type_synonym TiKVKey = bytes
type_synonym TiKVValue = bytes
type_synonym DecodedTiKVKey = bytes
type_synonym RawTiDBPK = bytes

definition encodeAsTiKVKey :: "bytes \<Rightarrow> TiKVKey" where
  "encodeAsTiKVKey ori_str = EncodeBytes ori_str"

definition encodeUInt64 :: "UInt64 \<Rightarrow> UInt64" where
  "encodeUInt64 x = toBigEndian x"

definition encodeInt64 :: "Int64 \<Rightarrow> UInt64" where
  "encodeInt64 x = encodeUInt64 (x XOR SIGN_MASK)"

definition encodeUInt64Desc :: "UInt64 \<Rightarrow> UInt64" where
  "encodeUInt64Desc x = encodeUInt64 (NOT x)"

definition decodeUInt64 :: "UInt64 \<Rightarrow> UInt64" where
  "decodeUInt64 x = toBigEndian x"

definition decodeUInt64Desc :: "UInt64 \<Rightarrow> UInt64" where
  "decodeUInt64Desc x = NOT (decodeUInt64 x)"

definition decodeInt64 :: "UInt64 \<Rightarrow> Int64" where
  "decodeInt64 x = decodeUInt64 x XOR SIGN_MASK"

definition read_u64 :: "bytes \<Rightarrow> nat \<Rightarrow> UInt64 result" where
  "read_u64 s off = (if off + 8 \<le> length s then Inr (load_le (take 8 (drop off s))) else Inl OutOfBounds)"

definition genRawKey :: "TableID \<Rightarrow> HandleID \<Rightarrow> DecodedTiKVKey" where
  "genRawKey tableId handleId =
     TABLE_PREFIX # mem_of 8 (encodeInt64 tableId) @ RECORD_PREFIX_SEP @ mem_of 8 (encodeInt64 handleId)"

definition genKey :: "TableID \<Rightarrow> HandleID \<Rightarrow> TiKVKey" where
  "genKey tableId handleId = encodeAsTiKVKey (genRawKey tableId handleId)"

definition checkKeyPaddingValid :: "bytes \<Rightarrow> UInt8 \<Rightarrow> bool" where
  "checkKeyPaddingValid grp pad_size \<longleftrightarrow>
     drop_bit ((ENC_GROUP_SIZE - unat pad_size) * 8) (load_le grp :: UInt64) = 0"

function decodeTiKVKeyFull_loop :: "TiKVKey \<Rightarrow> nat \<Rightarrow> bytes \<Rightarrow> (DecodedTiKVKey \<times> nat) result" where
  "decodeTiKVKeyFull_loop key ptr res =
     (let chunk_len = ENC_GROUP_SIZE + 1
      in if ptr + chunk_len > length key then throw ''Unexpected eof''
         else
           (let marker = key ! (ptr + ENC_GROUP_SIZE); pad_size = ENC_MARKER - marker;
                grp = take ENC_GROUP_SIZE (drop ptr key)
            in if pad_size = 0 then decodeTiKVKeyFull_loop key (ptr + chunk_len) (res @ grp)
               else if unat pad_size > ENC_GROUP_SIZE then throw ''Key padding''
               else
                 (let res' = res @ take (ENC_GROUP_SIZE - unat pad_size) grp
                  in if \<not> checkKeyPaddingValid grp pad_size then throw ''Key padding, wrong end''
                     else Inr (res', ptr + chunk_len))))"
  by pat_completeness auto
termination
  by (relation "measure (\<lambda>(key, ptr, res). length key - ptr)") (auto simp: ENC_GROUP_SIZE_def)

definition decodeTiKVKeyFull :: "TiKVKey \<Rightarrow> (DecodedTiKVKey \<times> nat) result" where
  "decodeTiKVKeyFull key = decodeTiKVKeyFull_loop key 0 []"

definition decodeTiKVKey :: "TiKVKey \<Rightarrow> DecodedTiKVKey result" where
  "decodeTiKVKey key = rbind (decodeTiKVKeyFull key) (\<lambda>(res, off). Inr res)"

definition getTs :: "TiKVKey \<Rightarrow> Timestamp result" where
  "getTs key = (if length key < 8 then Inl OutOfBounds
     else rbind (read_u64 key (length key - 8)) (\<lambda>x. Inr (decodeUInt64Desc x)))"

definition getTableId :: "DecodedTiKVKey \<Rightarrow> TableID result" where
  "getTableId key = rbind (read_u64 key 1) (\<lambda>x. Inr (decodeInt64 x))"

definition getHandle :: "DecodedTiKVKey \<Rightarrow> HandleID result" where
  "getHandle key = rbind (read_u64 key RAW_KEY_NO_HANDLE_SIZE) (\<lambda>x. Inr (decodeInt64 x))"

definition getRawTiDBPK :: "DecodedTiKVKey \<Rightarrow> RawTiDBPK result" where
  "getRawTiDBPK key = (if length key < RAW_KEY_NO_HANDLE_SIZE then Inl LengthError
     else Inr (drop RAW_KEY_NO_HANDLE_SIZE key))"

text \<open>The handle that a \<open>RawTiDBPK\<close> computes when it is built.\<close>

definition RawTiDBPK_handle :: "RawTiDBPK \<Rightarrow> HandleID" where
  "RawTiDBPK_handle pk = (if length pk = 8 then decodeInt64 (load_le pk) else 0)"

definition isRecord :: "DecodedTiKVKey \<Rightarrow> bool" where
  "isRecord raw_key \<longleftrightarrow> length raw_key \<ge> RAW_KEY_SIZE \<and> raw_key ! 0 = TABLE_PREFIX \<and>
     take 2 (drop 9 raw_key) = RECORD_PREFIX_SEP"

definition truncateTs :: "TiKVKey \<Rightarrow> TiKVKey result" where
  "truncateTs key = (if length key < 8 then Inl LengthError else Inr (take (length key - 8) key))"

definition appendTs :: "TiKVKey \<Rightarrow> Timestamp \<Rightarrow> TiKVKey" where
  "appendTs key ts = key @ mem_of 8 (encodeUInt64Desc ts)"

definition genKey_ts :: "TableID \<Rightarrow> HandleID \<Rightarrow> Timestamp \<Rightarrow> TiKVKey" where
  "genKey_ts tableId handleId ts = appendTs (genKey tableId handleId) ts"

declare decodeTiKVKeyFull_loop.simps [simp del]

subsection \<open>Decoding of keys\<close>

lemma val_le_append: "val_le (xs @ ys) = val_le xs + 256 ^ length xs * val_le ys"
  by (induction xs) (simp_all add: algebra_simps)

lemma val_le_zero_iff: "val_le xs = 0 \<longleftrightarrow> xs = replicate (length xs) 0"
  by (induction xs) (auto simp: unat_eq_0)

lemma checkKeyPaddingValid_iff:
  assumes "length g = 8" "unat pad \<le> 8"
  shows "checkKeyPaddingValid g pad \<longleftrightarrow> drop (8 - unat pad) g = replicate (unat pad) 0"
proof -
  let ?k = "8 - unat pad"
  have "drop_bit (?k * 8) (load_le g :: UInt64) = 0 \<longleftrightarrow> unat (drop_bit (?k * 8) (load_le g :: UInt64)) = 0"
    by (rule unat_eq_0 [symmetric])
  also have "\<dots> \<longleftrightarrow> val_le g div 2 ^ (?k * 8) = 0"
    using assms(1) by (simp add: unat_drop_bit_div unat_load_le)
  also have "\<dots> \<longleftrightarrow> val_le g < 256 ^ ?k"
    by (simp add: div_eq_0_iff power_mult mult.commute [of _ 8])
  also have "\<dots> \<longleftrightarrow> val_le (drop ?k g) = 0"
  proof -
    have l: "length (take ?k g) = ?k" using assms(1) by simp
    have "val_le g = val_le (take ?k g) + 256 ^ ?k * val_le (drop ?k g)"
      using val_le_append [of "take ?k g" "drop ?k g"] unfolding l by simp
    moreover have "val_le (take ?k g) < 256 ^ ?k" using val_le_less [of "take ?k g"] unfolding l .
    ultimately show ?thesis by (cases "val_le (drop ?k g)") simp_all
  qed
  also have "\<dots> \<longleftrightarrow> drop ?k g = replicate (unat pad) 0"
    using assms by (simp add: val_le_zero_iff)
  finally show ?thesis by (simp add: checkKeyPaddingValid_def ENC_GROUP_SIZE_def)
qed

text \<open>The loop of \<open>decodeTiKVKeyFull\<close> accepts the groups of an encoding and nothing else.\<close>

lemma ENC_MARKER_diff:
  "ENC_MARKER - marker = 0 \<longleftrightarrow> marker = group_marker 8"
  "n \<le> 8 \<Longrightarrow> unat (ENC_MARKER - group_marker n) = 8 - n"
proof -
  show "ENC_MARKER - marker = 0 \<longleftrightarrow> marker = group_marker 8"
    by (auto simp: group_marker_def)
  have "unat (of_nat (8 - n) :: byte) = 8 - n" by (simp only: unat_of_nat) simp
  then show "unat (ENC_MARKER - group_marker n) = 8 - n" by (simp add: group_marker_def)
qed

lemma marker_cases:
  assumes "unat (ENC_MARKER - marker) \<le> 8"
  obtains n where "n \<le> 8" "marker = group_marker n" "unat (ENC_MARKER - marker) = 8 - n"
proof
  let ?n = "8 - unat (ENC_MARKER - marker)"
  show "?n \<le> 8" by simp
  have "8 - ?n = unat (ENC_MARKER - marker)" using assms by simp
  then show "marker = group_marker ?n" by (simp add: group_marker_def)
  show "unat (ENC_MARKER - marker) = 8 - ?n" using assms by simp
qed

lemma decode_loop_step:
  assumes len: "ptr + 9 \<le> length key" and m: "key ! (ptr + 8) = group_marker n" "n \<le> 8"
  shows "decodeTiKVKeyFull_loop key ptr res =
    (if n = 8 then decodeTiKVKeyFull_loop key (ptr + 9) (res @ take 8 (drop ptr key))
     else if drop n (take 8 (drop ptr key)) = replicate (8 - n) 0
          then Inr (res @ take n (drop ptr key), ptr + 9)
          else throw ''Key padding, wrong end'')"
proof -
  let ?pad = "ENC_MARKER - group_marker n" and ?g = "take 8 (drop ptr key)"
  have pad: "unat ?pad = 8 - n" using m(2) by (rule ENC_MARKER_diff(2))
  have z: "?pad = 0 \<longleftrightarrow> n = 8" using pad m(2) unat_eq_0 [of ?pad] by auto
  have g: "length ?g = 8" using len by simp
  have chk: "checkKeyPaddingValid ?g ?pad \<longleftrightarrow> drop n ?g = replicate (8 - n) 0"
    using checkKeyPaddingValid_iff [OF g, of ?pad] pad m(2) by simp
  have e: "ENC_GROUP_SIZE = 8" by (simp add: ENC_GROUP_SIZE_def)
  have np: "\<not> 8 - n > 8" by linarith
  have nlen: "\<not> ptr + (8 + 1) > length key" using len by simp
  have t: "take n ?g = take n (drop ptr key)" "8 - (8 - n) = n" using m(2) by (simp_all add: min_def)
  show ?thesis
    by (subst decodeTiKVKeyFull_loop.simps)
      (simp only: Let_def e m(1) nlen if_False z pad chk t np, simp)
qed

lemma decode_loop_enc:
  "decodeTiKVKeyFull_loop (pre @ enc_groups s @ rest) (length pre) res =
     Inr (res @ s, length pre + length (enc_groups s))"
proof (induction s arbitrary: pre res rule: enc_groups.induct)
  case (1 s)
  let ?n = "length (take 8 s)"
  let ?pre = "pre @ pad_group (take 8 s) @ [group_marker ?n]"
  define key where "key = pre @ enc_groups s @ rest"
  have key: "key = ?pre @ (if 8 \<le> length s then enc_groups (drop 8 s) @ rest else rest)"
    unfolding key_def enc_groups_append [of s rest] by simp
  have pre: "length ?pre = length pre + 9" by simp
  have len: "length pre + 9 \<le> length key" unfolding key using pre by simp
  have marker: "key ! (length pre + 8) = group_marker ?n" unfolding key by (simp add: nth_append)
  have grp: "take 8 (drop (length pre) key) = pad_group (take 8 s)" unfolding key by simp
  have tk: "take ?n (drop (length pre) key) = take 8 s"
    unfolding key by (simp add: pad_group_def min_def)
  have zeros: "drop ?n (pad_group (take 8 s)) = replicate (8 - ?n) 0" by (simp add: pad_group_def)
  note step = decode_loop_step [OF len marker, unfolded grp tk]
  show ?case
  proof (cases "8 \<le> length s")
    case True
    then have key': "key = ?pre @ enc_groups (drop 8 s) @ rest" unfolding key by simp
    have "decodeTiKVKeyFull_loop key (length ?pre) (res @ take 8 s) =
        Inr ((res @ take 8 s) @ drop 8 s, length ?pre + length (enc_groups (drop 8 s)))"
      unfolding key' by (rule "1.IH" [OF True])
    moreover have "pad_group (take 8 s) = take 8 s" using True by (simp add: pad_group_def)
    moreover have "length (enc_groups s) = 9 + length (enc_groups (drop 8 s))"
      using True by (subst enc_groups.simps) simp
    ultimately show ?thesis using True step pre unfolding key_def by simp
  next
    case False
    moreover have "length (enc_groups s) = 9" using False by (subst enc_groups.simps) simp
    ultimately show ?thesis using step zeros unfolding key_def by simp
  qed
qed

lemma enc_groups_full: "length g = 8 \<Longrightarrow> enc_groups (g @ s) = (g @ [group_marker 8]) @ enc_groups s"
  by (subst enc_groups.simps) (simp add: pad_group_def)

lemma enc_groups_short: "length s < 8 \<Longrightarrow> enc_groups s = s @ replicate (8 - length s) 0 @ [group_marker (length s)]"
  by (subst enc_groups.simps) (simp add: pad_group_def)

lemma decode_loop_last:
  assumes "ptr + 9 \<le> length key" "key ! (ptr + 8) = group_marker i" "i < 8"
    and "drop i (take 8 (drop ptr key)) = replicate (8 - i) 0"
  shows "enc_groups (take i (drop ptr key)) = take 9 (drop ptr key)"
proof -
  have "take 9 (drop ptr key) = take 8 (drop ptr key) @ [group_marker i]"
    using assms(1,2) take_Suc_conv_app_nth [of 8 "drop ptr key"] by (simp add: add.commute)
  also have "take 8 (drop ptr key) = take i (take 8 (drop ptr key)) @ replicate (8 - i) 0"
    using append_take_drop_id [of i "take 8 (drop ptr key)"] assms(4) by simp
  finally show ?thesis using assms(1,3) by (simp add: enc_groups_short min_def)
qed

lemma decode_loop_only_enc:
  "decodeTiKVKeyFull_loop key ptr res = Inr (k, n) \<Longrightarrow>
   \<exists>s. k = res @ s \<and> n = ptr + length (enc_groups s) \<and>
     take (length (enc_groups s)) (drop ptr key) = enc_groups s"
proof (induction key ptr res rule: decodeTiKVKeyFull_loop.induct)
  case (1 key ptr res)
  let ?m = "key ! (ptr + 8)" and ?g = "take 8 (drop ptr key)"
  have e: "ENC_GROUP_SIZE = 8" by (simp add: ENC_GROUP_SIZE_def)
  from "1.prems" have len: "ptr + 9 \<le> length key"
    by (subst (asm) decodeTiKVKeyFull_loop.simps) (simp add: Let_def e split: if_splits)
  from "1.prems" len have "unat (ENC_MARKER - ?m) \<le> 8"
    by (subst (asm) decodeTiKVKeyFull_loop.simps) (simp add: Let_def e not_less split: if_splits)
  then obtain i where i: "i \<le> 8" "?m = group_marker i" by (rule marker_cases)
  note step = decode_loop_step [OF len i(2,1), of res]
  show ?case
  proof (cases "i = 8")
    case True
    have "ENC_MARKER - ?m = 0" using True i(2) by (simp add: group_marker_def)
    then obtain s where s: "k = (res @ ?g) @ s" "n = ptr + 9 + length (enc_groups s)"
        "take (length (enc_groups s)) (drop (ptr + 9) key) = enc_groups s"
      using "1.IH" [unfolded e, OF refl _ refl refl refl] len step True "1.prems" by auto
    have g: "length ?g = 8" using len by simp
    have "take (Suc 8 + length (enc_groups s)) (drop ptr key) = (?g @ [group_marker 8]) @ enc_groups s"
      unfolding take_add using len i(2) True s(3) take_Suc_conv_app_nth [of 8 "drop ptr key"]
      by (simp add: add.commute)
    then show ?thesis using s(1,2) g enc_groups_full [OF g, of s] by (intro exI [of _ "?g @ s"]) simp
  next
    case False
    then have z: "drop i ?g = replicate (8 - i) 0" and r: "k = res @ take i (drop ptr key)" "n = ptr + 9"
      using step "1.prems" by (auto split: if_splits)
    have enc: "enc_groups (take i (drop ptr key)) = take 9 (drop ptr key)"
      using decode_loop_last [OF len i(2) _ z] False i(1) by simp
    then show ?thesis using r len by (intro exI [of _ "take i (drop ptr key)"]) simp
  qed
qed

lemma decodeTiKVKeyFull_iff:
  "decodeTiKVKeyFull key = Inr (k, n) \<longleftrightarrow> (\<exists>rest. key = EncodeBytes k @ rest) \<and> n = length (EncodeBytes k)"
proof
  assume "decodeTiKVKeyFull key = Inr (k, n)"
  from decode_loop_only_enc [OF this [unfolded decodeTiKVKeyFull_def]]
  have "take (length (EncodeBytes k)) key = EncodeBytes k" "n = length (EncodeBytes k)"
    by (auto simp: EncodeBytes_groups)
  then show "(\<exists>rest. key = EncodeBytes k @ rest) \<and> n = length (EncodeBytes k)"
    by (metis append_take_drop_id)
next
  assume "(\<exists>rest. key = EncodeBytes k @ rest) \<and> n = length (EncodeBytes k)"
  then show "decodeTiKVKeyFull key = Inr (k, n)"
    using decode_loop_enc [of "[]" k] by (auto simp: decodeTiKVKeyFull_def EncodeBytes_groups)
qed

lemma decodeTiKVKey_encode [codec_simps]: "decodeTiKVKey (encodeAsTiKVKey k @ rest) = Inr k"
proof -
  have "decodeTiKVKeyFull (encodeAsTiKVKey k @ rest) = Inr (k, length (EncodeBytes k))"
    unfolding decodeTiKVKeyFull_iff by (auto simp: encodeAsTiKVKey_def)
  then show ?thesis by (simp add: decodeTiKVKey_def)
qed

subsection \<open>Record keys\<close>

lemma mem_of_encodeUInt64: "mem_of 8 (encodeUInt64 x) = EncodeUInt64 x"
  by (simp add: encodeUInt64_def EncodeUInt64_def)

lemma mem_of_encodeInt64: "mem_of 8 (encodeInt64 x) = EncodeInt64 x"
  by (simp add: encodeInt64_def EncodeInt64_def mem_of_encodeUInt64)

lemma mem_of_encodeUInt64Desc: "mem_of 8 (encodeUInt64Desc x) = EncodeUInt64 (NOT x)"
  by (simp add: encodeUInt64Desc_def mem_of_encodeUInt64)

lemma decode_encode_words [simp]:
  "decodeUInt64 (encodeUInt64 x) = x" "decodeInt64 (encodeInt64 i) = i" "decodeUInt64Desc (encodeUInt64Desc x) = x"
  by (simp_all add: encodeInt64_def decodeInt64_def encodeUInt64_def decodeUInt64_def encodeUInt64Desc_def
      decodeUInt64Desc_def)

lemma read_u64_at: "read_u64 (pre @ mem_of 8 x @ rest) (length pre) = Inr x"
  by (simp add: read_u64_def load_toBigEndian64)

lemma length_genRawKey [simp]: "length (genRawKey t h) = RAW_KEY_SIZE"
  by (simp add: genRawKey_def record_constants)

lemma getTableId_genRawKey: "getTableId (genRawKey t h) = Inr t"
  using read_u64_at [of "[TABLE_PREFIX]" "encodeInt64 t" "RECORD_PREFIX_SEP @ mem_of 8 (encodeInt64 h)"]
  by (simp add: getTableId_def genRawKey_def)

lemma getHandle_genRawKey: "getHandle (genRawKey t h) = Inr h"
  using read_u64_at [of "TABLE_PREFIX # mem_of 8 (encodeInt64 t) @ RECORD_PREFIX_SEP" "encodeInt64 h" "[]"]
  by (simp add: getHandle_def genRawKey_def record_constants)

lemma getRawTiDBPK_genRawKey: "getRawTiDBPK (genRawKey t h) = Inr (mem_of 8 (encodeInt64 h))"
  by (simp add: getRawTiDBPK_def genRawKey_def record_constants)

lemma RawTiDBPK_handle_mem_of: "RawTiDBPK_handle (mem_of 8 (encodeInt64 h)) = h"
  by (simp add: RawTiDBPK_handle_def load_toBigEndian64)

lemma isRecord_genRawKey: "isRecord (genRawKey t h)"
  by (simp add: isRecord_def genRawKey_def record_constants)

lemma getTs_appendTs [codec_simps]: "getTs (appendTs key ts) = Inr ts"
  using read_u64_at [of key "encodeUInt64Desc ts" "[]"] by (simp add: getTs_def appendTs_def)

lemma truncateTs_appendTs [codec_simps]: "truncateTs (appendTs key ts) = Inr key"
  by (simp add: truncateTs_def appendTs_def)

lemma not_less_not: "NOT x < (NOT y :: UInt64) \<longleftrightarrow> y < x"
proof -
  have "uint (NOT w) = Bit_Operations.mask 64 - uint w" for w :: UInt64
  proof -
    have "uint w < 2 ^ LENGTH(64)" by (rule unsigned_less)
    then have "take_bit 64 (uint w) = uint w" by (simp add: take_bit_int_eq_self)
    then show ?thesis by (simp add: unsigned_not_eq take_bit_not_eq_mask_diff)
  qed
  then show ?thesis by (simp add: word_less_def)
qed

lemma EncodeInt64_inject: "EncodeInt64 i = EncodeInt64 j \<longleftrightarrow> i = j"
proof
  assume "EncodeInt64 i = EncodeInt64 j"
  then have "DecodeInt64 (length ([] :: bytes)) ([] @ EncodeInt64 i @ []) =
      DecodeInt64 (length ([] :: bytes)) ([] @ EncodeInt64 j @ [])" by (simp only:)
  then show "i = j" unfolding DecodeInt64_EncodeInt64 by simp
qed simp

lemma genRawKey_less_iff:
  "genRawKey t h < genRawKey t' h' \<longleftrightarrow> t <s t' \<or> t = t' \<and> h <s h'"
  by (simp add: genRawKey_def mem_of_encodeInt64 append_less_append_same_length EncodeInt64_less_iff EncodeInt64_inject)

lemma genRawKey_inject: "genRawKey t h = genRawKey t' h' \<longleftrightarrow> t = t' \<and> h = h'"
proof
  assume "genRawKey t h = genRawKey t' h'"
  then have "getTableId (genRawKey t h) = getTableId (genRawKey t' h')"
      "getHandle (genRawKey t h) = getHandle (genRawKey t' h')" by (simp_all only:)
  then show "t = t' \<and> h = h'" unfolding getTableId_genRawKey getHandle_genRawKey by simp
qed simp

lemma genKey_ts_less_iff:
  "genKey_ts t h ts < genKey_ts t' h' ts' \<longleftrightarrow>
     t <s t' \<or> t = t' \<and> (h <s h' \<or> h = h' \<and> ts' < ts)"
  by (auto simp: genKey_ts_def genKey_def appendTs_def encodeAsTiKVKey_def EncodeBytes_less_iff genRawKey_less_iff
      genRawKey_inject mem_of_encodeUInt64Desc EncodeUInt64_less_iff not_less_not)

subsection \<open>Properties\<close>

text \<open>
  \<open>decodeTiKVKeyFull\<close> accepts exactly the memory comparable encodings, followed by anything: it
  returns the raw key and the offset after the encoding. Wrong markers and non-zero padding, which
  \<open>DecodeBytes\<close> lets pass, are rejected, so a key has one encoding only.
\<close>

lemma decodeTiKVKeyFull_exact:
  "decodeTiKVKeyFull key = Inr (raw_key, off) \<longleftrightarrow>
     (\<exists>rest. key = encodeAsTiKVKey raw_key @ rest) \<and> off = length (encodeAsTiKVKey raw_key)"
  unfolding encodeAsTiKVKey_def by (rule decodeTiKVKeyFull_iff)

text \<open>
  C37: the key made of a table, a handle and a timestamp gives back each of them, is a record key, and its
  primary key string gives the handle. The keys are ordered by table, then by handle, both as signed numbers,
  then by timestamp, the newest first.
\<close>

theorem record_keys:
  "decodeTiKVKey (genKey_ts t h ts) = Inr (genRawKey t h) \<and> getTs (genKey_ts t h ts) = Inr ts \<and>
   truncateTs (genKey_ts t h ts) = Inr (genKey t h) \<and> isRecord (genRawKey t h) \<and>
   getTableId (genRawKey t h) = Inr t \<and> getHandle (genRawKey t h) = Inr h \<and>
   (\<exists>pk. getRawTiDBPK (genRawKey t h) = Inr pk \<and> RawTiDBPK_handle pk = h) \<and>
   (genKey_ts t h ts < genKey_ts t' h' ts' \<longleftrightarrow> t <s t' \<or> t = t' \<and> (h <s h' \<or> h = h' \<and> ts' < ts))"
  using decodeTiKVKey_encode [of "genRawKey t h"] unfolding genKey_ts_less_iff
  by (simp add: genKey_ts_def getTs_appendTs truncateTs_appendTs isRecord_genRawKey getTableId_genRawKey
      getHandle_genRawKey getRawTiDBPK_genRawKey RawTiDBPK_handle_mem_of)
    (simp add: genKey_def appendTs_def)

end
