(* ===== verification/CFValues.thy ===== *)
theory CFValues
  imports RecordFormat
begin

unbundle bit_operations_syntax

section \<open>Values of the write and of the lock column family\<close>

text \<open>
  The value formats of \<open>Storages/Transaction/TiKVRecordFormat.h\<close> and the parser of lock values of
  \<open>Storages/Transaction/RegionCFDataBase.cpp\<close>. A parser walks a pointer and a remaining length over
  the characters of a string. The model of the pointer is the list of the characters that can still
  be read, the terminating zero of the string included; the length is a 64-bit word that wraps like
  \<open>size_t\<close>.
\<close>

subsection \<open>Readers\<close>

type_synonym cursor = "bytes \<times> UInt64"

text \<open>The pointer to the first character of a string, with the size of the string.\<close>

definition str_cursor :: "bytes \<Rightarrow> cursor" where
  "str_cursor s = (s @ [0], of_nat (length s))"

fun readUInt8 :: "cursor \<Rightarrow> (UInt8 \<times> cursor) result" where
  "readUInt8 ([], len) = Inl OutOfBounds"
| "readUInt8 (b # data, len) = Inr (b, data, len - 1)"

definition readUInt64 :: "cursor \<Rightarrow> (UInt64 \<times> cursor) result" where
  "readUInt64 c = (case c of (data, len) \<Rightarrow>
     rbind (readBigEndian64 0 data) (\<lambda>res. Inr (res, drop 8 data, len - 8)))"

definition readVarUInt_cur :: "cursor \<Rightarrow> (UInt64 \<times> cursor) result" where
  "readVarUInt_cur c = (case c of (data, len) \<Rightarrow>
     (case readVarUInt (take (unat len) data) of
        Inl e \<Rightarrow> Inl (if e = ReadAfterEof \<and> length data < unat len then OutOfBounds else e)
      | Inr (x, rest) \<Rightarrow>
          (let n = length (take (unat len) data) - length rest in Inr (x, drop n data, len - of_nat n))))"

definition readVarInt_cur :: "cursor \<Rightarrow> (Int64 \<times> cursor) result" where
  "readVarInt_cur c = rbind (readVarUInt_cur c) (\<lambda>(x, c'). Inr (unzigzag x, c'))"

definition readRawString :: "cursor \<Rightarrow> UInt64 \<Rightarrow> (bytes \<times> cursor) result" where
  "readRawString c str_len = (case c of (data, len) \<Rightarrow>
     if unat str_len \<le> length data
     then Inr (take (unat str_len) data, drop (unat str_len) data, len - str_len)
     else Inl OutOfBounds)"

definition readVarString :: "cursor \<Rightarrow> (bytes \<times> cursor) result" where
  "readVarString c = rbind (readVarInt_cur c) (\<lambda>(str_len, c'). readRawString c' str_len)"

text \<open>Every reader leaves a part of the characters it was given: \<open>leaves r n\<close> says that a successful
  \<open>r\<close> leaves at most \<open>n\<close> characters.\<close>

definition leaves :: "('a \<times> cursor) result \<Rightarrow> nat \<Rightarrow> bool" where
  "leaves r n \<longleftrightarrow> (case r of Inl e \<Rightarrow> True | Inr p \<Rightarrow> length (fst (snd p)) \<le> n)"

lemma leaves_D: "leaves r n \<Longrightarrow> r = Inr (x, c) \<Longrightarrow> length (fst c) \<le> n"
  by (simp add: leaves_def)

named_theorems leaves_intros \<open>rules for the characters that a parser leaves\<close>

lemma leaves_Inr [leaves_intros]: "length (fst c) \<le> n \<Longrightarrow> leaves (Inr (x, c)) n"
  by (auto simp: leaves_def)

lemma leaves_throw [leaves_intros]: "leaves (throw msg) n"
  by (simp add: leaves_def throw_def)

lemma leaves_rbind [leaves_intros]:
  "leaves m n \<Longrightarrow> (\<And>x c. length (fst c) \<le> n \<Longrightarrow> leaves (f (x, c)) n) \<Longrightarrow> leaves (rbind m f) n"
  by (cases m) (auto simp: leaves_def)

lemma leaves_if [leaves_intros]: "leaves a n \<Longrightarrow> leaves b n \<Longrightarrow> leaves (if P then a else b) n"
  by simp

lemma readUInt8_length: "readUInt8 c = Inr (b, c') \<Longrightarrow> length (fst c') < length (fst c)"
  by (cases c rule: readUInt8.cases) auto

lemma leaves_readUInt8 [leaves_intros]: "length (fst c) \<le> n \<Longrightarrow> leaves (readUInt8 c) n"
  by (cases c rule: readUInt8.cases) (auto simp: leaves_def)

lemma leaves_readUInt64 [leaves_intros]: "length (fst c) \<le> n \<Longrightarrow> leaves (readUInt64 c) n"
  by (cases c) (auto simp: leaves_def readUInt64_def readBigEndian64_def)

lemma leaves_readVarUInt [leaves_intros]: "length (fst c) \<le> n \<Longrightarrow> leaves (readVarUInt_cur c) n"
  by (cases c) (auto simp: leaves_def readVarUInt_cur_def Let_def split: sum.split)

lemma leaves_readRawString [leaves_intros]: "length (fst c) \<le> n \<Longrightarrow> leaves (readRawString c k) n"
  by (cases c) (auto simp: leaves_def readRawString_def)

lemma leaves_readVarString [leaves_intros]: "length (fst c) \<le> n \<Longrightarrow> leaves (readVarString c) n"
  unfolding readVarString_def readVarInt_cur_def by (auto intro!: leaves_intros)

subsection \<open>The write column family\<close>

record InnerDecodedWriteCFValue =
  write_type :: UInt8
  prewrite_ts :: Timestamp
  short_value :: "TiKVValue option"

datatype flag_action = Continue "bytes option" cursor | Ignored

definition write_flag :: "cursor \<Rightarrow> bytes option \<Rightarrow> flag_action result" where
  "write_flag c sv =
     rbind (readUInt8 c) (\<lambda>(flag, c1).
       if flag = SHORT_VALUE_PREFIX then
         rbind (readUInt8 c1) (\<lambda>(slen, c2).
           if ucast slen > snd c2 then throw ''content len not equal to short value len''
           else rbind (readRawString c2 (ucast slen)) (\<lambda>(s, c3). Inr (Continue (Some s) c3)))
       else if flag = FLAG_OVERLAPPED_ROLLBACK then Inr (Continue sv c1)
       else if flag = GC_FENCE_PREFIX then Inr Ignored
       else throw ''invalid flag  in write cf'')"

lemma write_flag_length:
  assumes "write_flag c sv = Inr (Continue sv' c')"
  shows "length (fst c') < length (fst c)"
proof -
  from assms obtain flag c1 where r: "readUInt8 c = Inr (flag, c1)"
    by (auto simp: write_flag_def rbind_eq_Inr)
  have "length (fst c') \<le> length (fst c1)"
    using assms unfolding write_flag_def r
    by (auto simp: rbind_eq_Inr split: if_splits
        dest!: leaves_D [OF leaves_readUInt8, OF order_refl] leaves_D [OF leaves_readRawString, OF order_refl])
  with readUInt8_length [OF r] show ?thesis by simp
qed

function decodeWriteCfValue_loop :: "cursor \<Rightarrow> bytes option \<Rightarrow> bytes option option result" where
  "decodeWriteCfValue_loop c sv =
     (if snd c \<noteq> 0 then
        rbind (write_flag c sv) (\<lambda>a.
          case a of Continue sv' c' \<Rightarrow> decodeWriteCfValue_loop c' sv' | Ignored \<Rightarrow> Inr None)
      else Inr (Some sv))"
  by pat_completeness auto
termination
  by (relation "measure (\<lambda>(c, sv). length (fst c))") (auto dest: write_flag_length)

definition decodeWriteCfValue :: "TiKVValue \<Rightarrow> InnerDecodedWriteCFValue option result" where
  "decodeWriteCfValue v =
     rbind (readUInt8 (str_cursor v)) (\<lambda>(wtype, c1).
       if wtype \<noteq> DelFlag \<and> wtype \<noteq> PutFlag then Inr None
       else
         rbind (readVarUInt_cur c1) (\<lambda>(ts, c2).
         rbind (decodeWriteCfValue_loop c2 None) (\<lambda>r.
           case r of None \<Rightarrow> Inr None
           | Some sv \<Rightarrow> Inr (Some \<lparr>write_type = wtype, prewrite_ts = ts,
               short_value = (case sv of None \<Rightarrow> None | Some s \<Rightarrow> if s = [] then None else Some s)\<rparr>))))"

definition encodeWriteCfValue :: "UInt8 \<Rightarrow> Timestamp \<Rightarrow> bytes \<Rightarrow> bool \<Rightarrow> TiKVValue" where
  "encodeWriteCfValue wtype ts sv gc_fence =
     [wtype] @ writeVarUInt ts
     @ (if sv \<noteq> [] then SHORT_VALUE_PREFIX # of_nat (length sv) # sv else [])
     @ [FLAG_OVERLAPPED_ROLLBACK]
     @ (if gc_fence then GC_FENCE_PREFIX # mem_of 8 (encodeUInt64 8888) else [])"

subsection \<open>The lock column family\<close>

text \<open>The operations of \<open>kvrpcpb::Op\<close> that the code names. \<open>Op_MIN\<close> is the value the parser starts
  with and keeps for an unknown lock type.\<close>

datatype lock_op = Op_MIN | Op_Put | Op_Del | Op_Lock | Op_PessimisticLock

definition LockType_op :: "UInt8 \<Rightarrow> lock_op" where
  "LockType_op b =
     (if b = 0x50 then Op_Put else if b = 0x44 then Op_Del else if b = 0x4C then Op_Lock
      else if b = 0x53 then Op_PessimisticLock else Op_MIN)"

record DecodedLockCFValue =
  lock_key :: TiKVKey
  lock_val :: TiKVValue
  lock_version :: UInt64
  lock_ttl :: UInt64
  txn_size :: UInt64
  lock_for_update_ts :: UInt64
  lock_type :: lock_op
  use_async_commit :: bool
  min_commit_ts :: UInt64
  secondaries :: bytes
  primary_lock :: bytes

fun skip_strings :: "nat \<Rightarrow> cursor \<Rightarrow> cursor result" where
  "skip_strings 0 c = Inr c"
| "skip_strings (Suc n) c = rbind (readVarString c) (\<lambda>(s, c'). skip_strings n c')"

fun skip_u64s :: "nat \<Rightarrow> cursor \<Rightarrow> cursor result" where
  "skip_u64s 0 c = Inr c"
| "skip_u64s (Suc n) c = rbind (readUInt64 c) (\<lambda>(x, c'). skip_u64s n c')"

lemma leaves_skip_strings:
  "length (fst c) \<le> n \<Longrightarrow> skip_strings k c = Inr c' \<Longrightarrow> length (fst c') \<le> n"
proof (induction k arbitrary: c)
  case (Suc k)
  then show ?case by (auto simp: rbind_eq_Inr dest: leaves_D [OF leaves_readVarString])
qed simp

lemma leaves_skip_u64s:
  "length (fst c) \<le> n \<Longrightarrow> skip_u64s k c = Inr c' \<Longrightarrow> length (fst c') \<le> n"
proof (induction k arbitrary: c)
  case (Suc k)
  then show ?case by (auto simp: rbind_eq_Inr dest: leaves_D [OF leaves_readUInt64])
qed simp

lemma leaves_rbind_skip_strings [leaves_intros]:
  assumes "length (fst c) \<le> n" and "\<And>c'. length (fst c') \<le> n \<Longrightarrow> leaves (f c') n"
  shows "leaves (rbind (skip_strings k c) f) n"
proof (cases "skip_strings k c")
  case (Inl e)
  then show ?thesis by (simp add: leaves_def)
next
  case (Inr c')
  then show ?thesis using assms(2) [OF leaves_skip_strings [OF assms(1) Inr]] by simp
qed

lemma leaves_rbind_skip_u64s [leaves_intros]:
  assumes "length (fst c) \<le> n" and "\<And>c'. length (fst c') \<le> n \<Longrightarrow> leaves (f c') n"
  shows "leaves (rbind (skip_u64s k c) f) n"
proof (cases "skip_u64s k c")
  case (Inl e)
  then show ?thesis by (simp add: leaves_def)
next
  case (Inr c')
  then show ?thesis using assms(2) [OF leaves_skip_u64s [OF assms(1) Inr]] by simp
qed

text \<open>One turn of the loop over the optional fields: read a flag, then what it announces.\<close>

definition lock_flag :: "DecodedLockCFValue \<Rightarrow> cursor \<Rightarrow> (DecodedLockCFValue \<times> cursor) result" where
  "lock_flag res c =
     rbind (readUInt8 c) (\<lambda>(flag, c1).
       if flag = SHORT_VALUE_PREFIX then
         rbind (readUInt8 c1) (\<lambda>(str_len, c2).
           if snd c2 < ucast str_len then throw ''content len shorter than short value len''
           else rbind (readRawString c2 (ucast str_len)) (\<lambda>(s, c3). Inr (res, c3)))
       else if flag = MIN_COMMIT_TS_PREFIX then
         rbind (readUInt64 c1) (\<lambda>(x, c2). Inr (res\<lparr>min_commit_ts := x\<rparr>, c2))
       else if flag = FOR_UPDATE_TS_PREFIX then
         rbind (readUInt64 c1) (\<lambda>(x, c2). Inr (res\<lparr>lock_for_update_ts := x\<rparr>, c2))
       else if flag = TXN_SIZE_PREFIX then
         rbind (readUInt64 c1) (\<lambda>(x, c2). Inr (res\<lparr>txn_size := x\<rparr>, c2))
       else if flag = ASYNC_COMMIT_PREFIX then
         rbind (readVarUInt_cur c1) (\<lambda>(cnt, c2). rbind (skip_strings (unat cnt) c2) (\<lambda>c3.
           Inr (res\<lparr>use_async_commit := True,
                 secondaries := take (length (fst c1) - length (fst c3)) (fst c1)\<rparr>, c3)))
       else if flag = ROLLBACK_TS_PREFIX then
         rbind (readVarUInt_cur c1) (\<lambda>(cnt, c2). rbind (skip_u64s (unat cnt) c2) (\<lambda>c3. Inr (res, c3)))
       else throw ''invalid flag  in lock value '')"

lemma lock_flag_length:
  assumes "lock_flag res c = Inr (res', c')"
  shows "length (fst c') < length (fst c)"
proof -
  from assms obtain flag c1 where r: "readUInt8 c = Inr (flag, c1)"
    by (auto simp: lock_flag_def rbind_eq_Inr)
  have "leaves (lock_flag res c) (length (fst c1))"
    unfolding lock_flag_def r rbind_Inr prod.case
    by (intro leaves_if leaves_throw; auto intro!: leaves_intros)
  from leaves_D [OF this assms] readUInt8_length [OF r] show ?thesis by simp
qed

function lock_flags :: "DecodedLockCFValue \<Rightarrow> cursor \<Rightarrow> (DecodedLockCFValue \<times> cursor) result" where
  "lock_flags res c =
     (if snd c > 0 then rbind (lock_flag res c) (\<lambda>(res', c'). lock_flags res' c') else Inr (res, c))"
  by pat_completeness auto
termination
  by (relation "measure (\<lambda>(res, c). length (fst c))") (auto dest: lock_flag_length)

definition decodeLockCfValue :: "TiKVKey \<Rightarrow> TiKVValue \<Rightarrow> DecodedLockCFValue result" where
  "decodeLockCfValue key v =
     rbind (readUInt8 (str_cursor v)) (\<lambda>(ty, c1).
     rbind (readVarString c1) (\<lambda>(primary, c2).
     rbind (readVarUInt_cur c2) (\<lambda>(version, c3).
       let res = \<lparr>lock_key = key, lock_val = v, lock_version = version, lock_ttl = 0, txn_size = 0,
             lock_for_update_ts = 0, lock_type = LockType_op ty, use_async_commit = False,
             min_commit_ts = 0, secondaries = [], primary_lock = primary\<rparr>
       in rbind (if snd c3 > 0
              then rbind (readVarUInt_cur c3) (\<lambda>(ttl, c4). lock_flags (res\<lparr>lock_ttl := ttl\<rparr>) c4)
              else Inr (res, c3)) (\<lambda>(res', c').
            if snd c' \<noteq> 0 then throw ''invalid lock value '' else Inr res'))))"

definition encodeLockCfValue ::
  "UInt8 \<Rightarrow> bytes \<Rightarrow> Timestamp \<Rightarrow> UInt64 \<Rightarrow> bytes option \<Rightarrow> Timestamp \<Rightarrow> TiKVValue" where
  "encodeLockCfValue ty primary ts ttl sv min_ts =
     [ty] @ writeVarInt (of_nat (length primary)) @ primary @ writeVarUInt ts @ writeVarUInt ttl
     @ (case sv of None \<Rightarrow> [] | Some s \<Rightarrow> SHORT_VALUE_PREFIX # of_nat (length s) # s)
     @ (if min_ts \<noteq> 0 then MIN_COMMIT_TS_PREFIX # mem_of 8 (encodeUInt64 min_ts) else [])"

text \<open>The fields of \<open>kvrpcpb::LockInfo\<close> that \<open>intoLockInfo\<close> sets.\<close>

record LockInfo =
  li_lock_type :: lock_op
  li_primary_lock :: bytes
  li_lock_version :: UInt64
  li_lock_ttl :: UInt64
  li_min_commit_ts :: UInt64
  li_lock_for_update_ts :: UInt64
  li_txn_size :: UInt64
  li_use_async_commit :: bool
  li_key :: bytes
  li_secondaries :: "bytes list"

fun read_strings :: "nat \<Rightarrow> cursor \<Rightarrow> bytes list result" where
  "read_strings 0 c = Inr []"
| "read_strings (Suc n) c =
     rbind (readVarString c) (\<lambda>(s, c'). rbind (read_strings n c') (\<lambda>ss. Inr (s # ss)))"

definition intoLockInfo :: "DecodedLockCFValue \<Rightarrow> LockInfo result" where
  "intoLockInfo v =
     rbind (decodeTiKVKey (lock_key v)) (\<lambda>raw_key.
     rbind (if use_async_commit v
            then rbind (readVarUInt_cur (secondaries v, of_nat (length (secondaries v))))
                   (\<lambda>(cnt, c). read_strings (unat cnt) c)
            else Inr []) (\<lambda>secs.
       Inr \<lparr>li_lock_type = lock_type v, li_primary_lock = primary_lock v, li_lock_version = lock_version v,
         li_lock_ttl = lock_ttl v, li_min_commit_ts = min_commit_ts v,
         li_lock_for_update_ts = lock_for_update_ts v, li_txn_size = txn_size v,
         li_use_async_commit = use_async_commit v, li_key = raw_key, li_secondaries = secs\<rparr>))"

declare decodeWriteCfValue_loop.simps [simp del] lock_flags.simps [simp del]

subsection \<open>Readers on well-formed strings\<close>

lemma readUInt8_cursor [codec_simps]: "readUInt8 (str_cursor (b # d)) = Inr (b, str_cursor d)"
  by (simp add: str_cursor_def)

lemma unat_len: "length d < 2 ^ 64 \<Longrightarrow> unat (snd (str_cursor d)) = length d"
  by (simp add: str_cursor_def unat_of_nat_64)

lemma snd_str_cursor_zero: "length d < 2 ^ 64 \<Longrightarrow> snd (str_cursor d) = 0 \<longleftrightarrow> d = []"
  using unat_len [of d] by (metis length_0_conv unat_0 unat_eq_zero)

lemma readUInt64_cursor [codec_simps]: "readUInt64 (str_cursor (mem_of 8 (encodeUInt64 x) @ d)) = Inr (x, str_cursor d)"
  by (simp add: readUInt64_def str_cursor_def readBigEndian64_def mem_of_encodeUInt64 EncodeUInt64_def
      load_toBigEndian64 algebra_simps)

lemma readVarUInt_cursor [codec_simps]:
  assumes "length (writeVarUInt x @ d) < 2 ^ 64"
  shows "readVarUInt_cur (str_cursor (writeVarUInt x @ d)) = Inr (x, str_cursor d)"
proof -
  let ?s = "writeVarUInt x @ d"
  have "unat (of_nat (length ?s) :: UInt64) = length ?s" using assms by (rule unat_of_nat_64)
  then have t: "take (unat (of_nat (length ?s) :: UInt64)) (?s @ [0]) = ?s" by simp
  show ?thesis
    unfolding readVarUInt_cur_def str_cursor_def prod.case t readVarUInt_writeVarUInt sum.case Let_def
    by simp
qed

lemma readVarInt_cursor [codec_simps]:
  assumes "length (writeVarInt x @ d) < 2 ^ 64"
  shows "readVarInt_cur (str_cursor (writeVarInt x @ d)) = Inr (x, str_cursor d)"
  using readVarUInt_cursor [of "zigzag x" d] assms by (simp add: readVarInt_cur_def writeVarInt_def unzigzag_zigzag)

lemma readRawString_cursor [codec_simps]:
  assumes "unat n = length s"
  shows "readRawString (str_cursor (s @ d)) n = Inr (s, str_cursor d)"
proof -
  have "n = of_nat (length s)" using assms by (metis of_nat_unat ucast_id)
  then show ?thesis using assms by (simp add: readRawString_def str_cursor_def)
qed

lemma readVarString_cursor [codec_simps]:
  assumes "length (writeVarInt (of_nat (length s)) @ s @ d) < 2 ^ 64"
  shows "readVarString (str_cursor (writeVarInt (of_nat (length s)) @ s @ d)) = Inr (s, str_cursor d)"
proof -
  have "unat (of_nat (length s) :: UInt64) = length s" using assms by (simp add: unat_of_nat_64)
  then show ?thesis using assms by (simp add: readVarString_def readVarInt_cursor readRawString_cursor)
qed

subsection \<open>Round trip of the write column family\<close>

lemma length_writeVarUInt_max: "length (writeVarUInt x) \<le> 10"
proof -
  have "unat x < 2 ^ (7 * Suc 9)" using unsigned_less [of x] by (rule less_trans) simp
  from length_writeVarUInt_le [OF this] show ?thesis by simp
qed

lemma short_value_len:
  assumes "length s \<le> 255"
  shows "unat (ucast (of_nat (length s) :: byte) :: UInt64) = length s"
proof -
  have "unat (of_nat (length s) :: byte) = length s" using assms by (simp only: unat_of_nat) simp
  then show ?thesis by (simp add: unat_ucast_byte)
qed

lemma write_flag_short_value:
  assumes "length s \<le> 255" "length (s @ d) < 2 ^ 64"
  shows "write_flag (str_cursor (SHORT_VALUE_PREFIX # of_nat (length s) # s @ d)) sv =
    Inr (Continue (Some s) (str_cursor d))"
proof -
  have "\<not> ucast (of_nat (length s) :: byte) > snd (str_cursor (s @ d))"
    using short_value_len [OF assms(1)] unat_len [OF assms(2)] by (simp add: word_less_nat_alt)
  then show ?thesis
    by (simp add: write_flag_def readUInt8_cursor readRawString_cursor [OF short_value_len [OF assms(1)]])
qed

lemma write_flag_others:
  "write_flag (str_cursor (FLAG_OVERLAPPED_ROLLBACK # d)) sv = Inr (Continue sv (str_cursor d))"
  "write_flag (str_cursor (GC_FENCE_PREFIX # d)) sv = Inr Ignored"
  by (simp_all add: write_flag_def readUInt8_cursor record_constants)

lemma write_loop_Cons:
  assumes "length (b # d) < 2 ^ 64"
  shows "decodeWriteCfValue_loop (str_cursor (b # d)) sv =
    rbind (write_flag (str_cursor (b # d)) sv) (\<lambda>a.
      case a of Continue sv' c' \<Rightarrow> decodeWriteCfValue_loop c' sv' | Ignored \<Rightarrow> Inr None)"
proof -
  have "snd (str_cursor (b # d)) \<noteq> 0" using snd_str_cursor_zero [OF assms] by simp
  then show ?thesis by (subst decodeWriteCfValue_loop.simps) simp
qed

lemma write_loop_Nil: "decodeWriteCfValue_loop (str_cursor []) sv = Inr (Some sv)"
  by (subst decodeWriteCfValue_loop.simps) (simp add: str_cursor_def)

lemma decodeWriteCfValue_encode:
  assumes "length sv \<le> 255"
  shows "decodeWriteCfValue (encodeWriteCfValue ty ts sv gc_fence) =
    Inr (if (ty = PutFlag \<or> ty = DelFlag) \<and> \<not> gc_fence
         then Some \<lparr>write_type = ty, prewrite_ts = ts, short_value = (if sv = [] then None else Some sv)\<rparr>
         else None)"
proof -
  define tl1 where "tl1 = FLAG_OVERLAPPED_ROLLBACK # (if gc_fence then GC_FENCE_PREFIX # mem_of 8 (encodeUInt64 8888) else [])"
  define tl where "tl = (if sv \<noteq> [] then SHORT_VALUE_PREFIX # of_nat (length sv) # sv else []) @ tl1"
  have w: "length (writeVarUInt ts) \<le> 10" by (rule length_writeVarUInt_max)
  have l1: "length tl1 \<le> 10" by (simp add: tl1_def)
  have short: "length tl1 < 2 ^ 64" "length (writeVarUInt ts @ tl) < 2 ^ 64" "length (sv @ tl1) < 2 ^ 64"
      "length tl < 2 ^ 64" using assms l1 w by (auto simp: tl_def)
  have loop1: "decodeWriteCfValue_loop (str_cursor tl1) x = (if gc_fence then Inr None else Inr (Some x))" for x
    unfolding tl1_def by (auto simp: write_loop_Cons write_flag_others write_loop_Nil)
  have loop: "decodeWriteCfValue_loop (str_cursor tl) None =
      (if gc_fence then Inr None else Inr (Some (if sv = [] then None else Some sv)))"
  proof (cases "sv = []")
    case True
    then show ?thesis by (simp add: tl_def loop1)
  next
    case False
    then show ?thesis using short write_loop_Cons [of SHORT_VALUE_PREFIX "of_nat (length sv) # sv @ tl1" None]
      by (simp add: tl_def write_flag_short_value [OF assms] loop1)
  qed
  have enc: "encodeWriteCfValue ty ts sv gc_fence = ty # writeVarUInt ts @ tl"
    by (simp add: encodeWriteCfValue_def tl_def tl1_def)
  show ?thesis unfolding enc decodeWriteCfValue_def
    by (auto simp: readUInt8_cursor readVarUInt_cursor [OF short(2)] loop)
qed


text \<open>A value that ends after the prefix of a short value: the length byte is read from the terminating
  zero, the remaining length wraps, and the test against it does not stop the parser.\<close>

lemma decodeWriteCfValue_truncated:
  "decodeWriteCfValue (PutFlag # writeVarUInt ts @ [SHORT_VALUE_PREFIX]) = Inl OutOfBounds"
proof -
  have w: "length (writeVarUInt ts @ [SHORT_VALUE_PREFIX]) < 2 ^ 64"
    using length_writeVarUInt_max [of ts] by simp
  have flag: "write_flag (str_cursor [SHORT_VALUE_PREFIX]) None = Inr (Continue (Some []) ([], - 1))"
    by (simp add: write_flag_def readUInt8_cursor) (simp add: str_cursor_def readRawString_def)
  have "decodeWriteCfValue_loop ([], - 1) sv = Inl OutOfBounds" for sv
    by (subst decodeWriteCfValue_loop.simps) (simp add: write_flag_def)
  then show ?thesis unfolding decodeWriteCfValue_def
    by (simp add: readUInt8_cursor readVarUInt_cursor [OF w] write_loop_Cons flag)
qed

subsection \<open>Round trip of the lock column family\<close>

lemma lock_flag_short_value:
  assumes "length s \<le> 255" "length (s @ d) < 2 ^ 64"
  shows "lock_flag res (str_cursor (SHORT_VALUE_PREFIX # of_nat (length s) # s @ d)) = Inr (res, str_cursor d)"
proof -
  have "\<not> snd (str_cursor (s @ d)) < ucast (of_nat (length s) :: byte)"
    using short_value_len [OF assms(1)] unat_len [OF assms(2)] by (simp add: word_less_nat_alt)
  then show ?thesis
    by (simp add: lock_flag_def readUInt8_cursor readRawString_cursor [OF short_value_len [OF assms(1)]])
qed

lemma lock_flag_u64:
  "lock_flag res (str_cursor (MIN_COMMIT_TS_PREFIX # mem_of 8 (encodeUInt64 x) @ d)) =
    Inr (res\<lparr>min_commit_ts := x\<rparr>, str_cursor d)"
  "lock_flag res (str_cursor (FOR_UPDATE_TS_PREFIX # mem_of 8 (encodeUInt64 x) @ d)) =
    Inr (res\<lparr>lock_for_update_ts := x\<rparr>, str_cursor d)"
  "lock_flag res (str_cursor (TXN_SIZE_PREFIX # mem_of 8 (encodeUInt64 x) @ d)) =
    Inr (res\<lparr>txn_size := x\<rparr>, str_cursor d)"
  by (simp_all add: lock_flag_def readUInt8_cursor readUInt64_cursor record_constants)

lemma lock_flags_Cons:
  assumes "length (b # d) < 2 ^ 64"
  shows "lock_flags res (str_cursor (b # d)) =
    rbind (lock_flag res (str_cursor (b # d))) (\<lambda>(res', c'). lock_flags res' c')"
proof -
  have "snd (str_cursor (b # d)) > 0"
    using snd_str_cursor_zero [OF assms] by (simp add: word_neq_0_conv [symmetric])
  then show ?thesis by (subst lock_flags.simps) simp
qed

lemma lock_flags_Nil: "lock_flags res (str_cursor []) = Inr (res, str_cursor [])"
  by (subst lock_flags.simps) (simp add: str_cursor_def)

lemma decodeLockCfValue_encode:
  assumes sv: "\<forall>s. sv = Some s \<longrightarrow> length s \<le> 255" and "length primary < 2 ^ 63"
  shows "decodeLockCfValue key (encodeLockCfValue ty primary ts ttl sv min_ts) =
    Inr \<lparr>lock_key = key, lock_val = encodeLockCfValue ty primary ts ttl sv min_ts, lock_version = ts,
      lock_ttl = ttl, txn_size = 0, lock_for_update_ts = 0, lock_type = LockType_op ty,
      use_async_commit = False, min_commit_ts = min_ts, secondaries = [], primary_lock = primary\<rparr>"
proof -
  define t2 where "t2 = (if min_ts \<noteq> 0 then MIN_COMMIT_TS_PREFIX # mem_of 8 (encodeUInt64 min_ts) else [])"
  define t1 where "t1 = (case sv of None \<Rightarrow> [] | Some s \<Rightarrow> SHORT_VALUE_PREFIX # of_nat (length s) # s) @ t2"
  have w: "length (writeVarUInt x) \<le> 10" "length (writeVarInt y) \<le> 10" for x y
    by (simp_all add: length_writeVarUInt_max writeVarInt_def)
  have l: "length t2 \<le> 9" "length t1 \<le> 266" using sv by (auto simp: t1_def t2_def split: option.splits)
  have short: "length (writeVarInt (of_nat (length primary)) @ primary @ writeVarUInt ts @ writeVarUInt ttl @ t1) < 2 ^ 64"
      "length (writeVarUInt ts @ writeVarUInt ttl @ t1) < 2 ^ 64" "length (writeVarUInt ttl @ t1) < 2 ^ 64"
    using l w(1) [of ts] w(1) [of ttl] w(2) [of "of_nat (length primary)"] assms(2) by auto
  have f2: "lock_flags res (str_cursor t2) = Inr (if min_ts \<noteq> 0 then res\<lparr>min_commit_ts := min_ts\<rparr> else res, str_cursor [])" for res
    using lock_flag_u64(1) [of _ min_ts "[]"] by (auto simp: t2_def lock_flags_Cons lock_flags_Nil)
  have f1: "lock_flags res (str_cursor t1) = lock_flags res (str_cursor t2)" for res
  proof (cases sv)
    case (Some s)
    then have s: "length s \<le> 255" "length (s @ t2) < 2 ^ 64" using sv l(1) by auto
    then show ?thesis using Some l(1) lock_flags_Cons [of SHORT_VALUE_PREFIX "of_nat (length s) # s @ t2" res]
      by (simp add: t1_def lock_flag_short_value [OF s])
  qed (simp add: t1_def)
  have ne: "writeVarUInt ttl @ t1 \<noteq> []" by (subst writeVarUInt.simps) simp
  have more: "snd (str_cursor (writeVarUInt ttl @ t1)) > 0"
    using snd_str_cursor_zero [OF short(3)] ne by (simp add: word_neq_0_conv [symmetric])
  have z: "snd (str_cursor []) = 0" by (simp add: str_cursor_def)
  have enc: "encodeLockCfValue ty primary ts ttl sv min_ts =
      ty # writeVarInt (of_nat (length primary)) @ primary @ writeVarUInt ts @ writeVarUInt ttl @ t1"
    by (simp add: encodeLockCfValue_def t1_def t2_def)
  show ?thesis
    unfolding decodeLockCfValue_def
    by (subst enc) (simp add: readUInt8_cursor readVarString_cursor [OF short(1)] readVarUInt_cursor [OF short(2)]
        readVarUInt_cursor [OF short(3)] more f1 f2 z Let_def)
qed

subsection \<open>Properties\<close>

text \<open>
  C38: the parser of write values reads back what the encoder wrote, type, start timestamp and short value, and
  ignores a value of another type than put and delete or with a GC fence. The parser of lock values reads back
  type, primary key, start timestamp, time to live and minimal commit timestamp, and skips the short value.
\<close>

theorem cf_value_roundtrip:
  assumes "length sv \<le> 255" and "length primary < 2 ^ 63"
  shows "decodeWriteCfValue (encodeWriteCfValue ty ts sv gc_fence) =
      Inr (if (ty = PutFlag \<or> ty = DelFlag) \<and> \<not> gc_fence
           then Some \<lparr>write_type = ty, prewrite_ts = ts, short_value = (if sv = [] then None else Some sv)\<rparr>
           else None)
    \<and> (\<forall>s \<in> {None, Some sv}. decodeLockCfValue key (encodeLockCfValue lty primary ts ttl s min_ts) =
      Inr \<lparr>lock_key = key, lock_val = encodeLockCfValue lty primary ts ttl s min_ts, lock_version = ts,
        lock_ttl = ttl, txn_size = 0, lock_for_update_ts = 0, lock_type = LockType_op lty,
        use_async_commit = False, min_commit_ts = min_ts, secondaries = [], primary_lock = primary\<rparr>)"
  using decodeWriteCfValue_encode [OF assms(1)] decodeLockCfValue_encode [of None primary] decodeLockCfValue_encode [of "Some sv" primary] assms
  by simp

theorem cf_value_roundtrip_witness:
  "decodeWriteCfValue (encodeWriteCfValue PutFlag 77 [1, 2, 3] False) =
     Inr (Some \<lparr>write_type = PutFlag, prewrite_ts = 77, short_value = Some [1, 2, 3]\<rparr>)
   \<and> decodeLockCfValue [1] (encodeLockCfValue 0x44 [9, 8] 77 1000 (Some [1, 2, 3]) 6) =
    Inr \<lparr>lock_key = [1], lock_val = encodeLockCfValue 0x44 [9, 8] 77 1000 (Some [1, 2, 3]) 6, lock_version = 77,
      lock_ttl = 1000, txn_size = 0, lock_for_update_ts = 0, lock_type = Op_Del,
      use_async_commit = False, min_commit_ts = 6, secondaries = [], primary_lock = [9, 8]\<rparr>"
  using cf_value_roundtrip [of "[1, 2, 3]" "[9, 8]" PutFlag 77 False "[1]" "0x44" 1000 6] by (simp add: LockType_op_def)

text \<open>
  C39: a put value cut off after the prefix of its short value is not reported as an error: the length of
  the short value is read from the terminating zero, the remaining length wraps around, and the parser
  then reads outside of the value. The test of the length does not protect against it.
\<close>

theorem write_value_truncated:
  "decodeWriteCfValue (PutFlag # writeVarUInt ts @ [SHORT_VALUE_PREFIX]) = Inl OutOfBounds"
  by (rule decodeWriteCfValue_truncated)

end
