(* ===== verification/RangeKeys.thy ===== *)
theory RangeKeys
  imports CFValues
begin

unbundle bit_operations_syntax

section \<open>Key ranges of regions and handle ranges of tables\<close>

text \<open>
  \<open>RegionRangeKeys.h\<close> and the range part of \<open>RegionState.cpp\<close>: the bounds of a region as keys that
  can also be minus or plus infinity, their comparison, and the table a region belongs to.
  \<open>TiKVHandle.h\<close>, \<open>TiKVRange.h\<close> and \<open>TableRowIDMinMax.h\<close>: the range of row handles of a table
  that a range of raw keys covers.
\<close>

subsection \<open>Range keys\<close>

datatype rk_state = RK_MIN | RK_NORMAL | RK_MAX

fun state_code :: "rk_state \<Rightarrow> int" where
  "state_code RK_MIN = 1"
| "state_code RK_NORMAL = 2"
| "state_code RK_MAX = 4"

datatype TiKVRangeKey = TiKVRangeKey (rk_state: rk_state) (rk_key: TiKVKey)

text \<open>The sign of \<open>std::string::compare\<close>.\<close>

definition str_compare :: "bytes \<Rightarrow> bytes \<Rightarrow> int" where
  "str_compare a b = (if a < b then - 1 else if a = b then 0 else 1)"

definition compare_key :: "TiKVRangeKey \<Rightarrow> TiKVKey \<Rightarrow> int" where
  "compare_key x tar =
     (if rk_state x \<noteq> RK_NORMAL then state_code (rk_state x) - state_code RK_NORMAL
      else str_compare (rk_key x) tar)"

definition compare_range_key :: "TiKVRangeKey \<Rightarrow> TiKVRangeKey \<Rightarrow> int" where
  "compare_range_key x tar =
     (if rk_state x \<noteq> rk_state tar then state_code (rk_state x) - state_code (rk_state tar)
      else str_compare (rk_key x) (rk_key tar))"

definition makeTiKVRangeKey :: "bool \<Rightarrow> TiKVKey \<Rightarrow> TiKVRangeKey" where
  "makeTiKVRangeKey is_start key =
     TiKVRangeKey (if key = [] then (if is_start then RK_MIN else RK_MAX) else RK_NORMAL) key"

type_synonym RegionRange = "TiKVRangeKey \<times> TiKVRangeKey"

definition makeComparableKeys :: "TiKVKey \<Rightarrow> TiKVKey \<Rightarrow> RegionRange" where
  "makeComparableKeys start_key end_key = (makeTiKVRangeKey True start_key, makeTiKVRangeKey False end_key)"

text \<open>The comparison that \<open>TiKVRangeKeyCmp\<close> makes of it is a linear order.\<close>

instantiation TiKVRangeKey :: linorder
begin

definition less_TiKVRangeKey :: "TiKVRangeKey \<Rightarrow> TiKVRangeKey \<Rightarrow> bool" where
  "less_TiKVRangeKey x y \<longleftrightarrow> compare_range_key x y < 0"

definition less_eq_TiKVRangeKey :: "TiKVRangeKey \<Rightarrow> TiKVRangeKey \<Rightarrow> bool" where
  "less_eq_TiKVRangeKey x y \<longleftrightarrow> compare_range_key x y \<le> 0"

instance
proof
  fix x y z :: TiKVRangeKey
  show "x < y \<longleftrightarrow> x \<le> y \<and> \<not> y \<le> x"
    by (cases "rk_state x"; cases "rk_state y")
      (auto simp: less_TiKVRangeKey_def less_eq_TiKVRangeKey_def compare_range_key_def str_compare_def)
  show "x \<le> x" by (simp add: less_eq_TiKVRangeKey_def compare_range_key_def str_compare_def)
  show "x \<le> y \<Longrightarrow> y \<le> z \<Longrightarrow> x \<le> z"
    by (cases "rk_state x"; cases "rk_state y"; cases "rk_state z")
      (auto simp: less_eq_TiKVRangeKey_def compare_range_key_def str_compare_def split: if_splits)
  show "x \<le> y \<Longrightarrow> y \<le> x \<Longrightarrow> x = y"
    by (cases x; cases y; cases "rk_state x"; cases "rk_state y")
      (auto simp: less_eq_TiKVRangeKey_def compare_range_key_def str_compare_def split: if_splits)
  show "x \<le> y \<or> y \<le> x"
    by (cases "rk_state x"; cases "rk_state y")
      (auto simp: less_eq_TiKVRangeKey_def compare_range_key_def str_compare_def)
qed

end

subsection \<open>Ranges of regions\<close>

definition computeMappedTableID :: "DecodedTiKVKey \<Rightarrow> TableID option result" where
  "computeMappedTableID key =
     (if length key \<ge> 1 + 8 + 2 \<and> key ! 0 = TABLE_PREFIX \<and> take 2 (drop 9 key) = RECORD_PREFIX_SEP
      then rbind (getTableId key) (\<lambda>t. Inr (Some t)) else Inr None)"

record RegionRangeKeys =
  ori :: RegionRange
  raw :: "DecodedTiKVKey \<times> DecodedTiKVKey"
  mapped_table_id :: TableID

definition decode_bound :: "TiKVKey \<Rightarrow> DecodedTiKVKey result" where
  "decode_bound key = (if key = [] then Inr [] else decodeTiKVKey key)"

definition mk_RegionRangeKeys :: "TiKVKey \<Rightarrow> TiKVKey \<Rightarrow> RegionRangeKeys result" where
  "mk_RegionRangeKeys start_key end_key =
     (let r = makeComparableKeys start_key end_key
      in rbind (decode_bound (rk_key (fst r))) (\<lambda>raw1.
         rbind (decode_bound (rk_key (snd r))) (\<lambda>raw2.
         rbind (computeMappedTableID raw1) (\<lambda>t.
           case t of
             None \<Rightarrow> throw ''Illegal region range, should not happen''
           | Some table_id \<Rightarrow>
               if compare_range_key (fst r) (snd r) \<ge> 0
               then throw ''Illegal region range, should not happen''
               else Inr \<lparr>ori = r, raw = (raw1, raw2), mapped_table_id = table_id\<rparr>))))"

subsection \<open>Handles\<close>

datatype HandleIDType = H_NORMAL | H_MAX

datatype Handle = Handle (handle_type: HandleIDType) (handle_id: HandleID)

definition normal_min :: Handle where
  "normal_min = Handle H_NORMAL (- (2 ^ 63))"

definition handle_max :: Handle where
  "handle_max = Handle H_MAX 0"

definition handle_less :: "Handle \<Rightarrow> Handle \<Rightarrow> bool" where
  "handle_less x y \<longleftrightarrow>
     (if handle_type x \<noteq> handle_type y then handle_type x = H_NORMAL else handle_id x <s handle_id y)"

definition id_less_handle :: "HandleID \<Rightarrow> Handle \<Rightarrow> bool" where
  "id_less_handle i y \<longleftrightarrow> handle_type y = H_MAX \<or> i <s handle_id y"

definition id_greater_handle :: "HandleID \<Rightarrow> Handle \<Rightarrow> bool" where
  "id_greater_handle i y \<longleftrightarrow> handle_type y = H_NORMAL \<and> handle_id y <s i"

definition id_geq_handle :: "HandleID \<Rightarrow> Handle \<Rightarrow> bool" where
  "id_geq_handle i y \<longleftrightarrow> \<not> id_less_handle i y"

type_synonym HandleRange = "Handle \<times> Handle"

text \<open>\<open>TableRowIDMinMax\<close> keeps the two keys of a table in a cache; the model computes them.\<close>

definition table_handle_min :: "TableID \<Rightarrow> DecodedTiKVKey" where
  "table_handle_min table_id = genRawKey table_id (- (2 ^ 63))"

definition table_handle_max :: "TableID \<Rightarrow> DecodedTiKVKey" where
  "table_handle_max table_id = genRawKey table_id (2 ^ 63 - 1)"

definition getRangeHandle :: "bool \<Rightarrow> DecodedTiKVKey \<Rightarrow> TableID \<Rightarrow> Handle result" where
  "getRangeHandle is_start key table_id =
     (if key = [] then Inr (if is_start then normal_min else handle_max)
      else if key \<le> table_handle_min table_id then Inr normal_min
      else if key > table_handle_max table_id then Inr handle_max
      else if length key = RAW_KEY_SIZE then rbind (getHandle key) (\<lambda>h. Inr (Handle H_NORMAL h))
      else if length key < RAW_KEY_SIZE then
        (if length key < RAW_KEY_NO_HANDLE_SIZE then Inl OutOfBounds
         else
           (let n = length key - RAW_KEY_NO_HANDLE_SIZE;
                tmp = load_le (drop RAW_KEY_NO_HANDLE_SIZE key @ replicate (8 - n) 0)
            in Inr (Handle H_NORMAL (decodeInt64 tmp))))
      else rbind (getHandle key) (\<lambda>res. Inr (Handle H_NORMAL (res + 1))))"

definition getRangeHandle_tikv :: "bool \<Rightarrow> TiKVKey \<Rightarrow> TableID \<Rightarrow> Handle result" where
  "getRangeHandle_tikv is_start tikv_key table_id =
     (if tikv_key = [] then Inr (if is_start then normal_min else handle_max)
      else rbind (decodeTiKVKey tikv_key) (\<lambda>key. getRangeHandle is_start key table_id))"

definition getHandleRangeByTable :: "DecodedTiKVKey \<times> DecodedTiKVKey \<Rightarrow> TableID \<Rightarrow> HandleRange result" where
  "getHandleRangeByTable rawKeys table_id =
     rbind (getRangeHandle True (fst rawKeys) table_id) (\<lambda>start_handle.
     rbind (getRangeHandle False (snd rawKeys) table_id) (\<lambda>end_handle.
       Inr (start_handle, end_handle)))"

subsection \<open>Handle ranges\<close>

definition table_prefix :: "TableID \<Rightarrow> bytes" where
  "table_prefix t = TABLE_PREFIX # EncodeInt64 t @ RECORD_PREFIX_SEP"

lemma genRawKey_prefix: "genRawKey t h = table_prefix t @ EncodeInt64 h"
  by (simp add: genRawKey_def table_prefix_def mem_of_encodeInt64)

lemma length_table_prefix [simp]: "length (table_prefix t) = 11"
  by (simp add: table_prefix_def record_constants)

lemma EncodeInt64_extremes:
  "EncodeInt64 (- (2 ^ 63)) = replicate 8 0" "EncodeInt64 (2 ^ 63 - 1) = replicate 8 (- 1)"
proof -
  have m: "(- (2 ^ 63) :: Int64) XOR SIGN_MASK = 0" "((2 ^ 63 - 1) :: Int64) XOR SIGN_MASK = - 1"
    by (simp_all add: SIGN_MASK_def)
  have "mem_of 8 (0 :: Int64) = replicate 8 0"
    by (rule nth_equalityI) (simp_all add: nth_mem_of)
  moreover have "mem_of 8 (- 1 :: Int64) = replicate 8 (- 1)"
  proof (rule nth_equalityI)
    fix i assume "i < length (mem_of 8 (- 1 :: Int64))"
    then show "mem_of 8 (- 1 :: Int64) ! i = replicate 8 (- 1) ! i"
      by (intro bit_word_eqI) (simp add: bit_nth_mem_of)
  qed simp
  ultimately show "EncodeInt64 (- (2 ^ 63)) = replicate 8 0" "EncodeInt64 (2 ^ 63 - 1) = replicate 8 (- 1)"
    unfolding EncodeInt64_def EncodeUInt64_def m mem_of_toBigEndian64 by simp_all
qed

lemma EncodeInt64_decode: "length r = 8 \<Longrightarrow> EncodeInt64 (decodeInt64 (load_le r)) = r"
  by (simp add: EncodeInt64_def EncodeUInt64_def decodeInt64_def decodeUInt64_def mem_of_load_le)

lemma between_prefix:
  assumes "xs @ us < k" "k \<le> xs @ vs"
  shows "\<exists>r. k = (xs :: bytes) @ r"
  using assms
proof (induction xs arbitrary: k)
  case (Cons x xs)
  then obtain y k' where k: "k = y # k'" by (cases k) auto
  with Cons.prems have "y = x" "xs @ us < k'" "k' \<le> xs @ vs" by auto
  then show ?case using Cons.IH [of k'] k by auto
qed simp

lemma append_less_same [simp]: "(xs :: bytes) @ us < xs @ vs \<longleftrightarrow> us < vs"
  by (induction xs) auto

lemma pad_zero_less:
  "length r \<le> length x \<Longrightarrow> (x :: bytes) < r \<longleftrightarrow> x < r @ replicate (length x - length r) 0"
proof (induction r arbitrary: x)
  case Nil
  have "\<not> x < replicate (length x) 0" using zeros_min [of x "length x"] by (simp add: not_less)
  then show ?case by simp
next
  case (Cons a r)
  then obtain y x' where "x = y # x'" by (cases x) auto
  then show ?case using Cons by auto
qed

lemma longer_less: "length x < length r \<Longrightarrow> (x :: bytes) < r \<longleftrightarrow> x \<le> take (length x) r"
proof (induction x arbitrary: r)
  case (Cons a x)
  then obtain b r' where "r = b # r'" by (cases r) auto
  then show ?case using Cons by auto
qed (auto simp: neq_Nil_conv)

lemma full_max: "length x = n \<Longrightarrow> x \<le> replicate n (- 1 :: byte)"
proof (induction n arbitrary: x)
  case (Suc n)
  then obtain y x' where x: "x = y # x'" "length x' = n" by (cases x) auto
  have "y \<le> - 1" by (rule word_order.extremum)
  then show ?case using Suc.IH [OF x(2)] x(1) by (auto simp: order_le_less)
qed simp

lemma table_handle_bounds:
  "table_handle_min t \<le> genRawKey t h" "genRawKey t h \<le> table_handle_max t"
proof -
  show "table_handle_min t \<le> genRawKey t h"
    unfolding table_handle_min_def genRawKey_prefix EncodeInt64_extremes
    using zeros_min [of "EncodeInt64 h" 8] by (auto simp: order_le_less)
  show "genRawKey t h \<le> table_handle_max t"
    unfolding table_handle_max_def genRawKey_prefix EncodeInt64_extremes
    using full_max [of "EncodeInt64 h" 8] by (auto simp: order_le_less)
qed

lemma not_less_normal_min: "\<not> id_less_handle h normal_min"
  by (simp add: id_less_handle_def normal_min_def word_sless_alt) (use sint_greater_eq [of h] in simp)

lemma succ_handle_less:
  assumes "h' \<noteq> (2 ^ 63 - 1 :: Int64)"
  shows "h <s h' + 1 \<longleftrightarrow> \<not> h' <s h"
proof -
  have "sint h' < 2 ^ 63" using sint_less [of h'] by simp
  moreover have "sint h' \<noteq> 2 ^ 63 - 1"
  proof
    assume "sint h' = 2 ^ 63 - 1"
    then have "scast h' = (word_of_int (2 ^ 63 - 1) :: Int64)" by (simp only: scast_eq)
    then show False using assms by simp
  qed
  ultimately have "sint h' + 1 < 2 ^ 63" by simp
  moreover have "- (2 ^ 63) \<le> sint h' + 1" using sint_greater_eq [of h'] by simp
  ultimately have "sint (h' + 1) = sint h' + 1"
    by (simp add: sint_word_add signed_take_bit_int_eq_self)
  then show ?thesis by (simp add: word_sless_alt) linarith
qed

lemma getRangeHandle_inside:
  assumes "table_handle_min t < key" "key \<le> table_handle_max t"
  shows "\<exists>hd. getRangeHandle st key t = Inr hd \<and> (\<forall>h. genRawKey t h < key \<longleftrightarrow> id_less_handle h hd)"
proof -
  obtain r where key: "key = table_prefix t @ r"
    using between_prefix assms unfolding table_handle_min_def table_handle_max_def genRawKey_prefix by blast
  have r0: "replicate 8 0 < r" and r1: "r \<le> replicate 8 (- 1)"
    using assms unfolding key table_handle_min_def table_handle_max_def genRawKey_prefix EncodeInt64_extremes
    by (simp_all add: order_le_less)
  have less: "genRawKey t h < key \<longleftrightarrow> EncodeInt64 h < r" for h by (simp add: genRawKey_prefix key)
  have g: "getRangeHandle st key t =
     (if length r = 8 then Inr (Handle H_NORMAL (decodeInt64 (load_le r)))
      else if length r < 8 then Inr (Handle H_NORMAL (decodeInt64 (load_le (r @ replicate (8 - length r) 0))))
      else Inr (Handle H_NORMAL (decodeInt64 (load_le (take 8 r)) + 1)))"
  proof -
    have c: "key \<noteq> []" "\<not> key \<le> table_handle_min t" "\<not> key > table_handle_max t"
      using assms length_table_prefix [of t] by (auto simp: key not_less)
    have l: "length key = 11 + length r" "drop 11 key = r" by (simp_all add: key)
    show ?thesis
      using c by (simp add: getRangeHandle_def l getHandle_def read_u64_def record_constants Let_def)
  qed
  consider "length r = 8" | "length r < 8" | "length r > 8" by linarith
  then show ?thesis
  proof cases
    case 1
    let ?h = "decodeInt64 (load_le r)"
    have "EncodeInt64 h < r \<longleftrightarrow> h <s ?h" for h
      using EncodeInt64_less_iff [of h ?h] by (simp only: EncodeInt64_decode [OF 1])
    then show ?thesis using g 1 by (simp add: less id_less_handle_def)
  next
    case 2
    let ?r = "r @ replicate (8 - length r) 0"
    let ?h = "decodeInt64 (load_le ?r)"
    have l: "length ?r = 8" using 2 by simp
    have "EncodeInt64 h < r \<longleftrightarrow> h <s ?h" for h
      using pad_zero_less [of r "EncodeInt64 h"] EncodeInt64_less_iff [of h ?h] 2
      by (simp only: EncodeInt64_decode [OF l]) simp
    then show ?thesis using g 2 by (simp add: less id_less_handle_def)
  next
    case 3
    let ?h = "decodeInt64 (load_le (take 8 r))"
    have l: "length (take 8 r) = 8" using 3 by simp
    have "take 8 r \<noteq> replicate 8 (- 1)"
    proof
      assume "take 8 r = replicate 8 (- 1)"
      then have "replicate 8 (- 1) < r" using longer_less [of "replicate 8 (- 1)" r] 3 by simp
      then show False using r1 by simp
    qed
    then have "?h \<noteq> 2 ^ 63 - 1" using EncodeInt64_decode [OF l] EncodeInt64_extremes(2) by metis
    moreover have "EncodeInt64 h < r \<longleftrightarrow> \<not> ?h <s h" for h
      using longer_less [of "EncodeInt64 h" r] EncodeInt64_less_iff [of ?h h] 3
      by (simp only: EncodeInt64_decode [OF l]) (simp flip: not_less)
    ultimately show ?thesis using g 3 by (simp add: less id_less_handle_def succ_handle_less)
  qed
qed

lemma getRangeHandle_less:
  assumes "key \<noteq> []"
  shows "\<exists>hd. getRangeHandle st key t = Inr hd \<and> (\<forall>h. genRawKey t h < key \<longleftrightarrow> id_less_handle h hd)"
proof -
  consider "key \<le> table_handle_min t" | "key > table_handle_max t" "\<not> key \<le> table_handle_min t"
    | "table_handle_min t < key" "key \<le> table_handle_max t" by fastforce
  then show ?thesis
  proof cases
    case 1
    have "\<not> genRawKey t h < key" for h using table_handle_bounds(1) [of t h] 1 by (meson leD le_less_trans not_less)
    then show ?thesis using 1 assms not_less_normal_min by (auto simp: getRangeHandle_def)
  next
    case 2
    have "genRawKey t h < key" for h using table_handle_bounds(2) [of t h] 2 by (meson le_less_trans)
    then show ?thesis using 2 assms by (auto simp: getRangeHandle_def id_less_handle_def handle_max_def)
  next
    case 3
    then show ?thesis by (rule getRangeHandle_inside)
  qed
qed

lemma decode_bound_less:
  "(\<exists>hd. getRangeHandle True key t = Inr hd \<and> (\<forall>h. key \<le> genRawKey t h \<longleftrightarrow> id_geq_handle h hd)) \<and>
   (\<exists>hd. getRangeHandle False key t = Inr hd \<and> (\<forall>h. key = [] \<or> genRawKey t h < key \<longleftrightarrow> id_less_handle h hd))"
proof (cases "key = []")
  case True
  then show ?thesis using not_less_normal_min
    by (auto simp: getRangeHandle_def id_geq_handle_def id_less_handle_def handle_max_def)
next
  case False
  then show ?thesis
    using getRangeHandle_less [OF False, of True t] getRangeHandle_less [OF False, of False t]
    by (auto simp: id_geq_handle_def not_less [symmetric])
qed

subsection \<open>Properties\<close>

text \<open>
  C35: the handle range computed for a range of raw keys is exact: it always exists, and a row handle of
  the table is in it if and only if the record key of the handle is in the key range, where an empty end
  key stands for plus infinity. This covers bounds that are shorter or longer than a record key and
  bounds outside of the table.
\<close>

theorem handle_range_exact:
  "\<exists>start_handle end_handle. getHandleRangeByTable (start_key, end_key) t = Inr (start_handle, end_handle) \<and>
     (\<forall>h. start_key \<le> genRawKey t h \<and> (end_key = [] \<or> genRawKey t h < end_key) \<longleftrightarrow>
        id_geq_handle h start_handle \<and> id_less_handle h end_handle)"
  using decode_bound_less [of start_key t] decode_bound_less [of end_key t]
  by (auto simp: getHandleRangeByTable_def)

end
