(* ===== verification/StdMap.thy ===== *)
theory StdMap
  imports Prelude "HOL-Library.AList" "HOL-Library.Multiset"
begin

section \<open>Associative containers of the standard library\<close>

text \<open>
  \<open>std::map\<close> is an association list with strictly increasing keys, \<open>std::unordered_map\<close> one with
  distinct keys whose iteration order is the order of the list. Both give the same interface to the
  column families: the locale \<open>container\<close> states what \<open>emplace\<close> promises, and the lemmas that the
  components need of it are proved once for both.
\<close>

subsection \<open>Operations\<close>

fun map_emplace :: "'k::linorder \<Rightarrow> 'v \<Rightarrow> ('k \<times> 'v) list \<Rightarrow> ('k \<times> 'v) list \<times> bool" where
  "map_emplace k v [] = ([(k, v)], True)"
| "map_emplace k v ((k', v') # m) =
     (if k < k' then ((k, v) # (k', v') # m, True)
      else if k = k' then ((k', v') # m, False)
      else (let (m', ok) = map_emplace k v m in ((k', v') # m', ok)))"

definition umap_emplace :: "'k \<Rightarrow> 'v \<Rightarrow> ('k \<times> 'v) list \<Rightarrow> ('k \<times> 'v) list \<times> bool" where
  "umap_emplace k v m = (case map_of m k of Some v' \<Rightarrow> (m, False) | None \<Rightarrow> (m @ [(k, v)], True))"

definition map_inv :: "('k::linorder \<times> 'v) list \<Rightarrow> bool" where
  "map_inv m \<longleftrightarrow> sorted_wrt (<) (map fst m)"

definition umap_inv :: "('k \<times> 'v) list \<Rightarrow> bool" where
  "umap_inv m \<longleftrightarrow> distinct (map fst m)"

subsection \<open>The interface\<close>

lemma map_fst_update_same: "k \<in> fst ` set m \<Longrightarrow> map fst (AList.update k v m) = map fst m"
  by (induction m) auto

lemma update_snoc: "k \<notin> fst ` set m \<Longrightarrow> AList.update k v (m @ [(k, v0)]) = m @ [(k, v)]"
  by (induction m) auto

lemma update_absent: "k \<notin> fst ` set m \<Longrightarrow> AList.update k v m = m @ [(k, v)]"
  by (induction m) auto

lemma set_update_subset: "set (AList.update k v m) \<subseteq> insert (k, v) (set m)"
  by (induction m) auto

lemma mset_update:
  "distinct (map fst m) \<Longrightarrow> map_of m k = Some v \<Longrightarrow>
   add_mset (k, v) (mset (AList.update k v' m)) = add_mset (k, v') (mset m)"
  by (induction m) auto

lemma mset_erase:
  "distinct (map fst m) \<Longrightarrow> map_of m k = Some v \<Longrightarrow> mset m = add_mset (k, v) (mset (filter (\<lambda>p. fst p \<noteq> k) m))"
proof (induction m)
  case (Cons p m)
  show ?case
  proof (cases "fst p = k")
    case True
    then have "filter (\<lambda>p. fst p \<noteq> k) m = m" using Cons.prems(1) by (intro filter_True ballI) (metis distinct.simps(2) image_eqI list.map(2) list.set_map)
    then show ?thesis using Cons.prems True by (cases p) auto
  next
    case False
    then show ?thesis using Cons by (cases p) auto
  qed
qed simp

lemma map_of_erase: "map_of (filter (\<lambda>p. fst p \<noteq> k) m) = (map_of m)(k := None)"
  by (induction m) auto

locale container =
  fixes emplace :: "'k \<Rightarrow> 'v \<Rightarrow> ('k \<times> 'v) list \<Rightarrow> ('k \<times> 'v) list \<times> bool"
    and inv :: "('k \<times> 'v) list \<Rightarrow> bool"
  assumes inv_Nil: "inv []"
    and inv_distinct: "inv m \<Longrightarrow> distinct (map fst m)"
    and inv_filter: "inv m \<Longrightarrow> inv (filter P m)"
    and inv_keys: "inv m \<Longrightarrow> map fst m' = map fst m \<Longrightarrow> inv m'"
    and inv_append: "inv (m @ m') \<Longrightarrow> inv m"
    and emplace_absent: "inv m \<Longrightarrow> k \<notin> fst ` set m \<Longrightarrow>
      snd (emplace k v m) \<and> inv (fst (emplace k v m)) \<and> mset (fst (emplace k v m)) = add_mset (k, v) (mset m)"
    and emplace_present: "inv m \<Longrightarrow> k \<in> fst ` set m \<Longrightarrow> emplace k v m = (m, False)"
    and emplace_last: "inv (m @ [(k, v)]) \<Longrightarrow> emplace k v m = (m @ [(k, v)], True)"
begin

lemma inv_update: "inv m \<Longrightarrow> k \<in> fst ` set m \<Longrightarrow> inv (AList.update k v m)"
  by (erule inv_keys) (rule map_fst_update_same)

lemma emplace_True:
  assumes "inv m" "emplace k v m = (m', True)"
  shows "k \<notin> fst ` set m" and "inv m'" and "mset m' = add_mset (k, v) (mset m)"
proof -
  show k: "k \<notin> fst ` set m" using emplace_present [OF assms(1)] assms(2) by force
  show "inv m'" "mset m' = add_mset (k, v) (mset m)"
    using emplace_absent [OF assms(1) k, of v] assms(2) by simp_all
qed

lemma emplace_False:
  assumes "inv m" "emplace k v m = (m', False)"
  shows "k \<in> fst ` set m" and "m' = m"
  using emplace_absent [OF assms(1), of k v] emplace_present [OF assms(1), of k v] assms(2) by auto

lemma map_of_emplace:
  assumes "inv m" "emplace k v m = (m', True)"
  shows "map_of m' = (map_of m)(k \<mapsto> v)"
proof -
  note e = emplace_True [OF assms]
  have d: "distinct (map fst m')" using e(2) by (rule inv_distinct)
  have d2: "distinct (map fst ((k, v) # m))" using inv_distinct [OF assms(1)] e(1) by simp
  have "set m' = set ((k, v) # m)" using e(3) by (metis list.set(2) mset.simps(2) set_mset_mset)
  then have "map_of m' = map_of ((k, v) # m)" using d d2 by (metis map_of_inject_set)
  then show ?thesis by simp
qed

end

subsection \<open>The two containers\<close>

lemma map_emplace_absent:
  "map_inv m \<Longrightarrow> k \<notin> fst ` set m \<Longrightarrow>
   snd (map_emplace k v m) \<and> map_inv (fst (map_emplace k v m)) \<and>
   mset (fst (map_emplace k v m)) = add_mset (k, v) (mset m)"
proof (induction k v m rule: map_emplace.induct)
  case (2 k v k' v' m)
  show ?case
  proof (cases "k < k'")
    case True
    then show ?thesis using "2.prems" by (auto simp: map_inv_def)
  next
    case False
    then have lt: "k' < k" using "2.prems"(2) by auto
    have IH: "snd (map_emplace k v m)" "map_inv (fst (map_emplace k v m))"
        "mset (fst (map_emplace k v m)) = add_mset (k, v) (mset m)"
      using "2.IH" False lt "2.prems" by (auto simp: map_inv_def)
    have "set (fst (map_emplace k v m)) = insert (k, v) (set m)"
      using IH(3) by (metis list.set(2) mset.simps(2) set_mset_mset)
    then show ?thesis using IH False lt "2.prems"(1) by (auto simp: map_inv_def case_prod_unfold)
  qed
qed (simp add: map_inv_def)

lemma map_emplace_present: "map_inv m \<Longrightarrow> k \<in> fst ` set m \<Longrightarrow> map_emplace k v m = (m, False)"
  by (induction k v m rule: map_emplace.induct) (fastforce simp: map_inv_def)+

lemma map_emplace_last: "map_inv (m @ [(k, v)]) \<Longrightarrow> map_emplace k v m = (m @ [(k, v)], True)"
  by (induction m) (fastforce simp: map_inv_def sorted_wrt_append)+

lemma map_inv_filter: "map_inv m \<Longrightarrow> map_inv (filter P m)"
proof (induction m)
  case (Cons p m)
  then show ?case by (auto simp: map_inv_def)
qed simp

interpretation std_map: container map_emplace map_inv
proof
  show "map_inv []" by (simp add: map_inv_def)
  show "distinct (map fst m)" if "map_inv m" for m :: "('a::linorder \<times> 'b) list"
    using that by (simp add: map_inv_def strict_sorted_iff)
  show "map_inv (filter P m)" if "map_inv m" for P and m :: "('a::linorder \<times> 'b) list"
    using that by (rule map_inv_filter)
  show "map_inv m'" if "map_inv m" "map fst m' = map fst m" for m m' :: "('a::linorder \<times> 'b) list"
    using that by (simp add: map_inv_def)
  show "map_inv m" if "map_inv (m @ m')" for m m' :: "('a::linorder \<times> 'b) list"
    using that by (simp add: map_inv_def sorted_wrt_append)
  show "map_emplace k v m = (m @ [(k, v)], True)" if "map_inv (m @ [(k, v)])" for k v and m :: "('a::linorder \<times> 'b) list"
    using that by (rule map_emplace_last)
  show "snd (map_emplace k v m) \<and> map_inv (fst (map_emplace k v m)) \<and>
      mset (fst (map_emplace k v m)) = add_mset (k, v) (mset m)"
    if "map_inv m" "k \<notin> fst ` set m" for k v and m :: "('a::linorder \<times> 'b) list"
    using that by (rule map_emplace_absent)
  show "map_emplace k v m = (m, False)"
    if "map_inv m" "k \<in> fst ` set m" for k v and m :: "('a::linorder \<times> 'b) list"
    using that by (rule map_emplace_present)
qed

interpretation unordered_map: container umap_emplace umap_inv
proof
  show "umap_inv []" by (simp add: umap_inv_def)
  show "umap_emplace k v m = (m @ [(k, v)], True)" if "umap_inv (m @ [(k, v)])" for k v and m :: "('a \<times> 'b) list"
    using that map_of_eq_None_iff [of m k] by (simp add: umap_emplace_def umap_inv_def)
  show "snd (umap_emplace k v m) \<and> umap_inv (fst (umap_emplace k v m)) \<and>
      mset (fst (umap_emplace k v m)) = add_mset (k, v) (mset m)"
    if "umap_inv m" "k \<notin> fst ` set m" for k v and m :: "('a \<times> 'b) list"
    using that map_of_eq_None_iff [of m k] by (simp add: umap_emplace_def umap_inv_def)
  show "umap_emplace k v m = (m, False)"
    if "umap_inv m" "k \<in> fst ` set m" for k v and m :: "('a \<times> 'b) list"
    using that map_of_eq_None_iff [of m k] by (cases "map_of m k") (auto simp: umap_emplace_def)
qed (auto simp: umap_inv_def distinct_map_filter)

text \<open>Lists with strictly increasing keys are equal when they have the same elements.\<close>

lemma alist_of_map: "distinct (map fst m) \<Longrightarrow> map (\<lambda>k. (k, the (map_of m k))) (map fst m) = m"
  by (auto simp: comp_def intro!: map_idI)

lemma map_inv_unique:
  assumes "map_inv m" "map_inv m'" "mset m = mset m'"
  shows "m = m'"
proof -
  have s: "set m = set m'" using assms(3) by (rule mset_eq_setD)
  have d: "distinct (map fst m)" "distinct (map fst m')"
    using assms(1,2) by (auto intro: std_map.inv_distinct)
  have "set (map fst m) = set (map fst m')" using s by simp
  then have "map fst m = map fst m'"
    using assms(1,2) unfolding map_inv_def by (intro strict_sorted_equal) simp_all
  moreover have "map_of m = map_of m'" using d s by (metis map_of_inject_set)
  ultimately show ?thesis using alist_of_map [OF d(1)] alist_of_map [OF d(2)] by metis
qed

end
