(* ===== verification/Serialization.thy ===== *)
theory Serialization
  imports Prelude
begin

section \<open>Persisted form of messages\<close>

text \<open>
  \<open>Storages/Transaction/SerializationHelper.h\<close> and \<open>SerializationHelper.cpp\<close>. A \<open>WriteBuffer\<close> is the
  list of the bytes that were written; a function \<open>writeBinary2\<close> gives those bytes and the size it
  returns, a 64-bit word. A \<open>ReadBuffer\<close> is the list of the bytes that are still to be read. The
  messages of the protocol buffer files (\<open>metapb\<close>, \<open>raft_serverpb\<close>) are records of the fields that
  the sources use, and an optional message that is absent reads as the message with default values. The
  role of a peer is only copied and compared: it is the number that the enumeration is. The sources name
  the constants of \<open>PeerState\<close>, but their numbers, and the one a new message starts with, are in generated
  files: they are the parameter \<open>ProtoEnv\<close>.
\<close>

subsection \<open>Buffers\<close>

type_synonym out = "bytes \<times> UInt64"
type_synonym 'a reader = "bytes \<Rightarrow> ('a \<times> bytes) result"

fun wseq :: "out list \<Rightarrow> out" where
  "wseq [] = ([], 0)"
| "wseq ((b, n) # ws) = (let (bs, ns) = wseq ws in (b @ bs, n + ns))"

definition readStrict :: "nat \<Rightarrow> bytes reader" where
  "readStrict n buf = (if n \<le> length buf then Inr (take n buf, drop n buf) else Inl CannotReadAllData)"

fun read_times :: "nat \<Rightarrow> 'a reader \<Rightarrow> 'a list reader" where
  "read_times 0 rd buf = Inr ([], buf)"
| "read_times (Suc n) rd buf =
     rbind (rd buf) (\<lambda>(x, buf1). rbind (read_times n rd buf1) (\<lambda>(xs, buf2). Inr (x # xs, buf2)))"

subsection \<open>Numbers and strings\<close>

definition writeBinary2_num :: "nat \<Rightarrow> 'a::len word \<Rightarrow> out" where
  "writeBinary2_num n x = (mem_of n x, of_nat n)"

definition readBinary2_num :: "nat \<Rightarrow> 'a::len word reader" where
  "readBinary2_num n buf = rbind (readStrict n buf) (\<lambda>(b, buf'). Inr (load_le b, buf'))"

definition DEFAULT_MAX_STRING_SIZE :: UInt64 where
  "DEFAULT_MAX_STRING_SIZE = 0x00FFFFFF"

definition writeBinary2_string :: "bytes \<Rightarrow> out" where
  "writeBinary2_string s = (mem_of 4 (of_nat (length s) :: UInt32) @ s, 4 + of_nat (length s))"

definition readBinary2_string :: "bytes reader" where
  "readBinary2_string buf =
     rbind (readBinary2_num 4 buf) (\<lambda>(n :: UInt32, buf1).
       if ucast n > DEFAULT_MAX_STRING_SIZE then throw ''Too large string size.''
       else readStrict (unat n) buf1)"

definition writeBinary2_bool :: "bool \<Rightarrow> out" where
  "writeBinary2_bool b = writeBinary2_num 1 (if b then 1 else 0 :: UInt8)"

definition readBinary2_bool :: "bool reader" where
  "readBinary2_bool buf = rbind (readBinary2_num 1 buf) (\<lambda>(b :: UInt8, buf'). Inr (b \<noteq> 0, buf'))"

subsection \<open>Messages\<close>

record Peer =
  peer_id :: UInt64
  peer_store_id :: UInt64
  peer_role :: Int32

record MetaRegion =
  mr_id :: RegionID
  mr_start_key :: bytes
  mr_end_key :: bytes
  mr_conf_ver :: UInt64
  mr_version :: UInt64
  mr_peers :: "Peer list"

record RaftApplyState =
  as_applied_index :: UInt64
  as_truncated_index :: UInt64
  as_truncated_term :: UInt64

record MergeState =
  ms_min_index :: UInt64
  ms_target :: MetaRegion
  ms_commit :: UInt64

datatype PeerState = Normal | Applying | Tombstone | Merging | OtherState Int32

record ProtoEnv =
  pe_number :: "PeerState \<Rightarrow> Int32"
  pe_state :: "Int32 \<Rightarrow> PeerState"
  pe_default :: PeerState

record RegionLocalState =
  ls_region :: MetaRegion
  ls_state :: PeerState
  ls_merge_state :: "MergeState option"

definition default_MetaRegion :: MetaRegion where
  "default_MetaRegion = \<lparr>mr_id = 0, mr_start_key = [], mr_end_key = [], mr_conf_ver = 0, mr_version = 0, mr_peers = []\<rparr>"

definition default_MergeState :: MergeState where
  "default_MergeState = \<lparr>ms_min_index = 0, ms_target = default_MetaRegion, ms_commit = 0\<rparr>"

definition merge_state :: "RegionLocalState \<Rightarrow> MergeState" where
  "merge_state st = (case ls_merge_state st of None \<Rightarrow> default_MergeState | Some m \<Rightarrow> m)"

definition writeBinary2_Peer :: "Peer \<Rightarrow> out" where
  "writeBinary2_Peer p =
     (mem_of 8 (peer_id p) @ mem_of 8 (peer_store_id p) @ mem_of 1 (ucast (peer_role p) :: UInt8), 8 + 8 + 1)"

definition readPeer :: "Peer reader" where
  "readPeer buf =
     rbind (readBinary2_num 8 buf) (\<lambda>(i, buf1).
     rbind (readBinary2_num 8 buf1) (\<lambda>(s, buf2).
     rbind (readBinary2_num 1 buf2) (\<lambda>(r :: UInt8, buf3).
       Inr (\<lparr>peer_id = i, peer_store_id = s, peer_role = ucast r\<rparr>, buf3))))"

definition writeBinary2_Region :: "MetaRegion \<Rightarrow> out" where
  "writeBinary2_Region r =
     wseq [writeBinary2_num 8 (mr_id r), writeBinary2_string (mr_start_key r), writeBinary2_string (mr_end_key r),
       writeBinary2_num 8 (mr_conf_ver r), writeBinary2_num 8 (mr_version r),
       writeBinary2_num 4 (of_nat (length (mr_peers r)) :: Int32),
       wseq (map writeBinary2_Peer (mr_peers r))]"

definition readRegion :: "MetaRegion reader" where
  "readRegion buf =
     rbind (readBinary2_num 8 buf) (\<lambda>(i, buf1).
     rbind (readBinary2_string buf1) (\<lambda>(sk, buf2).
     rbind (readBinary2_string buf2) (\<lambda>(ek, buf3).
     rbind (readBinary2_num 8 buf3) (\<lambda>(cv, buf4).
     rbind (readBinary2_num 8 buf4) (\<lambda>(v, buf5).
     rbind (readBinary2_num 4 buf5) (\<lambda>(n :: Int32, buf6).
     rbind (read_times (nat (sint n)) readPeer buf6) (\<lambda>(ps, buf7).
       Inr (\<lparr>mr_id = i, mr_start_key = sk, mr_end_key = ek, mr_conf_ver = cv, mr_version = v, mr_peers = ps\<rparr>, buf7))))))))"

definition writeBinary2_MergeState :: "MergeState \<Rightarrow> out" where
  "writeBinary2_MergeState m =
     wseq [writeBinary2_Region (ms_target m), writeBinary2_num 8 (ms_commit m), writeBinary2_num 8 (ms_min_index m)]"

definition readMergeState :: "MergeState reader" where
  "readMergeState buf =
     rbind (readRegion buf) (\<lambda>(t, buf1).
     rbind (readBinary2_num 8 buf1) (\<lambda>(c, buf2).
     rbind (readBinary2_num 8 buf2) (\<lambda>(m, buf3).
       Inr (\<lparr>ms_min_index = m, ms_target = t, ms_commit = c\<rparr>, buf3))))"

definition writeBinary2_ApplyState :: "RaftApplyState \<Rightarrow> out" where
  "writeBinary2_ApplyState st =
     wseq [writeBinary2_num 8 (as_applied_index st), writeBinary2_num 8 (as_truncated_index st),
       writeBinary2_num 8 (as_truncated_term st)]"

definition readApplyState :: "RaftApplyState reader" where
  "readApplyState buf =
     rbind (readBinary2_num 8 buf) (\<lambda>(a, buf1).
     rbind (readBinary2_num 8 buf1) (\<lambda>(i, buf2).
     rbind (readBinary2_num 8 buf2) (\<lambda>(t, buf3).
       Inr (\<lparr>as_applied_index = a, as_truncated_index = i, as_truncated_term = t\<rparr>, buf3))))"

definition writeBinary2_LocalState :: "ProtoEnv \<Rightarrow> RegionLocalState \<Rightarrow> out" where
  "writeBinary2_LocalState pe st =
     wseq ([writeBinary2_Region (ls_region st), writeBinary2_num 4 (pe_number pe (ls_state st))]
       @ (case ls_merge_state st of
            Some m \<Rightarrow> [writeBinary2_bool True, writeBinary2_MergeState m]
          | None \<Rightarrow> [writeBinary2_bool False]))"

definition readRegionLocalState :: "ProtoEnv \<Rightarrow> RegionLocalState reader" where
  "readRegionLocalState pe buf =
     rbind (readRegion buf) (\<lambda>(r, buf1).
     rbind (readBinary2_num 4 buf1) (\<lambda>(s, buf2).
     rbind (readBinary2_bool buf2) (\<lambda>(has_merge_state, buf3).
       if has_merge_state then
         rbind (readMergeState buf3) (\<lambda>(m, buf4).
           Inr (\<lparr>ls_region = r, ls_state = pe_state pe s, ls_merge_state = Some m\<rparr>, buf4))
       else Inr (\<lparr>ls_region = r, ls_state = pe_state pe s, ls_merge_state = None\<rparr>, buf3))))"

subsection \<open>Equality of messages\<close>

definition Peer_eq :: "Peer \<Rightarrow> Peer \<Rightarrow> bool" where
  "Peer_eq p q \<longleftrightarrow> peer_id p = peer_id q \<and> peer_store_id p = peer_store_id q \<and> peer_role p = peer_role q"

definition MetaRegion_eq :: "MetaRegion \<Rightarrow> MetaRegion \<Rightarrow> bool" where
  "MetaRegion_eq a b \<longleftrightarrow>
     (if mr_id a \<noteq> mr_id b \<or> mr_start_key a \<noteq> mr_start_key b \<or> mr_end_key a \<noteq> mr_end_key b then False
      else if mr_version a \<noteq> mr_version b \<or> mr_conf_ver a \<noteq> mr_conf_ver b then False
      else if length (mr_peers a) \<noteq> length (mr_peers b) then False
      else list_all (\<lambda>(p, q). Peer_eq p q) (zip (mr_peers a) (mr_peers b)))"

definition ApplyState_eq :: "RaftApplyState \<Rightarrow> RaftApplyState \<Rightarrow> bool" where
  "ApplyState_eq a b \<longleftrightarrow> as_applied_index a = as_applied_index b
     \<and> as_truncated_index a = as_truncated_index b \<and> as_truncated_term a = as_truncated_term b"

definition MergeState_eq :: "MergeState \<Rightarrow> MergeState \<Rightarrow> bool" where
  "MergeState_eq a b \<longleftrightarrow> ms_min_index a = ms_min_index b \<and> ms_commit a = ms_commit b
     \<and> MetaRegion_eq (ms_target a) (ms_target b)"

definition LocalState_eq :: "RegionLocalState \<Rightarrow> RegionLocalState \<Rightarrow> bool" where
  "LocalState_eq a b \<longleftrightarrow> MetaRegion_eq (ls_region a) (ls_region b) \<and> ls_state a = ls_state b
     \<and> MergeState_eq (merge_state a) (merge_state b)"

lemma Peer_eq_iff [simp]: "Peer_eq p q \<longleftrightarrow> p = q"
  by (cases p, cases q) (auto simp: Peer_eq_def)

lemma list_all_zip_eq: "length ps = length qs \<Longrightarrow> list_all (\<lambda>(p, q). p = q) (zip ps qs) \<longleftrightarrow> ps = qs"
  by (induction ps qs rule: list_induct2) auto

lemma MetaRegion_eq_iff [simp]: "MetaRegion_eq a b \<longleftrightarrow> a = b"
  unfolding MetaRegion_eq_def Peer_eq_iff by (auto simp: list_all_zip_eq)

lemma ApplyState_eq_iff [simp]: "ApplyState_eq a b \<longleftrightarrow> a = b"
  by (cases a, cases b) (auto simp: ApplyState_eq_def)

lemma MergeState_eq_iff [simp]: "MergeState_eq a b \<longleftrightarrow> a = b"
  by (cases a, cases b) (auto simp: MergeState_eq_def)

lemma LocalState_eq_iff:
  "LocalState_eq a b \<longleftrightarrow> ls_region a = ls_region b \<and> ls_state a = ls_state b \<and> merge_state a = merge_state b"
  by (simp add: LocalState_eq_def)

subsection \<open>The contract of a serializer\<close>

lemma wseq_Cons [simp]: "fst (wseq (w # ws)) = fst w @ fst (wseq ws)" "snd (wseq (w # ws)) = snd w + snd (wseq ws)"
  by (cases w, simp add: case_prod_unfold Let_def)+

declare wseq.simps(2) [simp del]

text \<open>
  A writer and a reader agree on the values that satisfy \<open>ok\<close>: the reader consumes the written bytes and
  nothing more, and the size that the writer returns is the number of bytes.
\<close>

locale serializer =
  fixes wr :: "'a \<Rightarrow> out" and rd :: "'a reader" and ok :: "'a \<Rightarrow> bool"
  assumes read_write: "ok x \<Longrightarrow> rd (fst (wr x) @ rest) = Inr (x, rest)"
    and write_size: "snd (wr x) = of_nat (length (fst (wr x)))"
begin

lemma read_times_write:
  "list_all ok xs \<Longrightarrow> read_times (length xs) rd (fst (wseq (map wr xs)) @ rest) = Inr (xs, rest)"
proof (induction xs)
  case (Cons x xs)
  then show ?case by (simp add: read_write)
qed simp

lemma wseq_map_size: "snd (wseq (map wr xs)) = of_nat (length (fst (wseq (map wr xs))))"
proof (induction xs)
  case (Cons x xs)
  then show ?case using write_size [of x] by simp
qed simp

lemma unambiguous:
  assumes "ok x" "ok y" "fst (wr x) @ r = fst (wr y) @ s"
  shows "x = y \<and> r = s"
proof -
  have "Inr (x, r) = (Inr (y, s) :: ('a \<times> bytes) result)"
    using read_write [OF assms(1), of r] read_write [OF assms(2), of s] unfolding assms(3) by (rule trans [OF sym])
  then show ?thesis by blast
qed

end

subsection \<open>The serializers of the program\<close>

lemma readStrict_append [simp]: "length b = n \<Longrightarrow> readStrict n (b @ rest) = Inr (b, rest)"
  by (simp add: readStrict_def)

lemma readBinary2_num_append:
  "LENGTH('a::len) = 8 * n \<Longrightarrow> readBinary2_num n (mem_of n (x :: 'a word) @ rest) = Inr (x, rest)"
  by (simp add: readBinary2_num_def load_le_mem_of)

interpretation num8: serializer "writeBinary2_num 8" "readBinary2_num 8" "\<lambda>x :: 64 word. True"
  by unfold_locales (simp_all add: writeBinary2_num_def readBinary2_num_append)

interpretation num4: serializer "writeBinary2_num 4" "readBinary2_num 4" "\<lambda>x :: 32 word. True"
  by unfold_locales (simp_all add: writeBinary2_num_def readBinary2_num_append)

interpretation num1: serializer "writeBinary2_num 1" "readBinary2_num 1" "\<lambda>x :: 8 word. True"
  by unfold_locales (simp_all add: writeBinary2_num_def readBinary2_num_append)

interpretation str: serializer writeBinary2_string readBinary2_string "\<lambda>s. length s \<le> 0x00FFFFFF"
proof
  fix s rest :: bytes assume s: "length s \<le> 0x00FFFFFF"
  let ?n = "of_nat (length s) :: UInt32"
  have n: "unat ?n = length s" using s by (simp add: unat_of_nat)
  have "unat (ucast ?n :: UInt64) = length s" unfolding unsigned_ucast_eq n using s by (simp add: take_bit_nat_eq_self)
  then have "\<not> ucast ?n > DEFAULT_MAX_STRING_SIZE"
    using s by (simp add: DEFAULT_MAX_STRING_SIZE_def word_less_nat_alt)
  then show "readBinary2_string (fst (writeBinary2_string s) @ rest) = Inr (s, rest)"
    by (simp add: readBinary2_string_def writeBinary2_string_def readBinary2_num_append n)
qed (simp add: writeBinary2_string_def)

interpretation bool: serializer writeBinary2_bool readBinary2_bool "\<lambda>_. True"
  by unfold_locales
    (use num1.read_write num1.write_size in \<open>auto simp: writeBinary2_bool_def readBinary2_bool_def\<close>)

definition Peer_ok :: "Peer \<Rightarrow> bool" where
  "Peer_ok p \<longleftrightarrow> unat (peer_role p) < 256"

interpretation peer: serializer writeBinary2_Peer readPeer Peer_ok
proof
  fix p :: Peer and rest :: bytes assume "Peer_ok p"
  then have "ucast (ucast (peer_role p) :: UInt8) = peer_role p"
    by (simp add: Peer_ok_def word_unat_eq_iff unsigned_ucast_eq take_bit_eq_mod unat_mod_distrib)
  then show "readPeer (fst (writeBinary2_Peer p) @ rest) = Inr (p, rest)"
    by (simp add: readPeer_def writeBinary2_Peer_def readBinary2_num_append)
qed (simp add: writeBinary2_Peer_def)

text \<open>What the readers accept: keys below the bound on strings, a number of peers that a signed 32-bit
  number holds, roles that fit into a byte.\<close>

definition MetaRegion_ok :: "MetaRegion \<Rightarrow> bool" where
  "MetaRegion_ok r \<longleftrightarrow> length (mr_start_key r) \<le> 0x00FFFFFF \<and> length (mr_end_key r) \<le> 0x00FFFFFF
     \<and> length (mr_peers r) < 2 ^ 31 \<and> list_all Peer_ok (mr_peers r)"

lemma sint_of_nat_32: "n < 2 ^ 31 \<Longrightarrow> nat (sint (of_nat n :: Int32)) = n"
  by (simp add: signed_of_nat signed_take_bit_int_eq_self)

interpretation region: serializer writeBinary2_Region readRegion MetaRegion_ok
proof
  fix r :: MetaRegion and rest :: bytes assume "MetaRegion_ok r"
  then show "readRegion (fst (writeBinary2_Region r) @ rest) = Inr (r, rest)"
    by (simp add: readRegion_def writeBinary2_Region_def MetaRegion_ok_def num8.read_write num4.read_write
        str.read_write peer.read_times_write sint_of_nat_32)
qed (simp add: writeBinary2_Region_def num8.write_size num4.write_size str.write_size peer.wseq_map_size)

interpretation merge: serializer writeBinary2_MergeState readMergeState "\<lambda>m. MetaRegion_ok (ms_target m)"
  by unfold_locales
    (simp_all add: writeBinary2_MergeState_def readMergeState_def region.read_write num8.read_write
      region.write_size num8.write_size)

interpretation apply_st: serializer writeBinary2_ApplyState readApplyState "\<lambda>_. True"
  by unfold_locales
    (simp_all add: writeBinary2_ApplyState_def readApplyState_def num8.read_write num8.write_size)

definition LocalState_ok :: "ProtoEnv \<Rightarrow> RegionLocalState \<Rightarrow> bool" where
  "LocalState_ok pe st \<longleftrightarrow> MetaRegion_ok (ls_region st) \<and> pe_state pe (pe_number pe (ls_state st)) = ls_state st
     \<and> (case ls_merge_state st of None \<Rightarrow> True | Some m \<Rightarrow> MetaRegion_ok (ms_target m))"

interpretation local_st: serializer "writeBinary2_LocalState pe" "readRegionLocalState pe" "LocalState_ok pe" for pe
proof
  fix st :: RegionLocalState and rest :: bytes assume "LocalState_ok pe st"
  then show "readRegionLocalState pe (fst (writeBinary2_LocalState pe st) @ rest) = Inr (st, rest)"
    by (cases "ls_merge_state st")
      (simp_all add: LocalState_ok_def readRegionLocalState_def writeBinary2_LocalState_def
        region.read_write num4.read_write bool.read_write merge.read_write)
next
  fix st :: RegionLocalState
  show "snd (writeBinary2_LocalState pe st) = of_nat (length (fst (writeBinary2_LocalState pe st)))"
    by (cases "ls_merge_state st")
      (simp_all add: writeBinary2_LocalState_def region.write_size num4.write_size bool.write_size merge.write_size)
qed

end
