(* ===== verification/CFData.thy ===== *)
theory CFData
  imports CFValues RangeKeys StdMap Serialization
begin

section \<open>One column family of a region\<close>

text \<open>
  \<open>Storages/Transaction/RegionCFDataTrait.h\<close> and \<open>RegionCFDataBase.cpp\<close>. The template parameter
  \<open>Trait\<close> is the record \<open>cf_trait\<close>, with one instance for each of the three column families. The
  functions that the sources specialise for a trait are fields of the record; the generic functions take
  the record as their first argument. The write column family looks into the map of the default column
  family of the same region: its trait takes that map as an argument. A shared pointer to an immutable
  string is the string. The queue of values that wait for decoding belongs to the column family.
\<close>

subsection \<open>Traits\<close>

type_synonym cf_key = "RawTiDBPK \<times> Timestamp"
type_synonym write_value = "TiKVKey \<times> TiKVValue \<times> InnerDecodedWriteCFValue"
type_synonym default_value = "TiKVKey \<times> TiKVValue"
type_synonym lock_value = "TiKVKey \<times> TiKVValue \<times> DecodedLockCFValue"

record ('k, 'v) cf_trait =
  tr_emplace :: "'k \<Rightarrow> 'v \<Rightarrow> ('k \<times> 'v) list \<Rightarrow> ('k \<times> 'v) list \<times> bool"
  getTiKVKey :: "'v \<Rightarrow> TiKVKey"
  getTiKVValue :: "'v \<Rightarrow> TiKVValue"
  counts_size :: bool
  shouldIgnoreRemove :: "'v \<Rightarrow> bool"
  genKVPair :: "TiKVKey \<Rightarrow> DecodedTiKVKey \<Rightarrow> TiKVValue \<Rightarrow> ('k \<times> 'v) option result"
  finishInsert :: "'k \<Rightarrow> 'v \<Rightarrow> TiKVValue list \<Rightarrow> ('v \<times> TiKVValue list) result"

definition getWriteType :: "write_value \<Rightarrow> UInt8" where
  "getWriteType v = write_type (snd (snd v))"

definition write_genKVPair ::
    "TiKVKey \<Rightarrow> DecodedTiKVKey \<Rightarrow> TiKVValue \<Rightarrow> (cf_key \<times> write_value) option result" where
  "write_genKVPair key raw_key v =
     rbind (decodeWriteCfValue v) (\<lambda>decoded_val.
       case decoded_val of None \<Rightarrow> Inr None
       | Some d \<Rightarrow>
           rbind (getRawTiDBPK raw_key) (\<lambda>tidb_pk.
           rbind (getTs key) (\<lambda>ts. Inr (Some ((tidb_pk, ts), (key, v, d))))))"

definition default_genKVPair ::
    "TiKVKey \<Rightarrow> DecodedTiKVKey \<Rightarrow> TiKVValue \<Rightarrow> (cf_key \<times> default_value) option result" where
  "default_genKVPair key raw_key v =
     rbind (getRawTiDBPK raw_key) (\<lambda>tidb_pk.
     rbind (getTs key) (\<lambda>ts. Inr (Some ((tidb_pk, ts), (key, v)))))"

definition lock_genKVPair :: "TiKVKey \<Rightarrow> TiKVValue \<Rightarrow> (TiKVKey \<times> lock_value) result" where
  "lock_genKVPair key v = rbind (decodeLockCfValue key v) (\<lambda>d. Inr (key, (key, v, d)))"

definition default_finishInsert ::
    "cf_key \<Rightarrow> default_value \<Rightarrow> TiKVValue list \<Rightarrow> (default_value \<times> TiKVValue list) result" where
  "default_finishInsert k v pre_decode = Inr (v, pre_decode @ [snd v])"

definition write_finishInsert ::
    "(cf_key \<times> default_value) list \<Rightarrow> cf_key \<Rightarrow> write_value \<Rightarrow> TiKVValue list
     \<Rightarrow> (write_value \<times> TiKVValue list) result" where
  "write_finishInsert default_cf_map k v pre_decode =
     (case v of (key, val, d) \<Rightarrow>
        if write_type d = PutFlag then
          (case short_value d of
             Some sv \<Rightarrow> Inr (v, pre_decode @ [sv])
           | None \<Rightarrow>
               (case map_of default_cf_map (fst k, prewrite_ts d) of
                  Some dv \<Rightarrow> Inr ((key, val, d\<lparr>short_value := Some (snd dv)\<rparr>), pre_decode)
                | None \<Rightarrow> Inr (v, pre_decode)))
        else
          (case short_value d of
             Some sv \<Rightarrow> throw '': got short value under DelFlag''
           | None \<Rightarrow> Inr (v, pre_decode)))"

definition RegionWriteCFDataTrait :: "(cf_key \<times> default_value) list \<Rightarrow> (cf_key, write_value) cf_trait" where
  "RegionWriteCFDataTrait dm =
     \<lparr>tr_emplace = map_emplace, getTiKVKey = fst, getTiKVValue = (\<lambda>v. fst (snd v)), counts_size = True,
      shouldIgnoreRemove = (\<lambda>v. getWriteType v = DelFlag), genKVPair = write_genKVPair,
      finishInsert = write_finishInsert dm\<rparr>"

definition RegionDefaultCFDataTrait :: "(cf_key, default_value) cf_trait" where
  "RegionDefaultCFDataTrait =
     \<lparr>tr_emplace = map_emplace, getTiKVKey = fst, getTiKVValue = snd, counts_size = True,
      shouldIgnoreRemove = (\<lambda>v. False), genKVPair = default_genKVPair,
      finishInsert = default_finishInsert\<rparr>"

definition RegionLockCFDataTrait :: "(TiKVKey, lock_value) cf_trait" where
  "RegionLockCFDataTrait =
     \<lparr>tr_emplace = umap_emplace, getTiKVKey = fst, getTiKVValue = (\<lambda>v. fst (snd v)), counts_size = False,
      shouldIgnoreRemove = (\<lambda>v. False),
      genKVPair = (\<lambda>key raw_key v. rbind (lock_genKVPair key v) (\<lambda>kv. Inr (Some kv))),
      finishInsert = (\<lambda>k v pre_decode. Inr (v, pre_decode))\<rparr>"

subsection \<open>Operations\<close>

record ('k, 'v) cf_data =
  data_map :: "('k \<times> 'v) list"
  pre_decode :: "TiKVValue list"

definition empty_cf :: "('k, 'v) cf_data" where
  "empty_cf = \<lparr>data_map = [], pre_decode = []\<rparr>"

definition calcTiKVKeyValueSize :: "('k, 'v) cf_trait \<Rightarrow> 'v \<Rightarrow> UInt64" where
  "calcTiKVKeyValueSize tr v =
     (if counts_size tr then of_nat (length (getTiKVKey tr v)) + of_nat (length (getTiKVValue tr v)) else 0)"

definition cf_insert_pair ::
    "('k, 'v) cf_trait \<Rightarrow> 'k \<times> 'v \<Rightarrow> ('k, 'v) cf_data \<Rightarrow> (UInt64 \<times> ('k, 'v) cf_data) result" where
  "cf_insert_pair tr kv_pair d =
     (case kv_pair of (k, v) \<Rightarrow>
      (case tr_emplace tr k v (data_map d) of (m, ok) \<Rightarrow>
        if \<not> ok then throw ''Found existing key in hex: ''
        else rbind (finishInsert tr k v (pre_decode d)) (\<lambda>(v', q).
          Inr (calcTiKVKeyValueSize tr v', \<lparr>data_map = AList.update k v' m, pre_decode = q\<rparr>))))"

definition cf_insert ::
    "('k, 'v) cf_trait \<Rightarrow> TiKVKey \<Rightarrow> TiKVValue \<Rightarrow> ('k, 'v) cf_data \<Rightarrow> (UInt64 \<times> ('k, 'v) cf_data) result" where
  "cf_insert tr key v d =
     rbind (decodeTiKVKey key) (\<lambda>raw_key.
     rbind (genKVPair tr key raw_key v) (\<lambda>kv_pair.
       case kv_pair of None \<Rightarrow> Inr (0, d) | Some kv \<Rightarrow> cf_insert_pair tr kv d))"

definition lock_insert ::
    "TiKVKey \<Rightarrow> TiKVValue \<Rightarrow> (TiKVKey, lock_value) cf_data \<Rightarrow> (UInt64 \<times> (TiKVKey, lock_value) cf_data) result" where
  "lock_insert key v d =
     rbind (lock_genKVPair key v) (\<lambda>(k, lv). Inr (0, d\<lparr>data_map := AList.update k lv (data_map d)\<rparr>))"

definition cf_remove ::
    "('k, 'v) cf_trait \<Rightarrow> 'k \<Rightarrow> bool \<Rightarrow> ('k, 'v) cf_data \<Rightarrow> (UInt64 \<times> ('k, 'v) cf_data) result" where
  "cf_remove tr key quiet d =
     (case map_of (data_map d) key of
        Some v \<Rightarrow>
          if shouldIgnoreRemove tr v then Inr (0, d)
          else Inr (calcTiKVKeyValueSize tr v, d\<lparr>data_map := filter (\<lambda>p. fst p \<noteq> key) (data_map d)\<rparr>)
      | None \<Rightarrow> if \<not> quiet then throw ''Key not found'' else Inr (0, d))"

definition cf_cmp :: "('k, 'v) cf_trait \<Rightarrow> ('k \<times> 'v) list \<Rightarrow> ('k \<times> 'v) list \<Rightarrow> bool" where
  "cf_cmp tr a b \<longleftrightarrow>
     (if length a \<noteq> length b then False
      else list_all (\<lambda>(k, v). case map_of b k of
             Some v' \<Rightarrow> getTiKVKey tr v = getTiKVKey tr v' \<and> getTiKVValue tr v = getTiKVValue tr v'
           | None \<Rightarrow> False) a)"

definition cf_eq :: "('k, 'v) cf_trait \<Rightarrow> ('k, 'v) cf_data \<Rightarrow> ('k, 'v) cf_data \<Rightarrow> bool" where
  "cf_eq tr d cf = cf_cmp tr (data_map cf) (data_map d)"

definition cf_getSize :: "('k, 'v) cf_data \<Rightarrow> UInt64" where
  "cf_getSize d = of_nat (length (data_map d))"

text \<open>Move assignment takes over the map and keeps the queue of the target.\<close>

definition cf_move_assign :: "('k, 'v) cf_data \<Rightarrow> ('k, 'v) cf_data \<Rightarrow> ('k, 'v) cf_data" where
  "cf_move_assign d region = d\<lparr>data_map := data_map region\<rparr>"

fun mergeFrom_loop ::
    "('k, 'v) cf_trait \<Rightarrow> ('k \<times> 'v) list \<Rightarrow> ('k \<times> 'v) list \<Rightarrow> UInt64 \<Rightarrow> (UInt64 \<times> ('k \<times> 'v) list) result" where
  "mergeFrom_loop tr [] tar_map size_changed = Inr (size_changed, tar_map)"
| "mergeFrom_loop tr ((k, v) # ori_map) tar_map size_changed =
     (case tr_emplace tr k v tar_map of (tar_map', ok) \<Rightarrow>
        if \<not> ok then throw '': got duplicate key''
        else mergeFrom_loop tr ori_map tar_map' (size_changed + calcTiKVKeyValueSize tr v))"

definition cf_mergeFrom ::
    "('k, 'v) cf_trait \<Rightarrow> ('k, 'v) cf_data \<Rightarrow> ('k, 'v) cf_data \<Rightarrow> (UInt64 \<times> ('k, 'v) cf_data) result" where
  "cf_mergeFrom tr ori_map d =
     rbind (mergeFrom_loop tr (data_map ori_map) (data_map d) 0) (\<lambda>(n, m). Inr (n, d\<lparr>data_map := m\<rparr>))"

definition in_range :: "RegionRange \<Rightarrow> TiKVKey \<Rightarrow> bool" where
  "in_range rng key \<longleftrightarrow> compare_key (fst rng) key \<le> 0 \<and> compare_key (snd rng) key > 0"

fun splitInto_loop ::
    "('k, 'v) cf_trait \<Rightarrow> RegionRange \<Rightarrow> ('k \<times> 'v) list \<Rightarrow> ('k \<times> 'v) list \<Rightarrow> UInt64
     \<Rightarrow> UInt64 \<times> ('k \<times> 'v) list \<times> ('k \<times> 'v) list" where
  "splitInto_loop tr rng [] tar_map size_changed = (size_changed, [], tar_map)"
| "splitInto_loop tr rng ((k, v) # ori_map) tar_map size_changed =
     (if in_range rng (getTiKVKey tr v)
      then splitInto_loop tr rng ori_map (fst (tr_emplace tr k v tar_map)) (size_changed + calcTiKVKeyValueSize tr v)
      else (case splitInto_loop tr rng ori_map tar_map size_changed of (n, rest, tar) \<Rightarrow> (n, (k, v) # rest, tar)))"

definition cf_splitInto ::
    "('k, 'v) cf_trait \<Rightarrow> RegionRange \<Rightarrow> ('k, 'v) cf_data \<Rightarrow> ('k, 'v) cf_data
     \<Rightarrow> UInt64 \<times> ('k, 'v) cf_data \<times> ('k, 'v) cf_data" where
  "cf_splitInto tr rng d new_region_data =
     (case splitInto_loop tr rng (data_map d) (data_map new_region_data) 0 of
        (n, rest, tar) \<Rightarrow> (n, d\<lparr>data_map := rest\<rparr>, new_region_data\<lparr>data_map := tar\<rparr>))"

definition cf_serialize :: "('k, 'v) cf_trait \<Rightarrow> ('k, 'v) cf_data \<Rightarrow> out" where
  "cf_serialize tr d =
     wseq (writeBinary2_num 8 (cf_getSize d)
       # map (\<lambda>(k, v). wseq [writeBinary2_string (getTiKVKey tr v), writeBinary2_string (getTiKVValue tr v)]) (data_map d))"

type_synonym ('k, 'v) inserter =
  "TiKVKey \<Rightarrow> TiKVValue \<Rightarrow> ('k, 'v) cf_data \<Rightarrow> (UInt64 \<times> ('k, 'v) cf_data) result"

fun deserialize_loop ::
    "('k, 'v) inserter \<Rightarrow> nat \<Rightarrow> bytes \<Rightarrow> UInt64 \<Rightarrow> ('k, 'v) cf_data \<Rightarrow> ((UInt64 \<times> ('k, 'v) cf_data) \<times> bytes) result" where
  "deserialize_loop ins 0 buf cf_size d = Inr ((cf_size, d), buf)"
| "deserialize_loop ins (Suc n) buf cf_size d =
     rbind (readBinary2_string buf) (\<lambda>(key, buf1).
     rbind (readBinary2_string buf1) (\<lambda>(v, buf2).
     rbind (ins key v d) (\<lambda>(sz, d'). deserialize_loop ins n buf2 (cf_size + sz) d')))"

definition cf_deserialize ::
    "('k, 'v) inserter \<Rightarrow> bytes \<Rightarrow> ('k, 'v) cf_data \<Rightarrow> ((UInt64 \<times> ('k, 'v) cf_data) \<times> bytes) result" where
  "cf_deserialize ins buf d =
     rbind (readBinary2_num 8 buf) (\<lambda>(n :: UInt64, buf1). deserialize_loop ins (unat n) buf1 0 d)"

definition popAll :: "('k, 'v) cf_data \<Rightarrow> TiKVValue list option \<times> ('k, 'v) cf_data" where
  "popAll d = (if pre_decode d = [] then (None, d) else (Some (pre_decode d), d\<lparr>pre_decode := []\<rparr>))"

subsection \<open>Sizes and contents\<close>

text \<open>The bytes that a map accounts for, as a 64-bit word, and the relation between two maps that
  differ only in what was decoded from the values.\<close>

definition cf_bytes :: "('k, 'v) cf_trait \<Rightarrow> ('k \<times> 'v) list \<Rightarrow> UInt64" where
  "cf_bytes tr m = sum_list (map (\<lambda>p. calcTiKVKeyValueSize tr (snd p)) m)"

definition same_kv :: "('k, 'v) cf_trait \<Rightarrow> 'k \<times> 'v \<Rightarrow> 'k \<times> 'v \<Rightarrow> bool" where
  "same_kv tr p q \<longleftrightarrow> fst p = fst q \<and> getTiKVKey tr (snd p) = getTiKVKey tr (snd q)
     \<and> getTiKVValue tr (snd p) = getTiKVValue tr (snd q)"

lemma cf_bytes_mset: "cf_bytes tr m = sum_mset (image_mset (\<lambda>p. calcTiKVKeyValueSize tr (snd p)) (mset m))"
  by (simp add: cf_bytes_def sum_mset_sum_list [symmetric])

lemma cf_bytes_Nil [simp]: "cf_bytes tr [] = 0"
  by (simp add: cf_bytes_def)

lemma calc_same_kv: "same_kv tr p q \<Longrightarrow> calcTiKVKeyValueSize tr (snd p) = calcTiKVKeyValueSize tr (snd q)"
  by (simp add: same_kv_def calcTiKVKeyValueSize_def)

lemma same_kv_keys: "list_all2 (same_kv tr) m m' \<Longrightarrow> map fst m = map fst m'"
  by (induction rule: list_all2_induct) (auto simp: same_kv_def)

lemma same_kv_bytes: "list_all2 (same_kv tr) m m' \<Longrightarrow> cf_bytes tr m = cf_bytes tr m'"
  by (induction rule: list_all2_induct) (auto simp: cf_bytes_def dest: calc_same_kv)

lemma same_kv_lookup:
  "list_all2 (same_kv tr) a b \<Longrightarrow> distinct (map fst b) \<Longrightarrow> (k, v) \<in> set a \<Longrightarrow>
   \<exists>v'. map_of b k = Some v' \<and> getTiKVKey tr v = getTiKVKey tr v' \<and> getTiKVValue tr v = getTiKVValue tr v'"
proof (induction rule: list_all2_induct)
  case (Cons p a q b)
  have keys: "map fst a = map fst b" by (rule same_kv_keys [OF Cons.hyps(2)])
  show ?case
  proof (cases "(k, v) = p")
    case True
    then show ?thesis using Cons.hyps(1) by (cases q) (auto simp: same_kv_def)
  next
    case False
    then have "(k, v) \<in> set a" using Cons.prems(2) by simp
    moreover from this have "k \<in> set (map fst b)" unfolding keys [symmetric] by force
    then have "fst q \<noteq> k" using Cons.prems(1) by auto
    ultimately show ?thesis using Cons.IH Cons.prems(1) by (cases q) auto
  qed
qed simp

lemma cf_cmp_same_kv:
  assumes "list_all2 (same_kv tr) a b" "distinct (map fst b)"
  shows "cf_cmp tr a b"
  using same_kv_lookup [OF assms] list_all2_lengthD [OF assms(1)]
  by (fastforce simp: cf_cmp_def list_all_iff)

subsection \<open>What a column family promises\<close>

definition cf_ok :: "(('k \<times> 'v) list \<Rightarrow> bool) \<Rightarrow> ('k \<times> 'v \<Rightarrow> bool) \<Rightarrow> ('k, 'v) cf_data \<Rightarrow> bool" where
  "cf_ok minv entry_ok d \<longleftrightarrow> minv (data_map d) \<and> list_all entry_ok (data_map d)"

locale cf_family = container "tr_emplace tr" inv
  for tr :: "('k, 'v) cf_trait" and inv :: "('k \<times> 'v) list \<Rightarrow> bool" +
  assumes finish_keeps: "finishInsert tr k v q = Inr (v', q') \<Longrightarrow> same_kv tr (k, v) (k, v')"
begin

lemma cf_insert_pair_ok:
  assumes inv: "inv (data_map d)" and ins: "cf_insert_pair tr (k, v) d = Inr (n, d')"
  obtains v' q' where "finishInsert tr k v (pre_decode d) = Inr (v', q')" "k \<notin> fst ` set (data_map d)"
    "inv (data_map d')" "map_of (data_map d') = (map_of (data_map d))(k \<mapsto> v')"
    "mset (data_map d') = add_mset (k, v') (mset (data_map d))" "n = calcTiKVKeyValueSize tr v'"
proof -
  obtain m ok where e: "tr_emplace tr k v (data_map d) = (m, ok)" by (rule prod.exhaust)
  then have "ok" using ins by (auto simp: cf_insert_pair_def split: if_splits)
  with e have e: "tr_emplace tr k v (data_map d) = (m, True)" by simp
  obtain v' q' where f: "finishInsert tr k v (pre_decode d) = Inr (v', q')" "n = calcTiKVKeyValueSize tr v'"
      "data_map d' = AList.update k v' m"
    using ins e by (auto simp: cf_insert_pair_def rbind_eq_Inr)
  note et = emplace_True [OF inv e] and mo = map_of_emplace [OF inv e]
  have "add_mset (k, v) (mset (AList.update k v' m)) = add_mset (k, v') (mset m)"
    by (rule mset_update) (simp_all add: mo inv_distinct [OF et(2)])
  then have ms: "mset (data_map d') = add_mset (k, v') (mset (data_map d))"
    by (simp add: f(3) et(3) add_mset_commute)
  have "k \<in> fst ` set m" using mo by (metis fun_upd_same map_of_eq_None_iff option.distinct(1))
  then have "inv (data_map d')" unfolding f(3) by (rule inv_update [OF et(2)])
  moreover have "map_of (data_map d') = (map_of (data_map d))(k \<mapsto> v')"
    by (simp add: f(3) mo update_conv')
  ultimately show thesis using that f et(1) ms by blast
qed

lemma cf_bytes_add: "mset m' = add_mset (k, v) (mset m) \<Longrightarrow> cf_bytes tr m' = cf_bytes tr m + calcTiKVKeyValueSize tr v"
  by (simp add: cf_bytes_mset)

lemma cf_remove_ok:
  assumes inv: "inv (data_map d)" and rem: "cf_remove tr k quiet d = Inr (n, d')"
  shows "inv (data_map d')" and "cf_bytes tr (data_map d') = cf_bytes tr (data_map d) - n"
    and "set (data_map d') \<subseteq> set (data_map d)"
proof -
  have "d' = d \<and> n = 0 \<or> (\<exists>v. map_of (data_map d) k = Some v \<and> n = calcTiKVKeyValueSize tr v
      \<and> data_map d' = filter (\<lambda>p. fst p \<noteq> k) (data_map d))"
    using rem by (auto simp: cf_remove_def split: option.splits if_splits)
  then show "inv (data_map d')" "cf_bytes tr (data_map d') = cf_bytes tr (data_map d) - n"
      "set (data_map d') \<subseteq> set (data_map d)"
    using inv inv_filter [OF inv] cf_bytes_add [OF mset_erase [OF inv_distinct [OF inv], of k]] by auto
qed

lemma mergeFrom_loop_ok:
  assumes "inv tar" and "mergeFrom_loop tr m tar sz = Inr (n, tar')"
  shows "inv tar' \<and> mset tar' = mset m + mset tar \<and> n = sz + cf_bytes tr m"
  using assms
proof (induction m arbitrary: tar sz)
  case (Cons p m)
  obtain k v where p: "p = (k, v)" by (rule prod.exhaust)
  obtain t1 where e: "tr_emplace tr k v tar = (t1, True)"
      and r: "mergeFrom_loop tr m t1 (sz + calcTiKVKeyValueSize tr v) = Inr (n, tar')"
    using Cons.prems(2) by (cases "tr_emplace tr k v tar") (auto simp: p split: if_splits)
  note et = emplace_True [OF Cons.prems(1) e]
  show ?case using Cons.IH [OF et(2) r] et(3) by (simp add: p cf_bytes_def)
qed simp

lemma mergeFrom_loop_defined:
  assumes "inv tar" "distinct (map fst m)" "fst ` set m \<inter> fst ` set tar = {}"
  shows "\<exists>n tar'. mergeFrom_loop tr m tar sz = Inr (n, tar')"
  using assms
proof (induction m arbitrary: tar sz)
  case (Cons p m)
  obtain k v where p: "p = (k, v)" by (rule prod.exhaust)
  have k: "k \<notin> fst ` set tar" using Cons.prems(3) by (auto simp: p)
  note e = emplace_absent [OF Cons.prems(1) k, of v]
  let ?t = "fst (tr_emplace tr k v tar)"
  have "set ?t = insert (k, v) (set tar)" using e by (metis list.set(2) mset.simps(2) set_mset_mset)
  then have "fst ` set m \<inter> fst ` set ?t = {}" using Cons.prems(2,3) by (auto simp: p)
  then have "\<exists>n tar'. mergeFrom_loop tr m ?t (sz + calcTiKVKeyValueSize tr v) = Inr (n, tar')"
    using Cons.IH [of ?t] e Cons.prems(2) by simp
  then show ?case using e by (simp add: p case_prod_unfold)
qed simp

lemma splitInto_loop_ok:
  assumes "inv tar" "distinct (map fst m)" "fst ` set m \<inter> fst ` set tar = {}"
    and "splitInto_loop tr rng m tar sz = (n, rest, tar')"
  shows "rest = filter (\<lambda>p. \<not> in_range rng (getTiKVKey tr (snd p))) m \<and> inv tar'
    \<and> mset tar' = mset (filter (\<lambda>p. in_range rng (getTiKVKey tr (snd p))) m) + mset tar
    \<and> n = sz + cf_bytes tr (filter (\<lambda>p. in_range rng (getTiKVKey tr (snd p))) m)"
  using assms
proof (induction m arbitrary: tar sz rest)
  case (Cons p m)
  obtain k v where p: "p = (k, v)" by (rule prod.exhaust)
  show ?case
  proof (cases "in_range rng (getTiKVKey tr v)")
    case True
    have k: "k \<notin> fst ` set tar" using Cons.prems(3) by (auto simp: p)
    note e = emplace_absent [OF Cons.prems(1) k, of v]
    let ?t = "fst (tr_emplace tr k v tar)"
    have "set ?t = insert (k, v) (set tar)" using e by (metis list.set(2) mset.simps(2) set_mset_mset)
    then have "fst ` set m \<inter> fst ` set ?t = {}" using Cons.prems(2,3) by (auto simp: p)
    then show ?thesis
      using Cons.IH [of ?t "sz + calcTiKVKeyValueSize tr v" rest] e Cons.prems(2,4) True
      by (simp add: p cf_bytes_def ac_simps)
  next
    case False
    then obtain r where "splitInto_loop tr rng m tar sz = (n, r, tar')" "rest = (k, v) # r"
      using Cons.prems(4) by (auto simp: p split: prod.splits)
    then show ?thesis using Cons.IH [of tar sz r] Cons.prems(1,2,3) False by (auto simp: p)
  qed
qed simp

lemma cf_split_ok:
  assumes ok: "cf_ok inv P d" and sp: "cf_splitInto tr rng d empty_cf = (n, d1, d2)"
  shows "cf_ok inv P d1" "cf_ok inv P d2" "mset (data_map d) = mset (data_map d1) + mset (data_map d2)"
    "n = cf_bytes tr (data_map d2)" "cf_bytes tr (data_map d) = cf_bytes tr (data_map d1) + n"
    "set (data_map d1) = {p \<in> set (data_map d). \<not> in_range rng (getTiKVKey tr (snd p))}"
    "set (data_map d2) = {p \<in> set (data_map d). in_range rng (getTiKVKey tr (snd p))}"
proof -
  let ?in = "\<lambda>p. in_range rng (getTiKVKey tr (snd p))"
  have i: "inv (data_map d)" "list_all P (data_map d)" using ok by (simp_all add: cf_ok_def)
  obtain rest tar where l: "splitInto_loop tr rng (data_map d) [] 0 = (n, rest, tar)"
      and d: "data_map d1 = rest" "data_map d2 = tar"
    using sp by (auto simp: cf_splitInto_def empty_cf_def split: prod.splits)
  note s = splitInto_loop_ok [OF inv_Nil inv_distinct [OF i(1)] _ l]
  have d1: "data_map d1 = filter (\<lambda>p. \<not> ?in p) (data_map d)" using s d by simp
  have m2: "mset (data_map d2) = mset (filter ?in (data_map d))" and "inv (data_map d2)" using s d by simp_all
  have "set (data_map d2) = set (filter ?in (data_map d))" by (rule mset_eq_setD [OF m2])
  then show "cf_ok inv P d2" "set (data_map d2) = {p \<in> set (data_map d). ?in p}"
    using i(2) \<open>inv (data_map d2)\<close> by (auto simp: cf_ok_def list_all_iff)
  show "cf_ok inv P d1" "set (data_map d1) = {p \<in> set (data_map d). \<not> ?in p}"
    using i inv_filter [OF i(1)] by (auto simp: cf_ok_def d1 list_all_iff)
  show m: "mset (data_map d) = mset (data_map d1) + mset (data_map d2)"
    unfolding d1 m2 mset_filter by (subst multiset_partition [of "mset (data_map d)" ?in]) (rule add.commute)
  show n: "n = cf_bytes tr (data_map d2)" using s m2 by (simp add: cf_bytes_mset)
  show "cf_bytes tr (data_map d) = cf_bytes tr (data_map d1) + n" by (simp add: n cf_bytes_mset m)
qed

lemma cf_merge_ok:
  assumes "cf_ok inv P d" "cf_ok inv P ori_d" "cf_mergeFrom tr ori_d d = Inr (n, d')"
  shows "cf_ok inv P d'" "mset (data_map d') = mset (data_map ori_d) + mset (data_map d)" "n = cf_bytes tr (data_map ori_d)"
proof -
  have "mergeFrom_loop tr (data_map ori_d) (data_map d) 0 = Inr (n, data_map d')"
    using assms(3) by (auto simp: cf_mergeFrom_def rbind_eq_Inr)
  then have m: "inv (data_map d')" "mset (data_map d') = mset (data_map ori_d) + mset (data_map d)"
      "n = cf_bytes tr (data_map ori_d)"
    using mergeFrom_loop_ok [of "data_map d" "data_map ori_d" 0 n "data_map d'"] assms(1) by (simp_all add: cf_ok_def)
  have "set (data_map d') = set (data_map ori_d @ data_map d)" by (rule mset_eq_setD) (simp add: m(2))
  then show "cf_ok inv P d'" using m(1) assms(1,2) by (auto simp: cf_ok_def list_all_iff)
  show "mset (data_map d') = mset (data_map ori_d) + mset (data_map d)" "n = cf_bytes tr (data_map ori_d)" by (fact m)+
qed

lemma cf_merge_defined:
  assumes "cf_ok inv P d" "cf_ok inv P ori_d" "fst ` set (data_map ori_d) \<inter> fst ` set (data_map d) = {}"
  shows "\<exists>n d'. cf_mergeFrom tr ori_d d = Inr (n, d')"
  using mergeFrom_loop_defined [of "data_map d" "data_map ori_d" 0] inv_distinct assms
  by (auto simp: cf_mergeFrom_def cf_ok_def rbind_eq_Inr)

end

subsection \<open>Storing a column family and loading it again\<close>

text \<open>Strings that the reader of strings accepts.\<close>

definition kv_fits :: "('k, 'v) cf_trait \<Rightarrow> 'k \<times> 'v \<Rightarrow> bool" where
  "kv_fits tr p \<longleftrightarrow> length (getTiKVKey tr (snd p)) \<le> 0x00FFFFFF \<and> length (getTiKVValue tr (snd p)) \<le> 0x00FFFFFF"

definition kv_out :: "('k, 'v) cf_trait \<Rightarrow> 'k \<times> 'v \<Rightarrow> out" where
  "kv_out tr p = wseq [writeBinary2_string (getTiKVKey tr (snd p)), writeBinary2_string (getTiKVValue tr (snd p))]"

lemma fst_kv_out: "fst (kv_out tr p) =
    fst (writeBinary2_string (getTiKVKey tr (snd p))) @ fst (writeBinary2_string (getTiKVValue tr (snd p)))"
  by (simp add: kv_out_def)

lemma cf_serialize_kv_out: "cf_serialize tr d = wseq (writeBinary2_num 8 (cf_getSize d) # map (kv_out tr) (data_map d))"
  by (simp add: cf_serialize_def kv_out_def [abs_def] case_prod_unfold)

lemma cf_serialize_size: "snd (cf_serialize tr d) = of_nat (length (fst (cf_serialize tr d)))"
proof -
  have "snd (wseq (map (kv_out tr) m)) = of_nat (length (fst (wseq (map (kv_out tr) m))))" for m
    by (induction m) (simp_all add: kv_out_def str.write_size)
  then show ?thesis by (simp add: cf_serialize_kv_out num8.write_size)
qed

lemma deserialize_loop_inv:
  assumes step: "\<And>key v d n d'. Q d \<Longrightarrow> ins key v d = Inr (n, d') \<Longrightarrow> Q d' \<and> f d' = (f d + n :: UInt64)"
  shows "Q d \<Longrightarrow> deserialize_loop ins k buf sz d = Inr ((n, d'), rest) \<Longrightarrow> Q d' \<and> f d' + sz = f d + n"
proof (induction k arbitrary: buf sz d)
  case (Suc k)
  obtain key v n1 d1 buf2 where s: "ins key v d = Inr (n1, d1)"
      "deserialize_loop ins k buf2 (sz + n1) d1 = Inr ((n, d'), rest)"
    using Suc.prems(2) by (auto simp: rbind_eq_Inr)
  have d1: "Q d1 \<and> f d1 = f d + n1" by (rule step [OF Suc.prems(1) s(1)])
  then have d': "Q d' \<and> f d' + (sz + n1) = f d1 + n" using Suc.IH [OF _ s(2)] by blast
  then have "f d' + sz + n1 = f d + n + n1" using d1 by (simp add: ac_simps)
  then show ?case using d' by simp
qed simp

lemma cf_deserialize_inv:
  assumes "Q d" "cf_deserialize ins buf d = Inr ((n, d'), rest)"
    and "\<And>key v d n d'. Q d \<Longrightarrow> ins key v d = Inr (n, d') \<Longrightarrow> Q d' \<and> f d' = (f d + n :: UInt64)"
  shows "Q d' \<and> f d' = f d + n"
proof -
  obtain k buf1 where "deserialize_loop ins k buf1 0 d = Inr ((n, d'), rest)"
    using assms(2) by (auto simp: cf_deserialize_def rbind_eq_Inr)
  with assms(3,1) have "Q d' \<and> f d' + 0 = f d + n" by (rule deserialize_loop_inv)
  then show ?thesis by simp
qed

text \<open>
  \<open>reloadable\<close>: inserting the key and the value of an entry, behind entries that were inserted before in
  the order of the map, restores the entry.
\<close>

locale reloadable =
  fixes ins :: "('k, 'v) inserter" and tr :: "('k, 'v) cf_trait"
    and inv :: "('k \<times> 'v) list \<Rightarrow> bool" and entry_ok :: "'k \<times> 'v \<Rightarrow> bool"
  assumes prefix_inv: "inv (m @ m') \<Longrightarrow> inv m"
    and ins_last: "inv (m @ [p]) \<Longrightarrow> entry_ok p \<Longrightarrow> list_all2 (same_kv tr) m (data_map d) \<Longrightarrow>
      \<exists>d'. ins (getTiKVKey tr (snd p)) (getTiKVValue tr (snd p)) d = Inr (calcTiKVKeyValueSize tr (snd p), d')
        \<and> list_all2 (same_kv tr) (m @ [p]) (data_map d')"
begin

lemma deserialize_loop_serialize:
  assumes "inv (m0 @ m)" "list_all entry_ok m" "list_all (kv_fits tr) m" "list_all2 (same_kv tr) m0 (data_map d)"
  shows "\<exists>d'. deserialize_loop ins (length m) (fst (wseq (map (kv_out tr) m)) @ rest) sz d
      = Inr ((sz + cf_bytes tr m, d'), rest) \<and> list_all2 (same_kv tr) (m0 @ m) (data_map d')"
  using assms
proof (induction m arbitrary: m0 sz d)
  case (Cons p m)
  have inv: "inv ((m0 @ [p]) @ m)" using Cons.prems(1) by simp
  obtain d1 where d1: "ins (getTiKVKey tr (snd p)) (getTiKVValue tr (snd p)) d = Inr (calcTiKVKeyValueSize tr (snd p), d1)"
      "list_all2 (same_kv tr) (m0 @ [p]) (data_map d1)"
    using ins_last [OF prefix_inv [OF inv], of d] Cons.prems(2,4) by auto
  obtain d' where d': "deserialize_loop ins (length m) (fst (wseq (map (kv_out tr) m)) @ rest)
        (sz + calcTiKVKeyValueSize tr (snd p)) d1 = Inr ((sz + calcTiKVKeyValueSize tr (snd p) + cf_bytes tr m, d'), rest)"
      "list_all2 (same_kv tr) ((m0 @ [p]) @ m) (data_map d')"
    using Cons.IH [OF inv _ _ d1(2), of "sz + calcTiKVKeyValueSize tr (snd p)"] Cons.prems(2,3) by auto
  show ?case
    using Cons.prems(3) d1(1) d' by (auto simp: fst_kv_out kv_fits_def str.read_write cf_bytes_def ac_simps)
qed (auto)

lemma cf_deserialize_serialize:
  assumes "inv (data_map d)" "list_all entry_ok (data_map d)" "list_all (kv_fits tr) (data_map d)"
    and "length (data_map d) < 2 ^ 64"
  shows "\<exists>d'. cf_deserialize ins (fst (cf_serialize tr d) @ rest) empty_cf
      = Inr ((cf_bytes tr (data_map d), d'), rest) \<and> list_all2 (same_kv tr) (data_map d) (data_map d')"
  using deserialize_loop_serialize [of "[]" "data_map d" empty_cf rest 0] assms
  by (simp add: cf_deserialize_def cf_serialize_kv_out num8.read_write cf_getSize_def empty_cf_def unat_of_nat_64 del: wseq.simps)

end

subsection \<open>Families whose keys are decoded from the keys of the transaction layer\<close>

locale keyed_family = cf_family tr inv
  for tr :: "('k, 'v) cf_trait" and inv :: "('k \<times> 'v) list \<Rightarrow> bool" +
  fixes entry_ok :: "'k \<times> 'v \<Rightarrow> bool"
  assumes gen_kv: "genKVPair tr key raw_key val = Inr (Some (k, v0)) \<Longrightarrow> getTiKVKey tr v0 = key \<and> getTiKVValue tr v0 = val"
    and gen_entry: "decodeTiKVKey key = Inr raw_key \<Longrightarrow> genKVPair tr key raw_key val = Inr (Some (k, v0)) \<Longrightarrow>
      finishInsert tr k v0 q = Inr (v1, q1) \<Longrightarrow> entry_ok (k, v1)"
    and entry_gen: "entry_ok (k, v) \<Longrightarrow> \<exists>raw_key v0. decodeTiKVKey (getTiKVKey tr v) = Inr raw_key
      \<and> genKVPair tr (getTiKVKey tr v) raw_key (getTiKVValue tr v) = Inr (Some (k, v0))
      \<and> (\<forall>q. \<exists>v1 q1. finishInsert tr k v0 q = Inr (v1, q1))"
begin

lemma cf_insert_ok:
  assumes inv: "inv (data_map d)" "list_all entry_ok (data_map d)" and ins: "cf_insert tr key v d = Inr (n, d')"
  shows "inv (data_map d') \<and> list_all entry_ok (data_map d')
    \<and> cf_bytes tr (data_map d') = cf_bytes tr (data_map d) + n"
proof -
  obtain raw_key kv where g: "decodeTiKVKey key = Inr raw_key" "genKVPair tr key raw_key v = Inr kv"
      and r: "(case kv of None \<Rightarrow> Inr (0, d) | Some kv \<Rightarrow> cf_insert_pair tr kv d) = Inr (n, d')"
    using ins by (auto simp: cf_insert_def rbind_eq_Inr)
  show ?thesis
  proof (cases kv)
    case None
    then show ?thesis using r inv by simp
  next
    case (Some p)
    obtain k v0 where p: "p = (k, v0)" by (rule prod.exhaust)
    obtain v' q' where c: "finishInsert tr k v0 (pre_decode d) = Inr (v', q')" "inv (data_map d')"
        "mset (data_map d') = add_mset (k, v') (mset (data_map d))" "n = calcTiKVKeyValueSize tr v'"
      by (rule cf_insert_pair_ok [OF inv(1), of k v0 n d']) (use r Some p in auto)
    have "set (data_map d') = insert (k, v') (set (data_map d))"
      using c(3) by (metis list.set(2) mset.simps(2) set_mset_mset)
    then have "list_all entry_ok (data_map d')"
      using inv(2) gen_entry [OF g(1) _ c(1)] g(2) Some p by (simp add: list_all_iff)
    then show ?thesis using c cf_bytes_add [OF c(3)] by simp
  qed
qed

lemma cf_insert_last:
  assumes "inv (m @ [p])" "entry_ok p" "list_all2 (same_kv tr) m (data_map d)"
  shows "\<exists>d'. cf_insert tr (getTiKVKey tr (snd p)) (getTiKVValue tr (snd p)) d = Inr (calcTiKVKeyValueSize tr (snd p), d')
    \<and> list_all2 (same_kv tr) (m @ [p]) (data_map d')"
proof -
  obtain k v where p: "p = (k, v)" by (rule prod.exhaust)
  obtain raw_key v0 where g: "decodeTiKVKey (getTiKVKey tr v) = Inr raw_key"
      "genKVPair tr (getTiKVKey tr v) raw_key (getTiKVValue tr v) = Inr (Some (k, v0))"
      "\<And>q. \<exists>v1 q1. finishInsert tr k v0 q = Inr (v1, q1)"
    using entry_gen [of k v] assms(2) by (auto simp: p)
  obtain v1 q1 where f: "finishInsert tr k v0 (pre_decode d) = Inr (v1, q1)" using g(3) by blast
  have keys: "map fst (data_map d) = map fst m" using same_kv_keys [OF assms(3)] by simp
  then have "inv (data_map d @ [(k, v0)])" by (intro inv_keys [OF assms(1)]) (simp add: p)
  then have e: "tr_emplace tr k v0 (data_map d) = (data_map d @ [(k, v0)], True)" by (rule emplace_last)
  have "k \<notin> set (map fst (data_map d))" unfolding keys using inv_distinct [OF assms(1)] by (simp add: p)
  then have u: "AList.update k v1 (data_map d @ [(k, v0)]) = data_map d @ [(k, v1)]"
    by (intro update_snoc) simp
  have s: "same_kv tr (k, v) (k, v1)"
    using finish_keeps [OF f] gen_kv [OF g(2)] by (simp add: same_kv_def)
  then show ?thesis
    using g f e u assms(3) calc_same_kv [OF s] by (simp add: p cf_insert_def cf_insert_pair_def list_all2_appendI)
qed

end

sublocale keyed_family \<subseteq> stored: reloadable "cf_insert tr" tr inv entry_ok
  by unfold_locales (rule inv_append, assumption, rule cf_insert_last)

subsection \<open>The three column families\<close>

text \<open>Entries that an insertion can have made: the key of the entry is the one its \<open>TiKVKey\<close> stands for,
  the decoded part comes from its value; the write family may have filled in the value from the default
  family.\<close>

definition default_entry_ok :: "cf_key \<times> default_value \<Rightarrow> bool" where
  "default_entry_ok p = (case rbind (decodeTiKVKey (fst (snd p))) (\<lambda>raw_key. default_genKVPair (fst (snd p)) raw_key (snd (snd p))) of
     Inr (Some q) \<Rightarrow> p = q | _ \<Rightarrow> False)"

definition write_entry_ok :: "cf_key \<times> write_value \<Rightarrow> bool" where
  "write_entry_ok p = (case p of (k, (key, v, d)) \<Rightarrow>
     (case rbind (decodeTiKVKey key) (\<lambda>raw_key. write_genKVPair key raw_key v) of
        Inr (Some (k', (_, _, d'))) \<Rightarrow> k = k' \<and> write_type d = write_type d' \<and> prewrite_ts d = prewrite_ts d'
          \<and> (if write_type d' = PutFlag then short_value d' = None \<or> short_value d = short_value d'
             else short_value d' = None \<and> short_value d = None)
      | _ \<Rightarrow> False))"

definition lock_entry_ok :: "TiKVKey \<times> lock_value \<Rightarrow> bool" where
  "lock_entry_ok p = (lock_genKVPair (fst p) (fst (snd (snd p))) = Inr p)"

lemma write_finishInsert_cases:
  assumes "write_finishInsert dm k (key, v, d) q = Inr (w, q')"
  obtains d' where "w = (key, v, d')" "write_type d' = write_type d" "prewrite_ts d' = prewrite_ts d"
    "if write_type d = PutFlag then short_value d = None \<or> short_value d' = short_value d
     else short_value d = None \<and> short_value d' = None"
  using assms that by (auto simp: write_finishInsert_def split: if_splits option.splits)

lemma write_genKVPair_kv: "write_genKVPair key raw_key v = Inr (Some (k, v0)) \<Longrightarrow> \<exists>d. v0 = (key, v, d)"
  by (auto simp: write_genKVPair_def rbind_eq_Inr split: option.splits)

lemma write_gen_entry:
  assumes "decodeTiKVKey key = Inr raw_key" "write_genKVPair key raw_key v = Inr (Some (k, v0))"
    and "write_finishInsert dm k v0 q = Inr (v1, q1)"
  shows "write_entry_ok (k, v1)"
proof -
  obtain d where v0: "v0 = (key, v, d)" using write_genKVPair_kv [OF assms(2)] by blast
  show ?thesis
    using assms(3) unfolding v0
    by (rule write_finishInsert_cases) (use assms(1,2) in \<open>simp add: write_entry_ok_def v0\<close>)
qed

lemma write_entry_gen:
  assumes "write_entry_ok (k, (key, v, d))"
  shows "\<exists>raw_key v0. decodeTiKVKey key = Inr raw_key \<and> write_genKVPair key raw_key v = Inr (Some (k, v0))
      \<and> (\<forall>q. \<exists>v1 q1. write_finishInsert dm k v0 q = Inr (v1, q1))"
proof -
  obtain raw_key v' d' where g: "decodeTiKVKey key = Inr raw_key" "write_genKVPair key raw_key v = Inr (Some (k, v'))"
      "snd (snd v') = d'" "write_type d' = PutFlag \<or> short_value d' = None"
    using assms unfolding write_entry_ok_def
    by (cases "decodeTiKVKey key") (auto split: sum.splits option.splits if_splits)
  then have "\<exists>v1 q1. write_finishInsert dm k v' q = Inr (v1, q1)" for q
    by (cases v') (auto simp: write_finishInsert_def split: option.splits)
  then show ?thesis using g by blast
qed

interpretation write_cf: keyed_family "RegionWriteCFDataTrait dm" map_inv write_entry_ok for dm
proof (intro keyed_family.intro cf_family.intro cf_family_axioms.intro keyed_family_axioms.intro)
  show "container (tr_emplace (RegionWriteCFDataTrait dm)) map_inv"
    by (simp add: RegionWriteCFDataTrait_def std_map.container_axioms)
  show "same_kv (RegionWriteCFDataTrait dm) (k, v) (k, v')"
    if "finishInsert (RegionWriteCFDataTrait dm) k v q = Inr (v', q')" for k v v' q q'
    using that by (cases v) (simp add: RegionWriteCFDataTrait_def same_kv_def, erule write_finishInsert_cases, simp)
  show "getTiKVKey (RegionWriteCFDataTrait dm) v0 = key \<and> getTiKVValue (RegionWriteCFDataTrait dm) v0 = v"
    if "genKVPair (RegionWriteCFDataTrait dm) key raw_key v = Inr (Some (k, v0))" for key raw_key v k v0
    using that write_genKVPair_kv [of key raw_key v k v0] by (auto simp: RegionWriteCFDataTrait_def)
  show "write_entry_ok (k, v1)"
    if "decodeTiKVKey key = Inr raw_key" "genKVPair (RegionWriteCFDataTrait dm) key raw_key v = Inr (Some (k, v0))"
      "finishInsert (RegionWriteCFDataTrait dm) k v0 q = Inr (v1, q1)" for key raw_key v k v0 q v1 q1
    using that by (intro write_gen_entry [of key raw_key v k v0 dm q v1 q1]) (simp_all add: RegionWriteCFDataTrait_def)
  show "\<exists>raw_key v0. decodeTiKVKey (getTiKVKey (RegionWriteCFDataTrait dm) v) = Inr raw_key
      \<and> genKVPair (RegionWriteCFDataTrait dm) (getTiKVKey (RegionWriteCFDataTrait dm) v) raw_key
          (getTiKVValue (RegionWriteCFDataTrait dm) v) = Inr (Some (k, v0))
      \<and> (\<forall>q. \<exists>v1 q1. finishInsert (RegionWriteCFDataTrait dm) k v0 q = Inr (v1, q1))"
    if "write_entry_ok (k, v)" for k v
    using write_entry_gen [of k "fst v" "fst (snd v)" "snd (snd v)" dm] that
    by (simp only: RegionWriteCFDataTrait_def cf_trait.simps prod.collapse)
qed

interpretation default_cf: keyed_family RegionDefaultCFDataTrait map_inv default_entry_ok
proof (intro keyed_family.intro cf_family.intro cf_family_axioms.intro keyed_family_axioms.intro)
  show "container (tr_emplace RegionDefaultCFDataTrait) map_inv"
    by (simp add: RegionDefaultCFDataTrait_def std_map.container_axioms)
  show "\<exists>raw_key v0. decodeTiKVKey (getTiKVKey RegionDefaultCFDataTrait v) = Inr raw_key
      \<and> genKVPair RegionDefaultCFDataTrait (getTiKVKey RegionDefaultCFDataTrait v) raw_key
          (getTiKVValue RegionDefaultCFDataTrait v) = Inr (Some (k, v0))
      \<and> (\<forall>q. \<exists>v1 q1. finishInsert RegionDefaultCFDataTrait k v0 q = Inr (v1, q1))"
    if "default_entry_ok (k, v)" for k v
    using that by (cases "decodeTiKVKey (fst v)")
      (auto simp: RegionDefaultCFDataTrait_def default_entry_ok_def default_finishInsert_def split: sum.splits option.splits)
qed (auto simp: RegionDefaultCFDataTrait_def default_finishInsert_def same_kv_def default_entry_ok_def
    default_genKVPair_def rbind_eq_Inr)

interpretation lock_cf: cf_family RegionLockCFDataTrait umap_inv
proof (intro cf_family.intro cf_family_axioms.intro)
  show "container (tr_emplace RegionLockCFDataTrait) umap_inv"
    by (simp add: RegionLockCFDataTrait_def unordered_map.container_axioms)
qed (simp add: RegionLockCFDataTrait_def same_kv_def)

lemma lock_genKVPair_kv: "lock_genKVPair key v = Inr p \<Longrightarrow> fst p = key \<and> fst (snd p) = key \<and> fst (snd (snd p)) = v"
  by (auto simp: lock_genKVPair_def rbind_eq_Inr)

lemma lock_insert_ok:
  assumes "umap_inv (data_map d)" "list_all lock_entry_ok (data_map d)" "lock_insert key v d = Inr (n, d')"
  shows "n = 0" and "umap_inv (data_map d')" and "list_all lock_entry_ok (data_map d')"
proof -
  obtain k lv where g: "lock_genKVPair key v = Inr (k, lv)" "n = 0" "data_map d' = AList.update k lv (data_map d)"
    using assms(3) by (auto simp: lock_insert_def rbind_eq_Inr)
  have "lock_entry_ok (k, lv)" using g(1) lock_genKVPair_kv [OF g(1)] by (simp add: lock_entry_ok_def)
  moreover have "set (AList.update k lv (data_map d)) \<subseteq> insert (k, lv) (set (data_map d))"
    by (rule set_update_subset)
  ultimately show "list_all lock_entry_ok (data_map d')" using assms(2) by (auto simp: g(3) list_all_iff)
  show "umap_inv (data_map d')" using assms(1) by (simp add: g(3) umap_inv_def distinct_update)
  show "n = 0" by (rule g(2))
qed

interpretation lock_stored: reloadable lock_insert RegionLockCFDataTrait umap_inv lock_entry_ok
proof
  show "umap_inv m" if "umap_inv (m @ m')" for m m' :: "(TiKVKey \<times> lock_value) list"
    using that by (simp add: umap_inv_def)
next
  fix m :: "(TiKVKey \<times> lock_value) list" and p and d :: "(TiKVKey, lock_value) cf_data"
  assume a: "umap_inv (m @ [p])" "lock_entry_ok p" "list_all2 (same_kv RegionLockCFDataTrait) m (data_map d)"
  obtain k lv where p: "p = (k, lv)" by (rule prod.exhaust)
  have g: "lock_genKVPair k (fst (snd lv)) = Inr (k, lv)" using a(2) by (simp add: lock_entry_ok_def p)
  have "fst ` set (data_map d) = fst ` set m" using same_kv_keys [OF a(3)] by (metis list.set_map)
  then have "k \<notin> fst ` set (data_map d)" using a(1) by (simp add: umap_inv_def p)
  then have "AList.update k lv (data_map d) = data_map d @ [(k, lv)]" by (rule update_absent)
  moreover have "fst lv = k" using lock_genKVPair_kv [OF g] by simp
  ultimately show "\<exists>d'. lock_insert (getTiKVKey RegionLockCFDataTrait (snd p)) (getTiKVValue RegionLockCFDataTrait (snd p)) d
        = Inr (calcTiKVKeyValueSize RegionLockCFDataTrait (snd p), d')
      \<and> list_all2 (same_kv RegionLockCFDataTrait) (m @ [p]) (data_map d')"
    using g a(3) by (simp add: p RegionLockCFDataTrait_def lock_insert_def calcTiKVKeyValueSize_def
        same_kv_def list_all2_appendI)
qed

end
