(* ===== verification/RegionData.thy ===== *)
theory RegionData
  imports CFData
begin

section \<open>The data of a region\<close>

text \<open>
  \<open>Storages/Transaction/RegionData.cpp\<close>: the three column families of a region and the number of bytes
  of the write and of the default family. An iterator of the write family is the entry it points to. The
  accessors \<open>writeCF\<close>, \<open>defaultCF\<close> and \<open>lockCF\<close> are the fields of the record. The map that
  \<open>getDefaultCFMap\<close> reaches by pointer arithmetic is the argument of the write trait.
\<close>

subsection \<open>Operations\<close>

datatype ColumnFamilyType = CF_Lock | CF_Write | CF_Default | CF_Undefined

definition NameToCF :: "string \<Rightarrow> ColumnFamilyType result" where
  "NameToCF cf =
     (if cf = [] \<or> cf = ''default'' then Inr CF_Default
      else if cf = ''lock'' then Inr CF_Lock
      else if cf = ''write'' then Inr CF_Write
      else throw ''Unsupported cf name '')"

definition CFToName :: "ColumnFamilyType \<Rightarrow> string result" where
  "CFToName type =
     (case type of CF_Default \<Rightarrow> Inr ''default'' | CF_Lock \<Rightarrow> Inr ''lock'' | CF_Write \<Rightarrow> Inr ''write''
      | CF_Undefined \<Rightarrow> throw ''Can not tell cf type '')"

record RegionData =
  rd_write :: "(cf_key, write_value) cf_data"
  rd_default :: "(cf_key, default_value) cf_data"
  rd_lock :: "(TiKVKey, lock_value) cf_data"
  cf_data_size :: UInt64

definition empty_RegionData :: RegionData where
  "empty_RegionData = \<lparr>rd_write = empty_cf, rd_default = empty_cf, rd_lock = empty_cf, cf_data_size = 0\<rparr>"

abbreviation write_trait :: "RegionData \<Rightarrow> (cf_key, write_value) cf_trait" where
  "write_trait d \<equiv> RegionWriteCFDataTrait (data_map (rd_default d))"

definition rd_insert :: "ColumnFamilyType \<Rightarrow> TiKVKey \<Rightarrow> TiKVValue \<Rightarrow> RegionData \<Rightarrow> RegionData result" where
  "rd_insert cf key v d =
     (case cf of
        CF_Write \<Rightarrow> rbind (cf_insert (write_trait d) key v (rd_write d)) (\<lambda>(n, w).
          Inr (d\<lparr>rd_write := w, cf_data_size := cf_data_size d + n\<rparr>))
      | CF_Default \<Rightarrow> rbind (cf_insert RegionDefaultCFDataTrait key v (rd_default d)) (\<lambda>(n, w).
          Inr (d\<lparr>rd_default := w, cf_data_size := cf_data_size d + n\<rparr>))
      | CF_Lock \<Rightarrow> rbind (lock_insert key v (rd_lock d)) (\<lambda>(n, w). Inr (d\<lparr>rd_lock := w\<rparr>))
      | CF_Undefined \<Rightarrow> throw '' with undefined CF, should not happen'')"

definition decode_cf_key :: "TiKVKey \<Rightarrow> cf_key result" where
  "decode_cf_key key =
     rbind (decodeTiKVKey key) (\<lambda>raw_key.
     rbind (getRawTiDBPK raw_key) (\<lambda>pk.
     rbind (getTs key) (\<lambda>ts. Inr (pk, ts))))"

definition rd_remove :: "ColumnFamilyType \<Rightarrow> TiKVKey \<Rightarrow> RegionData \<Rightarrow> RegionData result" where
  "rd_remove cf key d =
     (case cf of
        CF_Write \<Rightarrow> rbind (decode_cf_key key) (\<lambda>k. rbind (cf_remove (write_trait d) k True (rd_write d)) (\<lambda>(n, w).
          Inr (d\<lparr>rd_write := w, cf_data_size := cf_data_size d - n\<rparr>)))
      | CF_Default \<Rightarrow> rbind (decode_cf_key key) (\<lambda>k. rbind (cf_remove RegionDefaultCFDataTrait k True (rd_default d)) (\<lambda>(n, w).
          Inr (d\<lparr>rd_default := w, cf_data_size := cf_data_size d - n\<rparr>)))
      | CF_Lock \<Rightarrow> rbind (cf_remove RegionLockCFDataTrait key True (rd_lock d)) (\<lambda>(n, w). Inr (d\<lparr>rd_lock := w\<rparr>))
      | CF_Undefined \<Rightarrow> throw '' with undefined CF, should not happen'')"

text \<open>The iterator after the erased element is the key of the next entry, if there is one.\<close>

definition removeDataByWriteIt :: "cf_key \<times> write_value \<Rightarrow> RegionData \<Rightarrow> cf_key option \<times> RegionData" where
  "removeDataByWriteIt write_it d =
     (case write_it of ((pk, ts), (key, v, decoded_val)) \<Rightarrow>
       let d1 = (if write_type decoded_val = PutFlag then
                   (case map_of (data_map (rd_default d)) (pk, prewrite_ts decoded_val) of
                      Some dv \<Rightarrow> d\<lparr>rd_default := (rd_default d)\<lparr>data_map :=
                            filter (\<lambda>p. fst p \<noteq> (pk, prewrite_ts decoded_val)) (data_map (rd_default d))\<rparr>,
                          cf_data_size := cf_data_size d - calcTiKVKeyValueSize RegionDefaultCFDataTrait dv\<rparr>
                    | None \<Rightarrow> d)
                 else d);
           m = data_map (rd_write d1)
       in ((case dropWhile (\<lambda>p. fst p \<noteq> (pk, ts)) m of _ # (k, _) # _ \<Rightarrow> Some k | _ \<Rightarrow> None),
           d1\<lparr>cf_data_size := cf_data_size d1 - calcTiKVKeyValueSize (write_trait d1) (snd write_it),
              rd_write := (rd_write d1)\<lparr>data_map := filter (\<lambda>p. fst p \<noteq> (pk, ts)) m\<rparr>\<rparr>))"

type_synonym RegionDataReadInfo = "RawTiDBPK \<times> UInt8 \<times> Timestamp \<times> TiKVValue option"

definition readDataByWriteIt :: "cf_key \<times> write_value \<Rightarrow> bool \<Rightarrow> RegionData \<Rightarrow> RegionDataReadInfo result" where
  "readDataByWriteIt write_it need_value d =
     (case write_it of ((pk, ts), (key, v, decoded_val)) \<Rightarrow>
       if \<not> need_value then Inr (pk, write_type decoded_val, ts, None)
       else if write_type decoded_val \<noteq> PutFlag then Inr (pk, write_type decoded_val, ts, None)
       else (case short_value decoded_val of
               None \<Rightarrow> (case map_of (data_map (rd_default d)) (pk, prewrite_ts decoded_val) of
                  Some dv \<Rightarrow> Inr (pk, write_type decoded_val, ts, Some (snd dv))
                | None \<Rightarrow> throw '' can not found in default cf for key: '')
             | Some sv \<Rightarrow> Inr (pk, write_type decoded_val, ts, Some sv)))"

record RegionLockReadQuery =
  read_tso :: UInt64
  bypass_lock_ts :: "UInt64 list option"

fun getLockInfo_loop :: "(TiKVKey \<times> lock_value) list \<Rightarrow> RegionLockReadQuery \<Rightarrow> DecodedLockCFValue option" where
  "getLockInfo_loop [] query = None"
| "getLockInfo_loop ((pk, (tikv_key, tikv_val, lock_info)) # m) query =
     (if lock_version lock_info > read_tso query \<or> lock_type lock_info = Op_Lock
         \<or> lock_type lock_info = Op_PessimisticLock then getLockInfo_loop m query
      else if min_commit_ts lock_info > read_tso query then getLockInfo_loop m query
      else if (case bypass_lock_ts query of None \<Rightarrow> False | Some s \<Rightarrow> lock_version lock_info \<in> set s)
      then getLockInfo_loop m query
      else Some lock_info)"

definition getLockInfo :: "RegionLockReadQuery \<Rightarrow> RegionData \<Rightarrow> DecodedLockCFValue option" where
  "getLockInfo query d = getLockInfo_loop (data_map (rd_lock d)) query"

definition rd_splitInto :: "RegionRange \<Rightarrow> RegionData \<Rightarrow> RegionData \<Rightarrow> RegionData \<times> RegionData" where
  "rd_splitInto rng d new_d =
     (case cf_splitInto RegionDefaultCFDataTrait rng (rd_default d) (rd_default new_d) of (n1, dd, nd) \<Rightarrow>
      case cf_splitInto (write_trait d) rng (rd_write d) (rd_write new_d) of (n2, dw, nw) \<Rightarrow>
      case cf_splitInto RegionLockCFDataTrait rng (rd_lock d) (rd_lock new_d) of (n3, dl, nl) \<Rightarrow>
        (\<lparr>rd_write = dw, rd_default = dd, rd_lock = dl, cf_data_size = cf_data_size d - (n1 + n2 + n3)\<rparr>,
         \<lparr>rd_write = nw, rd_default = nd, rd_lock = nl, cf_data_size = cf_data_size new_d + (n1 + n2 + n3)\<rparr>))"

definition rd_mergeFrom :: "RegionData \<Rightarrow> RegionData \<Rightarrow> RegionData result" where
  "rd_mergeFrom ori_d d =
     rbind (cf_mergeFrom RegionDefaultCFDataTrait (rd_default ori_d) (rd_default d)) (\<lambda>(n1, dd).
     rbind (cf_mergeFrom (write_trait d) (rd_write ori_d) (rd_write d)) (\<lambda>(n2, dw).
     rbind (cf_mergeFrom RegionLockCFDataTrait (rd_lock ori_d) (rd_lock d)) (\<lambda>(n3, dl).
       Inr \<lparr>rd_write = dw, rd_default = dd, rd_lock = dl, cf_data_size = cf_data_size d + (n1 + n2 + n3)\<rparr>)))"

definition rd_dataSize :: "RegionData \<Rightarrow> UInt64" where
  "rd_dataSize d = cf_data_size d"

definition assignRegionData :: "RegionData \<Rightarrow> RegionData \<Rightarrow> RegionData" where
  "assignRegionData new_d d =
     \<lparr>rd_write = cf_move_assign (rd_write d) (rd_write new_d),
      rd_default = cf_move_assign (rd_default d) (rd_default new_d),
      rd_lock = cf_move_assign (rd_lock d) (rd_lock new_d), cf_data_size = cf_data_size new_d\<rparr>"

text \<open>The move constructor leaves \<open>cf_data_size\<close> of the new object at its initial value.\<close>

definition rd_move :: "RegionData \<Rightarrow> RegionData" where
  "rd_move d = \<lparr>rd_write = cf_move_assign empty_cf (rd_write d), rd_default = cf_move_assign empty_cf (rd_default d),
     rd_lock = cf_move_assign empty_cf (rd_lock d), cf_data_size = 0\<rparr>"

definition rd_serialize :: "RegionData \<Rightarrow> out" where
  "rd_serialize d =
     wseq [cf_serialize RegionDefaultCFDataTrait (rd_default d), cf_serialize (write_trait d) (rd_write d),
       cf_serialize RegionLockCFDataTrait (rd_lock d)]"

definition rd_deserialize :: "bytes \<Rightarrow> RegionData \<Rightarrow> (RegionData \<times> bytes) result" where
  "rd_deserialize buf d =
     rbind (cf_deserialize (cf_insert RegionDefaultCFDataTrait) buf (rd_default d)) (\<lambda>((n1, dd), buf1).
     rbind (cf_deserialize (cf_insert (RegionWriteCFDataTrait (data_map dd))) buf1 (rd_write d)) (\<lambda>((n2, dw), buf2).
     rbind (cf_deserialize lock_insert buf2 (rd_lock d)) (\<lambda>((n3, dl), buf3).
       Inr (\<lparr>rd_write = dw, rd_default = dd, rd_lock = dl, cf_data_size = cf_data_size d + (n1 + n2 + n3)\<rparr>, buf3))))"

definition rd_isEqual :: "RegionData \<Rightarrow> RegionData \<Rightarrow> bool" where
  "rd_isEqual d r2 \<longleftrightarrow>
     cf_eq RegionDefaultCFDataTrait (rd_default d) (rd_default r2)
     \<and> cf_eq (write_trait d) (rd_write d) (rd_write r2)
     \<and> cf_eq RegionLockCFDataTrait (rd_lock d) (rd_lock r2)
     \<and> cf_data_size d = cf_data_size r2"

subsection \<open>Invariant\<close>

text \<open>
  The maps are maps, every entry is one that an insertion makes, and \<open>cf_data_size\<close> is the sum of the
  sizes of the entries of the write and of the default family, modulo the width of \<open>size_t\<close>.
\<close>

definition RegionData_inv :: "RegionData \<Rightarrow> bool" where
  "RegionData_inv d \<longleftrightarrow> cf_ok map_inv write_entry_ok (rd_write d) \<and> cf_ok map_inv default_entry_ok (rd_default d)
     \<and> cf_ok umap_inv lock_entry_ok (rd_lock d)
     \<and> cf_data_size d = cf_bytes (write_trait d) (data_map (rd_write d))
         + cf_bytes RegionDefaultCFDataTrait (data_map (rd_default d))"

text \<open>The size of an entry does not depend on the default family.\<close>

lemma write_calc: "calcTiKVKeyValueSize (RegionWriteCFDataTrait dm) = calcTiKVKeyValueSize (RegionWriteCFDataTrait [])"
  by (simp add: fun_eq_iff calcTiKVKeyValueSize_def RegionWriteCFDataTrait_def)

lemma write_bytes: "cf_bytes (RegionWriteCFDataTrait dm) = cf_bytes (RegionWriteCFDataTrait [])"
  by (simp add: fun_eq_iff cf_bytes_def write_calc [of dm])

lemma write_same_kv: "same_kv (RegionWriteCFDataTrait dm) = same_kv (RegionWriteCFDataTrait [])"
  by (simp add: fun_eq_iff same_kv_def RegionWriteCFDataTrait_def)

lemma lock_bytes [simp]: "cf_bytes RegionLockCFDataTrait m = 0"
  by (induction m) (simp_all add: cf_bytes_def calcTiKVKeyValueSize_def RegionLockCFDataTrait_def)

lemma write_simps [simp]:
  "getTiKVKey (RegionWriteCFDataTrait dm) = fst" "getTiKVValue (RegionWriteCFDataTrait dm) = (\<lambda>v. fst (snd v))"
  by (simp_all add: RegionWriteCFDataTrait_def)

lemma default_simps [simp]:
  "getTiKVKey RegionDefaultCFDataTrait = fst" "getTiKVValue RegionDefaultCFDataTrait = snd"
  by (simp_all add: RegionDefaultCFDataTrait_def)

lemma lock_simps [simp]:
  "getTiKVKey RegionLockCFDataTrait = fst" "getTiKVValue RegionLockCFDataTrait = (\<lambda>v. fst (snd v))"
  by (simp_all add: RegionLockCFDataTrait_def)

lemma empty_inv: "RegionData_inv empty_RegionData"
  by (simp add: RegionData_inv_def empty_RegionData_def empty_cf_def cf_ok_def map_inv_def umap_inv_def)

lemma RegionData_invI:
  assumes "cf_ok map_inv write_entry_ok (rd_write d)" "cf_ok map_inv default_entry_ok (rd_default d)"
    "cf_ok umap_inv lock_entry_ok (rd_lock d)"
    "cf_data_size d = cf_bytes (RegionWriteCFDataTrait []) (data_map (rd_write d))
       + cf_bytes RegionDefaultCFDataTrait (data_map (rd_default d))"
  shows "RegionData_inv d"
  using assms by (simp add: RegionData_inv_def write_bytes [of "data_map (rd_default d)"])

lemma RegionData_invD:
  assumes "RegionData_inv d"
  shows "cf_ok map_inv write_entry_ok (rd_write d)" "cf_ok map_inv default_entry_ok (rd_default d)"
    "cf_ok umap_inv lock_entry_ok (rd_lock d)"
    "cf_data_size d = cf_bytes (RegionWriteCFDataTrait []) (data_map (rd_write d))
       + cf_bytes RegionDefaultCFDataTrait (data_map (rd_default d))"
  using assms by (simp_all add: RegionData_inv_def write_bytes [of "data_map (rd_default d)"])

lemma insert_inv:
  assumes inv: "RegionData_inv d" and ins: "rd_insert cf key v d = Inr d'"
  shows "RegionData_inv d'"
proof (cases cf)
  case CF_Write
  then obtain n w where w: "cf_insert (write_trait d) key v (rd_write d) = Inr (n, w)"
      "d' = d\<lparr>rd_write := w, cf_data_size := cf_data_size d + n\<rparr>"
    using ins by (auto simp: rd_insert_def rbind_eq_Inr)
  show ?thesis
    using write_cf.cf_insert_ok [OF _ _ w(1)] RegionData_invD [OF inv]
    by (intro RegionData_invI) (simp_all add: w(2) cf_ok_def write_bytes [of "data_map (rd_default d)"])
next
  case CF_Default
  then obtain n w where w: "cf_insert RegionDefaultCFDataTrait key v (rd_default d) = Inr (n, w)"
      "d' = d\<lparr>rd_default := w, cf_data_size := cf_data_size d + n\<rparr>"
    using ins by (auto simp: rd_insert_def rbind_eq_Inr)
  show ?thesis
    using default_cf.cf_insert_ok [OF _ _ w(1)] RegionData_invD [OF inv]
    by (intro RegionData_invI) (simp_all add: w(2) cf_ok_def)
next
  case CF_Lock
  then obtain n w where w: "lock_insert key v (rd_lock d) = Inr (n, w)" "d' = d\<lparr>rd_lock := w\<rparr>"
    using ins by (auto simp: rd_insert_def rbind_eq_Inr)
  show ?thesis
    using lock_insert_ok [OF _ _ w(1)] RegionData_invD [OF inv]
    by (intro RegionData_invI) (simp_all add: w(2) cf_ok_def)
qed (use ins in \<open>simp add: rd_insert_def\<close>)

lemma remove_inv:
  assumes inv: "RegionData_inv d" and rem: "rd_remove cf key d = Inr d'"
  shows "RegionData_inv d'"
proof (cases cf)
  case CF_Write
  then obtain k n w where w: "cf_remove (write_trait d) k True (rd_write d) = Inr (n, w)"
      "d' = d\<lparr>rd_write := w, cf_data_size := cf_data_size d - n\<rparr>"
    using rem by (auto simp: rd_remove_def rbind_eq_Inr)
  show ?thesis
    using write_cf.cf_remove_ok [OF _ w(1)] RegionData_invD [OF inv]
    by (intro RegionData_invI)
      (auto simp: w(2) cf_ok_def list_all_iff write_bytes [of "data_map (rd_default d)"])
next
  case CF_Default
  then obtain k n w where w: "cf_remove RegionDefaultCFDataTrait k True (rd_default d) = Inr (n, w)"
      "d' = d\<lparr>rd_default := w, cf_data_size := cf_data_size d - n\<rparr>"
    using rem by (auto simp: rd_remove_def rbind_eq_Inr)
  show ?thesis
    using default_cf.cf_remove_ok [OF _ w(1)] RegionData_invD [OF inv]
    by (intro RegionData_invI) (auto simp: w(2) cf_ok_def list_all_iff)
next
  case CF_Lock
  then obtain n w where w: "cf_remove RegionLockCFDataTrait key True (rd_lock d) = Inr (n, w)" "d' = d\<lparr>rd_lock := w\<rparr>"
    using rem by (auto simp: rd_remove_def rbind_eq_Inr)
  show ?thesis
    using lock_cf.cf_remove_ok [OF _ w(1)] RegionData_invD [OF inv]
    by (intro RegionData_invI) (auto simp: w(2) cf_ok_def list_all_iff)
qed (use rem in \<open>simp add: rd_remove_def\<close>)

lemma filter_cf_ok: "cf_ok map_inv P d \<Longrightarrow> cf_ok map_inv P (d\<lparr>data_map := filter Q (data_map d)\<rparr>)"
  by (auto simp: cf_ok_def map_inv_filter list_all_iff)

lemma bytes_erase:
  assumes "map_inv m" "map_of m k = Some v"
  shows "cf_bytes tr (filter (\<lambda>p. fst p \<noteq> k) m) = cf_bytes tr m - calcTiKVKeyValueSize tr v"
  unfolding cf_bytes_mset by (subst mset_erase [OF std_map.inv_distinct [OF assms(1)] assms(2)]) simp

lemma bytes_union: "mset m = mset a + mset b \<Longrightarrow> cf_bytes tr m = cf_bytes tr a + cf_bytes tr b"
  by (simp add: cf_bytes_mset)

lemma removeDataByWriteIt_inv:
  assumes inv: "RegionData_inv d" and it: "write_it \<in> set (data_map (rd_write d))"
  shows "RegionData_inv (snd (removeDataByWriteIt write_it d))"
proof -
  obtain pk ts key v dv where w: "write_it = ((pk, ts), (key, v, dv))" by (metis prod.exhaust)
  note i = RegionData_invD [OF inv]
  have m: "map_inv (data_map (rd_write d))" "map_inv (data_map (rd_default d))" using i(1,2) by (auto simp: cf_ok_def)
  have l: "map_of (data_map (rd_write d)) (pk, ts) = Some (key, v, dv)"
    using it std_map.inv_distinct [OF m(1)] by (simp add: w)
  have b: "cf_bytes (RegionWriteCFDataTrait []) (filter (\<lambda>p. fst p \<noteq> (pk, ts)) (data_map (rd_write d)))
      = cf_bytes (RegionWriteCFDataTrait []) (data_map (rd_write d)) - calcTiKVKeyValueSize (RegionWriteCFDataTrait dm) (key, v, dv)" for dm
    using bytes_erase [OF m(1) l] by (simp add: write_calc [of dm])
  show ?thesis
  proof (cases "write_type dv = PutFlag \<and> map_of (data_map (rd_default d)) (pk, prewrite_ts dv) \<noteq> None")
    case True
    then obtain x where x: "map_of (data_map (rd_default d)) (pk, prewrite_ts dv) = Some x" by blast
    show ?thesis
      using True i filter_cf_ok [OF i(1)] filter_cf_ok [OF i(2)] bytes_erase [OF m(2) x, of RegionDefaultCFDataTrait] b
      by (intro RegionData_invI) (simp_all add: removeDataByWriteIt_def Let_def w x)
  next
    case False
    then show ?thesis
      using i filter_cf_ok [OF i(1)] b
      by (intro RegionData_invI) (auto simp: removeDataByWriteIt_def Let_def w split: option.splits)
  qed
qed

lemma splitInto_inv:
  assumes inv: "RegionData_inv d" and sp: "rd_splitInto rng d empty_RegionData = (d1, d2)"
  shows "RegionData_inv d1" "RegionData_inv d2"
    and "mset (data_map (rd_write d)) = mset (data_map (rd_write d1)) + mset (data_map (rd_write d2))"
    and "mset (data_map (rd_default d)) = mset (data_map (rd_default d1)) + mset (data_map (rd_default d2))"
    and "mset (data_map (rd_lock d)) = mset (data_map (rd_lock d1)) + mset (data_map (rd_lock d2))"
proof -
  obtain n1 dd nd where s1: "cf_splitInto RegionDefaultCFDataTrait rng (rd_default d) empty_cf = (n1, dd, nd)"
    by (metis prod.exhaust)
  obtain n2 dw nw where s2: "cf_splitInto (write_trait d) rng (rd_write d) empty_cf = (n2, dw, nw)" by (metis prod.exhaust)
  obtain n3 dl nl where s3: "cf_splitInto RegionLockCFDataTrait rng (rd_lock d) empty_cf = (n3, dl, nl)" by (metis prod.exhaust)
  have d: "d1 = \<lparr>rd_write = dw, rd_default = dd, rd_lock = dl, cf_data_size = cf_data_size d - (n1 + n2 + n3)\<rparr>"
      "d2 = \<lparr>rd_write = nw, rd_default = nd, rd_lock = nl, cf_data_size = n1 + n2 + n3\<rparr>"
    using sp by (auto simp: rd_splitInto_def empty_RegionData_def s1 s2 s3)
  note i = RegionData_invD [OF inv]
  note c1 = default_cf.cf_split_ok [OF i(2) s1] and c2 = write_cf.cf_split_ok [OF i(1) s2]
    and c3 = lock_cf.cf_split_ok [OF i(3) s3]
  show "RegionData_inv d1" "RegionData_inv d2"
    using c1 c2 c3 i(4) by (auto intro!: RegionData_invI simp: d write_bytes [of "data_map (rd_default d)"])
  show "mset (data_map (rd_write d)) = mset (data_map (rd_write d1)) + mset (data_map (rd_write d2))"
    "mset (data_map (rd_default d)) = mset (data_map (rd_default d1)) + mset (data_map (rd_default d2))"
    "mset (data_map (rd_lock d)) = mset (data_map (rd_lock d1)) + mset (data_map (rd_lock d2))"
    using c1 c2 c3 by (simp_all add: d)
qed

lemma mergeFrom_inv:
  assumes inv: "RegionData_inv d" "RegionData_inv ori_d" and me: "rd_mergeFrom ori_d d = Inr d'"
  shows "RegionData_inv d'"
    and "mset (data_map (rd_write d')) = mset (data_map (rd_write ori_d)) + mset (data_map (rd_write d))"
    and "mset (data_map (rd_default d')) = mset (data_map (rd_default ori_d)) + mset (data_map (rd_default d))"
    and "mset (data_map (rd_lock d')) = mset (data_map (rd_lock ori_d)) + mset (data_map (rd_lock d))"
proof -
  obtain n1 dd n2 dw n3 dl where m: "cf_mergeFrom RegionDefaultCFDataTrait (rd_default ori_d) (rd_default d) = Inr (n1, dd)"
      "cf_mergeFrom (write_trait d) (rd_write ori_d) (rd_write d) = Inr (n2, dw)"
      "cf_mergeFrom RegionLockCFDataTrait (rd_lock ori_d) (rd_lock d) = Inr (n3, dl)"
      and d': "d' = \<lparr>rd_write = dw, rd_default = dd, rd_lock = dl, cf_data_size = cf_data_size d + (n1 + n2 + n3)\<rparr>"
    using me by (auto simp: rd_mergeFrom_def rbind_eq_Inr)
  note i = RegionData_invD [OF inv(1)] and o = RegionData_invD [OF inv(2)]
  note c1 = default_cf.cf_merge_ok [OF i(2) o(2) m(1)] and c2 = write_cf.cf_merge_ok [OF i(1) o(1) m(2)]
    and c3 = lock_cf.cf_merge_ok [OF i(3) o(3) m(3)]
  show "RegionData_inv d'"
    using c1 c2 c3 i(4) bytes_union [OF c1(2), of RegionDefaultCFDataTrait] bytes_union [OF c2(2), of "RegionWriteCFDataTrait []"]
    by (auto intro!: RegionData_invI simp: d' write_bytes [of "data_map (rd_default d)"])
  show "mset (data_map (rd_write d')) = mset (data_map (rd_write ori_d)) + mset (data_map (rd_write d))"
    "mset (data_map (rd_default d')) = mset (data_map (rd_default ori_d)) + mset (data_map (rd_default d))"
    "mset (data_map (rd_lock d')) = mset (data_map (rd_lock ori_d)) + mset (data_map (rd_lock d))"
    using c1 c2 c3 by (simp_all add: d')
qed

lemma assign_inv: "RegionData_inv new_d \<Longrightarrow> RegionData_inv (assignRegionData new_d d)"
  by (simp add: RegionData_inv_def assignRegionData_def cf_move_assign_def cf_ok_def)

lemma deserialize_inv:
  assumes inv: "RegionData_inv d" and de: "rd_deserialize buf d = Inr (d', rest)"
  shows "RegionData_inv d'"
proof -
  obtain n1 dd buf1 n2 dw buf2 n3 dl buf3 where
      m: "cf_deserialize (cf_insert RegionDefaultCFDataTrait) buf (rd_default d) = Inr ((n1, dd), buf1)"
        "cf_deserialize (cf_insert (RegionWriteCFDataTrait (data_map dd))) buf1 (rd_write d) = Inr ((n2, dw), buf2)"
        "cf_deserialize lock_insert buf2 (rd_lock d) = Inr ((n3, dl), buf3)"
      and d': "d' = \<lparr>rd_write = dw, rd_default = dd, rd_lock = dl, cf_data_size = cf_data_size d + (n1 + n2 + n3)\<rparr>"
    using de by (auto simp: rd_deserialize_def rbind_eq_Inr)
  note i = RegionData_invD [OF inv]
  have c1: "cf_ok map_inv default_entry_ok dd \<and>
      cf_bytes RegionDefaultCFDataTrait (data_map dd) = cf_bytes RegionDefaultCFDataTrait (data_map (rd_default d)) + n1"
    using i(2) m(1)
    by (rule cf_deserialize_inv [where f = "\<lambda>d. cf_bytes RegionDefaultCFDataTrait (data_map d)"])
      (auto simp: cf_ok_def dest: default_cf.cf_insert_ok)
  have c2: "cf_ok map_inv write_entry_ok dw \<and>
      cf_bytes (RegionWriteCFDataTrait []) (data_map dw) = cf_bytes (RegionWriteCFDataTrait []) (data_map (rd_write d)) + n2"
    using i(1) m(2)
    by (rule cf_deserialize_inv [where f = "\<lambda>d. cf_bytes (RegionWriteCFDataTrait []) (data_map d)"])
      (auto simp: cf_ok_def write_bytes [of "data_map dd"] dest: write_cf.cf_insert_ok)
  have c3: "cf_ok umap_inv lock_entry_ok dl \<and> 0 = 0 + n3"
    using i(3) m(3)
    by (rule cf_deserialize_inv [where f = "\<lambda>d. 0"]) (auto simp: cf_ok_def dest: lock_insert_ok)
  show ?thesis using c1 c2 c3 i(4) by (auto intro!: RegionData_invI simp: d')
qed

subsection \<open>Reachable data\<close>

text \<open>The contents of a region change by the operations of this component only: a region starts empty or
  from a stored region, takes and drops entries, is split and merged, or takes over the data of a
  snapshot.\<close>

inductive reachable_data :: "RegionData \<Rightarrow> bool" where
  created: "reachable_data empty_RegionData"
| inserted: "reachable_data d \<Longrightarrow> rd_insert cf key v d = Inr d' \<Longrightarrow> reachable_data d'"
| removed: "reachable_data d \<Longrightarrow> rd_remove cf key d = Inr d' \<Longrightarrow> reachable_data d'"
| committed: "reachable_data d \<Longrightarrow> write_it \<in> set (data_map (rd_write d)) \<Longrightarrow>
    reachable_data (snd (removeDataByWriteIt write_it d))"
| split_old: "reachable_data d \<Longrightarrow> rd_splitInto rng d empty_RegionData = (d1, d2) \<Longrightarrow> reachable_data d1"
| split_new: "reachable_data d \<Longrightarrow> rd_splitInto rng d empty_RegionData = (d1, d2) \<Longrightarrow> reachable_data d2"
| merged: "reachable_data d \<Longrightarrow> reachable_data ori_d \<Longrightarrow> rd_mergeFrom ori_d d = Inr d' \<Longrightarrow> reachable_data d'"
| assigned: "reachable_data d \<Longrightarrow> reachable_data new_d \<Longrightarrow> reachable_data (assignRegionData new_d d)"
| loaded: "rd_deserialize buf empty_RegionData = Inr (d, rest) \<Longrightarrow> reachable_data d"

lemma reachable_inv: "reachable_data d \<Longrightarrow> RegionData_inv d"
proof (induction rule: reachable_data.induct)
  case created
  show ?case by (rule empty_inv)
next
  case (split_old d rng d1 d2)
  show ?case by (rule splitInto_inv [OF split_old.IH split_old.hyps(2)])
next
  case (split_new d rng d1 d2)
  show ?case by (rule splitInto_inv [OF split_new.IH split_new.hyps(2)])
next
  case (merged d ori_d d')
  show ?case by (rule mergeFrom_inv [OF merged.IH merged.hyps(3)])
next
  case (loaded buf d rest)
  show ?case by (rule deserialize_inv [OF empty_inv loaded.hyps])
qed (auto intro: insert_inv remove_inv removeDataByWriteIt_inv assign_inv)

subsection \<open>Comparison, splitting and merging\<close>

lemma cf_cmp_mset:
  assumes "mset a = mset b" "distinct (map fst b)"
  shows "cf_cmp tr a b"
proof -
  have "map_of b k = Some v" if "(k, v) \<in> set a" for k v
    using that mset_eq_setD [OF assms(1)] assms(2) by simp
  then show ?thesis using mset_eq_length [OF assms(1)] by (auto simp: cf_cmp_def list_all_iff)
qed

lemma disjoint_parts:
  assumes "distinct (map fst m)" "mset m = mset a + mset b"
  shows "fst ` set b \<inter> fst ` set a = {}"
proof -
  have "mset (map fst m) = mset (map fst (a @ b))" using assms(2) by (simp add: mset_map)
  then have "distinct (map fst (a @ b))" using assms(1) mset_eq_imp_distinct_iff by blast
  then show ?thesis by auto
qed

text \<open>Data without a common key in any column family can be merged.\<close>

definition disjoint_data :: "RegionData \<Rightarrow> RegionData \<Rightarrow> bool" where
  "disjoint_data a b \<longleftrightarrow> fst ` set (data_map (rd_write a)) \<inter> fst ` set (data_map (rd_write b)) = {}
     \<and> fst ` set (data_map (rd_default a)) \<inter> fst ` set (data_map (rd_default b)) = {}
     \<and> fst ` set (data_map (rd_lock a)) \<inter> fst ` set (data_map (rd_lock b)) = {}"

lemma rd_merge_total:
  assumes "RegionData_inv a" "RegionData_inv b" "disjoint_data a b"
  shows "\<exists>d. rd_mergeFrom a b = Inr d"
proof -
  note i1 = RegionData_invD [OF assms(2)] and i2 = RegionData_invD [OF assms(1)]
  have d: "fst ` set (data_map (rd_write a)) \<inter> fst ` set (data_map (rd_write b)) = {}"
      "fst ` set (data_map (rd_default a)) \<inter> fst ` set (data_map (rd_default b)) = {}"
      "fst ` set (data_map (rd_lock a)) \<inter> fst ` set (data_map (rd_lock b)) = {}"
    using assms(3) by (simp_all add: disjoint_data_def)
  obtain n1 dd where m1: "cf_mergeFrom RegionDefaultCFDataTrait (rd_default a) (rd_default b) = Inr (n1, dd)"
    using default_cf.cf_merge_defined [OF i1(2) i2(2) d(2)] by blast
  obtain n2 dw where m2: "cf_mergeFrom (write_trait b) (rd_write a) (rd_write b) = Inr (n2, dw)"
    using write_cf.cf_merge_defined [OF i1(1) i2(1) d(1)] by blast
  obtain n3 dl where m3: "cf_mergeFrom RegionLockCFDataTrait (rd_lock a) (rd_lock b) = Inr (n3, dl)"
    using lock_cf.cf_merge_defined [OF i1(3) i2(3) d(3)] by blast
  show ?thesis by (simp add: rd_mergeFrom_def m1 m2 m3)
qed

lemma split_then_merge:
  assumes inv: "RegionData_inv d" and sp: "rd_splitInto rng d empty_RegionData = (d1, d2)"
  shows "\<exists>d3. rd_mergeFrom d2 d1 = Inr d3 \<and> rd_isEqual d3 d"
proof -
  note s = splitInto_inv [OF inv sp] and i = RegionData_invD [OF inv]
  have dist: "distinct (map fst (data_map (rd_write d)))" "distinct (map fst (data_map (rd_default d)))"
      "distinct (map fst (data_map (rd_lock d)))"
    using i(1-3) by (auto simp: cf_ok_def umap_inv_def intro: std_map.inv_distinct)
  have "disjoint_data d2 d1"
    using disjoint_parts [OF dist(1) s(3)] disjoint_parts [OF dist(2) s(4)] disjoint_parts [OF dist(3) s(5)] by (simp add: disjoint_data_def)
  then obtain d3 where d3: "rd_mergeFrom d2 d1 = Inr d3" using rd_merge_total [OF s(2,1)] by blast
  note m = mergeFrom_inv [OF s(1,2) d3]
  note i3 = RegionData_invD [OF m(1)]
  have eq: "mset (data_map (rd_write d)) = mset (data_map (rd_write d3))"
      "mset (data_map (rd_default d)) = mset (data_map (rd_default d3))"
      "mset (data_map (rd_lock d)) = mset (data_map (rd_lock d3))"
    using s(3-5) m(2-4) by (simp_all add: add.commute)
  have "distinct (map fst (data_map (rd_write d3)))" "distinct (map fst (data_map (rd_default d3)))"
      "distinct (map fst (data_map (rd_lock d3)))"
    using i3(1-3) by (auto simp: cf_ok_def umap_inv_def intro: std_map.inv_distinct)
  then have "rd_isEqual d3 d"
    using eq i(4) i3(4) by (simp add: rd_isEqual_def cf_eq_def cf_cmp_mset cf_bytes_mset)
  then show ?thesis using d3 by blast
qed

lemma split_ranges:
  assumes inv: "RegionData_inv d" and sp: "rd_splitInto rng d empty_RegionData = (d1, d2)"
  shows "set (data_map (rd_write d1)) = {p \<in> set (data_map (rd_write d)). \<not> in_range rng (fst (snd p))}"
    and "set (data_map (rd_write d2)) = {p \<in> set (data_map (rd_write d)). in_range rng (fst (snd p))}"
    and "set (data_map (rd_default d1)) = {p \<in> set (data_map (rd_default d)). \<not> in_range rng (fst (snd p))}"
    and "set (data_map (rd_default d2)) = {p \<in> set (data_map (rd_default d)). in_range rng (fst (snd p))}"
    and "set (data_map (rd_lock d1)) = {p \<in> set (data_map (rd_lock d)). \<not> in_range rng (fst (snd p))}"
    and "set (data_map (rd_lock d2)) = {p \<in> set (data_map (rd_lock d)). in_range rng (fst (snd p))}"
proof -
  obtain n1 dd nd where s1: "cf_splitInto RegionDefaultCFDataTrait rng (rd_default d) empty_cf = (n1, dd, nd)"
    by (metis prod.exhaust)
  obtain n2 dw nw where s2: "cf_splitInto (write_trait d) rng (rd_write d) empty_cf = (n2, dw, nw)" by (metis prod.exhaust)
  obtain n3 dl nl where s3: "cf_splitInto RegionLockCFDataTrait rng (rd_lock d) empty_cf = (n3, dl, nl)" by (metis prod.exhaust)
  have d: "rd_write d1 = dw" "rd_write d2 = nw" "rd_default d1 = dd" "rd_default d2 = nd" "rd_lock d1 = dl" "rd_lock d2 = nl"
    using sp by (auto simp: rd_splitInto_def empty_RegionData_def s1 s2 s3)
  note i = RegionData_invD [OF inv]
  show "set (data_map (rd_write d1)) = {p \<in> set (data_map (rd_write d)). \<not> in_range rng (fst (snd p))}"
      "set (data_map (rd_write d2)) = {p \<in> set (data_map (rd_write d)). in_range rng (fst (snd p))}"
    using write_cf.cf_split_ok(6,7) [OF i(1) s2] by (simp_all add: d)
  show "set (data_map (rd_default d1)) = {p \<in> set (data_map (rd_default d)). \<not> in_range rng (fst (snd p))}"
      "set (data_map (rd_default d2)) = {p \<in> set (data_map (rd_default d)). in_range rng (fst (snd p))}"
    using default_cf.cf_split_ok(6,7) [OF i(2) s1] by (simp_all add: d)
  show "set (data_map (rd_lock d1)) = {p \<in> set (data_map (rd_lock d)). \<not> in_range rng (fst (snd p))}"
      "set (data_map (rd_lock d2)) = {p \<in> set (data_map (rd_lock d)). in_range rng (fst (snd p))}"
    using lock_cf.cf_split_ok(6,7) [OF i(3) s3] by (simp_all add: d)
qed

subsection \<open>Locks\<close>

definition blocks :: "RegionLockReadQuery \<Rightarrow> DecodedLockCFValue \<Rightarrow> bool" where
  "blocks query l \<longleftrightarrow> lock_version l \<le> read_tso query \<and> lock_type l \<notin> {Op_Lock, Op_PessimisticLock}
     \<and> min_commit_ts l \<le> read_tso query
     \<and> (case bypass_lock_ts query of None \<Rightarrow> True | Some s \<Rightarrow> lock_version l \<notin> set s)"

lemma lock_entry_ok_iff: "lock_entry_ok (k, key, v, l) \<longleftrightarrow> key = k \<and> decodeLockCfValue k v = Inr l"
  by (cases "decodeLockCfValue k v") (auto simp: lock_entry_ok_def lock_genKVPair_def)

lemma getLockInfo_loop_find:
  "getLockInfo_loop m query = List.find (blocks query) (map (\<lambda>p. snd (snd (snd p))) m)"
  by (induction m query rule: getLockInfo_loop.induct) (auto simp: blocks_def not_le split: option.splits)

subsection \<open>Storing and loading\<close>

definition stored_ok :: "RegionData \<Rightarrow> bool" where
  "stored_ok d \<longleftrightarrow> list_all (kv_fits RegionDefaultCFDataTrait) (data_map (rd_default d))
     \<and> list_all (kv_fits (write_trait d)) (data_map (rd_write d))
     \<and> list_all (kv_fits RegionLockCFDataTrait) (data_map (rd_lock d))
     \<and> length (data_map (rd_default d)) < 2 ^ 64 \<and> length (data_map (rd_write d)) < 2 ^ 64
     \<and> length (data_map (rd_lock d)) < 2 ^ 64"

lemma cf_eq_same_kv:
  assumes "list_all2 (same_kv tr) (data_map d) (data_map d')" "distinct (map fst (data_map d))"
  shows "cf_eq tr d' d"
  unfolding cf_eq_def using assms(1)
  by (rule cf_cmp_same_kv) (use same_kv_keys [OF assms(1)] assms(2) in simp)

lemma write_serialize: "cf_serialize (RegionWriteCFDataTrait dm) = cf_serialize (RegionWriteCFDataTrait [])"
  by (simp add: fun_eq_iff cf_serialize_def)

lemma write_kv_fits: "kv_fits (RegionWriteCFDataTrait dm) = kv_fits (RegionWriteCFDataTrait [])"
  by (simp add: fun_eq_iff kv_fits_def)

lemma write_cf_eq: "cf_eq (RegionWriteCFDataTrait dm) = cf_eq (RegionWriteCFDataTrait [])"
  unfolding fun_eq_iff cf_eq_def cf_cmp_def write_simps by simp

lemma deserialize_serialize:
  assumes inv: "RegionData_inv d" and ok: "stored_ok d"
  shows "\<exists>d'. rd_deserialize (fst (rd_serialize d) @ rest) empty_RegionData = Inr (d', rest) \<and> rd_isEqual d' d"
proof -
  note i = RegionData_invD [OF inv]
  let ?w = "RegionWriteCFDataTrait"
  have dist: "distinct (map fst (data_map (rd_write d)))" "distinct (map fst (data_map (rd_default d)))"
      "distinct (map fst (data_map (rd_lock d)))"
    using i(1-3) by (auto simp: cf_ok_def umap_inv_def intro: std_map.inv_distinct)
  let ?r2 = "fst (cf_serialize RegionLockCFDataTrait (rd_lock d)) @ rest"
  let ?r1 = "fst (cf_serialize (write_trait d) (rd_write d)) @ ?r2"
  obtain dd where dd: "cf_deserialize (cf_insert RegionDefaultCFDataTrait)
        (fst (cf_serialize RegionDefaultCFDataTrait (rd_default d)) @ ?r1) empty_cf
        = Inr ((cf_bytes RegionDefaultCFDataTrait (data_map (rd_default d)), dd), ?r1)"
      "list_all2 (same_kv RegionDefaultCFDataTrait) (data_map (rd_default d)) (data_map dd)"
    using default_cf.stored.cf_deserialize_serialize [of "rd_default d" ?r1] i(2) ok
    by (auto simp: cf_ok_def stored_ok_def)
  obtain dw where dw: "cf_deserialize (cf_insert (?w (data_map dd))) ?r1 empty_cf
        = Inr ((cf_bytes (?w []) (data_map (rd_write d)), dw), ?r2)"
      "list_all2 (same_kv (?w [])) (data_map (rd_write d)) (data_map dw)"
    using write_cf.stored.cf_deserialize_serialize [of "rd_write d" "data_map dd" ?r2] i(1) ok
    by (auto simp: cf_ok_def stored_ok_def write_kv_fits [of "data_map (rd_default d)"] write_kv_fits [of "data_map dd"]
        write_bytes [of "data_map dd"] write_same_kv [of "data_map dd"]
        write_serialize [of "data_map dd"] write_serialize [of "data_map (rd_default d)"])
  obtain dl where dl: "cf_deserialize lock_insert ?r2 empty_cf = Inr ((0, dl), rest)"
      "list_all2 (same_kv RegionLockCFDataTrait) (data_map (rd_lock d)) (data_map dl)"
    using lock_stored.cf_deserialize_serialize [of "rd_lock d" rest] i(3) ok by (auto simp: cf_ok_def stored_ok_def)
  let ?d = "\<lparr>rd_write = dw, rd_default = dd, rd_lock = dl, cf_data_size = cf_data_size d\<rparr>"
  have "rd_deserialize (fst (rd_serialize d) @ rest) empty_RegionData = Inr (?d, rest)"
    using dd(1) dw(1) dl(1) i(4) by (simp add: rd_deserialize_def rd_serialize_def empty_RegionData_def ac_simps)
  moreover have "rd_isEqual ?d d"
    using cf_eq_same_kv [OF dd(2) dist(2)] cf_eq_same_kv [OF dw(2) dist(1)] cf_eq_same_kv [OF dl(2) dist(3)]
    by (simp add: rd_isEqual_def write_cf_eq [of "data_map dd"])
  ultimately show ?thesis by blast
qed

lemma serialize_size: "snd (rd_serialize d) = of_nat (length (fst (rd_serialize d)))"
  by (simp add: rd_serialize_def cf_serialize_size)

subsection \<open>Sizes as numbers\<close>

definition stored_bytes :: "RegionData \<Rightarrow> nat" where
  "stored_bytes d = sum_list (map (\<lambda>p. length (fst (snd p)) + length (fst (snd (snd p)))) (data_map (rd_write d)))
     + sum_list (map (\<lambda>p. length (fst (snd p)) + length (snd (snd p))) (data_map (rd_default d)))"

lemma cf_data_size_stored_bytes: "RegionData_inv d \<Longrightarrow> cf_data_size d = of_nat (stored_bytes d)"
proof -
  assume "RegionData_inv d"
  moreover have "cf_bytes (RegionWriteCFDataTrait []) m =
      of_nat (sum_list (map (\<lambda>p. length (fst (snd p)) + length (fst (snd (snd p)))) m))" for m
    by (induction m) (simp_all add: cf_bytes_def calcTiKVKeyValueSize_def, simp add: RegionWriteCFDataTrait_def)
  moreover have "cf_bytes RegionDefaultCFDataTrait m = of_nat (sum_list (map (\<lambda>p. length (fst (snd p)) + length (snd (snd p))) m))" for m
    by (induction m) (simp_all add: cf_bytes_def calcTiKVKeyValueSize_def, simp add: RegionDefaultCFDataTrait_def)
  ultimately show ?thesis by (simp add: RegionData_invD(4) stored_bytes_def)
qed

subsection \<open>Entries of records\<close>

abbreviation handle_pk :: "HandleID \<Rightarrow> RawTiDBPK" where
  "handle_pk h \<equiv> mem_of 8 (encodeInt64 h)"

lemma decodeTiKVKey_genKey_ts: "decodeTiKVKey (genKey_ts t h ts) = Inr (genRawKey t h)"
  by (simp add: genKey_ts_def appendTs_def genKey_def decodeTiKVKey_encode)

lemma getTs_genKey_ts: "getTs (genKey_ts t h ts) = Inr ts"
  by (simp add: genKey_ts_def getTs_appendTs)

lemma default_insert_record:
  "cf_insert RegionDefaultCFDataTrait (genKey_ts t h ts) v d =
   cf_insert_pair RegionDefaultCFDataTrait ((handle_pk h, ts), (genKey_ts t h ts, v)) d"
  by (simp add: cf_insert_def decodeTiKVKey_genKey_ts RegionDefaultCFDataTrait_def default_genKVPair_def
      getRawTiDBPK_genRawKey getTs_genKey_ts)

lemma write_insert_record:
  assumes "length sv \<le> 255" "ty = PutFlag \<or> ty = DelFlag"
  shows "cf_insert (RegionWriteCFDataTrait dm) (genKey_ts t h ts) (encodeWriteCfValue ty start sv False) d =
   cf_insert_pair (RegionWriteCFDataTrait dm) ((handle_pk h, ts), (genKey_ts t h ts, encodeWriteCfValue ty start sv False,
     \<lparr>write_type = ty, prewrite_ts = start, short_value = (if sv = [] then None else Some sv)\<rparr>)) d"
  using assms by (simp add: cf_insert_def decodeTiKVKey_genKey_ts RegionWriteCFDataTrait_def write_genKVPair_def
      getRawTiDBPK_genRawKey getTs_genKey_ts decodeWriteCfValue_encode)

subsection \<open>The values of committed rows\<close>

text \<open>
  A transaction is identified by the timestamp of its start and writes a row once: \<open>V\<close> gives the value that
  the transaction started at a time wrote to a row. A run of operations is \<open>valued\<close> by \<open>V\<close> when the values that
  it brings into the default family are those of \<open>V\<close>; values and records may come in any order, go, and
  come back.
\<close>

definition values_are :: "(cf_key \<Rightarrow> TiKVValue) \<Rightarrow> RegionData \<Rightarrow> bool" where
  "values_are V d \<longleftrightarrow> (\<forall>p \<in> set (data_map (rd_default d)). snd (snd p) = V (fst p))"

inductive valued :: "(cf_key \<Rightarrow> TiKVValue) \<Rightarrow> RegionData \<Rightarrow> bool" for V where
  valued_created: "valued V empty_RegionData"
| valued_inserted: "valued V d \<Longrightarrow> rd_insert cf key v d = Inr d' \<Longrightarrow> values_are V d' \<Longrightarrow> valued V d'"
| valued_removed: "valued V d \<Longrightarrow> rd_remove cf key d = Inr d' \<Longrightarrow> valued V d'"
| valued_committed: "valued V d \<Longrightarrow> write_it \<in> set (data_map (rd_write d)) \<Longrightarrow>
    valued V (snd (removeDataByWriteIt write_it d))"
| valued_split_old: "valued V d \<Longrightarrow> rd_splitInto rng d empty_RegionData = (d1, d2) \<Longrightarrow> valued V d1"
| valued_split_new: "valued V d \<Longrightarrow> rd_splitInto rng d empty_RegionData = (d1, d2) \<Longrightarrow> valued V d2"
| valued_merged: "valued V d \<Longrightarrow> valued V ori_d \<Longrightarrow> rd_mergeFrom ori_d d = Inr d' \<Longrightarrow> valued V d'"
| valued_assigned: "valued V d \<Longrightarrow> valued V new_d \<Longrightarrow> valued V (assignRegionData new_d d)"
| valued_loaded: "rd_deserialize buf empty_RegionData = Inr (d, rest) \<Longrightarrow> values_are V d \<Longrightarrow> valued V d"

lemma valued_reachable: "valued V d \<Longrightarrow> reachable_data d"
  by (induction rule: valued.induct) (blast intro: reachable_data.intros)+

text \<open>The value that a commit record stands for, and the invariant of the values that the write family keeps
  with its records.\<close>

definition committed_value :: "(cf_key \<Rightarrow> TiKVValue) \<Rightarrow> RawTiDBPK \<Rightarrow> InnerDecodedWriteCFValue \<Rightarrow> TiKVValue" where
  "committed_value V pk rec = (case short_value rec of Some s \<Rightarrow> s | None \<Rightarrow> V (pk, prewrite_ts rec))"

definition kept_ok :: "(cf_key \<Rightarrow> TiKVValue) \<Rightarrow> cf_key \<times> write_value \<Rightarrow> bool" where
  "kept_ok V p \<longleftrightarrow> (case p of ((pk, ts), (key, v, dec)) \<Rightarrow>
     \<exists>rec. decodeWriteCfValue v = Inr (Some rec) \<and> write_type dec = write_type rec \<and> prewrite_ts dec = prewrite_ts rec
       \<and> (short_value dec = short_value rec \<or> write_type rec = PutFlag \<and> short_value dec = Some (committed_value V pk rec)))"

definition kept_values :: "(cf_key \<Rightarrow> TiKVValue) \<Rightarrow> RegionData \<Rightarrow> bool" where
  "kept_values V d \<longleftrightarrow> values_are V d \<and> (\<forall>p \<in> set (data_map (rd_write d)). kept_ok V p)"

lemma kept_values_subset:
  assumes "kept_values V d" "set (data_map (rd_write d')) \<subseteq> set (data_map (rd_write d))" "set (data_map (rd_default d')) \<subseteq> set (data_map (rd_default d))"
  shows "kept_values V d'"
  using assms unfolding kept_values_def values_are_def by blast

lemma kept_values_union:
  assumes "kept_values V d" "kept_values V e"
    and "set (data_map (rd_write d')) \<subseteq> set (data_map (rd_write d)) \<union> set (data_map (rd_write e))"
    and "set (data_map (rd_default d')) \<subseteq> set (data_map (rd_default d)) \<union> set (data_map (rd_default e))"
  shows "kept_values V d'"
  using assms unfolding kept_values_def values_are_def by blast

lemma write_insert_kept:
  assumes inv: "map_inv (data_map w)" and vals: "\<forall>p \<in> set dm. snd (snd p) = V (fst p)" and kept: "\<forall>p \<in> set (data_map w). kept_ok V p"
    and ins: "cf_insert (RegionWriteCFDataTrait dm) key v w = Inr (n, w')"
  shows "\<forall>p \<in> set (data_map w'). kept_ok V p"
proof -
  obtain raw_key kv where g: "genKVPair (RegionWriteCFDataTrait dm) key raw_key v = Inr kv"
      "(case kv of None \<Rightarrow> Inr (0, w) | Some kv \<Rightarrow> cf_insert_pair (RegionWriteCFDataTrait dm) kv w) = Inr (n, w')"
    using ins by (auto simp: cf_insert_def rbind_eq_Inr)
  show ?thesis
  proof (cases kv)
    case None
    then show ?thesis using g(2) kept by simp
  next
    case (Some p)
    obtain pk ts rec where p: "p = ((pk, ts), (key, v, rec))" "decodeWriteCfValue v = Inr (Some rec)"
      using g(1) Some by (auto simp: RegionWriteCFDataTrait_def write_genKVPair_def rbind_eq_Inr split: option.splits)
    have "cf_insert_pair (RegionWriteCFDataTrait dm) ((pk, ts), (key, v, rec)) w = Inr (n, w')" using g(2) Some p(1) by simp
    then obtain val q where f: "finishInsert (RegionWriteCFDataTrait dm) (pk, ts) (key, v, rec) (pre_decode w) = Inr (val, q)"
        "mset (data_map w') = add_mset ((pk, ts), val) (mset (data_map w))"
      by (rule write_cf.cf_insert_pair_ok [OF inv]) blast
    have dv: "snd e = V k" if "map_of dm k = Some e" for k e using vals map_of_SomeD [OF that] by fastforce
    have "\<exists>dec. val = (key, v, dec) \<and> write_type dec = write_type rec \<and> prewrite_ts dec = prewrite_ts rec
        \<and> (short_value dec = short_value rec \<or> write_type rec = PutFlag \<and> short_value dec = Some (committed_value V pk rec))"
      using f(1) dv by (auto simp: RegionWriteCFDataTrait_def write_finishInsert_def committed_value_def split: if_splits option.splits)
    then have "kept_ok V ((pk, ts), val)" using p(2) by (auto simp: kept_ok_def)
    moreover have "set (data_map w') = insert ((pk, ts), val) (set (data_map w))" using f(2) by (metis set_mset_add_mset_insert set_mset_mset)
    ultimately show ?thesis using kept by simp
  qed
qed

lemma insert_kept:
  assumes "RegionData_inv d" "kept_values V d" "rd_insert cf key v d = Inr d'" "values_are V d'"
  shows "kept_values V d'"
proof (cases cf)
  case CF_Write
  then obtain n w where w: "cf_insert (write_trait d) key v (rd_write d) = Inr (n, w)" "d' = d\<lparr>rd_write := w, cf_data_size := cf_data_size d + n\<rparr>"
    using assms(3) by (auto simp: rd_insert_def rbind_eq_Inr)
  have "\<forall>p \<in> set (data_map w). kept_ok V p"
    by (rule write_insert_kept [OF _ _ _ w(1)]) (use assms(1,2) RegionData_invD(1) in \<open>auto simp: kept_values_def values_are_def cf_ok_def\<close>)
  then show ?thesis using assms(4) w(2) by (simp add: kept_values_def)
qed (use assms(2-4) in \<open>auto simp: rd_insert_def rbind_eq_Inr kept_values_def\<close>)

lemma remove_kept:
  assumes "RegionData_inv d" "kept_values V d" "rd_remove cf key d = Inr d'"
  shows "kept_values V d'"
proof (rule kept_values_subset [OF assms(2)])
  have m: "map_inv (data_map (rd_write d))" "map_inv (data_map (rd_default d))" using RegionData_invD(1,2) [OF assms(1)] by (auto simp: cf_ok_def)
  show "set (data_map (rd_write d')) \<subseteq> set (data_map (rd_write d))"
    using assms(3) by (cases cf) (auto simp: rd_remove_def rbind_eq_Inr dest!: write_cf.cf_remove_ok(3) [OF m(1)])
  show "set (data_map (rd_default d')) \<subseteq> set (data_map (rd_default d))"
    using assms(3) by (cases cf) (auto simp: rd_remove_def rbind_eq_Inr dest!: default_cf.cf_remove_ok(3) [OF m(2)])
qed

lemma erase_kept: "kept_values V d \<Longrightarrow> kept_values V (snd (removeDataByWriteIt write_it d))"
  by (erule kept_values_subset) (auto simp: removeDataByWriteIt_def Let_def split: prod.splits option.splits)

lemma deserialize_kept:
  assumes "rd_deserialize buf empty_RegionData = Inr (d, rest)" "values_are V d"
  shows "kept_values V d"
proof -
  obtain n1 buf1 n2 buf2 where m: "cf_deserialize (cf_insert (write_trait d)) buf1 (rd_write empty_RegionData) = Inr ((n2, rd_write d), buf2)"
    using assms(1) by (auto simp: rd_deserialize_def rbind_eq_Inr)
  have "(cf_ok map_inv write_entry_ok (rd_write d) \<and> (\<forall>p \<in> set (data_map (rd_write d)). kept_ok V p)) \<and> cf_bytes (write_trait d) (data_map (rd_write d))
      = cf_bytes (write_trait d) (data_map (rd_write empty_RegionData)) + n2"
  proof (rule cf_deserialize_inv [OF _ m])
    show "cf_ok map_inv write_entry_ok (rd_write empty_RegionData) \<and> (\<forall>p \<in> set (data_map (rd_write empty_RegionData)). kept_ok V p)"
      by (simp add: empty_RegionData_def empty_cf_def cf_ok_def map_inv_def)
    fix key v w n w' assume q: "cf_ok map_inv write_entry_ok w \<and> (\<forall>p \<in> set (data_map w). kept_ok V p)" "cf_insert (write_trait d) key v w = Inr (n, w')"
    then show "(cf_ok map_inv write_entry_ok w' \<and> (\<forall>p \<in> set (data_map w'). kept_ok V p)) \<and> cf_bytes (write_trait d) (data_map w') = cf_bytes (write_trait d) (data_map w) + n"
      using write_insert_kept [OF _ _ _ q(2), of V] write_cf.cf_insert_ok [OF _ _ q(2)] assms(2) by (auto simp: values_are_def cf_ok_def)
  qed
  then show ?thesis using assms(2) by (simp add: kept_values_def)
qed

lemma mset_parts: "mset m = mset a + mset b \<Longrightarrow> set m = set a \<union> set b"
  using mset_eq_setD [of m "a @ b"] by simp

lemma split_kept:
  assumes "RegionData_inv d" "kept_values V d" "rd_splitInto rng d empty_RegionData = (d1, d2)"
  shows "kept_values V d1" "kept_values V d2"
  using splitInto_inv(3,4) [OF assms(1,3), THEN mset_parts] kept_values_subset [OF assms(2)] by simp_all

lemma merge_kept:
  assumes "RegionData_inv d" "RegionData_inv ori_d" "kept_values V d" "kept_values V ori_d" "rd_mergeFrom ori_d d = Inr d'"
  shows "kept_values V d'"
  using mergeFrom_inv(2,3) [OF assms(1,2,5), THEN mset_parts] kept_values_union [OF assms(4,3)] by simp

lemmas valued_inv = valued_reachable [THEN reachable_inv]

lemma valued_kept: "valued V d \<Longrightarrow> kept_values V d"
proof (induction rule: valued.induct)
  case valued_created
  show ?case by (simp add: kept_values_def values_are_def empty_RegionData_def empty_cf_def)
next
  case (valued_inserted d cf key v d')
  then show ?case using insert_kept valued_inv by blast
next
  case (valued_removed d cf key d')
  then show ?case using remove_kept valued_inv by blast
next
  case (valued_split_old d rng d1 d2)
  then show ?case using split_kept(1) valued_inv by blast
next
  case (valued_split_new d rng d1 d2)
  then show ?case using split_kept(2) valued_inv by blast
next
  case (valued_merged d ori_d d')
  then show ?case using merge_kept valued_inv by blast
next
  case (valued_assigned d new_d)
  then show ?case by (simp add: kept_values_def values_are_def assignRegionData_def cf_move_assign_def)
qed (blast intro: erase_kept deserialize_kept)+

subsection \<open>A sample region\<close>

text \<open>The data after one prewrite and its commit, which the witnesses below use.\<close>

definition sample_default :: RegionData where
  "sample_default = empty_RegionData\<lparr>
     rd_default := \<lparr>data_map = [((handle_pk 7, 5), (genKey_ts 1 7 5, [1, 2]))], pre_decode = [[1, 2]]\<rparr>,
     cf_data_size := 37\<rparr>"

definition sample_write_value :: TiKVValue where
  "sample_write_value = encodeWriteCfValue PutFlag 5 [] False"

definition sample_data :: RegionData where
  "sample_data = sample_default\<lparr>
     rd_write := \<lparr>data_map = [((handle_pk 7, 9), (genKey_ts 1 7 9, sample_write_value,
         \<lparr>write_type = PutFlag, prewrite_ts = 5, short_value = Some [1, 2]\<rparr>))], pre_decode = []\<rparr>,
     cf_data_size := 37 + (35 + of_nat (length sample_write_value))\<rparr>"

lemma length_genKey_ts: "length (genKey_ts t h ts) = 35"
  by (simp add: genKey_ts_def appendTs_def genKey_def encodeAsTiKVKey_def EncodeBytes_groups length_enc_groups record_constants)

lemma sample_default_insert: "rd_insert CF_Default (genKey_ts 1 7 5) [1, 2] empty_RegionData = Inr sample_default"
  by (simp add: rd_insert_def default_insert_record cf_insert_pair_def empty_RegionData_def empty_cf_def
      sample_default_def)
    (simp add: RegionDefaultCFDataTrait_def default_finishInsert_def calcTiKVKeyValueSize_def length_genKey_ts)

lemma sample_write_insert: "rd_insert CF_Write (genKey_ts 1 7 9) sample_write_value sample_default = Inr sample_data"
  by (simp add: rd_insert_def write_insert_record cf_insert_pair_def empty_RegionData_def empty_cf_def
      sample_default_def sample_data_def sample_write_value_def)
    (simp add: RegionWriteCFDataTrait_def write_finishInsert_def calcTiKVKeyValueSize_def length_genKey_ts)

lemma sample_reachable: "reachable_data sample_data"
  by (rule inserted [OF inserted [OF created sample_default_insert] sample_write_insert])

lemma length_sample_write_value: "length sample_write_value < 100"
  using length_writeVarUInt_max [of 5] by (simp add: sample_write_value_def encodeWriteCfValue_def)

lemma sample_stored: "stored_ok sample_data"
  using length_sample_write_value
  by (simp add: stored_ok_def sample_data_def sample_default_def empty_RegionData_def empty_cf_def kv_fits_def length_genKey_ts)

subsection \<open>Properties\<close>

text \<open>
  C3: whatever sequence of operations made the data of a region, the maps of the column families have no
  duplicate keys and are ordered, every entry is filed under the primary key and the timestamp of its
  \<open>TiKVKey\<close> with the decoded form of its own value, and the size counter is the sum of the sizes of
  the entries of the write and of the default family: the unsigned counter never loses a carry or a borrow
  while that number fits.
\<close>

theorem region_data_invariant:
  assumes "reachable_data d"
  shows "RegionData_inv d \<and> (stored_bytes d < 2 ^ 64 \<longrightarrow> unat (rd_dataSize d) = stored_bytes d)"
  using reachable_inv [OF assms] cf_data_size_stored_bytes [OF reachable_inv [OF assms]] by (simp add: rd_dataSize_def unat_of_nat_64)

theorem region_data_invariant_witness:
  "reachable_data sample_data \<and> RegionData_inv sample_data \<and> stored_bytes sample_data < 2 ^ 64 \<and> unat (rd_dataSize sample_data) = stored_bytes sample_data"
proof -
  have "stored_bytes sample_data < 2 ^ 64"
    using length_sample_write_value
    by (simp add: stored_bytes_def sample_data_def sample_default_def empty_RegionData_def length_genKey_ts)
  then show ?thesis using region_data_invariant [OF sample_reachable] sample_reachable by blast
qed

text \<open>
  C9: a split moves exactly the entries whose key lies in the range of the new region, from all three
  column families, and merging the two parts gives back data that compares equal to the data before the
  split, the size counter included.
\<close>

theorem region_split_merge:
  assumes "reachable_data d" and "rd_splitInto rng d empty_RegionData = (d1, d2)"
  shows "set (data_map (rd_write d2)) = {p \<in> set (data_map (rd_write d)). in_range rng (fst (snd p))}
    \<and> set (data_map (rd_write d1)) = set (data_map (rd_write d)) - set (data_map (rd_write d2))
    \<and> set (data_map (rd_default d2)) = {p \<in> set (data_map (rd_default d)). in_range rng (fst (snd p))}
    \<and> set (data_map (rd_default d1)) = set (data_map (rd_default d)) - set (data_map (rd_default d2))
    \<and> set (data_map (rd_lock d2)) = {p \<in> set (data_map (rd_lock d)). in_range rng (fst (snd p))}
    \<and> set (data_map (rd_lock d1)) = set (data_map (rd_lock d)) - set (data_map (rd_lock d2))
    \<and> (\<exists>d3. rd_mergeFrom d2 d1 = Inr d3 \<and> rd_isEqual d3 d)"
  using split_ranges [OF reachable_inv [OF assms(1)] assms(2)] split_then_merge [OF reachable_inv [OF assms(1)] assms(2)]
  by auto

theorem region_split_merge_witness:
  "\<exists>d1 d2 d3. rd_splitInto (makeComparableKeys [] []) sample_data empty_RegionData = (d1, d2)
     \<and> rd_mergeFrom d2 d1 = Inr d3 \<and> rd_isEqual d3 sample_data"
proof -
  obtain d1 d2 where s: "rd_splitInto (makeComparableKeys [] []) sample_data empty_RegionData = (d1, d2)" by (rule prod.exhaust)
  show ?thesis using region_split_merge [OF sample_reachable s] s by blast
qed

text \<open>
  C10: the lookup of locks answers "no lock" exactly when no lock record of the region, decoded from its
  stored bytes, blocks a read at the requested timestamp: a lock blocks when it is neither a pure nor a
  pessimistic lock, its start and its minimal commit timestamp are not after the read, and it is not in
  the set of locks to ignore.
\<close>

theorem region_lock_lookup:
  assumes "reachable_data d"
  shows "getLockInfo query d = None \<longleftrightarrow>
    \<not> (\<exists>key v l. (key, key, v, l) \<in> set (data_map (rd_lock d)) \<and> decodeLockCfValue key v = Inr l \<and> blocks query l)"
proof -
  have ok: "list_all lock_entry_ok (data_map (rd_lock d))"
    using RegionData_invD(3) [OF reachable_inv [OF assms]] by (simp add: cf_ok_def)
  let ?locks = "data_map (rd_lock d)"
  have "(\<exists>key v l. (key, key, v, l) \<in> set ?locks \<and> decodeLockCfValue key v = Inr l \<and> blocks query l)"
    if p: "p \<in> set ?locks" "blocks query (snd (snd (snd p)))" for p
  proof -
    obtain k key v l where e: "p = (k, key, v, l)" by (cases p)
    then have "key = k \<and> decodeLockCfValue k v = Inr l"
      using ok p(1) lock_entry_ok_iff [of k key v l] by (simp add: list_all_iff)
    then show ?thesis using p e by auto
  qed
  moreover have "\<exists>p \<in> set ?locks. blocks query (snd (snd (snd p)))"
    if "(key, key, v, l) \<in> set ?locks" "blocks query l" for key v l
    by (rule bexI [OF _ that(1)]) (simp add: that(2))
  moreover have "getLockInfo query d = None \<longleftrightarrow> (\<forall>p \<in> set ?locks. \<not> blocks query (snd (snd (snd p))))"
    by (simp add: getLockInfo_def getLockInfo_loop_find find_None_iff)
  ultimately show ?thesis by meson
qed

theorem region_lock_lookup_witness:
  "reachable_data sample_data \<and> getLockInfo \<lparr>read_tso = 8, bypass_lock_ts = None\<rparr> sample_data = None"
  using region_lock_lookup [OF sample_reachable] sample_reachable
  by (simp add: sample_data_def sample_default_def empty_RegionData_def empty_cf_def)

text \<open>
  A region that is written to the disk format and read back compares equal to the original; the
  reader consumes the written bytes and nothing more, and the reported size is their number.
\<close>

lemma region_data_roundtrip:
  assumes "reachable_data d" and "stored_ok d"
  shows "(\<exists>d'. rd_deserialize (fst (rd_serialize d) @ rest) empty_RegionData = Inr (d', rest) \<and> rd_isEqual d' d)
    \<and> snd (rd_serialize d) = of_nat (length (fst (rd_serialize d)))"
  using deserialize_serialize [OF reachable_inv [OF assms(1)] assms(2)] serialize_size by blast

text \<open>
  C11: reading a commit record gives the value of its row. In every state that a run of operations reaches in
  which each transaction has one value per row, a record of another kind than a put is read without a value; a record of a
  put is read with its short value, or else with the value that its transaction wrote, which is found under the
  timestamp of the start of the transaction. This holds whether the value came before or after
  the record, and whenever the record has a short value or the value is in the default family the read succeeds.
\<close>

theorem committed_value_read:
  assumes "valued V d" and "((pk, ts), (key, v, dec)) \<in> set (data_map (rd_write d))"
  shows "\<exists>rec. decodeWriteCfValue v = Inr (Some rec)
    \<and> (if write_type rec \<noteq> PutFlag then readDataByWriteIt ((pk, ts), (key, v, dec)) True d = Inr (pk, write_type rec, ts, None)
       else (\<forall>r. readDataByWriteIt ((pk, ts), (key, v, dec)) True d = Inr r \<longrightarrow> r = (pk, PutFlag, ts, Some (committed_value V pk rec)))
         \<and> (short_value rec \<noteq> None \<or> (pk, prewrite_ts rec) \<in> fst ` set (data_map (rd_default d))
            \<longrightarrow> readDataByWriteIt ((pk, ts), (key, v, dec)) True d = Inr (pk, PutFlag, ts, Some (committed_value V pk rec))))"
proof -
  have k: "kept_values V d" by (rule valued_kept [OF assms(1)])
  then obtain rec where rec: "decodeWriteCfValue v = Inr (Some rec)" "write_type dec = write_type rec" "prewrite_ts dec = prewrite_ts rec"
      "short_value dec = short_value rec \<or> write_type rec = PutFlag \<and> short_value dec = Some (committed_value V pk rec)"
    using assms(2) by (fastforce simp: kept_values_def kept_ok_def)
  have dv: "snd e = V k" if "map_of (data_map (rd_default d)) k = Some e" for k e
    using k map_of_SomeD [OF that] by (fastforce simp: kept_values_def values_are_def)
  have there: "k \<in> fst ` set (data_map (rd_default d)) \<longleftrightarrow> map_of (data_map (rd_default d)) k \<noteq> None" for k
    by (simp add: map_of_eq_None_iff)
  show ?thesis
    unfolding there using rec dv
    by (intro exI [of _ rec]) (auto simp: readDataByWriteIt_def committed_value_def split: option.splits)
qed

text \<open>The record came before the value, which is found when the row is read.\<close>

definition sample_early :: RegionData where
  "sample_early = empty_RegionData\<lparr>
     rd_write := \<lparr>data_map = [((handle_pk 7, 9), (genKey_ts 1 7 9, sample_write_value,
         \<lparr>write_type = PutFlag, prewrite_ts = 5, short_value = None\<rparr>))], pre_decode = []\<rparr>,
     cf_data_size := 35 + of_nat (length sample_write_value)\<rparr>"

definition sample_late :: RegionData where
  "sample_late = sample_early\<lparr>
     rd_default := \<lparr>data_map = [((handle_pk 7, 5), (genKey_ts 1 7 5, [1, 2]))], pre_decode = [[1, 2]]\<rparr>,
     cf_data_size := 35 + of_nat (length sample_write_value) + 37\<rparr>"

lemma sample_early_insert: "rd_insert CF_Write (genKey_ts 1 7 9) sample_write_value empty_RegionData = Inr sample_early"
  by (simp add: rd_insert_def write_insert_record cf_insert_pair_def empty_RegionData_def empty_cf_def sample_early_def sample_write_value_def)
    (simp add: RegionWriteCFDataTrait_def write_finishInsert_def calcTiKVKeyValueSize_def length_genKey_ts)

lemma sample_late_insert: "rd_insert CF_Default (genKey_ts 1 7 5) [1, 2] sample_early = Inr sample_late"
  by (simp add: rd_insert_def default_insert_record cf_insert_pair_def empty_RegionData_def empty_cf_def sample_early_def sample_late_def)
    (simp add: RegionDefaultCFDataTrait_def default_finishInsert_def calcTiKVKeyValueSize_def length_genKey_ts)

lemma sample_late_valued: "valued (\<lambda>_. [1, 2]) sample_late"
  by (rule valued_inserted [OF valued_inserted [OF valued_created sample_early_insert] sample_late_insert])
    (simp_all add: values_are_def sample_early_def sample_late_def empty_RegionData_def empty_cf_def)

theorem committed_value_read_witness:
  "valued (\<lambda>_. [1, 2]) sample_late \<and> readDataByWriteIt ((handle_pk 7, 9), (genKey_ts 1 7 9, sample_write_value,
      \<lparr>write_type = PutFlag, prewrite_ts = 5, short_value = None\<rparr>)) True sample_late = Inr (handle_pk 7, PutFlag, 9, Some [1, 2])"
proof -
  let ?dec = "\<lparr>write_type = PutFlag, prewrite_ts = 5, short_value = None\<rparr>"
  have r: "((handle_pk 7, 9), (genKey_ts 1 7 9, sample_write_value, ?dec)) \<in> set (data_map (rd_write sample_late))"
    by (simp add: sample_late_def sample_early_def)
  have d: "decodeWriteCfValue sample_write_value = Inr (Some ?dec)" by (simp add: sample_write_value_def decodeWriteCfValue_encode)
  have v: "(handle_pk 7, prewrite_ts ?dec) \<in> fst ` set (data_map (rd_default sample_late))" by (simp add: sample_late_def)
  have c: "committed_value (\<lambda>_. [1, 2]) (handle_pk 7) ?dec = [1, 2]" by (simp add: committed_value_def)
  have "readDataByWriteIt ((handle_pk 7, 9), (genKey_ts 1 7 9, sample_write_value, ?dec)) True sample_late
      = Inr (handle_pk 7, PutFlag, 9, Some (committed_value (\<lambda>_. [1, 2]) (handle_pk 7) ?dec))"
    using committed_value_read [OF sample_late_valued r] v
    unfolding d sum.inject option.inject ex_simps simp_thms by (metis InnerDecodedWriteCFValue.select_convs(1))
  then show ?thesis unfolding c using sample_late_valued by blast
qed

end
