(* ===== verification/RegionMeta.thy ===== *)
theory RegionMeta
  imports CFData
begin

section \<open>The state of a region in the raft group\<close>

text \<open>
  \<open>Storages/Transaction/RegionState.cpp\<close> and \<open>RegionMeta.cpp\<close>. A \<open>RegionState\<close> is the persisted message
  with the range of keys computed from its bounds. The meta of a region also has the peer, the apply state
  and the term. The locks of the sources protect one operation each; the operations of the model are those
  critical sections. The requests and responses of raft commands are records of the fields that the sources
  read.
\<close>

subsection \<open>Region states\<close>

record RegionState =
  rs_base :: RegionLocalState
  rs_range :: "RegionRangeKeys option"

definition getRegion :: "RegionState \<Rightarrow> MetaRegion" where
  "getRegion st = ls_region (rs_base st)"

definition updateRegionRange :: "RegionState \<Rightarrow> RegionState result" where
  "updateRegionRange st =
     rbind (mk_RegionRangeKeys (mr_start_key (getRegion st)) (mr_end_key (getRegion st))) (\<lambda>r.
       Inr (st\<lparr>rs_range := Some r\<rparr>))"

definition mutRegion :: "(MetaRegion \<Rightarrow> MetaRegion) \<Rightarrow> RegionState \<Rightarrow> RegionState" where
  "mutRegion f st = st\<lparr>rs_base := (rs_base st)\<lparr>ls_region := f (getRegion st)\<rparr>\<rparr>"

definition mk_RegionState :: "RegionLocalState \<Rightarrow> RegionState result" where
  "mk_RegionState b = updateRegionRange \<lparr>rs_base = b, rs_range = None\<rparr>"

definition setRegion :: "MetaRegion \<Rightarrow> RegionState \<Rightarrow> RegionState result" where
  "setRegion r st = updateRegionRange (mutRegion (\<lambda>_. r) st)"

definition setVersion :: "UInt64 \<Rightarrow> RegionState \<Rightarrow> RegionState" where
  "setVersion v st = mutRegion (\<lambda>r. r\<lparr>mr_version := v\<rparr>) st"

definition setConfVersion :: "UInt64 \<Rightarrow> RegionState \<Rightarrow> RegionState" where
  "setConfVersion v st = mutRegion (\<lambda>r. r\<lparr>mr_conf_ver := v\<rparr>) st"

definition setStartKey :: "bytes \<Rightarrow> RegionState \<Rightarrow> RegionState result" where
  "setStartKey key st = updateRegionRange (mutRegion (\<lambda>r. r\<lparr>mr_start_key := key\<rparr>) st)"

definition setEndKey :: "bytes \<Rightarrow> RegionState \<Rightarrow> RegionState result" where
  "setEndKey key st = updateRegionRange (mutRegion (\<lambda>r. r\<lparr>mr_end_key := key\<rparr>) st)"

definition getVersion :: "RegionState \<Rightarrow> UInt64" where "getVersion st = mr_version (getRegion st)"
definition getConfVersion :: "RegionState \<Rightarrow> UInt64" where "getConfVersion st = mr_conf_ver (getRegion st)"
definition getState :: "RegionState \<Rightarrow> PeerState" where "getState st = ls_state (rs_base st)"

definition setState :: "PeerState \<Rightarrow> RegionState \<Rightarrow> RegionState" where
  "setState s st = st\<lparr>rs_base := (rs_base st)\<lparr>ls_state := s\<rparr>\<rparr>"

definition clearMergeState :: "RegionState \<Rightarrow> RegionState" where
  "clearMergeState st = st\<lparr>rs_base := (rs_base st)\<lparr>ls_merge_state := None\<rparr>\<rparr>"

definition getMergeState :: "RegionState \<Rightarrow> MergeState" where
  "getMergeState st = merge_state (rs_base st)"

definition setMergeState :: "MergeState \<Rightarrow> RegionState \<Rightarrow> RegionState" where
  "setMergeState m st = st\<lparr>rs_base := (rs_base st)\<lparr>ls_merge_state := Some m\<rparr>\<rparr>"

definition RegionState_eq :: "RegionState \<Rightarrow> RegionState \<Rightarrow> bool" where
  "RegionState_eq a b \<longleftrightarrow> LocalState_eq (rs_base a) (rs_base b)"

subsection \<open>Meta\<close>

record RegionMeta =
  rm_peer :: Peer
  rm_apply_state :: RaftApplyState
  rm_applied_term :: UInt64
  rm_state :: RegionState
  rm_region_id :: RegionID

definition mk_RegionMeta :: "Peer \<Rightarrow> RaftApplyState \<Rightarrow> UInt64 \<Rightarrow> RegionLocalState \<Rightarrow> RegionMeta result" where
  "mk_RegionMeta p a t b =
     rbind (mk_RegionState b) (\<lambda>st.
       Inr \<lparr>rm_peer = p, rm_apply_state = a, rm_applied_term = t, rm_state = st, rm_region_id = mr_id (getRegion st)\<rparr>)"

definition new_RegionMeta :: "ProtoEnv \<Rightarrow> Peer \<Rightarrow> MetaRegion \<Rightarrow> RaftApplyState \<Rightarrow> RegionMeta result" where
  "new_RegionMeta pe p r a =
     rbind (setRegion r \<lparr>rs_base = \<lparr>ls_region = default_MetaRegion, ls_state = pe_default pe, ls_merge_state = None\<rparr>, rs_range = None\<rparr>)
       (\<lambda>st. Inr \<lparr>rm_peer = p, rm_apply_state = a, rm_applied_term = as_truncated_term a, rm_state = st, rm_region_id = mr_id r\<rparr>)"

definition meta_serialize :: "ProtoEnv \<Rightarrow> RegionMeta \<Rightarrow> out \<times> UInt64" where
  "meta_serialize pe m =
     (wseq [writeBinary2_Peer (rm_peer m), writeBinary2_ApplyState (rm_apply_state m), writeBinary2_num 8 (rm_applied_term m),
        writeBinary2_LocalState pe (rs_base (rm_state m))],
      as_applied_index (rm_apply_state m))"

definition meta_deserialize :: "ProtoEnv \<Rightarrow> bytes \<Rightarrow> (RegionMeta \<times> bytes) result" where
  "meta_deserialize pe buf =
     rbind (readPeer buf) (\<lambda>(p, buf1).
     rbind (readApplyState buf1) (\<lambda>(a, buf2).
     rbind (readBinary2_num 8 buf2) (\<lambda>(t, buf3).
     rbind (readRegionLocalState pe buf3) (\<lambda>(b, buf4).
     rbind (mk_RegionMeta p a t b) (\<lambda>m. Inr (m, buf4))))))"

definition meta_getRange :: "RegionMeta \<Rightarrow> RegionRangeKeys result" where
  "meta_getRange m = (case rs_range (rm_state m) of Some r \<Rightarrow> Inr r | None \<Rightarrow> Inl OutOfBounds)"

definition meta_appliedIndex :: "RegionMeta \<Rightarrow> UInt64" where
  "meta_appliedIndex m = as_applied_index (rm_apply_state m)"

definition doSetRegion :: "MetaRegion \<Rightarrow> RegionMeta \<Rightarrow> RegionMeta result" where
  "doSetRegion r m =
     (if rm_region_id m \<noteq> mr_id r then throw '': region id is not equal, should not happen''
      else rbind (setRegion r (rm_state m)) (\<lambda>st. Inr (m\<lparr>rm_state := st\<rparr>)))"

definition doSetApplied :: "UInt64 \<Rightarrow> UInt64 \<Rightarrow> RegionMeta \<Rightarrow> RegionMeta" where
  "doSetApplied i t m = m\<lparr>rm_apply_state := (rm_apply_state m)\<lparr>as_applied_index := i\<rparr>, rm_applied_term := t\<rparr>"

definition meta_peerState :: "RegionMeta \<Rightarrow> PeerState" where
  "meta_peerState m = getState (rm_state m)"

definition meta_setPeerState :: "PeerState \<Rightarrow> RegionMeta \<Rightarrow> RegionMeta" where
  "meta_setPeerState s m = m\<lparr>rm_state := setState s (rm_state m)\<rparr>"

definition doCheckIndex :: "UInt64 \<Rightarrow> RegionMeta \<Rightarrow> bool" where
  "doCheckIndex i m \<longleftrightarrow> getState (rm_state m) = Tombstone \<or> as_applied_index (rm_apply_state m) \<ge> i"

text \<open>The predicate of the condition variable: \<open>None\<close> is to wait, \<open>Some res\<close> to return \<open>res\<close>.\<close>

definition waitIndex_pred :: "UInt64 \<Rightarrow> bool \<Rightarrow> RegionMeta \<Rightarrow> bool option" where
  "waitIndex_pred i terminated m =
     (if terminated then Some True else if doCheckIndex i m then Some False else None)"

definition assignRegionMeta :: "RegionMeta \<Rightarrow> RegionMeta \<Rightarrow> RegionMeta result" where
  "assignRegionMeta rhs m =
     (if rm_region_id m \<noteq> rm_region_id rhs then throw '': region_id not equal, should not happen''
      else Inr (m\<lparr>rm_peer := rm_peer rhs, rm_apply_state := rm_apply_state rhs, rm_applied_term := rm_applied_term rhs,
        rm_state := rm_state rhs\<rparr>))"

definition RegionMeta_eq :: "RegionMeta \<Rightarrow> RegionMeta \<Rightarrow> bool" where
  "RegionMeta_eq a b \<longleftrightarrow> Peer_eq (rm_peer a) (rm_peer b) \<and> ApplyState_eq (rm_apply_state a) (rm_apply_state b)
     \<and> rm_applied_term a = rm_applied_term b \<and> RegionState_eq (rm_state a) (rm_state b)"

record RegionMetaSnapshot =
  snap_ver :: UInt64
  snap_conf_ver :: UInt64
  snap_range :: RegionRangeKeys
  snap_peer :: Peer

definition dumpRegionMetaSnapshot :: "RegionMeta \<Rightarrow> RegionMetaSnapshot result" where
  "dumpRegionMetaSnapshot m =
     rbind (meta_getRange m) (\<lambda>r. Inr \<lparr>snap_ver = getVersion (rm_state m), snap_conf_ver = getConfVersion (rm_state m),
       snap_range = r, snap_peer = rm_peer m\<rparr>)"

definition RAFT_INIT_LOG_TERM :: UInt64 where "RAFT_INIT_LOG_TERM = 5"
definition RAFT_INIT_LOG_INDEX :: UInt64 where "RAFT_INIT_LOG_INDEX = 5"

definition initialApplyState :: RaftApplyState where
  "initialApplyState = \<lparr>as_applied_index = RAFT_INIT_LOG_INDEX, as_truncated_index = RAFT_INIT_LOG_INDEX,
     as_truncated_term = RAFT_INIT_LOG_TERM\<rparr>"

subsection \<open>Raft commands that change the meta\<close>

datatype AdminCmdType = ChangePeer | ChangePeerV2 | Split | BatchSplit | CompactLog | ComputeHash | VerifyHash
  | PrepareMerge | CommitMerge | RollbackMerge | OtherAdmin

record AdminRequest =
  cmd_type :: AdminCmdType
  prepare_min_index :: UInt64
  prepare_target :: MetaRegion
  commit_source :: MetaRegion
  rollback_commit :: UInt64

record AdminResponse =
  resp_change_peer_region :: MetaRegion
  resp_splits :: "MetaRegion list"
  resp_split_left :: "MetaRegion option"

record RegionMergeResult =
  source_at_left :: bool
  merge_version :: UInt64

definition doCheckPeerRemoved :: "RegionMeta \<Rightarrow> bool result" where
  "doCheckPeerRemoved m =
     (let ps = mr_peers (getRegion (rm_state m))
      in if ps = [] then throw '': got empty peers, should not happen''
         else Inr (list_all (\<lambda>p. peer_id p \<noteq> peer_id (rm_peer m)) ps))"

definition execChangePeer :: "AdminResponse \<Rightarrow> UInt64 \<Rightarrow> UInt64 \<Rightarrow> RegionMeta \<Rightarrow> RegionMeta result" where
  "execChangePeer response i t m =
     rbind (doSetRegion (resp_change_peer_region response) m) (\<lambda>m1.
     rbind (doCheckPeerRemoved m1) (\<lambda>removed.
       let st = setState (if removed then Tombstone else Normal) (rm_state m1)
       in Inr (doSetApplied i t (m1\<lparr>rm_state := clearMergeState st\<rparr>))))"

definition checkBeforeCommitMerge :: "AdminRequest \<Rightarrow> RegionMeta \<Rightarrow> RegionMeta \<Rightarrow> RegionMergeResult result" where
  "checkBeforeCommitMerge request source_meta m =
     (let source_region = commit_source request
      in if getState (rm_state source_meta) \<noteq> Merging \<and> getState (rm_state source_meta) \<noteq> Normal
         then throw '' unexpected state of source region: ''
         else if \<not> MetaRegion_eq source_region (getRegion (rm_state source_meta))
         then throw '': source_region not match exist region''
         else Inr \<lparr>source_at_left =
                (if mr_start_key source_region = [] then True
                 else mr_end_key source_region = mr_start_key (getRegion (rm_state m))),
              merge_version = max (mr_version source_region) (getVersion (rm_state m)) + 1\<rparr>)"

definition CheckRegionForMergeCmd :: "AdminResponse \<Rightarrow> RegionState \<Rightarrow> unit result" where
  "CheckRegionForMergeCmd response st =
     (case resp_split_left response of
        Some left \<Rightarrow> if \<not> MetaRegion_eq left (getRegion st) then throw '': current region: should not happen'' else Inr ()
      | None \<Rightarrow> Inr ())"

definition execRollbackMerge :: "AdminRequest \<Rightarrow> AdminResponse \<Rightarrow> UInt64 \<Rightarrow> UInt64 \<Rightarrow> RegionMeta \<Rightarrow> RegionMeta result" where
  "execRollbackMerge request response i t m =
     (if getState (rm_state m) \<noteq> Merging then throw '': region state is ''
      else if ms_commit (getMergeState (rm_state m)) \<noteq> rollback_commit request then throw '': merge commit index  != ''
      else
        (let st = clearMergeState (setState Normal (setVersion (getVersion (rm_state m) + 1) (rm_state m)));
             m1 = doSetApplied i t (m\<lparr>rm_state := st\<rparr>)
         in rbind (CheckRegionForMergeCmd response (rm_state m1)) (\<lambda>_. Inr m1)))"

definition execCommitMerge ::
    "RegionMergeResult \<Rightarrow> UInt64 \<Rightarrow> UInt64 \<Rightarrow> RegionMeta \<Rightarrow> AdminResponse \<Rightarrow> RegionMeta \<Rightarrow> RegionMeta result" where
  "execCommitMerge res i t source_meta response m =
     (let st = setVersion (merge_version res) (rm_state m)
      in rbind (if source_at_left res then setStartKey (mr_start_key (getRegion (rm_state source_meta))) st
                else setEndKey (mr_end_key (getRegion (rm_state source_meta))) st) (\<lambda>st1.
           let m1 = doSetApplied i t (m\<lparr>rm_state := clearMergeState (setState Normal st1)\<rparr>)
           in rbind (CheckRegionForMergeCmd response (rm_state m1)) (\<lambda>_. Inr m1)))"

definition execPrepareMerge :: "AdminRequest \<Rightarrow> AdminResponse \<Rightarrow> UInt64 \<Rightarrow> UInt64 \<Rightarrow> RegionMeta \<Rightarrow> RegionMeta result" where
  "execPrepareMerge request response i t m =
     (let st = setVersion (getVersion (rm_state m) + 1) (rm_state m);
          st1 = setConfVersion (getConfVersion st + 1) st;
          st2 = setMergeState \<lparr>ms_min_index = prepare_min_index request, ms_target = prepare_target request, ms_commit = i\<rparr> st1;
          m1 = doSetApplied i t (m\<lparr>rm_state := setState Merging st2\<rparr>)
      in rbind (CheckRegionForMergeCmd response (rm_state m1)) (\<lambda>_. Inr m1))"

subsection \<open>Ranges\<close>

lemma in_range_iff: "in_range (makeComparableKeys a b) key \<longleftrightarrow> a \<le> key \<and> (b = [] \<or> key < b)"
  by (auto simp: in_range_def makeComparableKeys_def makeTiKVRangeKey_def compare_key_def str_compare_def neq_Nil_conv)

lemma mk_RegionRangeKeys_ok:
  assumes "mk_RegionRangeKeys a b = Inr r"
  shows "ori r = makeComparableKeys a b" "fst (ori r) < snd (ori r)" "a \<noteq> []" "b = [] \<or> a < b"
proof -
  have c: "compare_range_key (makeTiKVRangeKey True a) (makeTiKVRangeKey False b) < 0" and o: "ori r = makeComparableKeys a b"
    using assms by (auto simp: mk_RegionRangeKeys_def Let_def rbind_eq_Inr makeComparableKeys_def split: option.splits if_splits)
  show "ori r = makeComparableKeys a b" by (rule o)
  show "fst (ori r) < snd (ori r)" using c by (simp add: o makeComparableKeys_def less_TiKVRangeKey_def)
  show a: "a \<noteq> []"
    using assms by (auto simp: mk_RegionRangeKeys_def Let_def rbind_eq_Inr makeComparableKeys_def makeTiKVRangeKey_def
        decode_bound_def computeMappedTableID_def)
  show "b = [] \<or> a < b" using c a by (auto simp: makeTiKVRangeKey_def compare_range_key_def str_compare_def split: if_splits)
qed

subsection \<open>Invariant\<close>

text \<open>The cached range is the one of the bounds, which is legal, and the id is the one of the region.\<close>

definition meta_inv :: "RegionMeta \<Rightarrow> bool" where
  "meta_inv m \<longleftrightarrow> (\<exists>r. rs_range (rm_state m) = Some r
       \<and> mk_RegionRangeKeys (mr_start_key (getRegion (rm_state m))) (mr_end_key (getRegion (rm_state m))) = Inr r)
     \<and> rm_region_id m = mr_id (getRegion (rm_state m))"

lemmas state_defs = getRegion_def mutRegion_def setVersion_def setConfVersion_def getVersion_def getConfVersion_def
  getState_def setState_def clearMergeState_def getMergeState_def setMergeState_def doSetApplied_def merge_state_def

lemma updateRegionRange_ok:
  assumes "updateRegionRange st = Inr st'"
  shows "\<exists>r. mk_RegionRangeKeys (mr_start_key (getRegion st)) (mr_end_key (getRegion st)) = Inr r \<and> st' = st\<lparr>rs_range := Some r\<rparr>"
  using assms by (auto simp: updateRegionRange_def rbind_eq_Inr)

lemma mk_RegionMeta_inv: "mk_RegionMeta p a t b = Inr m \<Longrightarrow> meta_inv m"
  by (auto simp: mk_RegionMeta_def mk_RegionState_def rbind_eq_Inr meta_inv_def getRegion_def dest!: updateRegionRange_ok)

lemma new_RegionMeta_inv: "new_RegionMeta pe p r a = Inr m \<Longrightarrow> meta_inv m"
  by (auto simp: new_RegionMeta_def setRegion_def rbind_eq_Inr meta_inv_def state_defs dest!: updateRegionRange_ok)

lemma doSetApplied_inv: "meta_inv (doSetApplied i t m) \<longleftrightarrow> meta_inv m"
  by (simp add: meta_inv_def doSetApplied_def)

lemma doSetRegion_inv: "doSetRegion r m = Inr m' \<Longrightarrow> meta_inv m'"
  by (auto simp: doSetRegion_def setRegion_def rbind_eq_Inr meta_inv_def state_defs dest!: updateRegionRange_ok split: if_splits)

lemma setState_inv: "meta_inv (m\<lparr>rm_state := setState s st\<rparr>) \<longleftrightarrow> meta_inv (m\<lparr>rm_state := st\<rparr>)"
  by (simp add: meta_inv_def state_defs)

lemma clearMergeState_inv: "meta_inv (m\<lparr>rm_state := clearMergeState st\<rparr>) \<longleftrightarrow> meta_inv (m\<lparr>rm_state := st\<rparr>)"
  by (simp add: meta_inv_def state_defs)

lemma execChangePeer_inv: "execChangePeer response i t m = Inr m' \<Longrightarrow> meta_inv m'"
  by (auto simp: execChangePeer_def rbind_eq_Inr Let_def doSetApplied_inv clearMergeState_inv setState_inv dest: doSetRegion_inv)

lemma execPrepareMerge_inv: "meta_inv m \<Longrightarrow> execPrepareMerge request response i t m = Inr m' \<Longrightarrow> meta_inv m'"
  by (auto simp: execPrepareMerge_def rbind_eq_Inr Let_def meta_inv_def state_defs)

lemma execRollbackMerge_inv: "meta_inv m \<Longrightarrow> execRollbackMerge request response i t m = Inr m' \<Longrightarrow> meta_inv m'"
  by (auto simp: execRollbackMerge_def rbind_eq_Inr Let_def meta_inv_def state_defs split: if_splits)

lemma execCommitMerge_state:
  assumes "execCommitMerge res i t src response m = Inr m'"
  shows "\<exists>r s e. mk_RegionRangeKeys s e = Inr r \<and> rs_range (rm_state m') = Some r
    \<and> s = (if source_at_left res then mr_start_key (getRegion (rm_state src)) else mr_start_key (getRegion (rm_state m)))
    \<and> e = (if source_at_left res then mr_end_key (getRegion (rm_state m)) else mr_end_key (getRegion (rm_state src)))
    \<and> getRegion (rm_state m') = (getRegion (rm_state m))\<lparr>mr_start_key := s, mr_end_key := e, mr_version := merge_version res\<rparr>
    \<and> getState (rm_state m') = Normal \<and> ls_merge_state (rs_base (rm_state m')) = None
    \<and> rm_region_id m' = rm_region_id m \<and> meta_appliedIndex m' = i \<and> rm_applied_term m' = t"
proof (cases "source_at_left res")
  case True
  with assms show ?thesis
    by (auto simp: execCommitMerge_def rbind_eq_Inr Let_def setStartKey_def state_defs meta_appliedIndex_def dest!: updateRegionRange_ok)
next
  case False
  with assms show ?thesis
    by (auto simp: execCommitMerge_def rbind_eq_Inr Let_def setEndKey_def state_defs meta_appliedIndex_def dest!: updateRegionRange_ok)
qed

lemma execCommitMerge_inv: "meta_inv m \<Longrightarrow> execCommitMerge res i t src response m = Inr m' \<Longrightarrow> meta_inv m'"
  by (drule execCommitMerge_state) (auto simp: meta_inv_def)

lemma assignRegionMeta_inv:
  "meta_inv rhs \<Longrightarrow> assignRegionMeta rhs m = Inr m' \<Longrightarrow> meta_inv m' \<and> rm_region_id m' = rm_region_id m"
  by (auto simp: assignRegionMeta_def meta_inv_def split: if_splits)

subsection \<open>Reachable states\<close>

inductive reachable_meta :: "ProtoEnv \<Rightarrow> RegionMeta \<Rightarrow> bool" for pe where
  restored: "mk_RegionMeta p a t b = Inr m \<Longrightarrow> reachable_meta pe m"
| created: "new_RegionMeta pe p r a = Inr m \<Longrightarrow> reachable_meta pe m"
| applied: "reachable_meta pe m \<Longrightarrow> reachable_meta pe (doSetApplied i t m)"
| peer_state: "reachable_meta pe m \<Longrightarrow> reachable_meta pe (meta_setPeerState st m)"
| change_peer: "reachable_meta pe m \<Longrightarrow> execChangePeer response i t m = Inr m' \<Longrightarrow> reachable_meta pe m'"
| prepare_merge: "reachable_meta pe m \<Longrightarrow> execPrepareMerge request response i t m = Inr m' \<Longrightarrow> reachable_meta pe m'"
| rollback_merge: "reachable_meta pe m \<Longrightarrow> execRollbackMerge request response i t m = Inr m' \<Longrightarrow> reachable_meta pe m'"
| commit_merge: "reachable_meta pe m \<Longrightarrow> execCommitMerge res i t src response m = Inr m' \<Longrightarrow> reachable_meta pe m'"
| assigned: "reachable_meta pe m \<Longrightarrow> reachable_meta pe rhs \<Longrightarrow> assignRegionMeta rhs m = Inr m' \<Longrightarrow> reachable_meta pe m'"

lemma meta_setPeerState_inv: "meta_inv (meta_setPeerState st m) \<longleftrightarrow> meta_inv m"
  by (simp add: meta_inv_def meta_setPeerState_def state_defs)

lemma reachable_meta_inv: "reachable_meta pe m \<Longrightarrow> meta_inv m"
  by (induction rule: reachable_meta.induct)
    (auto simp: doSetApplied_inv meta_setPeerState_inv
      dest: mk_RegionMeta_inv new_RegionMeta_inv execChangePeer_inv execPrepareMerge_inv execRollbackMerge_inv
        execCommitMerge_inv assignRegionMeta_inv)

subsection \<open>Merging\<close>

lemma merged_range:
  assumes m: "meta_inv m" and src: "meta_inv src"
    and adj: "mr_end_key (getRegion (rm_state src)) = mr_start_key (getRegion (rm_state m))
      \<or> mr_end_key (getRegion (rm_state m)) = mr_start_key (getRegion (rm_state src))"
    and chk: "checkBeforeCommitMerge request src m = Inr res"
    and com: "execCommitMerge res i t src response m = Inr m'"
  shows "\<exists>r rs rm. rs_range (rm_state m') = Some r \<and> rs_range (rm_state src) = Some rs \<and> rs_range (rm_state m) = Some rm \<and>
    (\<forall>key. in_range (ori r) key \<longleftrightarrow> in_range (ori rs) key \<or> in_range (ori rm) key)"
proof -
  let ?s = "getRegion (rm_state src)" and ?m = "getRegion (rm_state m)"
  obtain rs where rs: "rs_range (rm_state src) = Some rs" "mk_RegionRangeKeys (mr_start_key ?s) (mr_end_key ?s) = Inr rs"
    using src by (auto simp: meta_inv_def)
  obtain rm where rm: "rs_range (rm_state m) = Some rm" "mk_RegionRangeKeys (mr_start_key ?m) (mr_end_key ?m) = Inr rm"
    using m by (auto simp: meta_inv_def)
  note ks = mk_RegionRangeKeys_ok [OF rs(2)] and km = mk_RegionRangeKeys_ok [OF rm(2)]
  have left: "source_at_left res \<longleftrightarrow> mr_end_key ?s = mr_start_key ?m"
    using chk ks(3) by (auto simp: checkBeforeCommitMerge_def Let_def split: if_splits)
  obtain r where r: "rs_range (rm_state m') = Some r"
      "mk_RegionRangeKeys (if source_at_left res then mr_start_key ?s else mr_start_key ?m)
         (if source_at_left res then mr_end_key ?m else mr_end_key ?s) = Inr r"
    using execCommitMerge_state [OF com] by auto
  note kr = mk_RegionRangeKeys_ok(1) [OF r(2)]
  have "in_range (ori r) key \<longleftrightarrow> in_range (ori rs) key \<or> in_range (ori rm) key" for key
  proof (cases "source_at_left res")
    case True
    then show ?thesis using left ks km(3,4) unfolding kr ks(1) km(1) in_range_iff by force
  next
    case False
    then have "mr_end_key ?m = mr_start_key ?s" using adj left by blast
    then show ?thesis using False ks(3,4) km unfolding kr ks(1) km(1) in_range_iff by force
  qed
  then show ?thesis using r(1) rs(1) rm(1) by blast
qed

lemma mk_RegionRangeKeys_join:
  assumes "mk_RegionRangeKeys a b = Inr r1" "mk_RegionRangeKeys b c = Inr r2"
  shows "\<exists>r. mk_RegionRangeKeys a c = Inr r \<and> mapped_table_id r = mapped_table_id r1"
proof -
  note k1 = mk_RegionRangeKeys_ok [OF assms(1)] and k2 = mk_RegionRangeKeys_ok [OF assms(2)]
  obtain raw1 t where a: "decode_bound (rk_key (makeTiKVRangeKey True a)) = Inr raw1" "computeMappedTableID raw1 = Inr (Some t)" "mapped_table_id r1 = t"
    using assms(1) by (auto simp: mk_RegionRangeKeys_def Let_def rbind_eq_Inr makeComparableKeys_def split: option.splits if_splits)
  obtain raw2 where c: "decode_bound (rk_key (makeTiKVRangeKey False c)) = Inr raw2"
    using assms(2) by (auto simp: mk_RegionRangeKeys_def Let_def rbind_eq_Inr makeComparableKeys_def)
  have "b \<noteq> []" "c = [] \<or> a < c" using k1(4) k2(3,4) by auto
  then have "compare_range_key (makeTiKVRangeKey True a) (makeTiKVRangeKey False c) < 0"
    using k1(3) by (auto simp: makeTiKVRangeKey_def compare_range_key_def str_compare_def)
  then show ?thesis using a c by (simp add: mk_RegionRangeKeys_def Let_def makeComparableKeys_def)
qed

text \<open>The region that a merge leaves, and when the commit of a merge succeeds.\<close>

definition merged_MetaRegion :: "RegionMergeResult \<Rightarrow> MetaRegion \<Rightarrow> MetaRegion \<Rightarrow> MetaRegion" where
  "merged_MetaRegion res s m = m\<lparr>mr_start_key := (if source_at_left res then mr_start_key s else mr_start_key m),
     mr_end_key := (if source_at_left res then mr_end_key m else mr_end_key s), mr_version := merge_version res\<rparr>"

lemma merged_keys:
  assumes m: "meta_inv m" and src: "meta_inv src"
    and adj: "mr_end_key (getRegion (rm_state src)) = mr_start_key (getRegion (rm_state m))
      \<or> mr_end_key (getRegion (rm_state m)) = mr_start_key (getRegion (rm_state src))"
    and chk: "checkBeforeCommitMerge request src m = Inr res"
    and t: "\<forall>x \<in> {src, m}. \<exists>r. rs_range (rm_state x) = Some r \<and> mapped_table_id r = t"
  shows "\<exists>r. mk_RegionRangeKeys (mr_start_key (merged_MetaRegion res (getRegion (rm_state src)) (getRegion (rm_state m))))
    (mr_end_key (merged_MetaRegion res (getRegion (rm_state src)) (getRegion (rm_state m)))) = Inr r \<and> mapped_table_id r = t"
proof -
  let ?s = "getRegion (rm_state src)" and ?m = "getRegion (rm_state m)"
  obtain rs where rs: "mk_RegionRangeKeys (mr_start_key ?s) (mr_end_key ?s) = Inr rs" "mapped_table_id rs = t"
    using src t by (auto simp: meta_inv_def)
  obtain rm where rm: "mk_RegionRangeKeys (mr_start_key ?m) (mr_end_key ?m) = Inr rm" "mapped_table_id rm = t"
    using m t by (auto simp: meta_inv_def)
  have left: "source_at_left res \<longleftrightarrow> mr_end_key ?s = mr_start_key ?m"
    using chk mk_RegionRangeKeys_ok(3) [OF rs(1)] by (auto simp: checkBeforeCommitMerge_def Let_def split: if_splits)
  show ?thesis
  proof (cases "source_at_left res")
    case True
    then show ?thesis using mk_RegionRangeKeys_join [OF rs(1)] rm(1) rs(2) left by (simp add: merged_MetaRegion_def)
  next
    case False
    then show ?thesis using mk_RegionRangeKeys_join [OF rm(1)] rs(1) rm(2) left adj by (simp add: merged_MetaRegion_def)
  qed
qed

lemma execCommitMerge_total:
  assumes "mk_RegionRangeKeys (mr_start_key (merged_MetaRegion res (getRegion (rm_state src)) (getRegion (rm_state m))))
      (mr_end_key (merged_MetaRegion res (getRegion (rm_state src)) (getRegion (rm_state m)))) = Inr r"
    and "\<forall>l. resp_split_left response = Some l \<longrightarrow> MetaRegion_eq l (merged_MetaRegion res (getRegion (rm_state src)) (getRegion (rm_state m)))"
  shows "\<exists>m'. execCommitMerge res i t src response m = Inr m'"
  using assms
  by (cases "source_at_left res")
    (auto simp: execCommitMerge_def Let_def setStartKey_def setEndKey_def updateRegionRange_def merged_MetaRegion_def CheckRegionForMergeCmd_def state_defs
      split: option.split)

lemma word_less_plus_1: "(v :: UInt64) < - 1 \<Longrightarrow> v < v + 1"
  by uint_arith

lemma merge_version_bound:
  assumes "checkBeforeCommitMerge request src m = Inr res" "mr_version (commit_source request) < - 1" "getVersion (rm_state m) < - 1"
  shows "mr_version (commit_source request) < merge_version res" "getVersion (rm_state m) < merge_version res"
proof -
  let ?v = "max (mr_version (commit_source request)) (getVersion (rm_state m))"
  have "merge_version res = ?v + 1" using assms(1) by (auto simp: checkBeforeCommitMerge_def Let_def split: if_splits)
  moreover have "?v < - 1" using assms(2,3) by simp
  then have "?v < ?v + 1" by (rule word_less_plus_1)
  ultimately have "?v < merge_version res" by simp
  then show "mr_version (commit_source request) < merge_version res" "getVersion (rm_state m) < merge_version res"
    by (auto intro: le_less_trans [OF max.cobounded1] le_less_trans [OF max.cobounded2])
qed

subsection \<open>Written form\<close>

definition meta_ok :: "ProtoEnv \<Rightarrow> RegionMeta \<Rightarrow> bool" where
  "meta_ok pe m \<longleftrightarrow> meta_inv m \<and> Peer_ok (rm_peer m) \<and> LocalState_ok pe (rs_base (rm_state m))"

lemma mk_RegionMeta_fields:
  assumes "meta_inv m"
  shows "mk_RegionMeta (rm_peer m) (rm_apply_state m) (rm_applied_term m) (rs_base (rm_state m)) = Inr m"
  using assms
  by (auto simp: meta_inv_def mk_RegionMeta_def mk_RegionState_def updateRegionRange_def getRegion_def)

interpretation meta: serializer "\<lambda>m. fst (meta_serialize pe m)" "meta_deserialize pe" "meta_ok pe" for pe
proof
  fix m :: RegionMeta and rest :: bytes assume m: "meta_ok pe m"
  then have "mk_RegionMeta (rm_peer m) (rm_apply_state m) (rm_applied_term m) (rs_base (rm_state m)) = Inr m"
    by (simp add: meta_ok_def mk_RegionMeta_fields)
  with m show "meta_deserialize pe (fst (fst (meta_serialize pe m)) @ rest) = Inr (m, rest)"
    by (simp add: meta_serialize_def meta_deserialize_def meta_ok_def peer.read_write apply_st.read_write num8.read_write
        local_st.read_write)
next
  fix m :: RegionMeta
  show "snd (fst (meta_serialize pe m)) = of_nat (length (fst (fst (meta_serialize pe m))))"
    by (simp add: meta_serialize_def peer.write_size apply_st.write_size num8.write_size local_st.write_size)
qed

subsection \<open>Sample regions\<close>

definition sample_env :: ProtoEnv where
  "sample_env = \<lparr>pe_number = (\<lambda>s. case s of Normal \<Rightarrow> 0 | Applying \<Rightarrow> 1 | Tombstone \<Rightarrow> 2 | Merging \<Rightarrow> 3 | OtherState n \<Rightarrow> n),
     pe_state = (\<lambda>n. if n = 0 then Normal else if n = 1 then Applying else if n = 2 then Tombstone
       else if n = 3 then Merging else OtherState n),
     pe_default = Normal\<rparr>"

definition sample_meta_region :: "RegionID \<Rightarrow> HandleID \<Rightarrow> HandleID \<Rightarrow> MetaRegion" where
  "sample_meta_region i a b = \<lparr>mr_id = i, mr_start_key = genKey 1 a, mr_end_key = genKey 1 b, mr_conf_ver = 2, mr_version = 4,
     mr_peers = [\<lparr>peer_id = 100 + i, peer_store_id = 7, peer_role = 0\<rparr>]\<rparr>"

definition sample_keys :: "HandleID \<Rightarrow> HandleID \<Rightarrow> RegionRangeKeys" where
  "sample_keys a b = \<lparr>ori = makeComparableKeys (genKey 1 a) (genKey 1 b), raw = (genRawKey 1 a, genRawKey 1 b), mapped_table_id = 1\<rparr>"

definition sample_meta :: "RegionID \<Rightarrow> HandleID \<Rightarrow> HandleID \<Rightarrow> RegionMeta" where
  "sample_meta i a b = \<lparr>rm_peer = \<lparr>peer_id = 100 + i, peer_store_id = 7, peer_role = 0\<rparr>, rm_apply_state = initialApplyState,
     rm_applied_term = 5,
     rm_state = \<lparr>rs_base = \<lparr>ls_region = sample_meta_region i a b, ls_state = Normal, ls_merge_state = None\<rparr>,
       rs_range = Some (sample_keys a b)\<rparr>, rm_region_id = i\<rparr>"

lemma decodeTiKVKey_genKey: "decodeTiKVKey (genKey t h) = Inr (genRawKey t h)"
  using decodeTiKVKey_encode [of "genRawKey t h" "[]"] by (simp add: genKey_def)

lemma computeMappedTableID_genRawKey: "computeMappedTableID (genRawKey t h) = Inr (Some t)"
  by (simp add: computeMappedTableID_def getTableId_genRawKey) (simp add: genRawKey_def record_constants)

lemma length_genKey: "length (genKey t h) = 27"
  by (simp add: genKey_def encodeAsTiKVKey_def EncodeBytes_groups length_enc_groups record_constants)

lemma genKey_less_iff: "genKey t h < genKey t' h' \<longleftrightarrow> t <s t' \<or> t = t' \<and> h <s h'"
  using EncodeBytes_less_iff [of "genRawKey t h" "[]" "genRawKey t' h'" "[]"]
  by (simp add: genKey_def encodeAsTiKVKey_def genRawKey_less_iff)

lemma mk_RegionRangeKeys_sample:
  assumes "a <s b"
  shows "mk_RegionRangeKeys (genKey 1 a) (genKey 1 b) = Inr (sample_keys a b)"
proof -
  have ne: "genKey t h \<noteq> []" for t h using length_genKey [of t h] by auto
  have "genKey 1 a < genKey 1 b" using assms by (simp add: genKey_less_iff)
  then have "compare_range_key (makeTiKVRangeKey True (genKey 1 a)) (makeTiKVRangeKey False (genKey 1 b)) < 0"
    by (simp add: makeTiKVRangeKey_def ne compare_range_key_def str_compare_def)
  then show ?thesis
    by (simp add: mk_RegionRangeKeys_def sample_keys_def makeComparableKeys_def decode_bound_def decodeTiKVKey_genKey
        computeMappedTableID_genRawKey) (simp add: makeTiKVRangeKey_def ne decodeTiKVKey_genKey computeMappedTableID_genRawKey)
qed

lemma sample_meta_new:
  assumes "a <s b"
  shows "new_RegionMeta sample_env \<lparr>peer_id = 100 + i, peer_store_id = 7, peer_role = 0\<rparr> (sample_meta_region i a b) initialApplyState
    = Inr (sample_meta i a b)"
  using mk_RegionRangeKeys_sample [OF assms]
  by (simp add: new_RegionMeta_def setRegion_def updateRegionRange_def state_defs sample_meta_def sample_meta_region_def
      sample_env_def initialApplyState_def RAFT_INIT_LOG_TERM_def)

lemma sample_meta_reachable: "a <s b \<Longrightarrow> reachable_meta sample_env (sample_meta i a b)"
  by (rule created [OF sample_meta_new])

definition sample_merge_request :: AdminRequest where
  "sample_merge_request = \<lparr>cmd_type = CommitMerge, prepare_min_index = 0, prepare_target = default_MetaRegion,
     commit_source = sample_meta_region 11 50 90, rollback_commit = 0\<rparr>"

definition sample_response :: AdminResponse where
  "sample_response = \<lparr>resp_change_peer_region = default_MetaRegion, resp_splits = [], resp_split_left = None\<rparr>"

lemma sample_merge_check:
  "checkBeforeCommitMerge sample_merge_request (sample_meta 11 50 90) (sample_meta 10 0 50)
    = Inr \<lparr>source_at_left = False, merge_version = 5\<rparr>"
proof -
  have "genKey 1 90 \<noteq> genKey 1 0" using genKey_less_iff [of 1 0 1 90] by (auto simp: word_sless_alt)
  moreover have "genKey 1 50 \<noteq> []" using length_genKey [of 1 50] by auto
  ultimately show ?thesis
    by (simp add: checkBeforeCommitMerge_def sample_meta_def sample_meta_region_def sample_merge_request_def state_defs)
qed

lemma sample_merge_exec:
  "\<exists>m'. execCommitMerge \<lparr>source_at_left = False, merge_version = 5\<rparr> 20 6 (sample_meta 11 50 90) sample_response (sample_meta 10 0 50)
    = Inr m'"
proof -
  have "mk_RegionRangeKeys (genKey 1 0) (genKey 1 90) = Inr (sample_keys 0 90)"
    by (rule mk_RegionRangeKeys_sample) (simp add: word_sless_alt)
  then show ?thesis
    by (simp add: execCommitMerge_def Let_def setEndKey_def updateRegionRange_def state_defs CheckRegionForMergeCmd_def
        sample_meta_def sample_meta_region_def sample_response_def)
qed

subsection \<open>Properties\<close>

text \<open>
  C12: in every reachable state of a region the range that readers use is the one of the current bounds,
  which is legal, and its id is the one of the region it describes: no command can leave the cached range or
  the id behind.
\<close>

theorem meta_well_formed: "reachable_meta pe m \<Longrightarrow> meta_inv m"
  by (rule reachable_meta_inv)

theorem meta_well_formed_witness: "reachable_meta sample_env (sample_meta 10 0 50) \<and> meta_inv (sample_meta 10 0 50)"
proof -
  have r: "reachable_meta sample_env (sample_meta 10 0 50)" by (rule sample_meta_reachable) (simp add: word_sless_alt)
  then show ?thesis using meta_well_formed [OF r] by simp
qed

text \<open>
  C13: when two neighbouring regions merge, the range of the merged region contains exactly the keys of the
  two ranges, whichever of them is on the left.
\<close>

theorem commit_merge_range:
  assumes "reachable_meta pe m" and "reachable_meta pe src"
    and "mr_end_key (getRegion (rm_state src)) = mr_start_key (getRegion (rm_state m))
      \<or> mr_end_key (getRegion (rm_state m)) = mr_start_key (getRegion (rm_state src))"
    and "checkBeforeCommitMerge request src m = Inr res"
    and "execCommitMerge res i t src response m = Inr m'"
  shows "\<exists>r rs rm. rs_range (rm_state m') = Some r \<and> rs_range (rm_state src) = Some rs \<and> rs_range (rm_state m) = Some rm \<and>
    (\<forall>key. in_range (ori r) key \<longleftrightarrow> in_range (ori rs) key \<or> in_range (ori rm) key)"
  by (rule merged_range [OF reachable_meta_inv [OF assms(1)] reachable_meta_inv [OF assms(2)] assms(3-5)])

theorem commit_merge_range_witness:
  "\<exists>res m' r. checkBeforeCommitMerge sample_merge_request (sample_meta 11 50 90) (sample_meta 10 0 50) = Inr res \<and>
     execCommitMerge res 20 6 (sample_meta 11 50 90) sample_response (sample_meta 10 0 50) = Inr m' \<and> rs_range (rm_state m') = Some r
     \<and> (\<forall>key. in_range (ori r) key \<longleftrightarrow> in_range (ori (sample_keys 50 90)) key \<or> in_range (ori (sample_keys 0 50)) key)"
proof -
  obtain m' where e: "execCommitMerge \<lparr>source_at_left = False, merge_version = 5\<rparr> 20 6 (sample_meta 11 50 90) sample_response
      (sample_meta 10 0 50) = Inr m'" using sample_merge_exec by blast
  have r: "reachable_meta sample_env (sample_meta 10 0 50)" "reachable_meta sample_env (sample_meta 11 50 90)"
    by (rule sample_meta_reachable, simp add: word_sless_alt)+
  have "mr_end_key (getRegion (rm_state (sample_meta 10 0 50))) = mr_start_key (getRegion (rm_state (sample_meta 11 50 90)))"
    by (simp add: sample_meta_def sample_meta_region_def getRegion_def)
  note c = commit_merge_range [OF r disjI2 [OF this] sample_merge_check e]
  have "rs_range (rm_state (sample_meta 11 50 90)) = Some (sample_keys 50 90)"
    "rs_range (rm_state (sample_meta 10 0 50)) = Some (sample_keys 0 50)" by (simp_all add: sample_meta_def)
  with c obtain q where "rs_range (rm_state m') = Some q"
    "\<forall>key. in_range (ori q) key \<longleftrightarrow> in_range (ori (sample_keys 50 90)) key \<or> in_range (ori (sample_keys 0 50)) key" by auto
  then show ?thesis using sample_merge_check e by blast
qed

text \<open>
  C14: a merge gives the merged region a version above those of both regions, unless one of them is already
  the largest 64-bit number.
\<close>

theorem commit_merge_version:
  assumes "checkBeforeCommitMerge request src m = Inr res" and "execCommitMerge res i t src response m = Inr m'"
    and "getVersion (rm_state src) < - 1" and "getVersion (rm_state m) < - 1"
  shows "getVersion (rm_state src) < getVersion (rm_state m') \<and> getVersion (rm_state m) < getVersion (rm_state m')"
proof -
  have "commit_source request = getRegion (rm_state src)"
    using assms(1) by (auto simp: checkBeforeCommitMerge_def Let_def split: if_splits)
  moreover have "getVersion (rm_state m') = merge_version res"
    using execCommitMerge_state [OF assms(2)] by (auto simp: getVersion_def)
  ultimately show ?thesis using merge_version_bound [OF assms(1) _ assms(4)] assms(3) by (simp add: getVersion_def)
qed

theorem commit_merge_version_witness:
  "\<exists>res m'. checkBeforeCommitMerge sample_merge_request (sample_meta 11 50 90) (sample_meta 10 0 50) = Inr res \<and>
     execCommitMerge res 20 6 (sample_meta 11 50 90) sample_response (sample_meta 10 0 50) = Inr m' \<and>
     getVersion (rm_state (sample_meta 11 50 90)) < getVersion (rm_state m') \<and>
     getVersion (rm_state (sample_meta 10 0 50)) < getVersion (rm_state m')"
proof -
  obtain m' where e: "execCommitMerge \<lparr>source_at_left = False, merge_version = 5\<rparr> 20 6 (sample_meta 11 50 90) sample_response
      (sample_meta 10 0 50) = Inr m'" using sample_merge_exec by blast
  have "getVersion (rm_state (sample_meta 11 50 90)) < - 1" "getVersion (rm_state (sample_meta 10 0 50)) < - 1"
    by (simp_all add: sample_meta_def sample_meta_region_def state_defs)
  then show ?thesis using commit_merge_version [OF sample_merge_check e] sample_merge_check e by blast
qed



end
