(* ===== verification/Region.thy ===== *)
theory Region
  imports RegionData RegionMeta
begin

section \<open>Regions\<close>

text \<open>
  \<open>Storages/Transaction/Region.cpp\<close> and \<open>Region.h\<close>: a region is its data and its meta. The mutexes are not
  modelled: an operation that holds one is one step. \<open>proxy_helper\<close> is a flag that tells whether it is
  set; the call it makes is an argument. \<open>dirty_flag\<close> and \<open>last_persist_time\<close>, which no function reads, and
  the printing functions are left out. A time point is the number of ticks of its clock.
\<close>

subsection \<open>State and single operations\<close>

type_synonym Timepoint = int

definition Timepoint_min :: Timepoint where "Timepoint_min = - (2 ^ 63)"

record Region =
  rg_data :: RegionData
  rg_meta :: RegionMeta
  rg_table_id :: TableID
  snapshot_event_flag :: UInt64
  last_compact_log_time :: Timepoint
  has_proxy :: bool

definition mk_Region :: "bool \<Rightarrow> RegionMeta \<Rightarrow> Region result" where
  "mk_Region proxy m =
     rbind (meta_getRange m) (\<lambda>r.
       Inr \<lparr>rg_data = empty_RegionData, rg_meta = m, rg_table_id = mapped_table_id r, snapshot_event_flag = 1,
         last_compact_log_time = Timepoint_min, has_proxy = proxy\<rparr>)"

definition region_id :: "Region \<Rightarrow> RegionID" where
  "region_id rg = rm_region_id (rg_meta rg)"

definition doInsert :: "ColumnFamilyType \<Rightarrow> TiKVKey \<Rightarrow> TiKVValue \<Rightarrow> Region \<Rightarrow> Region result" where
  "doInsert cf key v rg = rbind (rd_insert cf key v (rg_data rg)) (\<lambda>d. Inr (rg\<lparr>rg_data := d\<rparr>))"

definition region_insert :: "string \<Rightarrow> TiKVKey \<Rightarrow> TiKVValue \<Rightarrow> Region \<Rightarrow> Region result" where
  "region_insert cf key v rg = rbind (NameToCF cf) (\<lambda>type. doInsert type key v rg)"

definition doCheckTable :: "DecodedTiKVKey \<Rightarrow> Region \<Rightarrow> unit result" where
  "doCheckTable raw_key rg =
     rbind (getTableId raw_key) (\<lambda>table_id.
       if table_id \<noteq> rg_table_id rg then throw '': table id not match'' else Inr ())"

definition doRemove :: "ColumnFamilyType \<Rightarrow> TiKVKey \<Rightarrow> Region \<Rightarrow> Region result" where
  "doRemove cf key rg = rbind (rd_remove cf key (rg_data rg)) (\<lambda>d. Inr (rg\<lparr>rg_data := d\<rparr>))"

definition region_remove :: "string \<Rightarrow> TiKVKey \<Rightarrow> Region \<Rightarrow> Region result" where
  "region_remove cf key rg = rbind (NameToCF cf) (\<lambda>type. doRemove type key rg)"

definition region_appliedIndex :: "Region \<Rightarrow> UInt64" where
  "region_appliedIndex rg = meta_appliedIndex (rg_meta rg)"

definition peerState :: "Region \<Rightarrow> PeerState" where
  "peerState rg = meta_peerState (rg_meta rg)"

definition isPendingRemove :: "Region \<Rightarrow> bool" where
  "isPendingRemove rg \<longleftrightarrow> peerState rg = Tombstone"

definition isMerging :: "Region \<Rightarrow> bool" where
  "isMerging rg \<longleftrightarrow> peerState rg = Merging"

definition setPeerState :: "PeerState \<Rightarrow> Region \<Rightarrow> Region" where
  "setPeerState st rg = rg\<lparr>rg_meta := meta_setPeerState st (rg_meta rg)\<rparr>"

definition setPendingRemove :: "Region \<Rightarrow> Region" where
  "setPendingRemove = setPeerState Tombstone"

definition setStateApplying :: "Region \<Rightarrow> Region" where
  "setStateApplying rg = (setPeerState Applying rg)\<lparr>snapshot_event_flag := snapshot_event_flag rg + 1\<rparr>"

definition region_dataSize :: "Region \<Rightarrow> UInt64" where
  "region_dataSize rg = rd_dataSize (rg_data rg)"

definition writeCFCount :: "Region \<Rightarrow> UInt64" where
  "writeCFCount rg = cf_getSize (rd_write (rg_data rg))"

definition markCompactLog :: "Timepoint \<Rightarrow> Region \<Rightarrow> Region" where
  "markCompactLog now rg = rg\<lparr>last_compact_log_time := now\<rparr>"

definition Region_eq :: "Region \<Rightarrow> Region \<Rightarrow> bool" where
  "Region_eq a b \<longleftrightarrow> RegionMeta_eq (rg_meta a) (rg_meta b) \<and> rd_isEqual (rg_data a) (rg_data b)"

definition assignRegion :: "Region \<Rightarrow> Region \<Rightarrow> Region result" where
  "assignRegion new_region rg =
     (let d = assignRegionData (rg_data new_region) (rg_data rg)
      in rbind (assignRegionMeta (rg_meta new_region) (rg_meta rg)) (\<lambda>m. Inr (rg\<lparr>rg_data := d, rg_meta := m\<rparr>)))"

subsection \<open>Scanning committed rows\<close>

text \<open>The scanner holds the entries that its iterator has still to visit.\<close>

record CommittedScanner =
  sc_store :: Region
  sc_size :: nat
  sc_rest :: "(cf_key \<times> write_value) list"

definition createCommittedScanner :: "Region \<Rightarrow> CommittedScanner" where
  "createCommittedScanner rg =
     (let m = data_map (rd_write (rg_data rg)) in \<lparr>sc_store = rg, sc_size = length m, sc_rest = m\<rparr>)"

definition hasNext :: "CommittedScanner \<Rightarrow> bool" where
  "hasNext sc \<longleftrightarrow> sc_size sc \<noteq> 0 \<and> sc_rest sc \<noteq> []"

definition scan_next :: "bool \<Rightarrow> CommittedScanner \<Rightarrow> (RegionDataReadInfo \<times> CommittedScanner) result" where
  "scan_next need_value sc =
     (case sc_rest sc of [] \<Rightarrow> Inl OutOfBounds
      | it # rest \<Rightarrow> rbind (readDataByWriteIt it need_value (rg_data (sc_store sc))) (\<lambda>info. Inr (info, sc\<lparr>sc_rest := rest\<rparr>)))"

definition remover_remove :: "cf_key \<Rightarrow> Region \<Rightarrow> Region" where
  "remover_remove key rg =
     (case map_of (data_map (rd_write (rg_data rg))) key of
        Some w \<Rightarrow> rg\<lparr>rg_data := snd (removeDataByWriteIt (key, w) (rg_data rg))\<rparr>
      | None \<Rightarrow> rg)"

subsection \<open>Splitting\<close>

definition region_splitInto :: "RegionMeta \<Rightarrow> Region \<Rightarrow> (Region \<times> Region) result" where
  "region_splitInto m rg =
     rbind (mk_Region (has_proxy rg) m) (\<lambda>new_region.
     rbind (meta_getRange (rg_meta new_region)) (\<lambda>r.
       case rd_splitInto (ori r) (rg_data rg) (rg_data new_region) of (d, nd) \<Rightarrow>
         Inr (new_region\<lparr>rg_data := nd\<rparr>, rg\<lparr>rg_data := d\<rparr>)))"

definition findPeerByStore :: "MetaRegion \<Rightarrow> UInt64 \<Rightarrow> Peer result" where
  "findPeerByStore r store_id =
     (case List.find (\<lambda>p. peer_store_id p = store_id) (mr_peers r) of
        Some p \<Rightarrow> Inr p | None \<Rightarrow> throw '': peer with store_id  not found'')"

fun batch_split_loop :: "ProtoEnv \<Rightarrow> MetaRegion list \<Rightarrow> MetaRegion option \<Rightarrow> Region list \<Rightarrow> Region \<Rightarrow>
    (MetaRegion option \<times> Region list \<times> Region) result" where
  "batch_split_loop pe [] own split_regions rg = Inr (own, split_regions, rg)"
| "batch_split_loop pe (region_info # infos) own split_regions rg =
     (if mr_id region_info \<noteq> region_id rg then
        rbind (findPeerByStore region_info (peer_store_id (rm_peer (rg_meta rg)))) (\<lambda>peer.
        rbind (new_RegionMeta pe peer region_info initialApplyState) (\<lambda>new_meta.
        rbind (region_splitInto new_meta rg) (\<lambda>(split_region, rg').
          batch_split_loop pe infos own (split_regions @ [split_region]) rg')))
      else (case own of
         None \<Rightarrow> batch_split_loop pe infos (Some region_info) split_regions rg
       | Some _ \<Rightarrow> throw '': duplicate region index''))"

definition execBatchSplit :: "ProtoEnv \<Rightarrow> AdminResponse \<Rightarrow> UInt64 \<Rightarrow> UInt64 \<Rightarrow> Region \<Rightarrow> (Region list \<times> Region) result" where
  "execBatchSplit pe response i t rg =
     (if resp_splits response = [] then throw '': got no new region''
      else rbind (batch_split_loop pe (resp_splits response) None [] rg) (\<lambda>(own, split_regions, rg1).
        case own of None \<Rightarrow> throw '': region index not found''
        | Some region_info \<Rightarrow>
            rbind (new_RegionMeta pe (rm_peer (rg_meta rg1)) region_info (rm_apply_state (rg_meta rg1))) (\<lambda>new_meta.
            rbind (assignRegionMeta (doSetApplied i t new_meta) (rg_meta rg1)) (\<lambda>m.
              Inr (split_regions, rg1\<lparr>rg_meta := m\<rparr>)))))"

subsection \<open>Storing\<close>

definition CURRENT_VERSION :: UInt32 where "CURRENT_VERSION = 1"

definition region_serialize :: "ProtoEnv \<Rightarrow> Region \<Rightarrow> out \<times> UInt64" where
  "region_serialize pe rg =
     (case meta_serialize pe (rg_meta rg) of (mo, i) \<Rightarrow>
       (wseq [writeBinary2_num 4 CURRENT_VERSION, mo, rd_serialize (rg_data rg)], i))"

definition region_deserialize :: "ProtoEnv \<Rightarrow> bool \<Rightarrow> bytes \<Rightarrow> (Region \<times> bytes) result" where
  "region_deserialize pe proxy buf =
     rbind (readBinary2_num 4 buf) (\<lambda>(version, buf1).
       if version \<noteq> CURRENT_VERSION then throw '': unexpected version: ''
       else rbind (meta_deserialize pe buf1) (\<lambda>(m, buf2).
         rbind (mk_Region proxy m) (\<lambda>rg.
         rbind (rd_deserialize buf2 (rg_data rg)) (\<lambda>(d, buf3). Inr (rg\<lparr>rg_data := d\<rparr>, buf3)))))"

subsection \<open>Reading at an index\<close>

datatype RegionReadStatus = RS_OK | RS_NOT_FOUND | RS_EPOCH_NOT_MATCH

record ReadIndexRequest =
  rq_region_id :: RegionID
  rq_peer :: Peer
  rq_version :: UInt64
  rq_conf_ver :: UInt64
  rq_start_ts :: Timestamp
  rq_ranges :: "(DecodedTiKVKey \<times> DecodedTiKVKey) list"

definition GenRegionReadIndexReq :: "Region \<Rightarrow> Timestamp \<Rightarrow> ReadIndexRequest result" where
  "GenRegionReadIndexReq rg start_ts =
     rbind (dumpRegionMetaSnapshot (rg_meta rg)) (\<lambda>snap.
       Inr \<lparr>rq_region_id = region_id rg, rq_peer = snap_peer snap, rq_version = snap_ver snap, rq_conf_ver = snap_conf_ver snap,
         rq_start_ts = start_ts, rq_ranges = (if start_ts \<noteq> 0 then [RegionRangeKeys.raw (snap_range snap)] else [])\<rparr>)"

text \<open>The region error of a response: whether it says that the epoch does not match.\<close>

record 'l ReadIndexResponse =
  rr_region_error :: "bool option"
  rr_read_index :: UInt64
  rr_locked :: "'l option"

record 'l ReadIndexResult =
  ri_status :: RegionReadStatus
  ri_read_index :: UInt64
  ri_lock_info :: "'l option"

definition default_ReadIndexResult :: "'l ReadIndexResult" where
  "default_ReadIndexResult = \<lparr>ri_status = RS_OK, ri_read_index = 0, ri_lock_info = None\<rparr>"

definition learnerRead :: "(ReadIndexRequest \<Rightarrow> 'l ReadIndexResponse) \<Rightarrow> Timestamp \<Rightarrow> Region \<Rightarrow> 'l ReadIndexResult result" where
  "learnerRead readIndex start_ts rg =
     (if has_proxy rg then
        rbind (GenRegionReadIndexReq rg start_ts) (\<lambda>request.
          let response = readIndex request
          in if start_ts = 0 then Inr default_ReadIndexResult
             else (case rr_region_error response of
                 Some epoch_not_match \<Rightarrow> Inr \<lparr>ri_status = (if epoch_not_match then RS_EPOCH_NOT_MATCH else RS_NOT_FOUND),
                   ri_read_index = 0, ri_lock_info = None\<rparr>
               | None \<Rightarrow> Inr \<lparr>ri_status = RS_OK, ri_read_index = rr_read_index response, ri_lock_info = rr_locked response\<rparr>))
      else Inr default_ReadIndexResult)"

text \<open>What a call of \<open>waitIndex\<close> returns in the current state: \<open>None\<close> while it keeps waiting.\<close>

definition region_waitIndex :: "UInt64 \<Rightarrow> bool \<Rightarrow> Region \<Rightarrow> bool option" where
  "region_waitIndex i terminated rg =
     (if has_proxy rg \<and> \<not> doCheckIndex i (rg_meta rg) then waitIndex_pred i terminated (rg_meta rg) else Some False)"

subsection \<open>Completing a snapshot\<close>

type_synonym HandleMap = "(HandleID \<times> Timestamp \<times> UInt8) list"

fun complete_check :: "(cf_key \<times> write_value) list \<Rightarrow> HandleMap \<Rightarrow> HandleMap result" where
  "complete_check [] handle_map = Inr handle_map"
| "complete_check (((pk, ts), (key, v, decoded_val)) # m) handle_map =
     (case map_of handle_map (RawTiDBPK_handle pk) of
        None \<Rightarrow> complete_check m handle_map
      | Some (ori_ts, ori_del) \<Rightarrow>
          if ori_ts > ts then complete_check m handle_map
          else if ori_ts = ts \<and> (if write_type decoded_val = DelFlag then 1 else 0) \<noteq> ori_del
          then throw '': original ts >= gc safe point''
          else complete_check m (filter (\<lambda>p. fst p \<noteq> RawTiDBPK_handle pk) handle_map))"

definition complete_insert :: "TableID \<Rightarrow> Timestamp \<Rightarrow> HandleID \<times> Timestamp \<times> UInt8 \<Rightarrow> RegionData \<Rightarrow> RegionData result" where
  "complete_insert table_id safe_point e d =
     (case e of (handle, ori_ts, ori_del) \<Rightarrow>
       if ori_ts \<ge> safe_point then throw '': original ts >= gc safe point''
       else rd_insert CF_Write (appendTs (encodeAsTiKVKey (genRawKey table_id handle)) ori_ts)
         (encodeWriteCfValue DelFlag 0 [] False) d)"

definition compareAndCompleteSnapshot :: "HandleMap \<Rightarrow> Timestamp \<Rightarrow> Region \<Rightarrow> (HandleMap \<times> Region) result" where
  "compareAndCompleteSnapshot handle_map safe_point rg =
     (if handle_map = [] then Inr (handle_map, rg)
      else rbind (complete_check (data_map (rd_write (rg_data rg))) handle_map) (\<lambda>hm.
        rbind (rfold (complete_insert (rg_table_id rg) safe_point) hm (rg_data rg)) (\<lambda>d.
          Inr (hm, rg\<lparr>rg_data := d\<rparr>))))"

subsection \<open>Ingesting files\<close>

record SnapshotView =
  sv_cf :: ColumnFamilyType
  sv_kvs :: "(TiKVKey \<times> TiKVValue) list"

definition ingest_view :: "SnapshotView \<Rightarrow> Region \<Rightarrow> Region result" where
  "ingest_view snapshot rg = rfold (\<lambda>(k, v). doInsert (sv_cf snapshot) k v) (sv_kvs snapshot) rg"

definition handleIngestSST :: "SnapshotView list \<Rightarrow> UInt64 \<Rightarrow> UInt64 \<Rightarrow> Region \<Rightarrow> Region result" where
  "handleIngestSST snaps i t rg =
     (if i \<le> region_appliedIndex rg then Inr rg
      else rbind (rfold ingest_view snaps rg) (\<lambda>rg1. Inr (rg1\<lparr>rg_meta := doSetApplied i t (rg_meta rg1)\<rparr>)))"

subsection \<open>Invariant\<close>

definition region_inv :: "Region \<Rightarrow> bool" where
  "region_inv rg \<longleftrightarrow> RegionData_inv (rg_data rg) \<and> meta_inv (rg_meta rg)"

lemma mk_Region_ok:
  assumes "mk_Region proxy m = Inr rg"
  shows "rg_data rg = empty_RegionData" "rg_meta rg = m"
  using assms by (auto simp: mk_Region_def rbind_eq_Inr)

lemma mk_Region_inv: "mk_Region proxy m = Inr rg \<Longrightarrow> meta_inv m \<Longrightarrow> region_inv rg"
  by (simp add: region_inv_def mk_Region_ok empty_inv)

lemma doInsert_inv: "doInsert cf key v rg = Inr rg' \<Longrightarrow> region_inv rg \<Longrightarrow> region_inv rg'"
  by (auto simp: doInsert_def rbind_eq_Inr region_inv_def intro: RegionData.insert_inv)

lemma doRemove_inv: "doRemove cf key rg = Inr rg' \<Longrightarrow> region_inv rg \<Longrightarrow> region_inv rg'"
  by (auto simp: doRemove_def rbind_eq_Inr region_inv_def intro: RegionData.remove_inv)

lemma remover_remove_inv: "region_inv rg \<Longrightarrow> region_inv (remover_remove key rg)"
  by (auto simp: remover_remove_def region_inv_def removeDataByWriteIt_inv split: option.splits dest: map_of_SomeD)

lemma assignRegion_inv: "assignRegion new_region rg = Inr rg' \<Longrightarrow> region_inv new_region \<Longrightarrow> region_inv rg \<Longrightarrow> region_inv rg'"
  by (auto simp: assignRegion_def Let_def rbind_eq_Inr region_inv_def assign_inv dest: assignRegionMeta_inv)

lemma setPeerState_inv: "region_inv (setPeerState st rg) \<longleftrightarrow> region_inv rg"
  by (simp add: setPeerState_def region_inv_def meta_setPeerState_inv)

lemma region_deserialize_inv: "region_deserialize pe proxy buf = Inr (rg, rest) \<Longrightarrow> region_inv rg"
  by (auto simp: region_deserialize_def rbind_eq_Inr meta_deserialize_def region_inv_def mk_Region_ok
      dest!: mk_RegionMeta_inv RegionData.deserialize_inv [rotated] intro: empty_inv split: if_splits)

lemma ingest_view_inv: "ingest_view snapshot rg = Inr rg' \<Longrightarrow> region_inv rg \<Longrightarrow> region_inv rg'"
  unfolding ingest_view_def by (erule rfold_invariant) (auto dest: doInsert_inv)

lemma handleIngestSST_inv: "handleIngestSST snaps i t rg = Inr rg' \<Longrightarrow> region_inv rg \<Longrightarrow> region_inv rg'"
  by (auto simp: handleIngestSST_def rbind_eq_Inr region_inv_def doSetApplied_inv split: if_splits
      dest!: rfold_invariant [where P = region_inv] intro: ingest_view_inv)

subsection \<open>Entries of a region\<close>

text \<open>The content of a region as key-value entries, whatever the family they are stored in.\<close>

definition kv_entries :: "RegionData \<Rightarrow> (ColumnFamilyType \<times> TiKVKey \<times> TiKVValue) list" where
  "kv_entries d = map (\<lambda>(_, key, v, _). (CF_Write, key, v)) (data_map (rd_write d))
     @ map (\<lambda>(_, key, v). (CF_Default, key, v)) (data_map (rd_default d))
     @ map (\<lambda>(_, key, v, _). (CF_Lock, key, v)) (data_map (rd_lock d))"

definition region_covers :: "Region \<Rightarrow> TiKVKey \<Rightarrow> bool" where
  "region_covers rg key \<longleftrightarrow> (\<exists>r. rs_range (rm_state (rg_meta rg)) = Some r \<and> in_range (ori r) key)"

lemma kv_entries_keys: "(cf, key, v) \<in> set (kv_entries d) \<Longrightarrow> (\<exists>p \<in> set (data_map (rd_write d)). key = fst (snd p))
    \<or> (\<exists>p \<in> set (data_map (rd_default d)). key = fst (snd p)) \<or> (\<exists>p \<in> set (data_map (rd_lock d)). key = fst (snd p))"
  by (auto simp: kv_entries_def split_beta intro: rev_bexI)

lemma split_entries:
  assumes inv: "RegionData_inv d" and sp: "rd_splitInto rng d empty_RegionData = (d1, d2)"
  shows "mset (kv_entries d) = mset (kv_entries d1) + mset (kv_entries d2)"
    and "(cf, key, v) \<in> set (kv_entries d1) \<Longrightarrow> \<not> in_range rng key"
    and "(cf, key, v) \<in> set (kv_entries d2) \<Longrightarrow> in_range rng key"
proof -
  show "mset (kv_entries d) = mset (kv_entries d1) + mset (kv_entries d2)"
    using splitInto_inv(3-5) [OF assms] by (simp add: kv_entries_def)
  note r = split_ranges [OF assms]
  show "(cf, key, v) \<in> set (kv_entries d1) \<Longrightarrow> \<not> in_range rng key"
    by (drule kv_entries_keys) (auto simp: r(1,3,5))
  show "(cf, key, v) \<in> set (kv_entries d2) \<Longrightarrow> in_range rng key"
    by (drule kv_entries_keys) (auto simp: r(2,4,6))
qed

subsection \<open>Splitting\<close>

lemma region_splitInto_ok:
  assumes sp: "region_splitInto m rg = Inr (new_region, rg')" and inv: "region_inv rg" "meta_inv m"
  shows "region_inv new_region" "region_inv rg'" "rg' = rg\<lparr>rg_data := rg_data rg'\<rparr>" "rg_meta new_region = m"
    and "mset (kv_entries (rg_data rg)) = mset (kv_entries (rg_data rg')) + mset (kv_entries (rg_data new_region))"
    and "(cf, key, v) \<in> set (kv_entries (rg_data new_region)) \<Longrightarrow> region_covers new_region key"
    and "(cf, key, v) \<in> set (kv_entries (rg_data rg')) \<Longrightarrow> \<not> region_covers new_region key"
proof -
  obtain n r where n: "mk_Region (has_proxy rg) m = Inr n" "meta_getRange m = Inr r"
      and c: "(case rd_splitInto (ori r) (rg_data rg) empty_RegionData of (d, nd) \<Rightarrow>
        Inr (n\<lparr>rg_data := nd\<rparr>, rg\<lparr>rg_data := d\<rparr>)) = (Inr (new_region, rg') :: (Region \<times> Region) result)"
    using sp by (auto simp: region_splitInto_def rbind_eq_Inr mk_Region_ok)
  obtain d nd where d: "rd_splitInto (ori r) (rg_data rg) empty_RegionData = (d, nd)" by (rule prod.exhaust)
  have e: "new_region = n\<lparr>rg_data := nd\<rparr>" "rg' = rg\<lparr>rg_data := d\<rparr>" using c by (simp_all add: d)
  have r: "rs_range (rm_state m) = Some r" using n(2) by (auto simp: meta_getRange_def split: option.splits)
  have i: "RegionData_inv (rg_data rg)" "meta_inv (rg_meta rg)" using inv(1) by (simp_all add: region_inv_def)
  show "region_inv new_region" "region_inv rg'"
    using splitInto_inv(1,2) [OF i(1) d] inv i(2) by (simp_all add: region_inv_def e mk_Region_ok [OF n(1)])
  show "rg' = rg\<lparr>rg_data := rg_data rg'\<rparr>" "rg_meta new_region = m" by (simp_all add: e mk_Region_ok [OF n(1)])
  note s = split_entries [OF i(1) d]
  show "mset (kv_entries (rg_data rg)) = mset (kv_entries (rg_data rg')) + mset (kv_entries (rg_data new_region))"
    by (simp add: e s(1))
  show "(cf, key, v) \<in> set (kv_entries (rg_data new_region)) \<Longrightarrow> region_covers new_region key"
    using s(3) by (auto simp: e region_covers_def mk_Region_ok [OF n(1)] r)
  show "(cf, key, v) \<in> set (kv_entries (rg_data rg')) \<Longrightarrow> \<not> region_covers new_region key"
    using s(2) by (auto simp: e region_covers_def mk_Region_ok [OF n(1)] r)
qed

text \<open>The regions of a batch split take disjoint parts of the entries and leave the others.\<close>

definition split_parts :: "Region \<Rightarrow> Region list \<Rightarrow> Region \<Rightarrow> bool" where
  "split_parts rg new rg' \<longleftrightarrow>
     mset (kv_entries (rg_data rg)) = mset (kv_entries (rg_data rg')) + (\<Sum>s\<leftarrow>new. mset (kv_entries (rg_data s)))
     \<and> (\<forall>s \<in> set new. region_inv s \<and> (\<forall>(cf, key, v) \<in> set (kv_entries (rg_data s)). region_covers s key)
         \<and> (\<forall>(cf, key, v) \<in> set (kv_entries (rg_data rg')). \<not> region_covers s key))"

lemma split_parts_Cons:
  assumes "region_splitInto m rg = Inr (s, rg1)" "region_inv rg" "meta_inv m" "split_parts rg1 new rg'"
  shows "split_parts rg (s # new) rg'"
proof -
  note sp = region_splitInto_ok [OF assms(1-3)]
  have "set (kv_entries (rg_data rg')) \<subseteq> set (kv_entries (rg_data rg1))"
    using assms(4) unfolding split_parts_def by (metis mset_subset_eq_add_left set_mset_mono set_mset_mset)
  then show ?thesis using assms(4) sp(1,5-7) unfolding split_parts_def by (auto simp: ac_simps)
qed

lemma data_only:
  "rg' = rg\<lparr>rg_data := d\<rparr> \<Longrightarrow> rg_meta rg' = rg_meta rg"
  "rg' = rg1\<lparr>rg_data := rg_data rg'\<rparr> \<Longrightarrow> rg1 = rg\<lparr>rg_data := rg_data rg1\<rparr> \<Longrightarrow> rg' = rg\<lparr>rg_data := rg_data rg'\<rparr>"
  by (cases rg; cases rg1; cases rg'; simp)+

lemma batch_split_loop_ok:
  assumes "batch_split_loop pe infos own splits rg = Inr (own', splits', rg')" "region_inv rg"
  shows "\<exists>new. splits' = splits @ new \<and> split_parts rg new rg' \<and> region_inv rg' \<and> rg' = rg\<lparr>rg_data := rg_data rg'\<rparr>
    \<and> map region_id new = filter (\<lambda>i. i \<noteq> region_id rg) (map mr_id infos)
    \<and> (own' = own \<or> (\<exists>r \<in> set infos. own' = Some r \<and> mr_id r = region_id rg))"
  using assms
proof (induction pe infos own splits rg rule: batch_split_loop.induct)
  case (1 pe own splits rg)
  then show ?case by (simp add: split_parts_def)
next
  case (2 pe region_info infos own splits rg)
  show ?case
  proof (cases "mr_id region_info = region_id rg")
    case True
    then show ?thesis using 2 by (cases own) auto
  next
    case False
    then obtain peer m s rg1 where p: "findPeerByStore region_info (peer_store_id (rm_peer (rg_meta rg))) = Inr peer"
        "new_RegionMeta pe peer region_info initialApplyState = Inr m" "region_splitInto m rg = Inr (s, rg1)"
        and l: "batch_split_loop pe infos own (splits @ [s]) rg1 = Inr (own', splits', rg')"
      using "2.prems"(1) by (auto simp: rbind_eq_Inr)
    have m: "meta_inv m" "rm_region_id m = mr_id region_info"
      using new_RegionMeta_inv [OF p(2)] p(2) by (auto simp: new_RegionMeta_def rbind_eq_Inr)
    note sp = region_splitInto_ok [OF p(3) "2.prems"(2) m(1)]
    have id: "region_id rg1 = region_id rg" "region_id s = mr_id region_info"
      using data_only(1) [OF sp(3)] sp(4) m(2) by (simp_all add: region_id_def)
    obtain new where n: "splits' = (splits @ [s]) @ new" "split_parts rg1 new rg'" "region_inv rg'"
        "rg' = rg1\<lparr>rg_data := rg_data rg'\<rparr>" "map region_id new = filter (\<lambda>i. i \<noteq> region_id rg1) (map mr_id infos)"
        "own' = own \<or> (\<exists>r \<in> set infos. own' = Some r \<and> mr_id r = region_id rg1)"
      using "2.IH"(1) [OF False p refl l sp(2)] by auto
    have "rg' = rg\<lparr>rg_data := rg_data rg'\<rparr>" by (rule data_only(2) [OF n(4) sp(3)])
    then show ?thesis
      using n split_parts_Cons [OF p(3) "2.prems"(2) m(1) n(2)] False by (intro exI [of _ "s # new"]) (simp add: id)
  qed
qed

lemma execBatchSplit_ok:
  assumes ex: "execBatchSplit pe response i t rg = Inr (splits, rg')" and inv: "region_inv rg"
  shows "split_parts rg splits rg'" "region_inv rg'" "region_id rg' = region_id rg" "region_appliedIndex rg' = i"
    and "map region_id splits = filter (\<lambda>i. i \<noteq> region_id rg) (map mr_id (resp_splits response))"
    and "getRegion (rm_state (rg_meta rg')) \<in> set (resp_splits response)"
proof -
  obtain info rg1 nm m where l: "batch_split_loop pe (resp_splits response) None [] rg = Inr (Some info, splits, rg1)"
      and n: "new_RegionMeta pe (rm_peer (rg_meta rg1)) info (rm_apply_state (rg_meta rg1)) = Inr nm"
      and a: "assignRegionMeta (doSetApplied i t nm) (rg_meta rg1) = Inr m" and rg': "rg' = rg1\<lparr>rg_meta := m\<rparr>"
    using ex by (auto simp: execBatchSplit_def rbind_eq_Inr split: if_splits option.splits)
  note lo = batch_split_loop_ok [OF l inv]
  have nm: "meta_inv nm" "getRegion (rm_state nm) = info" "rm_region_id nm = mr_id info"
    using new_RegionMeta_inv [OF n] n
    by (auto simp: new_RegionMeta_def setRegion_def updateRegionRange_def rbind_eq_Inr state_defs)
  have m: "m = (rg_meta rg1)\<lparr>rm_peer := rm_peer nm, rm_apply_state := (rm_apply_state nm)\<lparr>as_applied_index := i\<rparr>,
      rm_applied_term := t, rm_state := rm_state nm\<rparr>"
    using a by (auto simp: assignRegionMeta_def doSetApplied_def split: if_splits)
  have mi: "meta_inv m" using assignRegionMeta_inv [OF _ a] nm(1) by (simp add: doSetApplied_inv)
  show "split_parts rg splits rg'" using lo by (auto simp: split_parts_def rg')
  show "region_inv rg'" using lo mi by (auto simp: region_inv_def rg')
  show "map region_id splits = filter (\<lambda>i. i \<noteq> region_id rg) (map mr_id (resp_splits response))" using lo by auto
  have "rg_meta rg1 = rg_meta rg" using lo by (auto dest: data_only(1))
  then show "region_id rg' = region_id rg" by (simp add: rg' m region_id_def)
  show "region_appliedIndex rg' = i" by (simp add: rg' m region_appliedIndex_def meta_appliedIndex_def)
  show "getRegion (rm_state (rg_meta rg')) \<in> set (resp_splits response)" using lo nm(2) by (auto simp: rg' m)
qed

subsection \<open>Storing and loading\<close>

lemma RegionMeta_eq_refl: "RegionMeta_eq m m"
  by (simp add: RegionMeta_eq_def RegionState_eq_def Peer_eq_def ApplyState_eq_def LocalState_eq_def MetaRegion_eq_def
      MergeState_eq_def)

lemma region_deserialize_serialize:
  assumes inv: "region_inv rg" and ok: "meta_ok pe (rg_meta rg)" "stored_ok (rg_data rg)"
  shows "\<exists>rg'. region_deserialize pe proxy (fst (fst (region_serialize pe rg)) @ rest) = Inr (rg', rest)
    \<and> rg_meta rg' = rg_meta rg \<and> Region_eq rg' rg"
proof -
  obtain mo i where mo: "meta_serialize pe (rg_meta rg) = (mo, i)" by (rule prod.exhaust)
  obtain r where r: "meta_getRange (rg_meta rg) = Inr r" using inv by (auto simp: region_inv_def meta_inv_def meta_getRange_def)
  obtain d where d: "rd_deserialize (fst (rd_serialize (rg_data rg)) @ rest) empty_RegionData = Inr (d, rest)" "rd_isEqual d (rg_data rg)"
    using deserialize_serialize [OF _ ok(2)] inv by (auto simp: region_inv_def)
  have "meta_deserialize pe (fst mo @ x) = Inr (rg_meta rg, x)" for x
    using meta.read_write [OF ok(1), of x] by (simp add: mo)
  then show ?thesis
    using d by (simp add: region_deserialize_def region_serialize_def mo num4.read_write mk_Region_def r Region_eq_def RegionMeta_eq_refl)
qed

lemma region_serialize_size: "snd (fst (region_serialize pe rg)) = of_nat (length (fst (fst (region_serialize pe rg))))"
  using meta.write_size [of pe "rg_meta rg"]
  by (cases "meta_serialize pe (rg_meta rg)") (simp add: region_serialize_def num4.write_size serialize_size)

subsection \<open>Completing a snapshot\<close>

definition write_rows :: "Region \<Rightarrow> cf_key \<Rightarrow> write_value option" where
  "write_rows rg = map_of (data_map (rd_write (rg_data rg)))"

lemma complete_check_ok:
  assumes "complete_check m hm = Inr hm'" "(h, ts, del) \<in> set hm" "distinct (map fst hm)"
  shows "(h, ts, del) \<in> set hm' \<or> (\<exists>p \<in> set m. RawTiDBPK_handle (fst (fst p)) = h \<and> ts \<le> snd (fst p))"
  using assms
proof (induction m hm rule: complete_check.induct)
  case (2 pk ts0 key v dv m hm)
  show ?case
  proof (cases "map_of hm (RawTiDBPK_handle pk)")
    case None
    then show ?thesis using 2 by auto
  next
    case (Some e)
    obtain ots od where e: "e = (ots, od)" by (rule prod.exhaust)
    show ?thesis
    proof (cases "ots > ts0")
      case True
      then show ?thesis using 2 Some e by auto
    next
      case False
      let ?f = "filter (\<lambda>p. fst p \<noteq> RawTiDBPK_handle pk) hm"
      have c: "complete_check m ?f = Inr hm'" "\<not> (ots = ts0 \<and> (if write_type dv = DelFlag then 1 else 0) \<noteq> od)"
        using "2.prems"(1) Some e False by (auto split: if_splits)
      show ?thesis
      proof (cases "h = RawTiDBPK_handle pk")
        case True
        then have "(ots, od) = (ts, del)" using Some e "2.prems"(2,3) by (metis map_of_is_SomeI option.inject)
        then show ?thesis using True False by (auto simp: not_less)
      next
        case h: False
        have "(h, ts, del) \<in> set ?f" "distinct (map fst ?f)" using "2.prems"(2,3) h by (auto simp: distinct_map_filter)
        then show ?thesis using "2.IH"(3) [OF Some e [symmetric] False c(2) c(1)] by auto
      qed
    qed
  qed
qed simp

lemma complete_insert_ok:
  assumes inv: "RegionData_inv d" and ins: "complete_insert t sp (h, ts, del) d = Inr d'"
  shows "RegionData_inv d'" "ts < sp" "map_of (data_map (rd_write d)) (handle_pk h, ts) = None"
    and "map_of (data_map (rd_write d')) = (map_of (data_map (rd_write d)))((handle_pk h, ts) \<mapsto>
      (genKey_ts t h ts, encodeWriteCfValue DelFlag 0 [] False, \<lparr>write_type = DelFlag, prewrite_ts = 0, short_value = None\<rparr>))"
proof -
  have ts: "ts < sp" and i: "rd_insert CF_Write (genKey_ts t h ts) (encodeWriteCfValue DelFlag 0 [] False) d = Inr d'"
    using ins by (auto simp: complete_insert_def genKey_ts_def genKey_def split: if_splits)
  show "RegionData_inv d'" "ts < sp" by (rule RegionData.insert_inv [OF inv i], rule ts)
  let ?v = "(genKey_ts t h ts, encodeWriteCfValue DelFlag 0 [] False, \<lparr>write_type = DelFlag, prewrite_ts = 0, short_value = None\<rparr>)"
  obtain n w where w: "cf_insert_pair (write_trait d) ((handle_pk h, ts), ?v) (rd_write d) = Inr (n, w)"
      "d' = d\<lparr>rd_write := w, cf_data_size := cf_data_size d + n\<rparr>"
    using i by (auto simp: rd_insert_def rbind_eq_Inr write_insert_record)
  have m: "map_inv (data_map (rd_write d))" using RegionData_invD(1) [OF inv] by (simp add: cf_ok_def)
  obtain v' q' where f: "finishInsert (write_trait d) (handle_pk h, ts) ?v (pre_decode (rd_write d)) = Inr (v', q')"
      and l: "map_of (data_map w) = (map_of (data_map (rd_write d)))((handle_pk h, ts) \<mapsto> v')"
      and a: "(handle_pk h, ts) \<notin> fst ` set (data_map (rd_write d))"
    by (rule write_cf.cf_insert_pair_ok [OF m w(1)])
  show "map_of (data_map (rd_write d)) (handle_pk h, ts) = None" using a by (simp add: map_of_eq_None_iff)
  have "v' = ?v" using f by (simp add: RegionWriteCFDataTrait_def write_finishInsert_def PutFlag_def DelFlag_def)
  then show "map_of (data_map (rd_write d')) = (map_of (data_map (rd_write d)))((handle_pk h, ts) \<mapsto> ?v)" using l by (simp add: w(2))
qed

lemma complete_insert_defined:
  assumes "RegionData_inv d" "map_of (data_map (rd_write d)) (handle_pk h, ts) = None" "ts < sp"
  shows "\<exists>d'. complete_insert t sp (h, ts, del) d = Inr d'"
proof -
  have "map_inv (data_map (rd_write d))" using RegionData_invD(1) [OF assms(1)] by (simp add: cf_ok_def)
  moreover have "(handle_pk h, ts) \<notin> fst ` set (data_map (rd_write d))" using assms(2) by (simp add: map_of_eq_None_iff)
  ultimately have "snd (map_emplace (handle_pk h, ts) v (data_map (rd_write d)))" for v
    by (rule conjunct1 [OF map_emplace_absent])
  then show ?thesis
    using assms(3)
    by (simp add: complete_insert_def genKey_ts_def [symmetric] genKey_def [symmetric] rd_insert_def write_insert_record
        cf_insert_pair_def split_beta)
      (simp add: RegionWriteCFDataTrait_def write_finishInsert_def PutFlag_def DelFlag_def)
qed

lemma complete_inserts_ok:
  assumes "rfold (complete_insert t sp) hm d = Inr d'" "RegionData_inv d"
  shows "RegionData_inv d' \<and> map_of (data_map (rd_write d)) \<subseteq>\<^sub>m map_of (data_map (rd_write d'))
    \<and> (\<forall>h ts del. (h, ts, del) \<in> set hm \<longrightarrow> map_of (data_map (rd_write d')) (handle_pk h, ts) \<noteq> None)
    \<and> (\<forall>k w. map_of (data_map (rd_write d')) k = Some w \<longrightarrow>
        map_of (data_map (rd_write d)) k = Some w \<or> write_type (snd (snd w)) = DelFlag \<and> snd k < sp)"
  using assms
proof (induction hm arbitrary: d)
  case (Cons e hm)
  obtain h ts del where e: "e = (h, ts, del)" by (metis prod.exhaust)
  obtain d1 where d1: "complete_insert t sp (h, ts, del) d = Inr d1" "rfold (complete_insert t sp) hm d1 = Inr d'"
    using Cons.prems(1) by (auto simp: rbind_eq_Inr e)
  note c = complete_insert_ok [OF Cons.prems(2) d1(1)]
  note IH = Cons.IH [OF d1(2) c(1)]
  have s: "map_of (data_map (rd_write d)) \<subseteq>\<^sub>m map_of (data_map (rd_write d1))" using c(3) by (auto simp: c(4) map_le_def)
  show ?case
  proof (intro conjI allI impI)
    show "RegionData_inv d'" using IH by (rule conjunct1)
    show "map_of (data_map (rd_write d)) \<subseteq>\<^sub>m map_of (data_map (rd_write d'))" using s IH map_le_trans by blast
  next
    fix h' ts' del' assume "(h', ts', del') \<in> set (e # hm)"
    moreover have "map_of (data_map (rd_write d')) (handle_pk h, ts) \<noteq> None" using IH c(4) by (auto simp: map_le_def dom_def)
    moreover have "(h', ts', del') \<in> set hm \<Longrightarrow> map_of (data_map (rd_write d')) (handle_pk h', ts') \<noteq> None"
      using IH by blast
    ultimately show "map_of (data_map (rd_write d')) (handle_pk h', ts') \<noteq> None" by (auto simp: e)
  next
    fix k w assume "map_of (data_map (rd_write d')) k = Some w"
    then have "map_of (data_map (rd_write d1)) k = Some w \<or> write_type (snd (snd w)) = DelFlag \<and> snd k < sp"
      using IH by blast
    then show "map_of (data_map (rd_write d)) k = Some w \<or> write_type (snd (snd w)) = DelFlag \<and> snd k < sp"
      using c(2) by (auto simp: c(4) split: if_splits)
  qed
qed simp

lemma compareAndCompleteSnapshot_inv:
  "compareAndCompleteSnapshot hm sp rg = Inr (hm', rg') \<Longrightarrow> region_inv rg \<Longrightarrow> region_inv rg'"
  by (auto simp: compareAndCompleteSnapshot_def rbind_eq_Inr region_inv_def split: if_splits dest: complete_inserts_ok)

subsection \<open>A sample region\<close>

definition sample_region :: Region where
  "sample_region = \<lparr>rg_data = sample_data, rg_meta = sample_meta 10 0 50, rg_table_id = 1, snapshot_event_flag = 1,
     last_compact_log_time = Timepoint_min, has_proxy = True\<rparr>"

lemma sample_meta_inv: "a <s b \<Longrightarrow> meta_inv (sample_meta i a b)"
  by (rule reachable_meta_inv [OF sample_meta_reachable])

lemma sample_region_inv: "region_inv sample_region"
  using reachable_inv [OF sample_reachable] sample_meta_inv [of 0 50 10]
  by (simp add: region_inv_def sample_region_def word_sless_alt)

lemma sample_mk_Region: "\<exists>n. mk_Region proxy (sample_meta i a b) = Inr n"
  by (simp add: mk_Region_def meta_getRange_def sample_meta_def)

definition sample_split :: AdminResponse where
  "sample_split = sample_response\<lparr>resp_splits := [sample_meta_region 10 0 5, sample_meta_region 11 5 50]\<rparr>"

lemma sample_region_stored: "meta_ok sample_env (rg_meta sample_region)" "stored_ok (rg_data sample_region)"
  using sample_region_inv sample_stored
  by (simp_all add: meta_ok_def region_inv_def sample_region_def sample_meta_def Peer_ok_def LocalState_ok_def MetaRegion_ok_def
      sample_meta_region_def sample_env_def length_genKey)

lemma sample_split_exec: "\<exists>splits rg'. execBatchSplit sample_env sample_split 20 6 sample_region = Inr (splits, rg')"
proof -
  let ?p = "\<lambda>i. \<lparr>peer_id = 100 + i, peer_store_id = 7, peer_role = 0\<rparr>"
  have f: "findPeerByStore (sample_meta_region 11 5 50) 7 = Inr (?p 11)"
    by (simp add: findPeerByStore_def sample_meta_region_def)
  have n: "new_RegionMeta sample_env (?p i) (sample_meta_region i a b) initialApplyState = Inr (sample_meta i a b)" if "a <s b" for i a b
    by (rule sample_meta_new [OF that])
  obtain new where new: "mk_Region True (sample_meta 11 5 50) = Inr new" using sample_mk_Region by blast
  obtain d nd where d: "rd_splitInto (ori (sample_keys 5 50)) sample_data (rg_data new) = (d, nd)" by (rule prod.exhaust)
  have s: "region_splitInto (sample_meta 11 5 50) sample_region = Inr (new\<lparr>rg_data := nd\<rparr>, sample_region\<lparr>rg_data := d\<rparr>)"
    using new d by (simp add: region_splitInto_def sample_region_def mk_Region_ok [OF new] meta_getRange_def sample_meta_def)
  have m: "rg_meta sample_region = sample_meta 10 0 50" "rm_peer (sample_meta 10 0 50) = ?p 10"
    "rm_apply_state (sample_meta 10 0 50) = initialApplyState" "rm_region_id (sample_meta i a b) = i"
    "mr_id (sample_meta_region i a b) = i" for i a b
    by (simp_all add: sample_region_def sample_meta_def sample_meta_region_def)
  have l: "batch_split_loop sample_env [sample_meta_region 10 0 5, sample_meta_region 11 5 50] None [] sample_region
      = Inr (Some (sample_meta_region 10 0 5), [new\<lparr>rg_data := nd\<rparr>], sample_region\<lparr>rg_data := d\<rparr>)"
    using n [of 5 50 11] by (simp add: region_id_def m f s word_sless_alt)
  have sp: "resp_splits sample_split = [sample_meta_region 10 0 5, sample_meta_region 11 5 50]" by (simp add: sample_split_def)
  obtain mm where mm: "assignRegionMeta (doSetApplied 20 6 (sample_meta 10 0 5)) (sample_meta 10 0 50) = Inr mm"
    by (simp add: assignRegionMeta_def doSetApplied_def m)
  show ?thesis using n [of 0 5 10] mm by (simp add: execBatchSplit_def sp l m word_sless_alt del: batch_split_loop.simps)
qed

subsection \<open>Properties\<close>

text \<open>
  C16: a batch split moves every entry whose key is in the range of a new region to that region, keeps every
  other entry in the old one, and neither loses nor duplicates an entry; the new regions are those of the
  command, in its order, and all regions that it leaves are well formed.
\<close>

theorem batch_split_partition:
  assumes "region_inv rg" and "execBatchSplit pe response i t rg = Inr (splits, rg')"
  shows "mset (kv_entries (rg_data rg)) = mset (kv_entries (rg_data rg')) + (\<Sum>s\<leftarrow>splits. mset (kv_entries (rg_data s)))
    \<and> (\<forall>s \<in> set splits. region_inv s \<and> (\<forall>(cf, key, v) \<in> set (kv_entries (rg_data s)). region_covers s key)
        \<and> (\<forall>(cf, key, v) \<in> set (kv_entries (rg_data rg')). \<not> region_covers s key))
    \<and> map region_id splits = filter (\<lambda>i. i \<noteq> region_id rg) (map mr_id (resp_splits response))
    \<and> region_inv rg' \<and> getRegion (rm_state (rg_meta rg')) \<in> set (resp_splits response) \<and> region_appliedIndex rg' = i"
  using execBatchSplit_ok [OF assms(2,1)] unfolding split_parts_def by blast

theorem batch_split_partition_witness:
  "\<exists>splits rg'. execBatchSplit sample_env sample_split 20 6 sample_region = Inr (splits, rg')
     \<and> mset (kv_entries (rg_data sample_region)) = mset (kv_entries (rg_data rg')) + (\<Sum>s\<leftarrow>splits. mset (kv_entries (rg_data s)))
     \<and> map region_id splits = [11] \<and> region_appliedIndex rg' = 20"
proof -
  obtain splits rg' where e: "execBatchSplit sample_env sample_split 20 6 sample_region = Inr (splits, rg')"
    using sample_split_exec by blast
  have "filter (\<lambda>i. i \<noteq> region_id sample_region) (map mr_id (resp_splits sample_split)) = [11]"
    by (simp add: sample_split_def sample_meta_region_def sample_region_def region_id_def sample_meta_def)
  then show ?thesis using batch_split_partition [OF sample_region_inv e] e by auto
qed

text \<open>
  C17: a region that is written and read back has the same meta and equal data, whatever follows in the
  buffer; the reported size is the number of bytes and the reported index the applied one.
\<close>

theorem region_roundtrip:
  assumes "region_inv rg" and "meta_ok pe (rg_meta rg)" and "stored_ok (rg_data rg)"
  shows "(\<exists>rg'. region_deserialize pe proxy (fst (fst (region_serialize pe rg)) @ rest) = Inr (rg', rest)
      \<and> rg_meta rg' = rg_meta rg \<and> Region_eq rg' rg)
    \<and> snd (fst (region_serialize pe rg)) = of_nat (length (fst (fst (region_serialize pe rg))))
    \<and> snd (region_serialize pe rg) = region_appliedIndex rg"
  using region_deserialize_serialize [OF assms] region_serialize_size
  by (simp add: region_serialize_def meta_serialize_def region_appliedIndex_def meta_appliedIndex_def)

theorem region_roundtrip_witness:
  "\<exists>rg'. region_deserialize sample_env False (fst (fst (region_serialize sample_env sample_region)) @ [1]) = Inr (rg', [1])
     \<and> Region_eq rg' sample_region"
  using region_roundtrip [OF sample_region_inv sample_region_stored] by blast

text \<open>
  C18: after a snapshot is completed with the rows that the storage held, each of these rows has a record in the
  region that is not older: its own, a newer one, or a delete mark put there. The rows of the snapshot are
  kept, and every record that was added is a delete mark below the safe point.
\<close>

theorem complete_snapshot_covers:
  assumes "region_inv rg" and "distinct (map fst handle_map)"
    and "compareAndCompleteSnapshot handle_map safe_point rg = Inr (handle_map', rg')"
  shows "(\<forall>(h, ts, del) \<in> set handle_map. \<exists>pk ts'. write_rows rg' (pk, ts') \<noteq> None \<and> RawTiDBPK_handle pk = h \<and> ts \<le> ts')
    \<and> write_rows rg \<subseteq>\<^sub>m write_rows rg'
    \<and> (\<forall>k w. write_rows rg' k = Some w \<longrightarrow> write_rows rg k = Some w \<or> write_type (snd (snd w)) = DelFlag \<and> snd k < safe_point)"
proof (cases "handle_map = []")
  case True
  then show ?thesis using assms(3) by (simp add: compareAndCompleteSnapshot_def)
next
  case False
  then obtain d where c: "complete_check (data_map (rd_write (rg_data rg))) handle_map = Inr handle_map'"
      and r: "rfold (complete_insert (rg_table_id rg) safe_point) handle_map' (rg_data rg) = Inr d" and rg': "rg' = rg\<lparr>rg_data := d\<rparr>"
    using assms(3) by (auto simp: compareAndCompleteSnapshot_def rbind_eq_Inr)
  have i: "RegionData_inv (rg_data rg)" using assms(1) by (simp add: region_inv_def)
  note o = complete_inserts_ok [OF r i]
  have le: "write_rows rg \<subseteq>\<^sub>m write_rows rg'" using o by (simp add: write_rows_def rg')
  have "\<exists>pk ts'. write_rows rg' (pk, ts') \<noteq> None \<and> RawTiDBPK_handle pk = h \<and> ts \<le> ts'" if h: "(h, ts, del) \<in> set handle_map" for h ts del
  proof (cases "(h, ts, del) \<in> set handle_map'")
    case True
    then have "write_rows rg' (handle_pk h, ts) \<noteq> None" using o unfolding write_rows_def rg' by simp blast
    then show ?thesis using RawTiDBPK_handle_mem_of by blast
  next
    case no: False
    obtain p where p: "p \<in> set (data_map (rd_write (rg_data rg)))" "RawTiDBPK_handle (fst (fst p)) = h" "ts \<le> snd (fst p)"
      using complete_check_ok [OF c h assms(2)] no by blast
    have "fst p \<in> dom (write_rows rg)" unfolding write_rows_def dom_map_of_conv_image_fst using p(1) by simp
    then have "fst p \<in> dom (write_rows rg')" using map_le_implies_dom_le [OF le] by (rule subsetD [rotated])
    then have "write_rows rg' (fst (fst p), snd (fst p)) \<noteq> None" by (simp add: domIff)
    then show ?thesis using p by blast
  qed
  then show ?thesis using le o by (auto simp: write_rows_def rg')
qed

theorem complete_snapshot_covers_witness:
  "\<exists>hm' rg'. compareAndCompleteSnapshot [(7, 4, 0), (8, 3, 0)] 20 sample_region = Inr (hm', rg')
     \<and> (\<exists>pk ts'. write_rows rg' (pk, ts') \<noteq> None \<and> RawTiDBPK_handle pk = 8 \<and> 3 \<le> ts')"
proof -
  have i: "RegionData_inv (rg_data sample_region)" using sample_region_inv by (simp add: region_inv_def)
  have ne: "(handle_pk 8, 3 :: Timestamp) \<noteq> (handle_pk 7, 9)" by simp
  have "map_of (data_map (rd_write (rg_data sample_region))) (handle_pk 8, 3) = None"
    using ne by (simp add: sample_region_def sample_data_def del: prod.inject)
  then obtain d where d: "complete_insert 1 20 (8, 3, 0) (rg_data sample_region) = Inr d"
    using complete_insert_defined [OF i, of 8 3 20 1 0] by auto
  have "complete_check (data_map (rd_write (rg_data sample_region))) [(7, 4, 0), (8, 3, 0)] = Inr [(8, 3, 0)]"
    by (simp add: sample_region_def sample_data_def RawTiDBPK_handle_mem_of)
  then have c: "compareAndCompleteSnapshot [(7, 4, 0), (8, 3, 0)] 20 sample_region = Inr ([(8, 3, 0)], sample_region\<lparr>rg_data := d\<rparr>)"
    using d by (simp add: compareAndCompleteSnapshot_def) (simp add: sample_region_def)
  have "distinct (map fst [(7 :: HandleID, 4 :: Timestamp, 0 :: UInt8), (8, 3, 0)])" by simp
  from complete_snapshot_covers [OF sample_region_inv this c] c show ?thesis by auto
qed

end
