(* ===== verification/RegionFlush.thy ===== *)
theory RegionFlush
  imports Region
begin

section \<open>From regions to the storage\<close>

text \<open>
  \<open>Storages/Transaction/PartitionStreams.cpp\<close>, which moves the committed rows of a region to the storage, and
  \<open>Region::handleWriteRaftCmd\<close>, which may do so after each command. The storage is an argument: a record
  with what the code calls of \<open>ManagedStorages\<close>, of the storage of a table, of the block reader and of the
  schema syncer, over a type of storage states and a type of blocks.
\<close>

subsection \<open>Storage\<close>

record ('s, 'b) StorageApi =
  sa_available :: "TableID \<Rightarrow> 's \<Rightarrow> bool"
  sa_schema_version :: "TableID \<Rightarrow> 's \<Rightarrow> Int64"
  sa_read_block :: "TableID \<Rightarrow> RegionDataReadInfo list \<Rightarrow> bool \<Rightarrow> 's \<Rightarrow> 'b option result"
  sa_write :: "TableID \<Rightarrow> 'b \<Rightarrow> 's \<Rightarrow> 's result"
  sa_empty_block :: 'b
  sa_sync :: "'s \<Rightarrow> 's result"

record 'b PreDecodeBlock =
  pd_block :: 'b
  pd_schema_version :: Int64
  pd_rows :: "RegionDataReadInfo list"

definition DEFAULT_UNSPECIFIED_SCHEMA_VERSION :: Int64 where "DEFAULT_UNSPECIFIED_SCHEMA_VERSION = - 1"

text \<open>
  The lambda \<open>atomicReadWrite\<close>: whether it succeeded, the cache (whose block is cleared when the schema
  has changed) and the storage.
\<close>

definition atomicReadWrite :: "('s, 'b) StorageApi \<Rightarrow> TableID \<Rightarrow> RegionDataReadInfo list \<Rightarrow> bool \<Rightarrow> 'b PreDecodeBlock option \<Rightarrow> 's \<Rightarrow>
    (bool \<times> 'b PreDecodeBlock option \<times> 's) result" where
  "atomicReadWrite api table_id rows force_decode cache st =
     (if \<not> sa_available api table_id st then Inr (force_decode, cache, st)
      else
        (let hit = (case cache of Some c \<Rightarrow> pd_schema_version c = sa_schema_version api table_id st | None \<Rightarrow> False);
             cache' = (if hit then cache else map_option (\<lambda>c. c\<lparr>pd_block := sa_empty_block api\<rparr>) cache)
         in rbind (if hit then Inr (map_option pd_block cache) else sa_read_block api table_id rows force_decode st) (\<lambda>block.
            case block of None \<Rightarrow> Inr (False, cache', st)
            | Some b \<Rightarrow> rbind (sa_write api table_id b st) (\<lambda>st'. Inr (True, cache', st')))))"

definition writeRegionDataToStorage :: "('s, 'b) StorageApi \<Rightarrow> TableID \<Rightarrow> 'b PreDecodeBlock option \<Rightarrow> RegionDataReadInfo list \<Rightarrow> 's \<Rightarrow> 's result" where
  "writeRegionDataToStorage api table_id cache rows st =
     rbind (atomicReadWrite api table_id rows False cache st) (\<lambda>(ok, cache1, st1).
       if ok then Inr st1
       else rbind (sa_sync api st1) (\<lambda>st2.
         rbind (atomicReadWrite api table_id rows True cache1 st2) (\<lambda>(ok2, _, st3).
           if ok2 then Inr st3 else throw '' failed'')))"

subsection \<open>Committed rows\<close>

text \<open>The loop that drains a scanner.\<close>

function scan_all :: "bool \<Rightarrow> CommittedScanner \<Rightarrow> RegionDataReadInfo list result" where
  "scan_all need_value sc =
     rbind (scan_next need_value sc) (\<lambda>(info, sc').
       if hasNext sc' then rbind (scan_all need_value sc') (\<lambda>rows. Inr (info # rows)) else Inr [info])"
  by pat_completeness auto
termination
  by (relation "measure (\<lambda>(_, sc). length (sc_rest sc))")
    (auto simp: scan_next_def rbind_eq_Inr split: list.splits)

declare scan_all.simps [simp del]

definition ReadRegionCommitCache :: "Region \<Rightarrow> RegionDataReadInfo list option result" where
  "ReadRegionCommitCache rg =
     (let scanner = createCommittedScanner rg
      in if isPendingRemove rg then Inr None
         else if \<not> hasNext scanner then Inr None
         else rbind (scan_all True scanner) (\<lambda>rows. Inr (Some rows)))"

definition RemoveRegionCommitCache :: "RegionDataReadInfo list \<Rightarrow> Region \<Rightarrow> Region" where
  "RemoveRegionCommitCache rows rg = fold (\<lambda>(handle, write_type, commit_ts, v). remover_remove (handle, commit_ts)) rows rg"

definition writeBlockByRegion :: "('s, 'b) StorageApi \<Rightarrow> 'b PreDecodeBlock option \<Rightarrow> Region \<Rightarrow> 's \<Rightarrow>
    (RegionDataReadInfo list \<times> Region \<times> 's) result" where
  "writeBlockByRegion api cache rg st =
     rbind (case cache of Some c \<Rightarrow> Inr (Some (pd_rows c)) | None \<Rightarrow> ReadRegionCommitCache rg) (\<lambda>data_list_read.
       case data_list_read of None \<Rightarrow> Inr ([], rg, st)
       | Some rows \<Rightarrow> rbind (writeRegionDataToStorage api (rg_table_id rg) cache rows st) (\<lambda>st'.
           Inr (rows, RemoveRegionCommitCache rows rg, st')))"

text \<open>The lambda \<open>atomicDecode\<close> gives the block and the schema version that it leaves.\<close>

definition atomicDecode :: "('s, 'b) StorageApi \<Rightarrow> TableID \<Rightarrow> RegionDataReadInfo list \<Rightarrow> bool \<Rightarrow> 's \<Rightarrow> (bool \<times> 'b \<times> Int64) result" where
  "atomicDecode api table_id rows force_decode st =
     (if \<not> sa_available api table_id st then Inr (force_decode, sa_empty_block api, DEFAULT_UNSPECIFIED_SCHEMA_VERSION)
      else rbind (sa_read_block api table_id rows force_decode st) (\<lambda>block.
        case block of None \<Rightarrow> Inr (False, sa_empty_block api, DEFAULT_UNSPECIFIED_SCHEMA_VERSION)
        | Some b \<Rightarrow> Inr (True, b, sa_schema_version api table_id st)))"

definition GenRegionPreDecodeBlockData :: "('s, 'b) StorageApi \<Rightarrow> Region \<Rightarrow> 's \<Rightarrow> ('b PreDecodeBlock option \<times> Region \<times> 's) result" where
  "GenRegionPreDecodeBlockData api rg st =
     rbind (ReadRegionCommitCache rg) (\<lambda>data_list_read.
       case data_list_read of None \<Rightarrow> Inr (None, rg, st)
       | Some rows \<Rightarrow>
           rbind (atomicDecode api (rg_table_id rg) rows False st) (\<lambda>(ok, b, ver).
           rbind (if ok then Inr (b, ver, st)
                  else rbind (sa_sync api st) (\<lambda>st1.
                    rbind (atomicDecode api (rg_table_id rg) rows True st1) (\<lambda>(ok2, b2, ver2).
                      if ok2 then Inr (b2, ver2, st1) else throw '' block failed''))) (\<lambda>(b, ver, st').
             Inr (Some \<lparr>pd_block = b, pd_schema_version = ver, pd_rows = rows\<rparr>, RemoveRegionCommitCache rows rg, st'))))"

subsection \<open>Reading with locks\<close>

text \<open>A lock exception carries the lock; the other exceptions are errors.\<close>

datatype ReadOutcome =
    ReadDone "RegionDataReadInfo list" RegionReadStatus "(DecodedTiKVKey \<times> DecodedTiKVKey) option"
  | LockException RegionID DecodedLockCFValue

definition resolveLocksAndReadRegionData ::
    "TableID \<Rightarrow> Timestamp \<Rightarrow> UInt64 list option \<Rightarrow> UInt64 \<Rightarrow> UInt64 \<Rightarrow> bool \<Rightarrow> bool \<Rightarrow> Region \<Rightarrow> ReadOutcome result" where
  "resolveLocksAndReadRegionData table_id start_ts bypass region_version conf_version resolve_locks need_data_value rg =
     (let scanner = createCommittedScanner rg
      in if peerState rg \<noteq> Normal then Inr (ReadDone [] RS_NOT_FOUND None)
         else rbind (dumpRegionMetaSnapshot (rg_meta rg)) (\<lambda>snap.
           if snap_ver snap \<noteq> region_version \<or> snap_conf_ver snap \<noteq> conf_version then Inr (ReadDone [] RS_EPOCH_NOT_MATCH None)
           else rbind (computeMappedTableID (fst (RegionRangeKeys.raw (snap_range snap)))) (\<lambda>mapped.
             if mapped \<noteq> Some table_id then throw ''Should not happen, region not belong to table: table id in region is ''
             else
               (let rng = RegionRangeKeys.raw (snap_range snap);
                    lock_value = (if resolve_locks then getLockInfo \<lparr>read_tso = start_ts, bypass_lock_ts = bypass\<rparr> (rg_data rg) else None)
                in case lock_value of
                     Some l \<Rightarrow> Inr (LockException (region_id rg) l)
                   | None \<Rightarrow> if \<not> hasNext scanner then Inr (ReadDone [] RS_OK (Some rng))
                       else rbind (scan_all need_data_value scanner) (\<lambda>rows. Inr (ReadDone rows RS_OK (Some rng)))))))"

datatype 'a LockOutcome = Unlocked 'a | Locked RegionID DecodedLockCFValue

definition readBlockByRegion ::
    "(RegionDataReadInfo list \<Rightarrow> 'b option result) \<Rightarrow> 'b \<Rightarrow> TableID \<Rightarrow> nat \<Rightarrow> UInt64 \<Rightarrow> UInt64 \<Rightarrow> bool \<Rightarrow> Timestamp \<Rightarrow> UInt64 list option \<Rightarrow>
     Region option \<Rightarrow> ('b \<times> RegionReadStatus) LockOutcome result" where
  "readBlockByRegion readRegionBlock empty_block table_id columns region_version conf_version resolve_locks start_ts bypass region =
     (case region of None \<Rightarrow> throw '': region is null''
      | Some rg \<Rightarrow>
          rbind (resolveLocksAndReadRegionData table_id start_ts bypass region_version conf_version resolve_locks (columns \<noteq> 3) rg) (\<lambda>out.
            case out of LockException i l \<Rightarrow> Inr (Locked i l)
            | ReadDone rows read_status _ \<Rightarrow>
                if read_status \<noteq> RS_OK then Inr (Unlocked (empty_block, read_status))
                else rbind (readRegionBlock rows) (\<lambda>block. case block of
                    None \<Rightarrow> throw '' failed'' | Some b \<Rightarrow> Inr (Unlocked (b, RS_OK)))))"

definition resolveLocksAndWriteRegion ::
    "('s, 'b) StorageApi \<Rightarrow> TableID \<Rightarrow> Timestamp \<Rightarrow> UInt64 list option \<Rightarrow> UInt64 \<Rightarrow> UInt64 \<Rightarrow> Region \<Rightarrow> 's \<Rightarrow>
     (RegionReadStatus \<times> Region \<times> 's) LockOutcome result" where
  "resolveLocksAndWriteRegion api table_id start_ts bypass region_version conf_version rg st =
     rbind (resolveLocksAndReadRegionData table_id start_ts bypass region_version conf_version True True rg) (\<lambda>out.
       case out of LockException i l \<Rightarrow> Inr (Locked i l)
       | ReadDone rows read_status _ \<Rightarrow>
           if read_status \<noteq> RS_OK then Inr (Unlocked (read_status, rg, st))
           else rbind (writeRegionDataToStorage api (rg_table_id rg) None rows st) (\<lambda>st'.
             Inr (Unlocked (RS_OK, RemoveRegionCommitCache rows rg, st'))))"

subsection \<open>Write commands\<close>

datatype WriteCmdType = Put | Del | OtherWriteCmd UInt8

record WriteCmd =
  wc_type :: WriteCmdType
  wc_cf :: ColumnFamilyType
  wc_key :: TiKVKey
  wc_val :: TiKVValue

definition handle_by_index :: "WriteCmd \<Rightarrow> Region \<Rightarrow> Region result" where
  "handle_by_index c rg =
     (case wc_type c of
        Put \<Rightarrow> doInsert (wc_cf c) (wc_key c) (wc_val c) rg
      | Del \<Rightarrow> doRemove (wc_cf c) (wc_key c) rg
      | OtherWriteCmd n \<Rightarrow> throw '': unsupported command type '')"

definition handle_write_cmd :: "WriteCmd list \<Rightarrow> Region \<Rightarrow> Region result" where
  "handle_write_cmd cmds rg =
     rbind (rfold (\<lambda>c (need_handle_write_cf, rg).
         if wc_cf c = CF_Write then Inr (True, rg)
         else rbind (handle_by_index c rg) (\<lambda>rg'. Inr (need_handle_write_cf, rg'))) cmds (False, rg)) (\<lambda>(need_handle_write_cf, rg1).
       if need_handle_write_cf
       then rfold (\<lambda>c rg. if wc_cf c = CF_Write then handle_by_index c rg else Inr rg) cmds rg1
       else Inr rg1)"

definition pop_pre_decode :: "Region \<Rightarrow> Region" where
  "pop_pre_decode rg =
     (let d = rg_data rg
      in rg\<lparr>rg_data := d\<lparr>rd_write := snd (popAll (rd_write d)), rd_default := snd (popAll (rd_default d))\<rparr>\<rparr>)"

definition region_handleWriteRaftCmd ::
    "('s, 'b) StorageApi \<Rightarrow> bool \<Rightarrow> WriteCmd list \<Rightarrow> UInt64 \<Rightarrow> UInt64 \<Rightarrow> Region \<Rightarrow> 's \<Rightarrow> (Region \<times> 's) result" where
  "region_handleWriteRaftCmd api bg_flush_disabled cmds i t rg st =
     (if i \<le> region_appliedIndex rg then Inr (rg, st)
      else if peerState rg = Tombstone then throw '' under state Tombstone, should not happen''
      else rbind (handle_write_cmd cmds rg) (\<lambda>rg1.
        rbind (if bg_flush_disabled
               then rbind (writeBlockByRegion api None rg1 st) (\<lambda>(_, rg2, st'). Inr (pop_pre_decode rg2, st'))
               else Inr (rg1, st)) (\<lambda>(rg2, st').
          Inr (rg2\<lparr>rg_meta := doSetApplied i t (rg_meta rg2)\<rparr>, st'))))"

subsection \<open>Invariant\<close>

lemma RemoveRegionCommitCache_inv: "region_inv rg \<Longrightarrow> region_inv (RemoveRegionCommitCache rows rg)"
  unfolding RemoveRegionCommitCache_def by (induction rows arbitrary: rg) (auto simp: remover_remove_inv)

lemma writeBlockByRegion_cases:
  assumes "writeBlockByRegion api cache rg st = Inr (rows, rg', st')"
  obtains (nothing) "rows = []" "rg' = rg" "st' = st" "cache = None" "ReadRegionCommitCache rg = Inr None"
  | (written) "rg' = RemoveRegionCommitCache rows rg" "writeRegionDataToStorage api (rg_table_id rg) cache rows st = Inr st'"
      "case cache of Some c \<Rightarrow> rows = pd_rows c | None \<Rightarrow> ReadRegionCommitCache rg = Inr (Some rows)"
proof -
  obtain dl where dl: "(case cache of Some c \<Rightarrow> Inr (Some (pd_rows c)) | None \<Rightarrow> ReadRegionCommitCache rg) = Inr dl"
      and r: "(case dl of None \<Rightarrow> Inr ([], rg, st) | Some rows \<Rightarrow> rbind (writeRegionDataToStorage api (rg_table_id rg) cache rows st)
        (\<lambda>st'. Inr (rows, RemoveRegionCommitCache rows rg, st'))) = Inr (rows, rg', st')"
    using assms unfolding writeBlockByRegion_def rbind_eq_Inr by blast
  show thesis
  proof (cases dl)
    case None
    then show thesis using dl r by - (rule nothing; auto split: option.splits)
  next
    case (Some rs)
    then obtain st2 where "writeRegionDataToStorage api (rg_table_id rg) cache rs st = Inr st2"
        "(rs, RemoveRegionCommitCache rs rg, st2) = (rows, rg', st')"
      using r by (simp add: rbind_eq_Inr) blast
    then show thesis using dl Some by - (rule written; auto split: option.splits)
  qed
qed

lemma writeBlockByRegion_inv: "writeBlockByRegion api cache rg st = Inr (rows, rg', st') \<Longrightarrow> region_inv rg \<Longrightarrow> region_inv rg'"
  by (erule writeBlockByRegion_cases) (simp_all add: RemoveRegionCommitCache_inv)

lemma handle_by_index_inv: "handle_by_index c rg = Inr rg' \<Longrightarrow> region_inv rg \<Longrightarrow> region_inv rg'"
  by (auto simp: handle_by_index_def intro: doInsert_inv doRemove_inv split: WriteCmdType.splits)

lemma pop_pre_decode_inv: "region_inv rg \<Longrightarrow> region_inv (pop_pre_decode rg)"
  by (simp add: region_inv_def pop_pre_decode_def popAll_def Let_def RegionData_inv_def cf_ok_def)

subsection \<open>Order of write commands\<close>

lemma first_pass:
  "rfold (\<lambda>c (b, rg). if wc_cf c = CF_Write then Inr (True, rg) else rbind (handle_by_index c rg) (\<lambda>rg'. Inr (b, rg'))) cmds (b, rg)
   = rbind (rfold handle_by_index (filter (\<lambda>c. wc_cf c \<noteq> CF_Write) cmds) rg) (\<lambda>rg'. Inr (b \<or> (\<exists>c \<in> set cmds. wc_cf c = CF_Write), rg'))"
proof (induction cmds arbitrary: b rg)
  case (Cons c cmds)
  then show ?case by (cases "handle_by_index c rg") auto
qed simp

lemma second_pass:
  "rfold (\<lambda>c rg. if wc_cf c = CF_Write then handle_by_index c rg else Inr rg) cmds rg
   = rfold handle_by_index (filter (\<lambda>c. wc_cf c = CF_Write) cmds) rg"
proof (induction cmds arbitrary: rg)
  case (Cons c cmds)
  then show ?case by (cases "handle_by_index c rg") auto
qed simp

lemma handle_write_cmd_order:
  "handle_write_cmd cmds rg =
   rfold handle_by_index (filter (\<lambda>c. wc_cf c \<noteq> CF_Write) cmds @ filter (\<lambda>c. wc_cf c = CF_Write) cmds) rg"
proof (cases "\<exists>c \<in> set cmds. wc_cf c = CF_Write")
  case True
  then show ?thesis
    by (cases "rfold handle_by_index (filter (\<lambda>c. wc_cf c \<noteq> CF_Write) cmds) rg")
      (simp_all add: handle_write_cmd_def first_pass second_pass rfold_append)
next
  case False
  then have "filter (\<lambda>c. wc_cf c = CF_Write) cmds = []" by (simp add: filter_empty_conv)
  with False show ?thesis
    by (cases "rfold handle_by_index (filter (\<lambda>c. wc_cf c \<noteq> CF_Write) cmds) rg")
      (simp_all add: handle_write_cmd_def first_pass rfold_append)
qed

lemma handle_write_cmd_inv: "handle_write_cmd cmds rg = Inr rg' \<Longrightarrow> region_inv rg \<Longrightarrow> region_inv rg'"
  unfolding handle_write_cmd_order by (erule rfold_invariant) (auto intro: handle_by_index_inv)

lemma region_handleWriteRaftCmd_cases:
  assumes "region_handleWriteRaftCmd api bg cmds i t rg st = Inr (rg', st')"
  obtains (outdated) "i \<le> region_appliedIndex rg" "rg' = rg" "st' = st"
  | (applied) rg1 rg2 where "\<not> i \<le> region_appliedIndex rg" "peerState rg \<noteq> Tombstone" "handle_write_cmd cmds rg = Inr rg1"
      "if bg then \<exists>rows rg3. writeBlockByRegion api None rg1 st = Inr (rows, rg3, st') \<and> rg2 = pop_pre_decode rg3
       else rg2 = rg1 \<and> st' = st"
      "rg' = rg2\<lparr>rg_meta := doSetApplied i t (rg_meta rg2)\<rparr>"
proof (cases "i \<le> region_appliedIndex rg")
  case True
  then show thesis using assms by - (rule outdated; simp add: region_handleWriteRaftCmd_def)
next
  case False
  then have p: "peerState rg \<noteq> Tombstone" using assms by (auto simp: region_handleWriteRaftCmd_def)
  obtain rg1 where h: "handle_write_cmd cmds rg = Inr rg1"
      and r: "rbind (if bg then rbind (writeBlockByRegion api None rg1 st) (\<lambda>(_, rg2, st'). Inr (pop_pre_decode rg2, st')) else Inr (rg1, st))
        (\<lambda>(rg2, st'). Inr (rg2\<lparr>rg_meta := doSetApplied i t (rg_meta rg2)\<rparr>, st')) = Inr (rg', st')"
    using assms False p by (simp add: region_handleWriteRaftCmd_def rbind_eq_Inr) blast
  obtain rg2 where rg2: "(if bg then rbind (writeBlockByRegion api None rg1 st) (\<lambda>(_, rg2, st'). Inr (pop_pre_decode rg2, st')) else Inr (rg1, st))
        = Inr (rg2, st')" "rg' = rg2\<lparr>rg_meta := doSetApplied i t (rg_meta rg2)\<rparr>"
    using r unfolding rbind_eq_Inr by auto
  have "if bg then \<exists>rows rg3. writeBlockByRegion api None rg1 st = Inr (rows, rg3, st') \<and> rg2 = pop_pre_decode rg3
       else rg2 = rg1 \<and> st' = st"
    using rg2(1) by (cases bg) (auto simp: rbind_eq_Inr)
  then show thesis using applied [OF False p h _ rg2(2)] by blast
qed

lemma region_handleWriteRaftCmd_inv:
  assumes "region_handleWriteRaftCmd api bg cmds i t rg st = Inr (rg', st')" "region_inv rg"
  shows "region_inv rg'"
  using assms(1)
proof (cases rule: region_handleWriteRaftCmd_cases)
  case (applied rg1 rg2)
  have "region_inv rg1" by (rule handle_write_cmd_inv [OF applied(3) assms(2)])
  then have "region_inv rg2" using applied(4) by (auto simp: pop_pre_decode_inv writeBlockByRegion_inv split: if_splits)
  then show ?thesis by (simp add: applied(5) region_inv_def doSetApplied_inv)
qed (simp add: assms(2))

lemma region_handleWriteRaftCmd_index:
  assumes "region_handleWriteRaftCmd api bg cmds i t rg st = Inr (rg', st')"
  shows "i \<le> region_appliedIndex rg'"
  using assms
  by (cases rule: region_handleWriteRaftCmd_cases) (simp_all add: region_appliedIndex_def meta_appliedIndex_def doSetApplied_def)

subsection \<open>Committed rows\<close>

text \<open>What the scan loop computes: the rows of the write family, in its order.\<close>

primrec committed_rows :: "bool \<Rightarrow> RegionData \<Rightarrow> (cf_key \<times> write_value) list \<Rightarrow> RegionDataReadInfo list result" where
  "committed_rows need_value d [] = Inr []"
| "committed_rows need_value d (it # m) =
     rbind (readDataByWriteIt it need_value d) (\<lambda>info. rbind (committed_rows need_value d m) (\<lambda>rows. Inr (info # rows)))"

definition row_key :: "RegionDataReadInfo \<Rightarrow> cf_key" where
  "row_key info = (fst info, fst (snd (snd info)))"

lemma scan_all_rows:
  "sc_rest sc \<noteq> [] \<Longrightarrow> sc_size sc \<noteq> 0 \<Longrightarrow> scan_all need_value sc = committed_rows need_value (rg_data (sc_store sc)) (sc_rest sc)"
proof (induction "sc_rest sc" arbitrary: sc)
  case (Cons it m)
  show ?case
  proof (cases "readDataByWriteIt it need_value (rg_data (sc_store sc))")
    case (Inl e)
    then show ?thesis using Cons.hyps(2) [symmetric] by (subst scan_all.simps) (simp add: scan_next_def)
  next
    case (Inr info)
    have n: "scan_next need_value sc = Inr (info, sc\<lparr>sc_rest := m\<rparr>)" using Cons.hyps(2) [symmetric] Inr by (simp add: scan_next_def)
    show ?thesis
      using Cons.hyps(1) [of "sc\<lparr>sc_rest := m\<rparr>"] Cons.prems(2) Cons.hyps(2) [symmetric] Inr
      by (subst scan_all.simps, cases m) (simp_all add: n hasNext_def)
  qed
qed simp

lemma readDataByWriteIt_key: "readDataByWriteIt it need_value d = Inr info \<Longrightarrow> row_key info = fst it"
  by (auto simp: readDataByWriteIt_def row_key_def split: prod.splits if_splits option.splits)

lemma committed_rows_keys: "committed_rows need_value d m = Inr rows \<Longrightarrow> map row_key rows = map fst m"
  by (induction m arbitrary: rows) (auto simp: rbind_eq_Inr readDataByWriteIt_key)

lemma committed_rows_defined:
  assumes "\<forall>it \<in> set m. \<exists>info. readDataByWriteIt it need_value d = Inr info"
  shows "\<exists>rows. committed_rows need_value d m = Inr rows"
  using assms by (induction m) auto

lemma ReadRegionCommitCache_rows:
  "ReadRegionCommitCache rg = (if isPendingRemove rg \<or> data_map (rd_write (rg_data rg)) = [] then Inr None
     else rbind (committed_rows True (rg_data rg) (data_map (rd_write (rg_data rg)))) (\<lambda>rows. Inr (Some rows)))"
  by (simp add: ReadRegionCommitCache_def createCommittedScanner_def hasNext_def Let_def scan_all_rows)

subsection \<open>Removing rows\<close>

text \<open>The value in the default family that a commit record refers to.\<close>

definition value_key :: "cf_key \<times> write_value \<Rightarrow> cf_key option" where
  "value_key it = (case it of ((pk, ts), (key, v, dv)) \<Rightarrow> if write_type dv = PutFlag then Some (pk, prewrite_ts dv) else None)"

lemma filter_absent: "k \<notin> fst ` set m \<Longrightarrow> filter (\<lambda>p. fst p \<noteq> k) m = m"
  by (auto simp: filter_id_conv)

lemma removeDataByWriteIt_fields:
  "data_map (rd_write (snd (removeDataByWriteIt it d))) = filter (\<lambda>p. fst p \<noteq> fst it) (data_map (rd_write d))"
  "data_map (rd_default (snd (removeDataByWriteIt it d))) = filter (\<lambda>p. Some (fst p) \<noteq> value_key it) (data_map (rd_default d))"
  "rd_lock (snd (removeDataByWriteIt it d)) = rd_lock d"
proof -
  obtain pk ts key v dv where it: "it = ((pk, ts), (key, v, dv))" by (metis prod.exhaust)
  show "data_map (rd_write (snd (removeDataByWriteIt it d))) = filter (\<lambda>p. fst p \<noteq> fst it) (data_map (rd_write d))"
    "rd_lock (snd (removeDataByWriteIt it d)) = rd_lock d"
    by (simp_all add: it removeDataByWriteIt_def Let_def split: option.split)
  show "data_map (rd_default (snd (removeDataByWriteIt it d))) = filter (\<lambda>p. Some (fst p) \<noteq> value_key it) (data_map (rd_default d))"
    by (simp add: it removeDataByWriteIt_def Let_def value_key_def map_of_eq_None_iff filter_absent split: option.split)
qed

lemma remover_remove_fields:
  "data_map (rd_write (rg_data (remover_remove key rg))) = filter (\<lambda>p. fst p \<noteq> key) (data_map (rd_write (rg_data rg)))"
  "rd_lock (rg_data (remover_remove key rg)) = rd_lock (rg_data rg)" "rg_meta (remover_remove key rg) = rg_meta rg"
  by (simp_all add: remover_remove_def removeDataByWriteIt_fields map_of_eq_None_iff filter_absent split: option.split)

lemma RemoveRegionCommitCache_fold: "RemoveRegionCommitCache rows rg = fold remover_remove (map row_key rows) rg"
  by (induction rows arbitrary: rg) (auto simp: RemoveRegionCommitCache_def row_key_def)

lemma fold_remove_fields:
  "data_map (rd_write (rg_data (fold remover_remove ks rg))) = filter (\<lambda>p. fst p \<notin> set ks) (data_map (rd_write (rg_data rg)))"
  "rd_lock (rg_data (fold remover_remove ks rg)) = rd_lock (rg_data rg)" "rg_meta (fold remover_remove ks rg) = rg_meta rg"
  by (induction ks arbitrary: rg) (auto simp: remover_remove_fields intro: arg_cong [where f = "\<lambda>P. filter P _"])

lemma fold_remove_default:
  assumes "distinct (map fst m)" "set m \<subseteq> set (data_map (rd_write (rg_data rg)))" "distinct (map fst (data_map (rd_write (rg_data rg))))"
  shows "data_map (rd_default (rg_data (fold remover_remove (map fst m) rg)))
    = filter (\<lambda>p. Some (fst p) \<notin> value_key ` set m) (data_map (rd_default (rg_data rg)))"
  using assms
proof (induction m arbitrary: rg)
  case (Cons it m)
  let ?rg = "remover_remove (fst it) rg"
  have "map_of (data_map (rd_write (rg_data rg))) (fst it) = Some (snd it)"
    using Cons.prems(2,3) by (cases it) (simp add: map_of_is_SomeI)
  then have d: "data_map (rd_default (rg_data ?rg)) = filter (\<lambda>p. Some (fst p) \<noteq> value_key it) (data_map (rd_default (rg_data rg)))"
    by (simp add: remover_remove_def removeDataByWriteIt_fields)
  have "fst x \<noteq> fst it" if "x \<in> set m" for x using imageI [OF that, of fst] Cons.prems(1) by (metis distinct.simps(2) list.set_map list.simps(9))
  then have "set m \<subseteq> set (data_map (rd_write (rg_data ?rg)))"
    using Cons.prems(2) unfolding remover_remove_fields set_filter by auto
  moreover have "distinct (map fst (data_map (rd_write (rg_data ?rg))))"
    using Cons.prems(3) by (simp add: remover_remove_fields distinct_map_filter)
  ultimately have "data_map (rd_default (rg_data (fold remover_remove (map fst m) ?rg)))
      = filter (\<lambda>p. Some (fst p) \<notin> value_key ` set m) (data_map (rd_default (rg_data ?rg)))"
    using Cons.IH Cons.prems(1) by simp
  then show ?case by (simp add: d)
qed simp

lemma flush_removes_rows:
  assumes inv: "region_inv rg" and rows: "committed_rows need_value (rg_data rg) (data_map (rd_write (rg_data rg))) = Inr rows"
  shows "data_map (rd_write (rg_data (RemoveRegionCommitCache rows rg))) = []"
    and "data_map (rd_default (rg_data (RemoveRegionCommitCache rows rg)))
      = filter (\<lambda>p. Some (fst p) \<notin> value_key ` set (data_map (rd_write (rg_data rg)))) (data_map (rd_default (rg_data rg)))"
    and "rd_lock (rg_data (RemoveRegionCommitCache rows rg)) = rd_lock (rg_data rg)"
    and "rg_meta (RemoveRegionCommitCache rows rg) = rg_meta rg"
proof -
  let ?m = "data_map (rd_write (rg_data rg))"
  have d: "distinct (map fst ?m)"
    using inv by (auto simp: region_inv_def RegionData_inv_def cf_ok_def intro: std_map.inv_distinct)
  have f: "RemoveRegionCommitCache rows rg = fold remover_remove (map fst ?m) rg"
    by (simp add: RemoveRegionCommitCache_fold committed_rows_keys [OF rows])
  show "data_map (rd_write (rg_data (RemoveRegionCommitCache rows rg))) = []"
    by (simp add: f fold_remove_fields filter_empty_conv)
  show "data_map (rd_default (rg_data (RemoveRegionCommitCache rows rg)))
      = filter (\<lambda>p. Some (fst p) \<notin> value_key ` set ?m) (data_map (rd_default (rg_data rg)))"
    unfolding f by (rule fold_remove_default [OF d subset_refl d])
  show "rd_lock (rg_data (RemoveRegionCommitCache rows rg)) = rd_lock (rg_data rg)"
    "rg_meta (RemoveRegionCommitCache rows rg) = rg_meta rg" by (simp_all add: f fold_remove_fields)
qed

subsection \<open>Reads that resolve locks\<close>

lemma locked_read_cases:
  assumes "resolveLocksAndReadRegionData table_id start_ts bypass ver conf_ver True need_value rg = Inr out"
  shows "case out of
      ReadDone rows RS_OK rng \<Rightarrow> peerState rg = Normal \<and> getVersion (rm_state (rg_meta rg)) = ver
        \<and> getConfVersion (rm_state (rg_meta rg)) = conf_ver
        \<and> getLockInfo \<lparr>read_tso = start_ts, bypass_lock_ts = bypass\<rparr> (rg_data rg) = None
        \<and> committed_rows need_value (rg_data rg) (data_map (rd_write (rg_data rg))) = Inr rows
    | ReadDone rows _ rng \<Rightarrow> rows = []
    | LockException i l \<Rightarrow> i = region_id rg \<and> getLockInfo \<lparr>read_tso = start_ts, bypass_lock_ts = bypass\<rparr> (rg_data rg) = Some l"
proof (cases "getLockInfo \<lparr>read_tso = start_ts, bypass_lock_ts = bypass\<rparr> (rg_data rg)")
  case None
  then show ?thesis
    using assms
    by (auto simp: resolveLocksAndReadRegionData_def Let_def dumpRegionMetaSnapshot_def rbind_eq_Inr createCommittedScanner_def
        hasNext_def scan_all_rows split: if_splits)
next
  case (Some l)
  then show ?thesis
    using assms
    by (auto simp: resolveLocksAndReadRegionData_def Let_def dumpRegionMetaSnapshot_def rbind_eq_Inr split: if_splits)
qed

subsection \<open>A sample storage\<close>

text \<open>One table whose rows are kept as they come.\<close>

definition sample_api :: "(RegionDataReadInfo list, RegionDataReadInfo list) StorageApi" where
  "sample_api = \<lparr>sa_available = (\<lambda>t st. t = 1), sa_schema_version = (\<lambda>t st. 1), sa_read_block = (\<lambda>t rows f st. Inr (Some rows)),
     sa_write = (\<lambda>t b st. Inr (st @ b)), sa_empty_block = [], sa_sync = Inr\<rparr>"

lemma sample_rows: "committed_rows True (rg_data sample_region) (data_map (rd_write (rg_data sample_region)))
    = Inr [(handle_pk 7, PutFlag, 9, Some [1, 2])]"
  by (simp add: sample_region_def sample_data_def readDataByWriteIt_def)

lemma sample_not_pending: "\<not> isPendingRemove sample_region"
  by (simp add: isPendingRemove_def peerState_def meta_peerState_def sample_region_def sample_meta_def getState_def)

lemma sample_write_nonempty: "data_map (rd_write (rg_data sample_region)) \<noteq> []"
  by (simp add: sample_region_def sample_data_def)

lemma sample_store_rows: "writeRegionDataToStorage sample_api 1 None rows st = Inr (st @ rows)"
  by (simp add: writeRegionDataToStorage_def atomicReadWrite_def sample_api_def)

lemma sample_write_exec:
  "\<exists>rg' st'. region_handleWriteRaftCmd sample_api False [] 20 6 sample_region [] = Inr (rg', st')"
proof -
  have "region_appliedIndex sample_region = 5"
    by (simp add: region_appliedIndex_def meta_appliedIndex_def sample_region_def sample_meta_def initialApplyState_def
        RAFT_INIT_LOG_INDEX_def)
  then show ?thesis
    using sample_not_pending by (simp add: region_handleWriteRaftCmd_def handle_write_cmd_def isPendingRemove_def)
qed

text \<open>What the flush of a region with commit records takes out of it.\<close>

definition rows_flushed :: "RegionDataReadInfo list \<Rightarrow> Region \<Rightarrow> Region \<Rightarrow> bool" where
  "rows_flushed rows rg rg' \<longleftrightarrow> committed_rows True (rg_data rg) (data_map (rd_write (rg_data rg))) = Inr rows
     \<and> data_map (rd_write (rg_data rg')) = []
     \<and> data_map (rd_default (rg_data rg')) = filter (\<lambda>p. Some (fst p) \<notin> value_key ` set (data_map (rd_write (rg_data rg)))) (data_map (rd_default (rg_data rg)))
     \<and> rd_lock (rg_data rg') = rd_lock (rg_data rg)"

lemma writeBlockByRegion_flushed:
  assumes "region_inv rg" "\<not> isPendingRemove rg" "writeBlockByRegion api None rg st = Inr (rows, rg', st')"
  shows "rg_meta rg' = rg_meta rg \<and> (if data_map (rd_write (rg_data rg)) \<noteq> [] then rows_flushed rows rg rg' else rows = [] \<and> rg' = rg)"
proof (rule writeBlockByRegion_cases [OF assms(3)])
  assume e: "rows = []" "rg' = rg" and "ReadRegionCommitCache rg = Inr None"
  then have "data_map (rd_write (rg_data rg)) = []" using assms(2) by (auto simp: ReadRegionCommitCache_rows rbind_eq_Inr split: if_splits)
  with e show ?thesis by simp
next
  assume w: "rg' = RemoveRegionCommitCache rows rg" and "case None of Some c \<Rightarrow> rows = pd_rows c | None \<Rightarrow> ReadRegionCommitCache rg = Inr (Some rows)"
  then have c: "data_map (rd_write (rg_data rg)) \<noteq> []" "committed_rows True (rg_data rg) (data_map (rd_write (rg_data rg))) = Inr rows"
    by (simp_all add: ReadRegionCommitCache_rows rbind_eq_Inr split: if_splits)
  show ?thesis using c w flush_removes_rows [OF assms(1) c(2)] by (simp add: rows_flushed_def)
qed

subsection \<open>Properties\<close>

text \<open>
  C22: the commands of one batch take effect as if all commands on the other families came first, in their
  order, and those on the write family after them; so a commit record always finds the value that
  arrives in the same batch, and batches that differ only in how the two groups are interleaved are equal.
\<close>

theorem write_commands_order:
  "handle_write_cmd cmds rg =
     rfold handle_by_index (filter (\<lambda>c. wc_cf c \<noteq> CF_Write) cmds @ filter (\<lambda>c. wc_cf c = CF_Write) cmds) rg"
  by (rule handle_write_cmd_order)

text \<open>
  C19: a write command that was applied at an index is applied once: every later write command with that or a
  smaller index leaves the region and the storage as they are. A region in state Tombstone is never
  changed: a newer command throws.
\<close>

theorem write_command_once:
  assumes "region_handleWriteRaftCmd api bg cmds i t rg st = Inr (rg', st')"
  shows "(\<forall>cmds' i' t'. i' \<le> i \<longrightarrow> region_handleWriteRaftCmd api bg cmds' i' t' rg' st' = Inr (rg', st'))
    \<and> (peerState rg = Tombstone \<longrightarrow> rg' = rg \<and> st' = st)"
proof
  have "i \<le> region_appliedIndex rg'" by (rule region_handleWriteRaftCmd_index [OF assms])
  then show "\<forall>cmds' i' t'. i' \<le> i \<longrightarrow> region_handleWriteRaftCmd api bg cmds' i' t' rg' st' = Inr (rg', st')"
    by (auto simp: region_handleWriteRaftCmd_def dest: order_trans)
  show "peerState rg = Tombstone \<longrightarrow> rg' = rg \<and> st' = st"
    using assms by (cases rule: region_handleWriteRaftCmd_cases) simp_all
qed

theorem write_command_once_witness:
  "\<exists>rg' st'. region_handleWriteRaftCmd sample_api False [] 20 6 sample_region [] = Inr (rg', st')
     \<and> region_handleWriteRaftCmd sample_api False [\<lparr>wc_type = Del, wc_cf = CF_Write, wc_key = [], wc_val = []\<rparr>] 20 6 rg' st' = Inr (rg', st')"
proof -
  obtain rg' st' where r: "region_handleWriteRaftCmd sample_api False [] 20 6 sample_region [] = Inr (rg', st')"
    using sample_write_exec by blast
  show ?thesis using write_command_once [OF r] r by blast
qed

text \<open>
  A reader that waits for an index gets through once a write command with that or a larger index has
  been applied, whether the server is shutting down or not: the applied index that it waits for is reached.
\<close>

lemma write_command_releases_waiters:
  assumes "region_handleWriteRaftCmd api bg cmds i t rg st = Inr (rg', st')" and "j \<le> i"
  shows "region_waitIndex j terminated rg' = Some False"
  using order_trans [OF assms(2) region_handleWriteRaftCmd_index [OF assms(1)]]
  by (simp add: region_waitIndex_def doCheckIndex_def region_appliedIndex_def meta_appliedIndex_def)

text \<open>
  C20: when the committed rows of a region are flushed, the rows given to the storage are those of all commit
  records, in their order; afterwards the region has no commit record, has lost exactly the values that the
  records referred to, and has the same locks and the same meta. When nothing is to be flushed, nothing
  changes.
\<close>

theorem flush_moves_committed_rows:
  assumes "region_inv rg" and "writeBlockByRegion api None rg st = Inr (rows, rg', st')"
  shows "if isPendingRemove rg \<or> data_map (rd_write (rg_data rg)) = [] then rows = [] \<and> rg' = rg \<and> st' = st
    else committed_rows True (rg_data rg) (data_map (rd_write (rg_data rg))) = Inr rows
      \<and> writeRegionDataToStorage api (rg_table_id rg) None rows st = Inr st'
      \<and> data_map (rd_write (rg_data rg')) = []
      \<and> data_map (rd_default (rg_data rg')) = filter (\<lambda>p. Some (fst p) \<notin> value_key ` set (data_map (rd_write (rg_data rg))))
          (data_map (rd_default (rg_data rg)))
      \<and> rd_lock (rg_data rg') = rd_lock (rg_data rg) \<and> rg_meta rg' = rg_meta rg \<and> region_inv rg'"
proof (rule writeBlockByRegion_cases [OF assms(2)])
  assume e: "rows = []" "rg' = rg" "st' = st" and "ReadRegionCommitCache rg = Inr None"
  then have "isPendingRemove rg \<or> data_map (rd_write (rg_data rg)) = []"
    by (auto simp: ReadRegionCommitCache_rows rbind_eq_Inr split: if_splits)
  with e show ?thesis by simp
next
  assume w: "rg' = RemoveRegionCommitCache rows rg" "writeRegionDataToStorage api (rg_table_id rg) None rows st = Inr st'"
    and "case None of Some c \<Rightarrow> rows = pd_rows c | None \<Rightarrow> ReadRegionCommitCache rg = Inr (Some rows)"
  then have c: "\<not> (isPendingRemove rg \<or> data_map (rd_write (rg_data rg)) = [])"
      "committed_rows True (rg_data rg) (data_map (rd_write (rg_data rg))) = Inr rows"
    by (simp_all add: ReadRegionCommitCache_rows rbind_eq_Inr split: if_splits)
  show ?thesis
    using c w flush_removes_rows [OF assms(1) c(2)] RemoveRegionCommitCache_inv [OF assms(1)] by simp
qed

theorem flush_moves_committed_rows_witness:
  "\<exists>rg'. writeBlockByRegion sample_api None sample_region [] =
       Inr ([(handle_pk 7, PutFlag, 9, Some [1, 2])], rg', [(handle_pk 7, PutFlag, 9, Some [1, 2])])
     \<and> data_map (rd_write (rg_data rg')) = []"
proof -
  have t: "rg_table_id sample_region = 1" by (simp add: sample_region_def)
  have w: "writeBlockByRegion sample_api None sample_region [] = Inr ([(handle_pk 7, PutFlag, 9, Some [1, 2])],
      RemoveRegionCommitCache [(handle_pk 7, PutFlag, 9, Some [1, 2])] sample_region, [(handle_pk 7, PutFlag, 9, Some [1, 2])])"
    using sample_not_pending sample_write_nonempty
    by (simp add: writeBlockByRegion_def ReadRegionCommitCache_rows sample_rows t sample_store_rows)
  show ?thesis
    using flush_moves_committed_rows [OF sample_region_inv w] w sample_not_pending sample_write_nonempty by simp
qed

text \<open>
  The scan of a live region with commit records ends and gives one row per record, in the order of the
  records, provided that every record with a value finds it.
\<close>

lemma commit_scan_ends:
  assumes "\<not> isPendingRemove rg" and "data_map (rd_write (rg_data rg)) \<noteq> []"
    and "\<forall>it \<in> set (data_map (rd_write (rg_data rg))). \<exists>info. readDataByWriteIt it True (rg_data rg) = Inr info"
  shows "\<exists>rows. ReadRegionCommitCache rg = Inr (Some rows) \<and> map row_key rows = map fst (data_map (rd_write (rg_data rg)))
    \<and> list_all2 (\<lambda>it info. readDataByWriteIt it True (rg_data rg) = Inr info) (data_map (rd_write (rg_data rg))) rows"
proof -
  obtain rows where r: "committed_rows True (rg_data rg) (data_map (rd_write (rg_data rg))) = Inr rows"
    using committed_rows_defined [OF assms(3)] by blast
  have "list_all2 (\<lambda>it info. readDataByWriteIt it True d = Inr info) m rows" if "committed_rows True d m = Inr rows" for d m rows
    using that by (induction m arbitrary: rows) (auto simp: rbind_eq_Inr)
  with r show ?thesis using assms(1,2) committed_rows_keys [OF r] by (simp add: ReadRegionCommitCache_rows)
qed

text \<open>
  C21: a read that resolves locks succeeds only in the normal state, at the version the reader expects and for
  its table, when no lock of the region blocks it, and then gives all committed rows; when it reports a lock
  this is a lock of the region that blocks the read.
\<close>

theorem locked_read_safe:
  assumes "resolveLocksAndReadRegionData table_id start_ts bypass ver conf_ver True need_value rg = Inr out"
  shows "(\<forall>rows rng. out = ReadDone rows RS_OK rng \<longrightarrow>
        peerState rg = Normal \<and> getVersion (rm_state (rg_meta rg)) = ver \<and> getConfVersion (rm_state (rg_meta rg)) = conf_ver
        \<and> (\<forall>p \<in> set (data_map (rd_lock (rg_data rg))). \<not> blocks \<lparr>read_tso = start_ts, bypass_lock_ts = bypass\<rparr> (snd (snd (snd p))))
        \<and> committed_rows need_value (rg_data rg) (data_map (rd_write (rg_data rg))) = Inr rows)
    \<and> (\<forall>i l. out = LockException i l \<longrightarrow> i = region_id rg \<and> blocks \<lparr>read_tso = start_ts, bypass_lock_ts = bypass\<rparr> l
        \<and> (\<exists>p \<in> set (data_map (rd_lock (rg_data rg))). snd (snd (snd p)) = l))"
proof -
  let ?q = "\<lparr>read_tso = start_ts, bypass_lock_ts = bypass\<rparr>" and ?locks = "data_map (rd_lock (rg_data rg))"
  have find: "getLockInfo ?q (rg_data rg) = List.find (blocks ?q) (map (\<lambda>p. snd (snd (snd p))) ?locks)"
    by (simp add: getLockInfo_def getLockInfo_loop_find)
  show ?thesis
  proof (intro conjI allI impI)
    fix rows rng assume out: "out = ReadDone rows RS_OK rng"
    have r: "peerState rg = Normal" "getVersion (rm_state (rg_meta rg)) = ver" "getConfVersion (rm_state (rg_meta rg)) = conf_ver"
        "getLockInfo ?q (rg_data rg) = None" "committed_rows need_value (rg_data rg) (data_map (rd_write (rg_data rg))) = Inr rows"
      using locked_read_cases [OF assms] unfolding out by auto
    then show "peerState rg = Normal" "getVersion (rm_state (rg_meta rg)) = ver" "getConfVersion (rm_state (rg_meta rg)) = conf_ver"
        "committed_rows need_value (rg_data rg) (data_map (rd_write (rg_data rg))) = Inr rows" by simp_all
    show "\<forall>p \<in> set ?locks. \<not> blocks ?q (snd (snd (snd p)))" using r(4) by (auto simp: find find_None_iff)
  next
    fix i l assume out: "out = LockException i l"
    have r: "i = region_id rg" "getLockInfo ?q (rg_data rg) = Some l" using locked_read_cases [OF assms] unfolding out by auto
    then show "i = region_id rg" by simp
    show "blocks ?q l" "\<exists>p \<in> set ?locks. snd (snd (snd p)) = l"
      using r(2) by (force simp: find find_Some_iff)+
  qed
qed

theorem locked_read_safe_witness:
  "\<exists>out. resolveLocksAndReadRegionData 1 30 None 4 2 True True sample_region = Inr out
     \<and> out = ReadDone [(handle_pk 7, PutFlag, 9, Some [1, 2])] RS_OK (Some (genRawKey 1 0, genRawKey 1 50))
     \<and> (\<forall>p \<in> set (data_map (rd_lock (rg_data sample_region))). \<not> blocks \<lparr>read_tso = 30, bypass_lock_ts = None\<rparr> (snd (snd (snd p))))"
proof -
  have n: "peerState sample_region = Normal"
    by (simp add: peerState_def meta_peerState_def sample_region_def sample_meta_def getState_def)
  have d: "dumpRegionMetaSnapshot (rg_meta sample_region) = Inr \<lparr>snap_ver = 4, snap_conf_ver = 2, snap_range = sample_keys 0 50,
      snap_peer = rm_peer (rg_meta sample_region)\<rparr>"
    by (simp add: dumpRegionMetaSnapshot_def meta_getRange_def sample_region_def sample_meta_def sample_meta_region_def state_defs)
  have l: "getLockInfo q (rg_data sample_region) = None" for q
    by (simp add: getLockInfo_def sample_region_def sample_data_def sample_default_def empty_RegionData_def empty_cf_def)
  have k: "RegionRangeKeys.raw (sample_keys 0 50) = (genRawKey 1 0, genRawKey 1 50)" by (simp add: sample_keys_def)
  have "resolveLocksAndReadRegionData 1 30 None 4 2 True True sample_region
      = Inr (ReadDone [(handle_pk 7, PutFlag, 9, Some [1, 2])] RS_OK (Some (genRawKey 1 0, genRawKey 1 50)))"
    using sample_rows sample_write_nonempty
    by (simp add: resolveLocksAndReadRegionData_def n d l k computeMappedTableID_genRawKey createCommittedScanner_def hasNext_def Let_def
        scan_all_rows)
  from this locked_read_safe [OF this] show ?thesis by blast
qed

end
