(* ===== verification/RegionTable.thy ===== *)
theory RegionTable
  imports RegionFlush
begin

section \<open>The table of regions\<close>

text \<open>
  \<open>Storages/Transaction/RegionTable.cpp\<close>: which regions belong to which table, the key range that each of them
  has in the storage, and which regions have data to flush. The unordered containers are lists without
  duplicate keys; a loop over one visits the elements in the order of the list. An iterator past the end that
  is dereferenced is \<open>OutOfBounds\<close>. The current time is an argument, in nanoseconds; the thresholds are in
  seconds. The calls of the delta-merge storage are an argument.
\<close>

subsection \<open>State\<close>

type_synonym RawRange = "DecodedTiKVKey \<times> DecodedTiKVKey"

record InternalRegion =
  ir_region_id :: RegionID
  range_in_table :: RawRange
  pause_flush :: bool
  cache_bytes :: Int64
  last_flush_time :: Timepoint

record Table =
  tb_table_id :: TableID
  tb_regions :: "(RegionID \<times> InternalRegion) list"

record RegionTable =
  rt_tables :: "(TableID \<times> Table) list"
  rt_regions :: "(RegionID \<times> TableID) list"
  dirty_regions :: "RegionID list"
  table_to_optimize :: "TableID list"
  flush_thresholds :: "(Int64 \<times> int) list"

definition InvalidTableID :: TableID where "InvalidTableID = - 1"
definition InvalidRegionID :: RegionID where "InvalidRegionID = 0"

definition mk_InternalRegion :: "Timepoint \<Rightarrow> RegionID \<Rightarrow> RawRange \<Rightarrow> InternalRegion" where
  "mk_InternalRegion now i r = \<lparr>ir_region_id = i, range_in_table = r, pause_flush = False, cache_bytes = 0, last_flush_time = now\<rparr>"

definition default_thresholds :: "(Int64 \<times> int) list" where
  "default_thresholds = [(1, 60 * 60), (1024 * 1024, 60 * 5), (1024 * 1024 * 10, 60), (1024 * 1024 * 50, 5)]"

definition new_RegionTable :: RegionTable where
  "new_RegionTable = \<lparr>rt_tables = [], rt_regions = [], dirty_regions = [], table_to_optimize = [], flush_thresholds = default_thresholds\<rparr>"

definition setFlushThresholds :: "(Int64 \<times> int) list \<Rightarrow> RegionTable \<Rightarrow> RegionTable" where
  "setFlushThresholds th rt = rt\<lparr>flush_thresholds := th\<rparr>"

subsection \<open>Operations\<close>

definition getOrCreateTable :: "TableID \<Rightarrow> RegionTable \<Rightarrow> RegionTable" where
  "getOrCreateTable table_id rt =
     (case map_of (rt_tables rt) table_id of
        Some t \<Rightarrow> rt
      | None \<Rightarrow> rt\<lparr>rt_tables := AList.update table_id \<lparr>tb_table_id = table_id, tb_regions = []\<rparr> (rt_tables rt)\<rparr>)"

definition doGetInternalRegion :: "TableID \<Rightarrow> RegionID \<Rightarrow> RegionTable \<Rightarrow> InternalRegion result" where
  "doGetInternalRegion table_id i rt =
     (case map_of (rt_tables rt) table_id of None \<Rightarrow> Inl OutOfBounds
      | Some t \<Rightarrow> (case map_of (tb_regions t) i of None \<Rightarrow> Inl OutOfBounds | Some ir \<Rightarrow> Inr ir))"

text \<open>Writing through the reference that \<open>doGetInternalRegion\<close> gives.\<close>

definition setInternalRegion :: "TableID \<Rightarrow> RegionID \<Rightarrow> InternalRegion \<Rightarrow> RegionTable \<Rightarrow> RegionTable" where
  "setInternalRegion table_id i ir rt =
     (case map_of (rt_tables rt) table_id of None \<Rightarrow> rt
      | Some t \<Rightarrow> rt\<lparr>rt_tables := AList.update table_id (t\<lparr>tb_regions := AList.update i ir (tb_regions t)\<rparr>) (rt_tables rt)\<rparr>)"

definition insertRegion :: "Timepoint \<Rightarrow> TableID \<Rightarrow> RawRange \<Rightarrow> RegionID \<Rightarrow> RegionTable \<Rightarrow> RegionTable result" where
  "insertRegion now table_id raw_keys i rt =
     (case map_of (rt_tables rt) table_id of None \<Rightarrow> Inl OutOfBounds
      | Some t \<Rightarrow>
          if map_of (tb_regions t) i \<noteq> None then throw '': insert duplicate internal region ''
          else Inr ((setInternalRegion table_id i (mk_InternalRegion now i raw_keys) rt)
            \<lparr>rt_regions := AList.update i (tb_table_id t) (rt_regions rt)\<rparr>))"

definition getOrInsertRegion :: "Timepoint \<Rightarrow> Region \<Rightarrow> RegionTable \<Rightarrow> RegionTable result" where
  "getOrInsertRegion now rg rt =
     (let table_id = rg_table_id rg; rt1 = getOrCreateTable table_id rt
      in case map_of (rt_tables rt1) table_id of None \<Rightarrow> Inl OutOfBounds
         | Some t \<Rightarrow>
             if map_of (tb_regions t) (region_id rg) \<noteq> None then Inr rt1
             else rbind (meta_getRange (rg_meta rg)) (\<lambda>r.
               insertRegion now table_id (RegionRangeKeys.raw r) (region_id rg) rt1))"

definition dirty_insert :: "RegionID \<Rightarrow> RegionTable \<Rightarrow> RegionTable" where
  "dirty_insert i rt = rt\<lparr>dirty_regions := List.insert i (dirty_regions rt)\<rparr>"

definition updateRegion :: "Timepoint \<Rightarrow> Region \<Rightarrow> RegionTable \<Rightarrow> RegionTable result" where
  "updateRegion now rg rt =
     rbind (getOrInsertRegion now rg rt) (\<lambda>rt1.
     rbind (doGetInternalRegion (rg_table_id rg) (region_id rg) rt1) (\<lambda>ir.
       let ir' = ir\<lparr>cache_bytes := region_dataSize rg\<rparr>; rt2 = setInternalRegion (rg_table_id rg) (region_id rg) ir' rt1
       in Inr (if cache_bytes ir' \<noteq> 0 then dirty_insert (ir_region_id ir') rt2 else rt2)))"

definition shrinkRegionRange :: "Timepoint \<Rightarrow> Region \<Rightarrow> RegionTable \<Rightarrow> RegionTable result" where
  "shrinkRegionRange now rg rt =
     rbind (getOrInsertRegion now rg rt) (\<lambda>rt1.
     rbind (doGetInternalRegion (rg_table_id rg) (region_id rg) rt1) (\<lambda>ir.
     rbind (meta_getRange (rg_meta rg)) (\<lambda>r.
       let ir' = ir\<lparr>range_in_table := RegionRangeKeys.raw r, cache_bytes := region_dataSize rg\<rparr>;
           rt2 = setInternalRegion (rg_table_id rg) (region_id rg) ir' rt1
       in Inr (if cache_bytes ir' \<noteq> 0 then dirty_insert (ir_region_id ir') rt2 else rt2))))"

definition shouldFlush :: "Timepoint \<Rightarrow> (Int64 \<times> int) list \<Rightarrow> InternalRegion \<Rightarrow> bool" where
  "shouldFlush now thresholds ir =
     (if pause_flush ir then False
      else if cache_bytes ir = 0 then False
      else list_ex (\<lambda>(th_bytes, th_duration). th_bytes \<le>s cache_bytes ir \<and> now - last_flush_time ir \<ge> th_duration * 1000000000) thresholds)"

definition removeTable :: "TableID \<Rightarrow> RegionTable \<Rightarrow> RegionTable" where
  "removeTable table_id rt =
     (case map_of (rt_tables rt) table_id of None \<Rightarrow> rt
      | Some t \<Rightarrow> rt\<lparr>rt_regions := filter (\<lambda>p. fst p \<notin> fst ` set (tb_regions t)) (rt_regions rt),
          rt_tables := filter (\<lambda>p. fst p \<noteq> table_id) (rt_tables rt)\<rparr>)"

definition popOneTableToOptimize :: "RegionTable \<Rightarrow> TableID \<times> RegionTable" where
  "popOneTableToOptimize rt =
     (case table_to_optimize rt of [] \<Rightarrow> (InvalidTableID, rt) | t # ts \<Rightarrow> (t, rt\<lparr>table_to_optimize := ts\<rparr>))"

record 's DeltaApi =
  da_is_delta :: "TableID \<Rightarrow> 's \<Rightarrow> bool"
  da_lock :: "TableID \<Rightarrow> 's \<Rightarrow> unit result"
  da_delete_range :: "TableID \<Rightarrow> RawRange \<Rightarrow> 's \<Rightarrow> 's result"
  da_flush_cache :: "TableID \<Rightarrow> RawRange \<Rightarrow> 's \<Rightarrow> 's result"

text \<open>An exception that says the table is dropped is ignored; what was done before it stays.\<close>

definition ignore_dropped :: "'s \<Rightarrow> 's result \<Rightarrow> 's result" where
  "ignore_dropped st r = (case r of Inl TableIsDropped \<Rightarrow> Inr st | _ \<Rightarrow> r)"

definition removeObsoleteDataInStorage :: "'s DeltaApi \<Rightarrow> TableID \<Rightarrow> RawRange \<Rightarrow> 's \<Rightarrow> 's result" where
  "removeObsoleteDataInStorage api table_id handle_range st =
     (if \<not> da_is_delta api table_id st then Inr st
      else ignore_dropped st (rbind (da_lock api table_id st) (\<lambda>_.
        rbind (da_delete_range api table_id handle_range st) (\<lambda>st1.
          ignore_dropped st1 (da_flush_cache api table_id handle_range st1)))))"

definition eraseRegion :: "RegionID \<Rightarrow> RegionTable \<Rightarrow> ((TableID \<times> RawRange) \<times> RegionTable) option result" where
  "eraseRegion i rt =
     (case map_of (rt_regions rt) i of None \<Rightarrow> Inr None
      | Some table_id \<Rightarrow>
          (case map_of (rt_tables rt) table_id of None \<Rightarrow> Inl OutOfBounds
           | Some t \<Rightarrow> (case map_of (tb_regions t) i of None \<Rightarrow> Inl OutOfBounds
             | Some ir \<Rightarrow>
                 let t' = t\<lparr>tb_regions := filter (\<lambda>p. fst p \<noteq> i) (tb_regions t)\<rparr>;
                     rt1 = rt\<lparr>rt_regions := filter (\<lambda>p. fst p \<noteq> i) (rt_regions rt),
                       rt_tables := AList.update table_id t' (rt_tables rt)\<rparr>
                 in Inr (Some ((table_id, range_in_table ir),
                      if tb_regions t' = []
                      then rt1\<lparr>table_to_optimize := List.insert table_id (table_to_optimize rt1),
                        rt_tables := filter (\<lambda>p. fst p \<noteq> table_id) (rt_tables rt1)\<rparr>
                      else rt1)))))"

definition rt_removeRegion :: "'s DeltaApi \<Rightarrow> RegionID \<Rightarrow> bool \<Rightarrow> RegionTable \<Rightarrow> 's \<Rightarrow> (RegionTable \<times> 's) result" where
  "rt_removeRegion api i remove_data rt st =
     rbind (eraseRegion i rt) (\<lambda>e. case e of None \<Rightarrow> Inr (rt, st)
       | Some ((table_id, handle_range), rt') \<Rightarrow>
           if remove_data then rbind (removeObsoleteDataInStorage api table_id handle_range st) (\<lambda>st'. Inr (rt', st'))
           else Inr (rt', st))"

text \<open>The loop over the dirty regions keeps those it has passed; the result is the region and the ones that stay.\<close>

fun pick_loop :: "Timepoint \<Rightarrow> RegionTable \<Rightarrow> RegionID list \<Rightarrow> (RegionID \<times> RegionID list) result" where
  "pick_loop now rt [] = Inr (InvalidRegionID, [])"
| "pick_loop now rt (i # ds) =
     (case map_of (rt_regions rt) i of
        Some table_id \<Rightarrow> rbind (doGetInternalRegion table_id i rt) (\<lambda>ir.
          if shouldFlush now (flush_thresholds rt) ir then Inr (i, i # ds)
          else rbind (pick_loop now rt ds) (\<lambda>(r, kept). Inr (r, i # kept)))
      | None \<Rightarrow> pick_loop now rt ds)"

definition pickRegionToFlush :: "Timepoint \<Rightarrow> RegionTable \<Rightarrow> (RegionID \<times> RegionTable) result" where
  "pickRegionToFlush now rt =
     rbind (pick_loop now rt (dirty_regions rt)) (\<lambda>(i, kept). Inr (i, rt\<lparr>dirty_regions := kept\<rparr>))"

definition getRegionsByTable :: "(RegionID \<Rightarrow> Region option) \<Rightarrow> TableID \<Rightarrow> RegionTable \<Rightarrow> (RegionID \<times> Region) list" where
  "getRegionsByTable lookup table_id rt =
     (case map_of (rt_tables rt) table_id of None \<Rightarrow> []
      | Some t \<Rightarrow> List.map_filter (\<lambda>(i, _). map_option (\<lambda>rg. (i, rg)) (lookup i)) (tb_regions t))"

definition extend_range :: "RawRange \<Rightarrow> RawRange \<Rightarrow> RawRange" where
  "extend_range r new_range =
     (if fst new_range < fst r then fst new_range else fst r, if snd new_range > snd r then snd new_range else snd r)"

definition extendRegionRange :: "Timepoint \<Rightarrow> RegionID \<Rightarrow> RegionRangeKeys \<Rightarrow> RegionTable \<Rightarrow> RegionTable result" where
  "extendRegionRange now i keys rt =
     (let table_id = mapped_table_id keys; new_range = RegionRangeKeys.raw keys
      in case map_of (rt_regions rt) i of
           Some t \<Rightarrow>
             if table_id \<noteq> t then throw '' not match previous one ''
             else rbind (doGetInternalRegion table_id i rt) (\<lambda>ir.
               if fst (range_in_table ir) \<le> fst new_range \<and> snd (range_in_table ir) \<ge> snd new_range then Inr rt
               else Inr (setInternalRegion table_id i (ir\<lparr>range_in_table := extend_range (range_in_table ir) new_range\<rparr>) rt))
         | None \<Rightarrow> insertRegion now table_id new_range i (getOrCreateTable table_id rt))"

subsection \<open>The two updates around a flush\<close>

definition beginFlush :: "RegionID \<Rightarrow> RegionTable \<Rightarrow> (bool \<times> RegionTable) result" where
  "beginFlush i rt =
     (case map_of (rt_regions rt) i of None \<Rightarrow> Inr (False, rt)
      | Some table_id \<Rightarrow> rbind (doGetInternalRegion table_id i rt) (\<lambda>ir.
          if pause_flush ir then Inr (False, rt)
          else Inr (True, setInternalRegion table_id i (ir\<lparr>pause_flush := True\<rparr>) rt)))"

definition endFlush :: "Timepoint \<Rightarrow> Region \<Rightarrow> RegionTable \<Rightarrow> RegionTable result" where
  "endFlush now rg rt =
     (let i = region_id rg
      in case map_of (rt_regions rt) i of None \<Rightarrow> Inr rt
         | Some table_id \<Rightarrow> rbind (doGetInternalRegion table_id i rt) (\<lambda>ir.
             let ir' = ir\<lparr>pause_flush := False, cache_bytes := region_dataSize rg\<rparr>;
                 rt1 = (if cache_bytes ir' \<noteq> 0 then dirty_insert i rt else rt\<lparr>dirty_regions := filter (\<lambda>j. j \<noteq> i) (dirty_regions rt)\<rparr>)
             in Inr (setInternalRegion table_id i (ir'\<lparr>last_flush_time := now\<rparr>) rt1)))"

subsection \<open>Invariant\<close>

text \<open>
  Tables and internal regions carry their keys, and the two maps agree: a region is known to belong to a table
  exactly when it has an entry there. So the lookups that the code does without a check find something.
\<close>

definition table_ok :: "TableID \<Rightarrow> Table \<Rightarrow> bool" where
  "table_ok t tb \<longleftrightarrow> tb_table_id tb = t \<and> umap_inv (tb_regions tb)
     \<and> (\<forall>i ir. map_of (tb_regions tb) i = Some ir \<longrightarrow> ir_region_id ir = i)"

definition rt_inv :: "RegionTable \<Rightarrow> bool" where
  "rt_inv rt \<longleftrightarrow> umap_inv (rt_tables rt) \<and> umap_inv (rt_regions rt) \<and> distinct (dirty_regions rt)
     \<and> (\<forall>t tb. map_of (rt_tables rt) t = Some tb \<longrightarrow> table_ok t tb)
     \<and> (\<forall>i t. map_of (rt_regions rt) i = Some t \<longleftrightarrow> (\<exists>tb ir. map_of (rt_tables rt) t = Some tb \<and> map_of (tb_regions tb) i = Some ir))"

lemma rt_invI:
  assumes "umap_inv (rt_tables rt)" "umap_inv (rt_regions rt)" "distinct (dirty_regions rt)"
    "\<And>t tb. map_of (rt_tables rt) t = Some tb \<Longrightarrow> table_ok t tb"
    "\<And>i t. map_of (rt_regions rt) i = Some t \<longleftrightarrow> (\<exists>tb ir. map_of (rt_tables rt) t = Some tb \<and> map_of (tb_regions tb) i = Some ir)"
  shows "rt_inv rt"
  using assms by (simp add: rt_inv_def)

lemma rt_invD:
  assumes "rt_inv rt"
  shows "umap_inv (rt_tables rt)" "umap_inv (rt_regions rt)" "distinct (dirty_regions rt)"
    "\<And>t tb. map_of (rt_tables rt) t = Some tb \<Longrightarrow> table_ok t tb"
    "\<And>i t. map_of (rt_regions rt) i = Some t \<longleftrightarrow> (\<exists>tb ir. map_of (rt_tables rt) t = Some tb \<and> map_of (tb_regions tb) i = Some ir)"
  using assms by (simp_all add: rt_inv_def)

text \<open>A region object keeps the table that the region is known to belong to.\<close>

definition table_agrees :: "Region \<Rightarrow> RegionTable \<Rightarrow> bool" where
  "table_agrees rg rt \<longleftrightarrow> map_of (rt_regions rt) (region_id rg) \<in> {None, Some (rg_table_id rg)}"

lemma umap_inv_update: "umap_inv m \<Longrightarrow> umap_inv (AList.update k v m)"
  by (simp add: umap_inv_def distinct_update)

lemma umap_inv_filter: "umap_inv m \<Longrightarrow> umap_inv (filter P m)"
  by (simp add: umap_inv_def distinct_map_filter)

lemma new_RegionTable_inv: "rt_inv new_RegionTable"
  by (simp add: rt_inv_def new_RegionTable_def umap_inv_def)

lemma doGetInternalRegion_ok: "rt_inv rt \<Longrightarrow> map_of (rt_regions rt) i = Some t \<Longrightarrow> \<exists>ir. doGetInternalRegion t i rt = Inr ir \<and> ir_region_id ir = i"
  using rt_invD(4,5) [of rt] by (fastforce simp: doGetInternalRegion_def table_ok_def)

lemma doGetInternalRegion_id: "rt_inv rt \<Longrightarrow> doGetInternalRegion t i rt = Inr ir \<Longrightarrow> ir_region_id ir = i"
  using rt_invD(4) [of rt] by (auto simp: doGetInternalRegion_def table_ok_def split: option.splits)

lemma getOrCreateTable_inv:
  assumes inv: "rt_inv rt"
  shows "rt_inv (getOrCreateTable t rt)"
proof (cases "map_of (rt_tables rt) t")
  case None
  let ?rt = "getOrCreateTable t rt"
  have f: "rt_tables ?rt = AList.update t \<lparr>tb_table_id = t, tb_regions = []\<rparr> (rt_tables rt)" "rt_regions ?rt = rt_regions rt"
      "dirty_regions ?rt = dirty_regions rt"
    by (simp_all add: getOrCreateTable_def None)
  show ?thesis
    using rt_invD [OF inv] None
    by (intro rt_invI) (auto simp: f update_conv' umap_inv_update table_ok_def umap_inv_def [of "[]"] split: if_splits)
qed (use inv in \<open>simp add: getOrCreateTable_def\<close>)

lemma getOrCreateTable_fields:
  "rt_regions (getOrCreateTable t rt) = rt_regions rt" "\<exists>tb. map_of (rt_tables (getOrCreateTable t rt)) t = Some tb"
  by (auto simp: getOrCreateTable_def update_conv' split: option.split)

lemma table_ok_update:
  "table_ok t tb \<Longrightarrow> ir_region_id ir = i \<Longrightarrow> table_ok t (tb\<lparr>tb_regions := AList.update i ir (tb_regions tb)\<rparr>)"
  by (simp add: table_ok_def update_conv' umap_inv_update)

lemma setInternalRegion_inv:
  assumes inv: "rt_inv rt" and ir: "ir_region_id ir = i" and known: "map_of (rt_regions rt) i = Some t"
  shows "rt_inv (setInternalRegion t i ir rt)"
proof -
  obtain tb ir0 where tb: "map_of (rt_tables rt) t = Some tb" "map_of (tb_regions tb) i = Some ir0"
    using known rt_invD(5) [OF inv] by blast
  have ok: "table_ok t tb" by (rule rt_invD(4) [OF inv tb(1)])
  let ?rt = "setInternalRegion t i ir rt"
  have f: "rt_tables ?rt = AList.update t (tb\<lparr>tb_regions := AList.update i ir (tb_regions tb)\<rparr>) (rt_tables rt)"
      "rt_regions ?rt = rt_regions rt" "dirty_regions ?rt = dirty_regions rt"
    by (simp_all add: setInternalRegion_def tb)
  show ?thesis
  proof (rule rt_invI)
    show "umap_inv (rt_tables ?rt)" "umap_inv (rt_regions ?rt)" "distinct (dirty_regions ?rt)"
      using rt_invD(1-3) [OF inv] by (simp_all add: f umap_inv_update)
    show "table_ok t' tb'" if "map_of (rt_tables ?rt) t' = Some tb'" for t' tb'
      using that table_ok_update [OF ok ir] rt_invD(4) [OF inv, of t' tb'] by (cases "t' = t") (simp_all add: f update_conv')
    show "map_of (rt_regions ?rt) j = Some t' \<longleftrightarrow> (\<exists>tb ir'. map_of (rt_tables ?rt) t' = Some tb \<and> map_of (tb_regions tb) j = Some ir')" for j t'
      using rt_invD(5) [OF inv, of j t'] tb known by (cases "t' = t"; cases "j = i") (simp_all add: f update_conv')
  qed
qed

lemma setInternalRegion_fields:
  "rt_regions (setInternalRegion t i ir rt) = rt_regions rt" "dirty_regions (setInternalRegion t i ir rt) = dirty_regions rt"
  "flush_thresholds (setInternalRegion t i ir rt) = flush_thresholds rt"
  by (simp_all add: setInternalRegion_def split: option.split)

lemma insertRegion_inv:
  assumes inv: "rt_inv rt" and new: "map_of (rt_regions rt) i = None" and ins: "insertRegion now t r i rt = Inr rt'"
  shows "rt_inv rt'"
proof -
  obtain tb where tb: "map_of (rt_tables rt) t = Some tb"
      and rt': "rt' = (setInternalRegion t i (mk_InternalRegion now i r) rt)\<lparr>rt_regions := AList.update i t (rt_regions rt)\<rparr>"
    using ins rt_invD(4) [OF inv] by (auto simp: insertRegion_def table_ok_def split: option.splits if_splits)
  have ok: "table_ok t tb" by (rule rt_invD(4) [OF inv tb])
  let ?ir = "mk_InternalRegion now i r"
  have f: "rt_tables rt' = AList.update t (tb\<lparr>tb_regions := AList.update i ?ir (tb_regions tb)\<rparr>) (rt_tables rt)"
      "rt_regions rt' = AList.update i t (rt_regions rt)" "dirty_regions rt' = dirty_regions rt"
    by (simp_all add: rt' setInternalRegion_def tb)
  have no: "\<not> (\<exists>tb ir. map_of (rt_tables rt) u = Some tb \<and> map_of (tb_regions tb) i = Some ir)" for u
    using new rt_invD(5) [OF inv, of i u] by simp
  show ?thesis
  proof (rule rt_invI)
    show "umap_inv (rt_tables rt')" "umap_inv (rt_regions rt')" "distinct (dirty_regions rt')"
      using rt_invD(1-3) [OF inv] by (simp_all add: f umap_inv_update)
    show "table_ok t' tb'" if "map_of (rt_tables rt') t' = Some tb'" for t' tb'
      using that table_ok_update [OF ok, of ?ir i] rt_invD(4) [OF inv, of t' tb']
      by (cases "t' = t") (simp_all add: f update_conv' mk_InternalRegion_def)
    show "map_of (rt_regions rt') j = Some t' \<longleftrightarrow> (\<exists>tb ir'. map_of (rt_tables rt') t' = Some tb \<and> map_of (tb_regions tb) j = Some ir')" for j t'
      using rt_invD(5) [OF inv, of j t'] no [of t'] tb by (cases "t' = t"; cases "j = i") (simp_all add: f update_conv')
  qed
qed

lemma getOrInsertRegion_ok:
  assumes inv: "rt_inv rt" and agr: "table_agrees rg rt" and g: "getOrInsertRegion now rg rt = Inr rt'"
  shows "rt_inv rt'" "map_of (rt_regions rt') = (map_of (rt_regions rt))(region_id rg \<mapsto> rg_table_id rg)"
proof -
  let ?t = "rg_table_id rg" and ?i = "region_id rg" and ?rt = "getOrCreateTable (rg_table_id rg) rt"
  have c: "rt_inv ?rt" by (rule getOrCreateTable_inv [OF inv])
  obtain tb where tb: "map_of (rt_tables ?rt) ?t = Some tb" using getOrCreateTable_fields(2) by blast
  have "rt_inv rt' \<and> map_of (rt_regions rt') = (map_of (rt_regions rt))(?i \<mapsto> ?t)"
  proof (cases "map_of (tb_regions tb) ?i")
    case (Some ir)
    then have "map_of (rt_regions rt) ?i = Some ?t" using rt_invD(5) [OF c, of ?i ?t] tb by (simp add: getOrCreateTable_fields)
    then show ?thesis using g c tb Some by (auto simp: getOrInsertRegion_def Let_def getOrCreateTable_fields)
  next
    case None
    then obtain r :: RegionRangeKeys where r: "insertRegion now ?t (RegionRangeKeys.raw r) ?i ?rt = Inr rt'" using g tb by (auto simp: getOrInsertRegion_def Let_def rbind_eq_Inr)
    have "map_of (rt_regions rt) ?i \<noteq> Some ?t" using None rt_invD(5) [OF c, of ?i ?t] tb by (simp add: getOrCreateTable_fields)
    then have "map_of (rt_regions rt) ?i = None" using agr by (simp add: table_agrees_def)
    then have "rt_inv rt'" using insertRegion_inv [OF c _ r] by (simp add: getOrCreateTable_fields)
    moreover have "rt_regions rt' = AList.update ?i ?t (rt_regions rt)"
      using r tb None rt_invD(4) [OF c tb]
      by (auto simp: insertRegion_def setInternalRegion_fields getOrCreateTable_fields table_ok_def)
    ultimately show ?thesis by (simp add: update_conv')
  qed
  then show "rt_inv rt'" "map_of (rt_regions rt') = (map_of (rt_regions rt))(?i \<mapsto> ?t)" by simp_all
qed

lemma dirty_insert_inv: "rt_inv (dirty_insert i rt) \<longleftrightarrow> rt_inv rt"
  by (auto simp: rt_inv_def dirty_insert_def List.insert_def)

lemma set_got_inv:
  assumes inv: "rt_inv rt" and got: "doGetInternalRegion t i rt = Inr ir" and id: "ir_region_id ir' = ir_region_id ir"
  shows "rt_inv (setInternalRegion t i ir' rt)"
proof (rule setInternalRegion_inv [OF inv])
  show "ir_region_id ir' = i" using id doGetInternalRegion_id [OF inv got] by simp
  show "map_of (rt_regions rt) i = Some t"
    using got rt_invD(5) [OF inv, of i t] by (auto simp: doGetInternalRegion_def split: option.splits)
qed

lemma updateRegion_ok:
  assumes "rt_inv rt" "table_agrees rg rt" "updateRegion now rg rt = Inr rt'"
  shows "rt_inv rt'" "map_of (rt_regions rt') = (map_of (rt_regions rt))(region_id rg \<mapsto> rg_table_id rg)"
proof -
  obtain rt1 ir where a: "getOrInsertRegion now rg rt = Inr rt1" "doGetInternalRegion (rg_table_id rg) (region_id rg) rt1 = Inr ir"
    using assms(3) by (auto simp: updateRegion_def rbind_eq_Inr)
  note g = getOrInsertRegion_ok [OF assms(1,2) a(1)]
  have "rt_inv (setInternalRegion (rg_table_id rg) (region_id rg) (ir\<lparr>cache_bytes := c\<rparr>) rt1)" for c
    by (rule set_got_inv [OF g(1) a(2)]) simp
  then show "rt_inv rt'" using assms(3) a by (auto simp: updateRegion_def Let_def dirty_insert_inv split: if_splits)
  show "map_of (rt_regions rt') = (map_of (rt_regions rt))(region_id rg \<mapsto> rg_table_id rg)"
    using assms(3) a g(2) by (auto simp: updateRegion_def Let_def dirty_insert_def setInternalRegion_fields split: if_splits)
qed

lemma shrinkRegionRange_ok:
  assumes "rt_inv rt" "table_agrees rg rt" "shrinkRegionRange now rg rt = Inr rt'"
  shows "rt_inv rt'" "map_of (rt_regions rt') = (map_of (rt_regions rt))(region_id rg \<mapsto> rg_table_id rg)"
proof -
  obtain rt1 ir r where a: "getOrInsertRegion now rg rt = Inr rt1" "doGetInternalRegion (rg_table_id rg) (region_id rg) rt1 = Inr ir"
      "meta_getRange (rg_meta rg) = Inr r"
    using assms(3) by (auto simp: shrinkRegionRange_def rbind_eq_Inr)
  note g = getOrInsertRegion_ok [OF assms(1,2) a(1)]
  have "rt_inv (setInternalRegion (rg_table_id rg) (region_id rg) (ir\<lparr>range_in_table := RegionRangeKeys.raw r, cache_bytes := c\<rparr>) rt1)" for c
    by (rule set_got_inv [OF g(1) a(2)]) simp
  then show "rt_inv rt'" using assms(3) a by (auto simp: shrinkRegionRange_def Let_def dirty_insert_inv split: if_splits)
  show "map_of (rt_regions rt') = (map_of (rt_regions rt))(region_id rg \<mapsto> rg_table_id rg)"
    using assms(3) a g(2) by (auto simp: shrinkRegionRange_def Let_def dirty_insert_def setInternalRegion_fields split: if_splits)
qed

lemma extendRegionRange_inv:
  assumes inv: "rt_inv rt" and e: "extendRegionRange now i keys rt = Inr rt'"
  shows "rt_inv rt'" "map_of (rt_regions rt') = (map_of (rt_regions rt))(i \<mapsto> mapped_table_id keys)"
proof -
  let ?t = "mapped_table_id keys"
  have "rt_inv rt' \<and> map_of (rt_regions rt') = (map_of (rt_regions rt))(i \<mapsto> ?t)"
  proof (cases "map_of (rt_regions rt) i")
    case None
    then have r: "insertRegion now ?t (RegionRangeKeys.raw keys) i (getOrCreateTable ?t rt) = Inr rt'"
      using e by (simp add: extendRegionRange_def Let_def)
    have c: "rt_inv (getOrCreateTable ?t rt)" by (rule getOrCreateTable_inv [OF inv])
    have "rt_inv rt'" using insertRegion_inv [OF c _ r] None by (simp add: getOrCreateTable_fields)
    moreover have "rt_regions rt' = AList.update i ?t (rt_regions rt)"
      using r rt_invD(4) [OF c] by (auto simp: insertRegion_def setInternalRegion_fields getOrCreateTable_fields table_ok_def
          split: option.splits if_splits)
    ultimately show ?thesis by (simp add: update_conv')
  next
    case (Some t)
    then have t: "t = ?t" using e by (auto simp: extendRegionRange_def Let_def split: if_splits)
    obtain ir where ir: "doGetInternalRegion ?t i rt = Inr ir" using e Some t by (auto simp: extendRegionRange_def Let_def rbind_eq_Inr)
    have "rt_inv (setInternalRegion ?t i (ir\<lparr>range_in_table := extend_range (range_in_table ir) (RegionRangeKeys.raw keys)\<rparr>) rt)"
      by (rule set_got_inv [OF inv ir]) simp
    then show ?thesis
      using e Some t ir inv by (auto simp: extendRegionRange_def Let_def setInternalRegion_fields split: if_splits)
  qed
  then show "rt_inv rt'" "map_of (rt_regions rt') = (map_of (rt_regions rt))(i \<mapsto> ?t)" by simp_all
qed

lemma map_of_filter_keys: "map_of (filter (\<lambda>p. P (fst p)) m) k = (if P k then map_of m k else None)"
  by (induction m) auto

lemma removeTable_inv:
  assumes inv: "rt_inv rt"
  shows "rt_inv (removeTable t rt)"
proof (cases "map_of (rt_tables rt) t")
  case None
  then show ?thesis using inv by (simp add: removeTable_def)
next
  case (Some tb)
  let ?rt = "removeTable t rt"
  have f: "rt_tables ?rt = filter (\<lambda>p. fst p \<noteq> t) (rt_tables rt)" "dirty_regions ?rt = dirty_regions rt"
      "rt_regions ?rt = filter (\<lambda>p. fst p \<notin> fst ` set (tb_regions tb)) (rt_regions rt)"
    by (simp_all add: removeTable_def Some)
  show ?thesis
  proof (rule rt_invI)
    show "umap_inv (rt_tables ?rt)" "umap_inv (rt_regions ?rt)" "distinct (dirty_regions ?rt)"
      using rt_invD(1-3) [OF inv] by (simp_all add: f umap_inv_filter)
    show "table_ok t' tb'" if "map_of (rt_tables ?rt) t' = Some tb'" for t' tb'
      using that rt_invD(4) [OF inv, of t' tb'] by (simp add: f map_of_erase split: if_splits)
    show "map_of (rt_regions ?rt) j = Some t' \<longleftrightarrow> (\<exists>tb' ir. map_of (rt_tables ?rt) t' = Some tb' \<and> map_of (tb_regions tb') j = Some ir)" for j t'
    proof -
      have "j \<in> fst ` set (tb_regions tb) \<longleftrightarrow> map_of (rt_regions rt) j = Some t"
        using rt_invD(5) [OF inv, of j t] Some by (auto simp: not_None_eq [symmetric] map_of_eq_None_iff simp del: not_None_eq)
      then show ?thesis
        using rt_invD(5) [OF inv, of j t'] Some
        by (auto simp: f map_of_erase map_of_filter_keys [of "\<lambda>i. i \<notin> fst ` set (tb_regions tb)"])
    qed
  qed
qed

lemma eraseRegion_inv:
  assumes inv: "rt_inv rt" and er: "eraseRegion i rt = Inr (Some (tr, rt'))"
  shows "rt_inv rt'" "map_of (rt_regions rt') = (map_of (rt_regions rt))(i := None)"
proof -
  obtain t tb ir where t: "map_of (rt_regions rt) i = Some t" "map_of (rt_tables rt) t = Some tb" "map_of (tb_regions tb) i = Some ir"
    using er by (auto simp: eraseRegion_def split: option.splits)
  define tb' where "tb' = tb\<lparr>tb_regions := filter (\<lambda>p. fst p \<noteq> i) (tb_regions tb)\<rparr>"
  have rt': "rt_regions rt' = filter (\<lambda>p. fst p \<noteq> i) (rt_regions rt)" "dirty_regions rt' = dirty_regions rt"
      "rt_tables rt' = (if tb_regions tb' = [] then filter (\<lambda>p. fst p \<noteq> t) (AList.update t tb' (rt_tables rt)) else AList.update t tb' (rt_tables rt))"
    using er by (auto simp: eraseRegion_def t Let_def tb'_def)
  show "map_of (rt_regions rt') = (map_of (rt_regions rt))(i := None)" by (simp add: rt' map_of_erase)
  have ok: "table_ok t tb'" using rt_invD(4) [OF inv t(2)] by (auto simp: table_ok_def tb'_def umap_inv_filter map_of_erase)
  show "rt_inv rt'"
  proof (rule rt_invI)
    show "umap_inv (rt_tables rt')" "umap_inv (rt_regions rt')" "distinct (dirty_regions rt')"
      using rt_invD(1-3) [OF inv] by (simp_all add: rt' umap_inv_filter umap_inv_update)
    show "table_ok u ub" if "map_of (rt_tables rt') u = Some ub" for u ub
      using that ok rt_invD(4) [OF inv, of u ub] by (auto simp: rt' map_of_erase update_conv' split: if_splits)
    show "map_of (rt_regions rt') j = Some u \<longleftrightarrow> (\<exists>ub ir. map_of (rt_tables rt') u = Some ub \<and> map_of (tb_regions ub) j = Some ir)" for j u
    proof (cases "u = t")
      case True
      have "map_of (rt_tables rt') t = (if tb_regions tb' = [] then None else Some tb')" by (simp add: rt' map_of_erase update_conv')
      moreover have "map_of (tb_regions tb') j = (if j = i then None else map_of (tb_regions tb) j)" by (simp add: tb'_def map_of_erase)
      ultimately show ?thesis
        using True rt_invD(5) [OF inv, of j t] t by (cases "j = i") (auto simp: rt'(1) map_of_erase)
    next
      case False
      then show ?thesis using rt_invD(5) [OF inv, of j u] rt_invD(5) [OF inv, of i u] t by (auto simp: rt' map_of_erase update_conv')
    qed
  qed
qed

lemma rt_removeRegion_cases:
  assumes "rt_removeRegion api i remove_data rt st = Inr (rt', st')"
  shows "eraseRegion i rt = Inr None \<and> rt' = rt \<and> st' = st
    \<or> (\<exists>t r. eraseRegion i rt = Inr (Some ((t, r), rt')) \<and> (if remove_data then removeObsoleteDataInStorage api t r st = Inr st' else st' = st))"
proof (cases "eraseRegion i rt")
  case (Inr e)
  show ?thesis
  proof (cases e)
    case None
    then show ?thesis using assms Inr by (simp add: rt_removeRegion_def)
  next
    case (Some x)
    obtain t r rt1 where "x = ((t, r), rt1)" by (metis prod.exhaust)
    then show ?thesis using assms Inr Some by (cases remove_data) (simp_all add: rt_removeRegion_def rbind_eq_Inr)
  qed
qed (use assms in \<open>simp add: rt_removeRegion_def\<close>)

lemma rt_removeRegion_inv: "rt_inv rt \<Longrightarrow> rt_removeRegion api i remove_data rt st = Inr (rt', st') \<Longrightarrow> rt_inv rt'"
  using rt_removeRegion_cases [of api i remove_data rt st rt' st'] eraseRegion_inv(1) by blast

lemma pick_loop_ok:
  assumes "rt_inv rt"
  shows "\<exists>r kept. pick_loop now rt ds = Inr (r, kept) \<and> set kept \<subseteq> set ds \<and> (distinct ds \<longrightarrow> distinct kept)
    \<and> (r = InvalidRegionID \<or> r \<in> set ds \<and> (\<exists>t ir. map_of (rt_regions rt) r = Some t \<and> doGetInternalRegion t r rt = Inr ir
        \<and> shouldFlush now (flush_thresholds rt) ir))"
proof (induction ds)
  case (Cons i ds)
  then obtain r kept where IH: "pick_loop now rt ds = Inr (r, kept)" "set kept \<subseteq> set ds" "distinct ds \<longrightarrow> distinct kept"
      "r = InvalidRegionID \<or> r \<in> set ds \<and> (\<exists>t ir. map_of (rt_regions rt) r = Some t \<and> doGetInternalRegion t r rt = Inr ir
        \<and> shouldFlush now (flush_thresholds rt) ir)"
    by blast
  show ?case
  proof (cases "map_of (rt_regions rt) i")
    case None
    then show ?thesis using IH by auto
  next
    case (Some t)
    then obtain ir where "doGetInternalRegion t i rt = Inr ir" using doGetInternalRegion_ok [OF assms] by blast
    with Some IH show ?thesis by (cases "shouldFlush now (flush_thresholds rt) ir") auto
  qed
qed simp

lemma beginFlush_inv: "rt_inv rt \<Longrightarrow> beginFlush i rt = Inr (b, rt') \<Longrightarrow> rt_inv rt'"
  by (auto simp: beginFlush_def rbind_eq_Inr intro: set_got_inv split: option.splits if_splits)

lemma endFlush_inv:
  assumes inv: "rt_inv rt" and e: "endFlush now rg rt = Inr rt'"
  shows "rt_inv rt'"
proof (cases "map_of (rt_regions rt) (region_id rg)")
  case None
  then show ?thesis using e inv by (simp add: endFlush_def Let_def)
next
  case (Some t)
  then obtain ir where ir: "doGetInternalRegion t (region_id rg) rt = Inr ir"
    using e by (auto simp: endFlush_def Let_def rbind_eq_Inr)
  have "rt_inv (setInternalRegion t (region_id rg) (ir\<lparr>pause_flush := p, cache_bytes := c, last_flush_time := l\<rparr>)
      (rt\<lparr>dirty_regions := d\<rparr>))" if "distinct d" for p c l d
  proof (rule set_got_inv)
    show "rt_inv (rt\<lparr>dirty_regions := d\<rparr>)" using inv that by (simp add: rt_inv_def)
    show "doGetInternalRegion t (region_id rg) (rt\<lparr>dirty_regions := d\<rparr>) = Inr ir" using ir by (simp add: doGetInternalRegion_def)
  qed simp
  then show ?thesis
    using e Some ir rt_invD(3) [OF inv]
    by (auto simp: endFlush_def Let_def rbind_eq_Inr dirty_insert_def split: if_splits)
qed

subsection \<open>Abstraction\<close>

text \<open>The table of regions as a map from regions to their table and their range in it.\<close>

definition rt_abs :: "RegionTable \<Rightarrow> RegionID \<Rightarrow> (TableID \<times> RawRange) option" where
  "rt_abs rt i = (case map_of (rt_regions rt) i of None \<Rightarrow> None
     | Some t \<Rightarrow> (case doGetInternalRegion t i rt of Inl _ \<Rightarrow> None | Inr ir \<Rightarrow> Some (t, range_in_table ir)))"

definition region_raw :: "Region \<Rightarrow> RawRange" where
  "region_raw rg = (case rs_range (rm_state (rg_meta rg)) of None \<Rightarrow> ([], []) | Some r \<Rightarrow> RegionRangeKeys.raw r)"

definition in_raw :: "RawRange \<Rightarrow> DecodedTiKVKey \<Rightarrow> bool" where
  "in_raw r key \<longleftrightarrow> fst r \<le> key \<and> (snd r = [] \<or> key < snd r)"

lemma rt_abs_known: "rt_inv rt \<Longrightarrow> rt_abs rt i = None \<longleftrightarrow> map_of (rt_regions rt) i = None"
  using doGetInternalRegion_ok [of rt i] by (auto simp: rt_abs_def split: option.split sum.split)

lemma rt_abs_Some:
  assumes "rt_inv rt" "rt_abs rt i = Some (t, r)"
  obtains ir where "map_of (rt_regions rt) i = Some t" "doGetInternalRegion t i rt = Inr ir" "range_in_table ir = r"
  using assms by (auto simp: rt_abs_def split: option.splits sum.splits)

lemma rt_abs_eqI: "map_of (rt_regions rt) i = Some t \<Longrightarrow> doGetInternalRegion t i rt = Inr ir \<Longrightarrow> rt_abs rt i = Some (t, range_in_table ir)"
  by (simp add: rt_abs_def)

lemma doGet_set:
  assumes "map_of (rt_tables rt) t = Some tb"
  shows "doGetInternalRegion u j (setInternalRegion t i ir rt) = (if u = t \<and> j = i then Inr ir else doGetInternalRegion u j rt)"
  using assms by (auto simp: doGetInternalRegion_def setInternalRegion_def update_conv' split: option.split)

lemma rt_abs_cong:
  assumes "map_of (rt_regions rt') i = map_of (rt_regions rt) i" "\<And>t. doGetInternalRegion t i rt' = doGetInternalRegion t i rt"
  shows "rt_abs rt' i = rt_abs rt i"
  by (simp add: rt_abs_def assms cong: option.case_cong)

lemma rt_abs_set:
  assumes inv: "rt_inv rt" and known: "map_of (rt_regions rt) i = Some t"
  shows "rt_abs (setInternalRegion t i ir rt) = (rt_abs rt)(i \<mapsto> (t, range_in_table ir))"
proof
  fix j
  obtain tb where tb: "map_of (rt_tables rt) t = Some tb" using known rt_invD(5) [OF inv] by blast
  show "rt_abs (setInternalRegion t i ir rt) j = ((rt_abs rt)(i \<mapsto> (t, range_in_table ir))) j"
    by (cases "j = i") (simp_all add: rt_abs_def setInternalRegion_fields doGet_set [OF tb] known split: option.split)
qed

lemma rt_abs_create: "rt_inv rt \<Longrightarrow> rt_abs (getOrCreateTable t rt) = rt_abs rt"
proof
  fix i assume inv: "rt_inv rt"
  show "rt_abs (getOrCreateTable t rt) i = rt_abs rt i"
  proof (cases "map_of (rt_tables rt) t")
    case None
    then have "map_of (rt_regions rt) i \<noteq> Some t" using rt_invD(5) [OF inv, of i t] by simp
    then show ?thesis
      by (simp add: rt_abs_def getOrCreateTable_def None doGetInternalRegion_def update_conv' split: option.split)
  qed (simp add: getOrCreateTable_def)
qed

lemma insertRegion_ok:
  assumes inv: "rt_inv rt" and tb: "map_of (rt_tables rt) t = Some tb" and new: "map_of (rt_regions rt) i = None"
  shows "\<exists>rt'. insertRegion now t r i rt = Inr rt' \<and> rt_abs rt' = (rt_abs rt)(i \<mapsto> (t, r))"
proof -
  have id: "tb_table_id tb = t" using rt_invD(4) [OF inv tb] by (simp add: table_ok_def)
  have "map_of (tb_regions tb) i = None" using new tb rt_invD(5) [OF inv, of i t] by simp
  then have "insertRegion now t r i rt = Inr ((setInternalRegion t i (mk_InternalRegion now i r) rt)\<lparr>rt_regions := AList.update i t (rt_regions rt)\<rparr>)"
    by (simp add: insertRegion_def tb id)
  moreover have "rt_abs ((setInternalRegion t i (mk_InternalRegion now i r) rt)\<lparr>rt_regions := AList.update i t (rt_regions rt)\<rparr>)
      = (rt_abs rt)(i \<mapsto> (t, r))"
  proof
    fix j
    have g: "doGetInternalRegion u k (rt'\<lparr>rt_regions := m\<rparr>) = doGetInternalRegion u k rt'" for u k rt' m
      by (simp add: doGetInternalRegion_def)
    show "rt_abs ((setInternalRegion t i (mk_InternalRegion now i r) rt)\<lparr>rt_regions := AList.update i t (rt_regions rt)\<rparr>) j
        = ((rt_abs rt)(i \<mapsto> (t, r))) j"
      by (cases "j = i") (simp_all add: rt_abs_def update_conv' g doGet_set [OF tb] mk_InternalRegion_def split: option.split)
  qed
  ultimately show ?thesis by blast
qed

lemma getOrInsertRegion_defined:
  assumes inv: "rt_inv rt" and agr: "table_agrees rg rt" and rg: "region_inv rg"
  shows "\<exists>rt'. getOrInsertRegion now rg rt = Inr rt'
    \<and> rt_abs rt' = (if rt_abs rt (region_id rg) = None then (rt_abs rt)(region_id rg \<mapsto> (rg_table_id rg, region_raw rg)) else rt_abs rt)"
proof -
  let ?t = "rg_table_id rg" and ?i = "region_id rg" and ?rt = "getOrCreateTable (rg_table_id rg) rt"
  have c: "rt_inv ?rt" by (rule getOrCreateTable_inv [OF inv])
  obtain tb where tb: "map_of (rt_tables ?rt) ?t = Some tb" using getOrCreateTable_fields(2) by blast
  obtain r where r: "rs_range (rm_state (rg_meta rg)) = Some r" using rg by (auto simp: region_inv_def meta_inv_def)
  show ?thesis
  proof (cases "map_of (tb_regions tb) ?i")
    case (Some ir)
    then have "map_of (rt_regions rt) ?i = Some ?t" using rt_invD(5) [OF c, of ?i ?t] tb by (simp add: getOrCreateTable_fields)
    then have "rt_abs rt ?i \<noteq> None" by (simp add: rt_abs_known [OF inv])
    then show ?thesis using tb Some by (auto simp: getOrInsertRegion_def Let_def rt_abs_create [OF inv])
  next
    case None
    have "map_of (rt_regions rt) ?i \<noteq> Some ?t" using None rt_invD(5) [OF c, of ?i ?t] tb by (simp add: getOrCreateTable_fields)
    then have n: "map_of (rt_regions rt) ?i = None" using agr by (simp add: table_agrees_def)
    then have "rt_abs rt ?i = None" by (simp add: rt_abs_known [OF inv])
    then show ?thesis
      using insertRegion_ok [OF c tb, of ?i now "RegionRangeKeys.raw r"] n tb None r
      by (auto simp: getOrInsertRegion_def Let_def getOrCreateTable_fields rt_abs_create [OF inv] meta_getRange_def region_raw_def)
  qed
qed

lemma rt_abs_dirty_insert: "rt_abs (dirty_insert i rt) = rt_abs rt"
  by (rule ext, rule rt_abs_cong) (simp_all add: dirty_insert_def doGetInternalRegion_def)

lemma fun_upd_same: "m k = Some v \<Longrightarrow> m(k \<mapsto> v) = m"
  by auto

lemma updateRegion_refines:
  assumes inv: "rt_inv rt" and agr: "table_agrees rg rt" and rg: "region_inv rg"
  shows "\<exists>rt'. updateRegion now rg rt = Inr rt' \<and> rt_inv rt'
    \<and> rt_abs rt' = (if rt_abs rt (region_id rg) = None then (rt_abs rt)(region_id rg \<mapsto> (rg_table_id rg, region_raw rg)) else rt_abs rt)"
proof -
  let ?t = "rg_table_id rg" and ?i = "region_id rg"
  obtain rt1 where a: "getOrInsertRegion now rg rt = Inr rt1"
      "rt_abs rt1 = (if rt_abs rt ?i = None then (rt_abs rt)(?i \<mapsto> (?t, region_raw rg)) else rt_abs rt)"
    using getOrInsertRegion_defined [OF assms] by blast
  note g = getOrInsertRegion_ok [OF inv agr a(1)]
  have k: "map_of (rt_regions rt1) ?i = Some ?t" by (simp add: g(2))
  obtain ir where ir: "doGetInternalRegion ?t ?i rt1 = Inr ir" using doGetInternalRegion_ok [OF g(1) k] by blast
  obtain rt' where rt': "updateRegion now rg rt = Inr rt'" using a(1) ir by (simp add: updateRegion_def Let_def)
  have "rt_abs (setInternalRegion ?t ?i (ir\<lparr>cache_bytes := c\<rparr>) rt1) = rt_abs rt1" for c
    by (simp add: rt_abs_set [OF g(1) k] fun_upd_same rt_abs_eqI [OF k ir])
  then have "rt_abs rt' = rt_abs rt1"
    using rt' a(1) ir by (auto simp: updateRegion_def Let_def rt_abs_dirty_insert split: if_splits)
  then show ?thesis using rt' updateRegion_ok(1) [OF inv agr rt'] a(2) by auto
qed

lemma shrinkRegionRange_refines:
  assumes inv: "rt_inv rt" and agr: "table_agrees rg rt" and rg: "region_inv rg"
  shows "\<exists>rt'. shrinkRegionRange now rg rt = Inr rt' \<and> rt_inv rt' \<and> rt_abs rt' = (rt_abs rt)(region_id rg \<mapsto> (rg_table_id rg, region_raw rg))"
proof -
  let ?t = "rg_table_id rg" and ?i = "region_id rg"
  obtain rt1 where a: "getOrInsertRegion now rg rt = Inr rt1"
      "rt_abs rt1 = (if rt_abs rt ?i = None then (rt_abs rt)(?i \<mapsto> (?t, region_raw rg)) else rt_abs rt)"
    using getOrInsertRegion_defined [OF assms] by blast
  note g = getOrInsertRegion_ok [OF inv agr a(1)]
  have k: "map_of (rt_regions rt1) ?i = Some ?t" by (simp add: g(2))
  obtain ir where ir: "doGetInternalRegion ?t ?i rt1 = Inr ir" using doGetInternalRegion_ok [OF g(1) k] by blast
  obtain r where r: "rs_range (rm_state (rg_meta rg)) = Some r" using rg by (auto simp: region_inv_def meta_inv_def)
  then have m: "meta_getRange (rg_meta rg) = Inr r" "region_raw rg = RegionRangeKeys.raw r" by (simp_all add: meta_getRange_def region_raw_def)
  obtain rt' where rt': "shrinkRegionRange now rg rt = Inr rt'" using a(1) ir m by (simp add: shrinkRegionRange_def Let_def)
  have "rt_abs (setInternalRegion ?t ?i (ir\<lparr>range_in_table := RegionRangeKeys.raw r, cache_bytes := c\<rparr>) rt1)
      = (rt_abs rt)(?i \<mapsto> (?t, region_raw rg))" for c
    using a(2) by (simp add: rt_abs_set [OF g(1) k] m)
  then have "rt_abs rt' = (rt_abs rt)(?i \<mapsto> (?t, region_raw rg))"
    using rt' a(1) ir m by (auto simp: shrinkRegionRange_def Let_def rt_abs_dirty_insert split: if_splits)
  then show ?thesis using rt' shrinkRegionRange_ok(1) [OF inv agr rt'] by blast
qed

lemma extend_range_contained: "fst r \<le> fst r' \<Longrightarrow> snd r' \<le> snd r \<Longrightarrow> extend_range r r' = r"
  by (auto simp: extend_range_def prod_eq_iff)

lemma extendRegionRange_refines:
  assumes inv: "rt_inv rt" and agr: "\<And>t r. rt_abs rt i = Some (t, r) \<Longrightarrow> t = mapped_table_id keys"
  shows "\<exists>rt'. extendRegionRange now i keys rt = Inr rt' \<and> rt_inv rt' \<and> rt_abs rt' = (rt_abs rt)(i \<mapsto> (mapped_table_id keys,
    case rt_abs rt i of None \<Rightarrow> RegionRangeKeys.raw keys | Some (t, r) \<Rightarrow> extend_range r (RegionRangeKeys.raw keys)))"
proof (cases "rt_abs rt i")
  case None
  let ?t = "mapped_table_id keys"
  have n: "map_of (rt_regions rt) i = None" using None by (simp add: rt_abs_known [OF inv])
  obtain tb where tb: "map_of (rt_tables (getOrCreateTable ?t rt)) ?t = Some tb" using getOrCreateTable_fields(2) by blast
  obtain rt' where rt': "insertRegion now ?t (RegionRangeKeys.raw keys) i (getOrCreateTable ?t rt) = Inr rt'"
      "rt_abs rt' = (rt_abs rt)(i \<mapsto> (?t, RegionRangeKeys.raw keys))"
    using insertRegion_ok [OF getOrCreateTable_inv [OF inv] tb, of i now "RegionRangeKeys.raw keys"] n
    by (auto simp: getOrCreateTable_fields rt_abs_create [OF inv])
  then have "extendRegionRange now i keys rt = Inr rt'" by (simp add: extendRegionRange_def Let_def n)
  then show ?thesis using extendRegionRange_inv(1) [OF inv] rt'(2) None by auto
next
  case (Some tr)
  obtain r where tr: "rt_abs rt i = Some (mapped_table_id keys, r)" using Some agr by (cases tr) auto
  obtain ir where ir: "map_of (rt_regions rt) i = Some (mapped_table_id keys)" "doGetInternalRegion (mapped_table_id keys) i rt = Inr ir"
      "range_in_table ir = r"
    by (rule rt_abs_Some [OF inv tr])
  let ?new = "RegionRangeKeys.raw keys"
  let ?rt = "setInternalRegion (mapped_table_id keys) i (ir\<lparr>range_in_table := extend_range r ?new\<rparr>) rt"
  have ex: "extendRegionRange now i keys rt = Inr (if fst r \<le> fst ?new \<and> snd ?new \<le> snd r then rt else ?rt)"
    by (simp add: extendRegionRange_def Let_def ir)
  have "rt_abs ?rt = (rt_abs rt)(i \<mapsto> (mapped_table_id keys, extend_range r ?new))" by (simp add: rt_abs_set [OF inv ir(1)])
  moreover have "fst r \<le> fst ?new \<and> snd ?new \<le> snd r \<Longrightarrow> rt_abs rt = (rt_abs rt)(i \<mapsto> (mapped_table_id keys, extend_range r ?new))"
    by (simp add: extend_range_contained tr fun_upd_same)
  ultimately have "rt_abs (if fst r \<le> fst ?new \<and> snd ?new \<le> snd r then rt else ?rt) = (rt_abs rt)(i \<mapsto> (mapped_table_id keys, extend_range r ?new))"
    by (cases "fst r \<le> fst ?new \<and> snd ?new \<le> snd r") auto
  then show ?thesis using ex extendRegionRange_inv(1) [OF inv ex] tr by auto
qed

text \<open>A region that \<open>beginFlush\<close> refuses: it is unknown, or a flush of it is under way. New ranges do not change this.\<close>

definition flush_paused :: "RegionID \<Rightarrow> RegionTable \<Rightarrow> bool" where
  "flush_paused i rt \<longleftrightarrow> (case map_of (rt_regions rt) i of None \<Rightarrow> True
     | Some t \<Rightarrow> (case doGetInternalRegion t i rt of Inl _ \<Rightarrow> True | Inr ir \<Rightarrow> pause_flush ir))"

lemma extendRegionRange_paused:
  assumes "rt_inv rt" "map_of (rt_regions rt) i = Some (mapped_table_id keys)" "extendRegionRange now i keys rt = Inr rt'"
  shows "flush_paused i rt' \<longleftrightarrow> flush_paused i rt"
proof -
  obtain ir where ir: "doGetInternalRegion (mapped_table_id keys) i rt = Inr ir" using doGetInternalRegion_ok [OF assms(1,2)] by blast
  obtain tb where "map_of (rt_tables rt) (mapped_table_id keys) = Some tb" using assms(1,2) rt_invD(5) [OF assms(1)] by blast
  then show ?thesis
    using assms(2,3) ir by (auto simp: extendRegionRange_def Let_def flush_paused_def doGet_set setInternalRegion_fields split: if_splits)
qed

lemma shrinkRegionRange_paused:
  assumes "rt_inv rt" "map_of (rt_regions rt) (region_id rg) = Some (rg_table_id rg)" "shrinkRegionRange now rg rt = Inr rt'"
  shows "flush_paused (region_id rg) rt' \<longleftrightarrow> flush_paused (region_id rg) rt"
proof -
  let ?t = "rg_table_id rg" and ?i = "region_id rg"
  obtain ir where ir: "doGetInternalRegion ?t ?i rt = Inr ir" using doGetInternalRegion_ok [OF assms(1,2)] by blast
  then obtain tb where tb: "map_of (rt_tables rt) ?t = Some tb" "map_of (tb_regions tb) ?i = Some ir"
    by (auto simp: doGetInternalRegion_def split: option.splits)
  then have g: "getOrInsertRegion now rg rt = Inr rt" by (simp add: getOrInsertRegion_def getOrCreateTable_def Let_def)
  obtain r where "meta_getRange (rg_meta rg) = Inr r" using assms(3) g ir by (auto simp: shrinkRegionRange_def rbind_eq_Inr)
  then have "map_of (rt_regions rt') ?i = Some ?t \<and> (\<exists>ir'. doGetInternalRegion ?t ?i rt' = Inr ir' \<and> pause_flush ir' = pause_flush ir)"
    using assms(2,3) g ir tb(1)
    by (auto simp: shrinkRegionRange_def Let_def doGet_set setInternalRegion_fields dirty_insert_def doGetInternalRegion_def setInternalRegion_def update_conv' split: if_splits)
  then show ?thesis using assms(2) ir by (auto simp: flush_paused_def)
qed

lemma eraseRegion_refines:
  assumes inv: "rt_inv rt"
  shows "rt_abs rt i = None \<Longrightarrow> eraseRegion i rt = Inr None"
    and "rt_abs rt i = Some tr \<Longrightarrow> \<exists>rt'. eraseRegion i rt = Inr (Some (tr, rt')) \<and> rt_inv rt' \<and> rt_abs rt' = (rt_abs rt)(i := None)"
proof -
  show "rt_abs rt i = None \<Longrightarrow> eraseRegion i rt = Inr None" by (simp add: rt_abs_known [OF inv] eraseRegion_def)
  assume "rt_abs rt i = Some tr"
  then obtain t ir where t: "map_of (rt_regions rt) i = Some t" "doGetInternalRegion t i rt = Inr ir" "tr = (t, range_in_table ir)"
    by (auto simp: rt_abs_def split: option.splits sum.splits)
  then obtain tb where tb: "map_of (rt_tables rt) t = Some tb" "map_of (tb_regions tb) i = Some ir"
    by (auto simp: doGetInternalRegion_def split: option.splits)
  obtain rt' where rt': "eraseRegion i rt = Inr (Some (tr, rt'))" by (simp add: eraseRegion_def t tb Let_def)
  note e = eraseRegion_inv [OF inv rt']
  have "rt_abs rt' j = ((rt_abs rt)(i := None)) j" for j
  proof (cases "j = i \<or> map_of (rt_regions rt) j = None")
    case True
    then show ?thesis using rt_abs_known [OF inv, of j] by (auto simp: rt_abs_def e(2))
  next
    case False
    then obtain u where u: "map_of (rt_regions rt) j = Some u" "map_of (rt_regions rt') j = Some u" "j \<noteq> i" by (auto simp: e(2))
    have "doGetInternalRegion u j rt' = doGetInternalRegion u j rt"
    proof -
      obtain ub jr where ub: "map_of (rt_tables rt) u = Some ub" "map_of (tb_regions ub) j = Some jr" using u(1) rt_invD(5) [OF inv] by blast
      obtain ub' jr' where ub': "map_of (rt_tables rt') u = Some ub'" "map_of (tb_regions ub') j = Some jr'"
        using u(2) rt_invD(5) [OF e(1)] by blast
      have "ub' = ub \<or> tb_regions ub' = filter (\<lambda>p. fst p \<noteq> i) (tb_regions ub)"
        using rt' ub(1) ub'(1) by (auto simp: eraseRegion_def t tb Let_def update_conv' map_of_erase split: if_splits)
      then have "jr' = jr" using ub(2) ub'(2) u(3) by (auto simp: map_of_erase)
      then show ?thesis using ub ub' by (simp add: doGetInternalRegion_def)
    qed
    then show ?thesis using u by (simp add: rt_abs_def)
  qed
  then show "\<exists>rt'. eraseRegion i rt = Inr (Some (tr, rt')) \<and> rt_inv rt' \<and> rt_abs rt' = (rt_abs rt)(i := None)" using rt' e(1) by blast
qed

subsection \<open>The contract of the table\<close>

text \<open>
  What the store of regions relies on: the operations on an abstract map from regions to their table and
  range, which none of them can miss or fail on while a region keeps its table.
\<close>

definition agrees :: "(RegionID \<Rightarrow> (TableID \<times> RawRange) option) \<Rightarrow> RegionID \<Rightarrow> TableID \<Rightarrow> bool" where
  "agrees m i t \<longleftrightarrow> (\<forall>u r. m i = Some (u, r) \<longrightarrow> u = t)"

locale region_registry =
  fixes inv :: "'t \<Rightarrow> bool" and abs :: "'t \<Rightarrow> RegionID \<Rightarrow> (TableID \<times> RawRange) option" and start :: 't
    and update shrink :: "Timepoint \<Rightarrow> Region \<Rightarrow> 't \<Rightarrow> 't result"
    and extend :: "Timepoint \<Rightarrow> RegionID \<Rightarrow> RegionRangeKeys \<Rightarrow> 't \<Rightarrow> 't result"
    and erase :: "RegionID \<Rightarrow> 't \<Rightarrow> ((TableID \<times> RawRange) \<times> 't) option result"
  assumes start_ok: "inv start" "abs start = (\<lambda>_. None)"
    and update_ok: "inv t \<Longrightarrow> region_inv rg \<Longrightarrow> agrees (abs t) (region_id rg) (rg_table_id rg) \<Longrightarrow>
      \<exists>t'. update now rg t = Inr t' \<and> inv t'
        \<and> abs t' = (if abs t (region_id rg) = None then (abs t)(region_id rg \<mapsto> (rg_table_id rg, region_raw rg)) else abs t)"
    and shrink_ok: "inv t \<Longrightarrow> region_inv rg \<Longrightarrow> agrees (abs t) (region_id rg) (rg_table_id rg) \<Longrightarrow>
      \<exists>t'. shrink now rg t = Inr t' \<and> inv t' \<and> abs t' = (abs t)(region_id rg \<mapsto> (rg_table_id rg, region_raw rg))"
    and extend_ok: "inv t \<Longrightarrow> agrees (abs t) i (mapped_table_id keys) \<Longrightarrow>
      \<exists>t'. extend now i keys t = Inr t' \<and> inv t' \<and> abs t' = (abs t)(i \<mapsto> (mapped_table_id keys,
        case abs t i of None \<Rightarrow> RegionRangeKeys.raw keys | Some (u, r) \<Rightarrow> extend_range r (RegionRangeKeys.raw keys)))"
    and erase_none: "inv t \<Longrightarrow> abs t i = None \<Longrightarrow> erase i t = Inr None"
    and erase_some: "inv t \<Longrightarrow> abs t i = Some tr \<Longrightarrow> \<exists>t'. erase i t = Inr (Some (tr, t')) \<and> inv t' \<and> abs t' = (abs t)(i := None)"
begin

lemma agrees_update: "agrees m i t \<Longrightarrow> agrees (if m j = None then m(j \<mapsto> (u, r)) else m) i t \<longleftrightarrow> (m j = None \<and> j = i \<longrightarrow> u = t)"
  by (auto simp: agrees_def)

lemma update_all:
  assumes "inv t" "list_all region_inv rgs" "distinct (map region_id rgs)"
    "\<And>rg. rg \<in> set rgs \<Longrightarrow> agrees (abs t) (region_id rg) (rg_table_id rg)"
  shows "\<exists>t'. rfold (update now) rgs t = Inr t' \<and> inv t' \<and> dom (abs t') = dom (abs t) \<union> region_id ` set rgs
    \<and> (\<forall>i. i \<notin> region_id ` set rgs \<longrightarrow> abs t' i = abs t i)
    \<and> (\<forall>rg \<in> set rgs. agrees (abs t') (region_id rg) (rg_table_id rg))"
  using assms
proof (induction rgs arbitrary: t)
  case (Cons rg rgs)
  obtain t1 where t1: "update now rg t = Inr t1" "inv t1"
      "abs t1 = (if abs t (region_id rg) = None then (abs t)(region_id rg \<mapsto> (rg_table_id rg, region_raw rg)) else abs t)"
    using update_ok [OF Cons.prems(1), of rg now] Cons.prems(2,4) by auto
  have same: "abs t1 i = abs t i" if "i \<noteq> region_id rg" for i using that by (simp add: t1(3))
  have "agrees (abs t1) (region_id rg') (rg_table_id rg')" if "rg' \<in> set rgs" for rg'
  proof -
    have "region_id rg' \<noteq> region_id rg" using that Cons.prems(3) by (auto simp: image_iff)
    then show ?thesis using Cons.prems(4) [of rg'] that by (simp add: agrees_def same)
  qed
  then obtain t' where t': "rfold (update now) rgs t1 = Inr t'" "inv t'" "dom (abs t') = dom (abs t1) \<union> region_id ` set rgs"
      "\<forall>i. i \<notin> region_id ` set rgs \<longrightarrow> abs t' i = abs t1 i" "\<forall>rg \<in> set rgs. agrees (abs t') (region_id rg) (rg_table_id rg)"
    using Cons.IH [OF t1(2)] Cons.prems(2,3) by auto
  have n: "region_id rg \<notin> region_id ` set rgs" using Cons.prems(3) by simp
  have a: "agrees (abs t') (region_id rg) (rg_table_id rg)"
    using t'(4) n Cons.prems(4) [of rg] by (auto simp: agrees_def t1(3) split: if_splits)
  have "dom (abs t1) = insert (region_id rg) (dom (abs t))" by (auto simp: t1(3))
  then show ?case using t1(1) t' a same by auto
qed auto

end

lemma table_agrees_abs: "rt_inv rt \<Longrightarrow> agrees (rt_abs rt) (region_id rg) (rg_table_id rg) \<Longrightarrow> table_agrees rg rt"
  using rt_abs_known [of rt "region_id rg"] by (fastforce simp: agrees_def table_agrees_def rt_abs_def split: option.splits sum.splits)

interpretation registry: region_registry rt_inv rt_abs new_RegionTable updateRegion shrinkRegionRange extendRegionRange eraseRegion
proof
  show "rt_inv new_RegionTable" by (rule new_RegionTable_inv)
  show "rt_abs new_RegionTable = (\<lambda>_. None)" by (simp add: fun_eq_iff rt_abs_def new_RegionTable_def)
  fix t :: RegionTable and rg :: Region and now i and keys :: RegionRangeKeys and tr
  assume t: "rt_inv t"
  show "agrees (rt_abs t) (region_id rg) (rg_table_id rg) \<Longrightarrow> region_inv rg \<Longrightarrow> \<exists>t'. updateRegion now rg t = Inr t' \<and> rt_inv t'
        \<and> rt_abs t' = (if rt_abs t (region_id rg) = None then (rt_abs t)(region_id rg \<mapsto> (rg_table_id rg, region_raw rg)) else rt_abs t)"
    by (rule updateRegion_refines [OF t table_agrees_abs [OF t]])
  show "agrees (rt_abs t) (region_id rg) (rg_table_id rg) \<Longrightarrow> region_inv rg \<Longrightarrow> \<exists>t'. shrinkRegionRange now rg t = Inr t' \<and> rt_inv t'
        \<and> rt_abs t' = (rt_abs t)(region_id rg \<mapsto> (rg_table_id rg, region_raw rg))"
    by (rule shrinkRegionRange_refines [OF t table_agrees_abs [OF t]])
  show "agrees (rt_abs t) i (mapped_table_id keys) \<Longrightarrow> \<exists>t'. extendRegionRange now i keys t = Inr t' \<and> rt_inv t'
        \<and> rt_abs t' = (rt_abs t)(i \<mapsto> (mapped_table_id keys,
          case rt_abs t i of None \<Rightarrow> RegionRangeKeys.raw keys | Some (u, r) \<Rightarrow> extend_range r (RegionRangeKeys.raw keys)))"
    by (rule extendRegionRange_refines [OF t]) (auto simp: agrees_def)
  show "rt_abs t i = None \<Longrightarrow> eraseRegion i t = Inr None" by (rule eraseRegion_refines(1) [OF t])
  show "rt_abs t i = Some tr \<Longrightarrow> \<exists>t'. eraseRegion i t = Inr (Some (tr, t')) \<and> rt_inv t' \<and> rt_abs t' = (rt_abs t)(i := None)"
    by (rule eraseRegion_refines(2) [OF t])
qed

subsection \<open>Properties\<close>

text \<open>
  C23: the table of regions implements a map from regions to their table and range. While a region keeps its
  table, no operation throws or dereferences a missing entry: an update adds an unknown region with its range
  and keeps a known one, a shrink sets the range, removing a region gives back what was recorded for it.
\<close>

theorem region_table_refines:
  assumes "rt_inv rt" and "region_inv rg" and "agrees (rt_abs rt) (region_id rg) (rg_table_id rg)"
  shows "(\<exists>rt'. updateRegion now rg rt = Inr rt' \<and> rt_inv rt'
      \<and> rt_abs rt' = (if rt_abs rt (region_id rg) = None then (rt_abs rt)(region_id rg \<mapsto> (rg_table_id rg, region_raw rg)) else rt_abs rt))
    \<and> (\<exists>rt'. shrinkRegionRange now rg rt = Inr rt' \<and> rt_inv rt' \<and> rt_abs rt' = (rt_abs rt)(region_id rg \<mapsto> (rg_table_id rg, region_raw rg)))
    \<and> (case rt_abs rt i of None \<Rightarrow> eraseRegion i rt = Inr None
       | Some tr \<Rightarrow> \<exists>rt'. eraseRegion i rt = Inr (Some (tr, rt')) \<and> rt_inv rt' \<and> rt_abs rt' = (rt_abs rt)(i := None))"
  using registry.update_ok [OF assms] registry.shrink_ok [OF assms] registry.erase_none [OF assms(1)] registry.erase_some [OF assms(1)]
  by (cases "rt_abs rt i") auto

theorem region_table_refines_witness:
  "\<exists>rt'. updateRegion 0 sample_region new_RegionTable = Inr rt' \<and> rt_inv rt' \<and> rt_abs rt' 10 = Some (1, (genRawKey 1 0, genRawKey 1 50))"
proof -
  have "agrees (rt_abs new_RegionTable) (region_id sample_region) (rg_table_id sample_region)"
    by (simp add: agrees_def registry.start_ok)
  note r = region_table_refines [OF new_RegionTable_inv sample_region_inv this]
  have "region_id sample_region = 10" "rg_table_id sample_region = 1" "region_raw sample_region = (genRawKey 1 0, genRawKey 1 50)"
    by (simp_all add: sample_region_def region_id_def sample_meta_def region_raw_def sample_keys_def)
  then show ?thesis using conjunct1 [OF r [of 0 0]] by (auto simp: registry.start_ok)
qed

text \<open>
  C24: extending the range of a region makes its recorded range contain both the old range and the new one when
  neither of them ends at infinity. When only the new range does, which its empty end key says, the recorded
  range keeps the old end, and keys of the new range are outside of it.
\<close>

theorem extend_region_range:
  assumes "rt_inv rt" and "rt_abs rt i = Some (mapped_table_id keys, r)"
  shows "\<exists>rt' r'. extendRegionRange now i keys rt = Inr rt' \<and> rt_abs rt' i = Some (mapped_table_id keys, r')
    \<and> (snd r \<noteq> [] \<and> snd (RegionRangeKeys.raw keys) \<noteq> [] \<longrightarrow> (\<forall>key. in_raw r key \<or> in_raw (RegionRangeKeys.raw keys) key \<longrightarrow> in_raw r' key))
    \<and> (snd r \<noteq> [] \<and> snd (RegionRangeKeys.raw keys) = [] \<longrightarrow>
        snd r' = snd r \<and> (\<exists>key. in_raw (RegionRangeKeys.raw keys) key \<and> \<not> in_raw r' key))"
proof -
  let ?new = "RegionRangeKeys.raw keys" and ?r = "extend_range r (RegionRangeKeys.raw keys)"
  have "agrees (rt_abs rt) i (mapped_table_id keys)" using assms(2) by (simp add: agrees_def)
  then obtain rt' where rt': "extendRegionRange now i keys rt = Inr rt'" "rt_abs rt' i = Some (mapped_table_id keys, ?r)"
    using registry.extend_ok [OF assms(1), of i keys now] assms(2) by auto
  have "in_raw ?r key" if "snd r \<noteq> []" "snd ?new \<noteq> []" "in_raw r key \<or> in_raw ?new key" for key
    using that by (auto simp: in_raw_def extend_range_def not_less intro: order_trans less_le_trans order.strict_implies_order)
  moreover have "snd ?r = snd r \<and> in_raw ?new (max (fst ?new) (snd r)) \<and> \<not> in_raw ?r (max (fst ?new) (snd r))"
    if "snd r \<noteq> []" "snd ?new = []"
    using that by (simp add: in_raw_def extend_range_def not_less)
  ultimately show ?thesis using rt' by blast
qed

theorem extend_region_range_witness:
  "\<exists>rt rt'. rt_abs rt 10 = Some (1, (genRawKey 1 0, genRawKey 1 50)) \<and> extendRegionRange 0 10 (sample_keys 50 90) rt = Inr rt'
     \<and> (\<exists>r'. rt_abs rt' 10 = Some (1, r') \<and> (\<forall>key. in_raw (genRawKey 1 50, genRawKey 1 90) key \<longrightarrow> in_raw r' key))"
proof -
  have "agrees (rt_abs new_RegionTable) (region_id sample_region) (rg_table_id sample_region)"
    by (simp add: agrees_def registry.start_ok)
  then obtain rt where rt: "rt_inv rt" "rt_abs rt = (\<lambda>_. None)(region_id sample_region \<mapsto> (rg_table_id sample_region, region_raw sample_region))"
    using registry.update_ok [OF new_RegionTable_inv sample_region_inv] by (auto simp: registry.start_ok)
  then have a: "rt_abs rt 10 = Some (mapped_table_id (sample_keys 50 90), (genRawKey 1 0, genRawKey 1 50))"
    by (simp add: sample_region_def region_id_def sample_meta_def region_raw_def sample_keys_def)
  have e: "genRawKey 1 50 \<noteq> []" "genRawKey 1 90 \<noteq> []" by (simp_all add: genRawKey_def)
  have k: "mapped_table_id (sample_keys 50 90) = 1" "RegionRangeKeys.raw (sample_keys 50 90) = (genRawKey 1 50, genRawKey 1 90)"
    by (simp_all add: sample_keys_def)
  show ?thesis using extend_region_range [OF rt(1) a, of 0] a e unfolding k by auto
qed

end
