(* ===== verification/RangeIndex.thy ===== *)
theory RangeIndex
  imports RangeKeys StdMap
begin

section \<open>The index of regions by key range\<close>

text \<open>
  \<open>Storages/Transaction/RegionsRangeIndex.cpp\<close>. The root map is an association list ordered by range
  keys; the node at a key holds the regions whose range contains the keys from there up to the next node.
  An iterator is the key of the node it points to; a loop from one iterator to another walks over the list,
  and walking past the end of the map is \<open>OutOfBounds\<close>. A pointer to a region is a value of the type
  variable \<open>'r\<close>.
\<close>

subsection \<open>Operations\<close>

type_synonym 'r region_map = "(RegionID \<times> 'r) list"
type_synonym 'r root_map = "(TiKVRangeKey \<times> 'r region_map) list"

definition MIN_KEY :: TiKVRangeKey where "MIN_KEY = makeTiKVRangeKey True []"
definition MAX_KEY :: TiKVRangeKey where "MAX_KEY = makeTiKVRangeKey False []"

definition index_clear :: "'r root_map" where
  "index_clear = [(MIN_KEY, []), (MAX_KEY, [])]"

definition index_split :: "TiKVRangeKey \<Rightarrow> 'r root_map \<Rightarrow> 'r root_map result" where
  "index_split new_start root =
     (case dropWhile (\<lambda>p. fst p < new_start) root of
        [] \<Rightarrow> Inl OutOfBounds
      | (k, _) # _ \<Rightarrow>
          if compare_range_key k new_start = 0 then Inr root
          else (case rev (takeWhile (\<lambda>p. fst p < new_start) root) of
                  [] \<Rightarrow> Inl OutOfBounds
                | (_, ori_map) # _ \<Rightarrow> Inr (fst (map_emplace new_start ori_map root))))"

fun add_loop :: "RegionID \<Rightarrow> 'r \<Rightarrow> TiKVRangeKey \<Rightarrow> 'r root_map \<Rightarrow> 'r root_map result" where
  "add_loop i ptr end_key [] = Inl OutOfBounds"
| "add_loop i ptr end_key ((k, rm) # ns) =
     (if k = end_key then Inr ((k, rm) # ns)
      else rbind (add_loop i ptr end_key ns) (\<lambda>ns'. Inr ((k, fst (umap_emplace i ptr rm)) # ns')))"

definition index_add :: "RegionID \<Rightarrow> RegionRange \<Rightarrow> 'r \<Rightarrow> 'r root_map \<Rightarrow> 'r root_map result" where
  "index_add i new_range ptr root =
     rbind (index_split (fst new_range) root) (\<lambda>root1.
     rbind (index_split (snd new_range) root1) (\<lambda>root2.
       if fst new_range = snd new_range then throw '': range of region  is empty''
       else rbind (add_loop i ptr (snd new_range) (dropWhile (\<lambda>p. fst p \<noteq> fst new_range) root2)) (\<lambda>ns.
         Inr (takeWhile (\<lambda>p. fst p \<noteq> fst new_range) root2 @ ns))))"

text \<open>The scan to the left looks at the nodes before the iterator, nearest first, down to the first
  node of the map; it counts the nodes that it passes.\<close>

fun left_scan :: "'r root_map \<Rightarrow> nat" where
  "left_scan [] = 0"
| "left_scan ((k, rm) # ns) = (if rm = [] then if k = MIN_KEY then 1 else 1 + left_scan ns else 0)"

fun right_scan :: "'r root_map \<Rightarrow> nat" where
  "right_scan [] = 0"
| "right_scan ((k, rm) # ns) = (if k = MAX_KEY then 0 else if rm \<noteq> [] then 0 else 1 + right_scan ns)"

definition tryMergeEmpty :: "TiKVRangeKey \<Rightarrow> 'r root_map \<Rightarrow> 'r root_map result" where
  "tryMergeEmpty remove_key root =
     (let pre = takeWhile (\<lambda>p. fst p \<noteq> remove_key) root;
          post = dropWhile (\<lambda>p. fst p \<noteq> remove_key) root
      in case post of
           [] \<Rightarrow> Inl OutOfBounds
         | (_, rm) # _ \<Rightarrow>
             if rm \<noteq> [] then Inr root
             else
               (let left = length pre - (if remove_key = MIN_KEY then 0 else left_scan (rev pre));
                    right = length pre + right_scan post
                in if left + 1 \<le> right then Inr (take (left + 1) root @ drop right root) else Inl OutOfBounds))"

fun remove_loop :: "RegionID \<Rightarrow> TiKVRangeKey \<Rightarrow> 'r root_map \<Rightarrow> 'r root_map result" where
  "remove_loop i end_key [] = Inl OutOfBounds"
| "remove_loop i end_key ((k, rm) # ns) =
     (if k = end_key then Inr ((k, rm) # ns)
      else if map_of rm i = None then throw '': not found region ''
      else rbind (remove_loop i end_key ns) (\<lambda>ns'. Inr ((k, filter (\<lambda>p. fst p \<noteq> i) rm) # ns')))"

definition index_remove :: "RegionRange \<Rightarrow> RegionID \<Rightarrow> 'r root_map \<Rightarrow> 'r root_map result" where
  "index_remove rng i root =
     (if fst rng \<notin> fst ` set root then throw '': not found start key''
      else if snd rng \<notin> fst ` set root then throw '': not found end key''
      else if fst rng = snd rng then throw '': range of region  is empty''
      else rbind (remove_loop i (snd rng) (dropWhile (\<lambda>p. fst p \<noteq> fst rng) root)) (\<lambda>ns.
        tryMergeEmpty (fst rng) (takeWhile (\<lambda>p. fst p \<noteq> fst rng) root @ ns)))"

definition umap_insert_range :: "'r region_map \<Rightarrow> 'r region_map \<Rightarrow> 'r region_map" where
  "umap_insert_range rm res = fold (\<lambda>(i, ptr) m. fst (umap_emplace i ptr m)) rm res"

fun find_loop :: "TiKVRangeKey option \<Rightarrow> 'r root_map \<Rightarrow> 'r region_map \<Rightarrow> 'r region_map result" where
  "find_loop end_key [] res = (if end_key = None then Inr res else Inl OutOfBounds)"
| "find_loop end_key ((k, rm) # ns) res =
     (if Some k = end_key then Inr res else find_loop end_key ns (umap_insert_range rm res))"

definition findByRangeOverlap :: "RegionRange \<Rightarrow> 'r root_map \<Rightarrow> 'r region_map result" where
  "findByRangeOverlap rng root =
     (let pre = takeWhile (\<lambda>p. fst p < fst rng) root;
          begin_ns = dropWhile (\<lambda>p. fst p < fst rng) root;
          end_key = (case dropWhile (\<lambda>p. fst p < snd rng) root of [] \<Rightarrow> None | (k, _) # _ \<Rightarrow> Some k)
      in case begin_ns of
           [] \<Rightarrow> Inl OutOfBounds
         | (k, _) # _ \<Rightarrow>
             if compare_range_key k (fst rng) \<noteq> 0
             then (if pre = [] then Inl OutOfBounds else find_loop end_key (last pre # begin_ns) [])
             else find_loop end_key begin_ns [])"

subsection \<open>What the index stands for\<close>

text \<open>
  The regions of an index are a map from region ids to the range and the pointer of the region.
  \<open>index_inv\<close>: the keys of the root map are between the two outer keys, which are present, like the two
  bounds of every region, and a node holds exactly the regions that contain its key.
\<close>

type_synonym 'r regions_of = "RegionID \<rightharpoonup> RegionRange \<times> 'r"

definition holds :: "'r regions_of \<Rightarrow> TiKVRangeKey \<Rightarrow> RegionID \<Rightarrow> 'r \<Rightarrow> bool" where
  "holds R k i ptr \<longleftrightarrow> (\<exists>s e. R i = Some ((s, e), ptr) \<and> s \<le> k \<and> k < e)"

definition node_ok :: "'r regions_of \<Rightarrow> TiKVRangeKey \<times> 'r region_map \<Rightarrow> bool" where
  "node_ok R n \<longleftrightarrow> umap_inv (snd n) \<and> (\<forall>i ptr. map_of (snd n) i = Some ptr \<longleftrightarrow> holds R (fst n) i ptr)"

definition keys_of :: "'r root_map \<Rightarrow> TiKVRangeKey set" where
  "keys_of root = fst ` set root"

definition index_inv :: "'r root_map \<Rightarrow> 'r regions_of \<Rightarrow> bool" where
  "index_inv root R \<longleftrightarrow> map_inv root \<and> MIN_KEY \<in> keys_of root \<and> MAX_KEY \<in> keys_of root
     \<and> (\<forall>k \<in> keys_of root. MIN_KEY \<le> k \<and> k \<le> MAX_KEY)
     \<and> (\<forall>i s e ptr. R i = Some ((s, e), ptr) \<longrightarrow> s < e \<and> s \<in> keys_of root \<and> e \<in> keys_of root)
     \<and> (\<forall>n \<in> set root. node_ok R n)"

lemma compare_zero_iff [simp]: "compare_range_key x y = 0 \<longleftrightarrow> x = y"
  by (cases x; cases y; cases "rk_state x"; cases "rk_state y") (auto simp: compare_range_key_def str_compare_def)

lemma Nil_less_iff: "[] < (xs :: bytes) \<longleftrightarrow> [] \<noteq> xs"
  by (cases xs) auto

lemma MIN_le [simp]: "MIN_KEY \<le> x"
  by (cases x; cases "rk_state x") (auto simp: MIN_KEY_def makeTiKVRangeKey_def less_eq_TiKVRangeKey_def compare_range_key_def str_compare_def Nil_less_iff)

lemma MIN_less_MAX: "MIN_KEY < MAX_KEY"
  by (simp add: MIN_KEY_def MAX_KEY_def makeTiKVRangeKey_def less_TiKVRangeKey_def compare_range_key_def)

lemma clear_inv: "index_inv index_clear Map.empty"
  by (auto simp: index_inv_def index_clear_def map_inv_def keys_of_def node_ok_def umap_inv_def holds_def
      MIN_less_MAX less_imp_le)

text \<open>A range key made from a start or an end key is not above the last key of the index.\<close>

lemma makeTiKVRangeKey_le_MAX: "makeTiKVRangeKey b key \<le> MAX_KEY"
  by (auto simp: MAX_KEY_def makeTiKVRangeKey_def less_eq_TiKVRangeKey_def compare_range_key_def str_compare_def)

subsection \<open>Lists ordered by their keys\<close>

lemma map_inv_split:
  assumes "map_inv m" "m = pre @ (k, v) # post"
  shows "\<forall>p \<in> set pre. fst p < k" and "\<forall>p \<in> set post. k < fst p"
  using assms by (auto simp: map_inv_def sorted_wrt_append)

lemma split_at_key:
  assumes "map_inv m" "k \<in> fst ` set m"
  obtains v where "m = takeWhile (\<lambda>p. fst p \<noteq> k) m @ (k, v) # tl (dropWhile (\<lambda>p. fst p \<noteq> k) m)"
proof -
  have "dropWhile (\<lambda>p. fst p \<noteq> k) m \<noteq> []" using assms(2) by (auto simp: dropWhile_eq_Nil_conv)
  then obtain p ns where d: "dropWhile (\<lambda>p. fst p \<noteq> k) m = p # ns" by (meson neq_Nil_conv)
  then have "fst p = k" using hd_dropWhile [of "\<lambda>p. fst p \<noteq> k" m] by simp
  then show thesis using that [of "snd p"] takeWhile_dropWhile_id [of "\<lambda>p. fst p \<noteq> k" m] d
    by (metis list.sel(3) prod.collapse)
qed

lemma keys_bounded:
  assumes "index_inv root R" "k \<in> keys_of root"
  shows "MIN_KEY \<le> k" "k \<le> MAX_KEY"
  using assms by (auto simp: index_inv_def)

lemma index_invD:
  assumes "index_inv root R"
  shows "map_inv root" "MIN_KEY \<in> keys_of root" "MAX_KEY \<in> keys_of root" "\<And>n. n \<in> set root \<Longrightarrow> node_ok R n"
    and "\<And>i s e ptr. R i = Some ((s, e), ptr) \<Longrightarrow> s < e \<and> s \<in> keys_of root \<and> e \<in> keys_of root"
  using assms unfolding index_inv_def by blast+

text \<open>Between two neighbouring keys of the root map the regions do not change.\<close>

lemma holds_between:
  assumes inv: "index_inv root R" and k: "k \<in> keys_of root" "k \<le> x"
    and gap: "\<And>k'. k' \<in> keys_of root \<Longrightarrow> k' \<le> k \<or> x < k'"
  shows "holds R x i ptr \<longleftrightarrow> holds R k i ptr"
proof -
  have "s \<le> x \<and> x < e \<longleftrightarrow> s \<le> k \<and> k < e" if "R i = Some ((s, e), ptr)" for s e
  proof -
    have "s \<in> keys_of root" "e \<in> keys_of root" using index_invD(5) [OF inv that] by auto
    then show ?thesis using gap [of s] gap [of e] k(2) by auto
  qed
  then show ?thesis by (auto simp: holds_def)
qed

subsection \<open>Splitting a node\<close>

lemma index_split_ok:
  assumes inv: "index_inv root R" and x: "x \<le> MAX_KEY"
  shows "\<exists>root'. index_split x root = Inr root' \<and> index_inv root' R \<and> keys_of root' = insert x (keys_of root)"
proof -
  note i = index_invD [OF inv]
  let ?pre = "takeWhile (\<lambda>p. fst p < x) root" and ?post = "dropWhile (\<lambda>p. fst p < x) root"
  obtain maxv where maxv: "(MAX_KEY, maxv) \<in> set root" using i(3) by (auto simp: keys_of_def)
  have "?post \<noteq> []" using maxv x by (metis dropWhile_eq_Nil_conv fst_conv not_less)
  then obtain k1 rm1 ns where post: "?post = (k1, rm1) # ns" by (metis neq_Nil_conv prod.exhaust)
  have root: "root = ?pre @ (k1, rm1) # ns" using takeWhile_dropWhile_id [of "\<lambda>p. fst p < x" root] post by simp
  have k1: "x \<le> k1" using hd_dropWhile [of "\<lambda>p. fst p < x" root] post by (simp add: not_less)
  show ?thesis
  proof (cases "k1 = x")
    case True
    then have "x \<in> keys_of root" by (subst root) (simp add: keys_of_def)
    then show ?thesis using True post inv by (auto simp: index_split_def)
  next
    case False
    then have lt: "x < k1" using k1 by simp
    note ord = map_inv_split [OF i(1) root]
    have absent: "x \<notin> fst ` set root" using ord lt by (subst root) (auto dest: set_takeWhileD)
    have "MIN_KEY \<noteq> x" using i(2) absent by (auto simp: keys_of_def)
    then have minx: "MIN_KEY < x" by (rule le_neq_trans [OF MIN_le])
    obtain minv where "(MIN_KEY, minv) \<in> set (?pre @ (k1, rm1) # ns)" using i(2) root by (auto simp: keys_of_def)
    then have "(MIN_KEY, minv) \<in> set ?pre" using ord(2) minx lt by fastforce
    then have "?pre \<noteq> []" by force
    then obtain k0 rm0 us where pre: "?pre = us @ [(k0, rm0)]" by (metis rev_exhaust prod.exhaust)
    have k0: "k0 < x" using pre by (metis (no_types, lifting) fst_conv in_set_conv_decomp set_takeWhileD)
    let ?new = "fst (map_emplace x rm0 root)"
    have e: "map_inv ?new" "mset ?new = add_mset (x, rm0) (mset root)"
      using map_emplace_absent [OF i(1) absent, of rm0] by auto
    have s: "set ?new = insert (x, rm0) (set root)" using e(2) by (metis list.set(2) mset.simps(2) set_mset_mset)
    then have keys: "keys_of ?new = insert x (keys_of root)" by (simp add: keys_of_def)
    have gap: "k' \<le> k0 \<or> x < k'" if "k' \<in> keys_of root" for k'
    proof -
      have "root = us @ (k0, rm0) # (k1, rm1) # ns" using root pre by simp
      note o2 = map_inv_split [OF i(1) this] 
      have "keys_of root = fst ` set us \<union> {k0, k1} \<union> fst ` set ns" by (subst root, subst pre) (auto simp: keys_of_def)
      then show ?thesis using that o2 ord(2) lt by fastforce
    qed
    have "(k0, rm0) \<in> set root" by (subst root, subst pre) simp
    then have "node_ok R (k0, rm0)" "k0 \<in> keys_of root" using i(4) by (force simp: keys_of_def)+
    then have "node_ok R (x, rm0)" using holds_between [OF inv _ less_imp_le [OF k0] gap] by (simp add: node_ok_def)
    then have "index_inv ?new R"
      using inv e(1) s minx x unfolding index_inv_def keys by auto
    then show ?thesis using post False pre keys by (simp add: index_split_def)
  qed
qed

subsection \<open>Adding a region\<close>

text \<open>The loops over a range of nodes change the nodes in the range and keep their keys.\<close>

definition on_range :: "TiKVRangeKey \<Rightarrow> TiKVRangeKey \<Rightarrow> ('r region_map \<Rightarrow> 'r region_map) \<Rightarrow> 'r root_map \<Rightarrow> 'r root_map" where
  "on_range s e f root = map (\<lambda>(k, rm). (k, if s \<le> k \<and> k < e then f rm else rm)) root"

lemma keys_on_range [simp]: "map fst (on_range s e f root) = map fst root"
  by (simp add: on_range_def case_prod_unfold comp_def)

lemma keys_of_on_range [simp]: "keys_of (on_range s e f root) = keys_of root"
  using keys_on_range [of s e f root] by (metis keys_of_def list.set_map)

lemma map_inv_on_range: "map_inv root \<Longrightarrow> map_inv (on_range s e f root)"
  by (simp add: map_inv_def)

lemma on_range_append: "on_range s e f (m @ m') = on_range s e f m @ on_range s e f m'"
  by (simp add: on_range_def)

lemma set_on_range: "(k, rm') \<in> set (on_range s e f root) \<longleftrightarrow>
    (\<exists>rm. (k, rm) \<in> set root \<and> rm' = (if s \<le> k \<and> k < e then f rm else rm))"
  by (force simp: on_range_def)

lemma add_loop_ok:
  assumes "map_inv ns" "e \<in> fst ` set ns" "\<forall>p \<in> set ns. s \<le> fst p"
  shows "add_loop i ptr e ns = Inr (on_range s e (\<lambda>rm. fst (umap_emplace i ptr rm)) ns)"
  using assms
proof (induction ns)
  case (Cons p ns)
  obtain k rm where p: "p = (k, rm)" by (rule prod.exhaust)
  show ?case
  proof (cases "k = e")
    case True
    have "on_range s e (\<lambda>rm. fst (umap_emplace i ptr rm)) (p # ns) = p # ns"
      using Cons.prems(1) True by (fastforce simp: on_range_def p map_inv_def intro!: map_idI)
    then show ?thesis using True p by simp
  next
    case False
    then have e: "e \<in> fst ` set ns" using Cons.prems(2) p by auto
    then have "k < e" using Cons.prems(1) p by (auto simp: map_inv_def)
    then show ?thesis
      using Cons.IH [OF _ e] Cons.prems(1,3) False p by (simp add: map_inv_def on_range_def)
  qed
qed simp

lemma on_range_split:
  assumes "map_inv root" "s \<in> fst ` set root"
  shows "takeWhile (\<lambda>p. fst p \<noteq> s) root @ on_range s e f (dropWhile (\<lambda>p. fst p \<noteq> s) root) = on_range s e f root"
    and "map_inv (dropWhile (\<lambda>p. fst p \<noteq> s) root)"
    and "\<forall>p \<in> set (dropWhile (\<lambda>p. fst p \<noteq> s) root). s \<le> fst p"
    and "\<And>x. x \<in> fst ` set root \<Longrightarrow> s \<le> x \<Longrightarrow> x \<in> fst ` set (dropWhile (\<lambda>p. fst p \<noteq> s) root)"
proof -
  let ?pre = "takeWhile (\<lambda>p. fst p \<noteq> s) root" and ?post = "dropWhile (\<lambda>p. fst p \<noteq> s) root"
  obtain v where m: "root = ?pre @ (s, v) # tl ?post" using split_at_key [OF assms] .
  note ord = map_inv_split [OF assms(1) m]
  have root: "root = ?pre @ ?post" by simp
  then have post: "?post = (s, v) # tl ?post" using m by (metis append_same_eq same_append_eq)
  have "on_range s e f ?pre = ?pre" using ord(1) by (force simp: on_range_def intro!: map_idI)
  then show "?pre @ on_range s e f ?post = on_range s e f root"
    by (metis on_range_append takeWhile_dropWhile_id)
  show "map_inv ?post" using assms(1) by (metis map_append map_inv_def sorted_wrt_append takeWhile_dropWhile_id)
  show "\<forall>p \<in> set ?post. s \<le> fst p" using ord(2) by (subst post) (auto simp: less_imp_le)
  show "x \<in> fst ` set ?post" if "x \<in> fst ` set root" "s \<le> x" for x
  proof -
    have "x \<notin> fst ` set ?pre" using ord(1) that(2) by auto
    moreover have "x \<in> fst ` set (?pre @ ?post)" using that(1) root by simp
    ultimately show ?thesis by (auto simp del: takeWhile_dropWhile_id)
  qed
qed

lemma on_range_inv:
  assumes inv: "index_inv root R"
    and R': "\<And>j s' e' ptr'. R' j = Some ((s', e'), ptr') \<Longrightarrow> s' < e' \<and> s' \<in> keys_of root \<and> e' \<in> keys_of root"
    and nodes: "\<And>k rm. (k, rm) \<in> set root \<Longrightarrow> node_ok R (k, rm) \<Longrightarrow> node_ok R' (k, if s \<le> k \<and> k < e then f rm else rm)"
  shows "index_inv (on_range s e f root) R'"
  unfolding index_inv_def keys_of_on_range
proof (intro conjI)
  show "\<forall>n \<in> set (on_range s e f root). node_ok R' n"
    using nodes index_invD(4) [OF inv] by (auto simp: set_on_range)
qed (use inv R' map_inv_on_range [of root s e f] in \<open>auto simp: index_inv_def\<close>)

lemma index_add_ok:
  assumes inv: "index_inv root R" and new: "R i \<in> {None, Some ((s, e), ptr)}" and r: "s < e" "e \<le> MAX_KEY"
  shows "\<exists>root'. index_add i (s, e) ptr root = Inr root' \<and> index_inv root' (R(i \<mapsto> ((s, e), ptr)))"
proof -
  obtain root1 where 1: "index_split s root = Inr root1" "index_inv root1 R" "keys_of root1 = insert s (keys_of root)"
    using index_split_ok [OF inv order.trans [OF less_imp_le [OF r(1)] r(2)]] by auto
  obtain root2 where 2: "index_split e root1 = Inr root2" "index_inv root2 R" "keys_of root2 = insert e (keys_of root1)"
    using index_split_ok [OF 1(2) r(2)] by auto
  have k: "s \<in> fst ` set root2" "e \<in> fst ` set root2" using 1(3) 2(3) by (auto simp: keys_of_def)
  note o = on_range_split [OF index_invD(1) [OF 2(2)] k(1)]
  let ?f = "\<lambda>rm. fst (umap_emplace i ptr rm)"
  have "index_add i (s, e) ptr root = Inr (on_range s e ?f root2)"
    using add_loop_ok [OF o(2) o(4) [OF k(2) less_imp_le [OF r(1)]] o(3), of i ptr] o(1) [of e ?f] 1(1) 2(1) r(1)
    by (simp add: index_add_def)
  moreover have "index_inv (on_range s e ?f root2) (R(i \<mapsto> ((s, e), ptr)))"
  proof (rule on_range_inv [OF 2(2)])
    fix j s' e' ptr' assume "(R(i \<mapsto> ((s, e), ptr))) j = Some ((s', e'), ptr')"
    then show "s' < e' \<and> s' \<in> keys_of root2 \<and> e' \<in> keys_of root2"
      using index_invD(5) [OF 2(2)] r(1) k by (auto simp: keys_of_def split: if_splits)
  next
    fix k rm assume n: "(k, rm) \<in> set root2" "node_ok R (k, rm)"
    show "node_ok (R(i \<mapsto> ((s, e), ptr))) (k, if s \<le> k \<and> k < e then ?f rm else rm)"
    proof (cases "R i")
      case None
      then have none: "map_of rm i = None" using n(2) by (cases "map_of rm i") (auto simp: node_ok_def holds_def)
      then have "i \<notin> fst ` set rm" by (simp add: map_of_eq_None_iff)
      then show ?thesis
        using n(2) none by (auto simp: node_ok_def umap_inv_def umap_emplace_def holds_def map_add_Some_iff split: if_splits)
    next
      case Some
      then have R: "R i = Some ((s, e), ptr)" using new by simp
      then have "map_of rm i = Some ptr" if "s \<le> k" "k < e" using n(2) that by (simp add: node_ok_def holds_def)
      then have "?f rm = rm" if "s \<le> k" "k < e" using that by (simp add: umap_emplace_def)
      then show ?thesis using n(2) fun_upd_triv [of R i] by (simp add: R)
    qed
  qed
  ultimately show ?thesis by blast
qed

subsection \<open>Removing a region\<close>

lemma remove_loop_ok:
  assumes "map_inv ns" "e \<in> fst ` set ns" "\<forall>p \<in> set ns. s \<le> fst p"
    and "\<And>k rm. (k, rm) \<in> set ns \<Longrightarrow> k < e \<Longrightarrow> map_of rm i \<noteq> None"
  shows "remove_loop i e ns = Inr (on_range s e (filter (\<lambda>p. fst p \<noteq> i)) ns)"
  using assms
proof (induction ns)
  case (Cons p ns)
  obtain k rm where p: "p = (k, rm)" by (rule prod.exhaust)
  show ?case
  proof (cases "k = e")
    case True
    have "on_range s e (filter (\<lambda>p. fst p \<noteq> i)) (p # ns) = p # ns"
      using Cons.prems(1) True by (fastforce simp: on_range_def p map_inv_def intro!: map_idI)
    then show ?thesis using True p by simp
  next
    case False
    then have e: "e \<in> fst ` set ns" using Cons.prems(2) p by auto
    then have ke: "k < e" using Cons.prems(1) p by (auto simp: map_inv_def)
    then have "map_of rm i \<noteq> None" using Cons.prems(4) [of k rm] p by simp
    moreover have "remove_loop i e ns = Inr (on_range s e (filter (\<lambda>p. fst p \<noteq> i)) ns)"
      using Cons.prems(1,3) p by (intro Cons.IH e Cons.prems(4)) (auto simp: map_inv_def)
    ultimately show ?thesis using ke False Cons.prems(3) p by (auto simp: on_range_def)
  qed
qed simp

lemma no_gap_before_end:
  assumes inv: "index_inv root R" and R: "R j = Some ((s, e), ptr)"
    and root: "root = A @ L @ (e, v) # C" and L: "L \<noteq> []" "snd (last L) = []"
  shows False
proof -
  obtain L' k where L': "L = L' @ [(k, [])]" using L by (metis append_butlast_last_id prod.collapse)
  have r: "root = (A @ L') @ (k, []) # (e, v) # C" by (simp add: root L')
  have r2: "root = (A @ L) @ (e, v) # C" by (simp add: root)
  note ord = map_inv_split [OF index_invD(1) [OF inv] r] and ord2 = map_inv_split [OF index_invD(1) [OF inv] r2]
  have s: "s < e" "s \<in> fst ` set root" using index_invD(5) [OF inv R] by (auto simp: keys_of_def)
  have ke: "k < e" using ord(2) by simp
  have "s \<in> fst ` set (A @ L') \<or> s = k \<or> s = e \<or> s \<in> fst ` set C" using s(2) unfolding r by auto
  then have "s \<le> k" using ord(1) ord2(2) s(1) by fastforce
  then have "holds R k j ptr" using R ke by (auto simp: holds_def)
  moreover have "node_ok R (k, [])" using index_invD(4) [OF inv] by (simp add: r)
  ultimately show False by (simp add: node_ok_def)
qed

text \<open>Erasing empty nodes after an empty node keeps the invariant.\<close>

lemma erase_inv:
  assumes inv: "index_inv root R" and root: "root = A @ (k0, []) # M @ B"
    and M: "\<And>n. n \<in> set M \<Longrightarrow> snd n = [] \<and> fst n \<noteq> MAX_KEY"
  shows "index_inv (A @ (k0, []) # B) R"
proof -
  note i = index_invD [OF inv]
  let ?new = "A @ (k0, []) # B"
  have keys: "keys_of root = keys_of ?new \<union> fst ` set M" by (auto simp: keys_of_def root)
  have sub: "set ?new \<subseteq> set root" by (auto simp: root)
  have empty: "\<not> holds R k j ptr" if "(k, []) \<in> set root" for k j ptr
    using i(4) [OF that] by (auto simp: node_ok_def)
  have low: "k0 < fst n" if "n \<in> set M" for n using map_inv_split(2) [OF i(1) root] that by auto
  have mm: "MIN_KEY \<notin> fst ` set M" "MAX_KEY \<notin> fst ` set M"
  proof -
    have "fst n \<noteq> MIN_KEY" if "n \<in> set M" for n using le_less_trans [OF MIN_le low [OF that]] by simp
    then show "MIN_KEY \<notin> fst ` set M" by (metis imageE)
    have "fst n \<noteq> MAX_KEY" if "n \<in> set M" for n using M [OF that] by simp
    then show "MAX_KEY \<notin> fst ` set M" by (metis imageE)
  qed
  have bounds: "s \<notin> fst ` set M \<and> e \<notin> fst ` set M" if R: "R j = Some ((s, e), ptr)" for j s e ptr
  proof
    have se: "s < e" "s \<in> keys_of root" using i(5) [OF R] by auto
    show "s \<notin> fst ` set M"
    proof
      assume "s \<in> fst ` set M"
      then obtain v where "(s, v) \<in> set M" by auto
      then have "(s, []) \<in> set root" using M [of "(s, v)"] by (simp add: root)
      then show False using empty [of s j ptr] R se(1) by (auto simp: holds_def)
    qed
    show "e \<notin> fst ` set M"
    proof
      assume "e \<in> fst ` set M"
      then obtain v where "(e, v) \<in> set M" by auto
      then obtain M1 M2 where m: "M = M1 @ (e, v) # M2" by (metis split_list)
      have "set M1 \<subseteq> set M" by (auto simp: m)
      then have l: "snd (last ((k0, []) # M1)) = []"
        by (cases M1 rule: rev_cases) (use M in auto)
      have r: "root = A @ ((k0, []) # M1) @ (e, v) # (M2 @ B)" by (simp add: root m)
      show False by (rule no_gap_before_end [OF inv R r list.distinct(2) l])
    qed
  qed
  show ?thesis
    unfolding index_inv_def
  proof (intro conjI ballI allI impI)
    show "map_inv ?new" using i(1) by (auto simp: root map_inv_def sorted_wrt_append)
    show "MIN_KEY \<in> keys_of ?new" "MAX_KEY \<in> keys_of ?new" using i(2,3) mm by (auto simp: keys)
    show "node_ok R n" if "n \<in> set ?new" for n using i(4) sub that by blast
    show "MIN_KEY \<le> k" "k \<le> MAX_KEY" if "k \<in> keys_of ?new" for k using keys_bounded [OF inv, of k] that by (auto simp: keys)
    fix j s e ptr assume R: "R j = Some ((s, e), ptr)"
    show "s < e" "s \<in> keys_of ?new" "e \<in> keys_of ?new" using i(5) [OF R] bounds [OF R] by (auto simp: keys)
  qed
qed

lemma left_scan_ok: "left_scan xs \<le> length xs \<and> (\<forall>j < left_scan xs. snd (xs ! j) = [])"
  by (induction xs rule: left_scan.induct) (auto simp: nth_Cons split: nat.split)

lemma right_scan_ok: "right_scan xs \<le> length xs \<and> (\<forall>j < right_scan xs. snd (xs ! j) = [] \<and> fst (xs ! j) \<noteq> MAX_KEY)"
  by (induction xs rule: right_scan.induct) (auto simp: nth_Cons split: nat.split)

lemma erase_range_inv:
  assumes inv: "index_inv root R" and lr: "l < r" "r \<le> length root"
    and empty: "\<And>j. l \<le> j \<Longrightarrow> j < r \<Longrightarrow> snd (root ! j) = [] \<and> fst (root ! j) \<noteq> MAX_KEY"
  shows "index_inv (take (l + 1) root @ drop r root) R"
proof -
  let ?M = "take (r - (l + 1)) (drop (l + 1) root)"
  have "drop (l + 1) root = ?M @ drop (r - (l + 1)) (drop (l + 1) root)" by (rule append_take_drop_id [symmetric])
  also have "drop (r - (l + 1)) (drop (l + 1) root) = drop r root" using lr by simp
  finally have "drop (Suc l) root = ?M @ drop r root" by simp
  moreover have l: "root ! l = (fst (root ! l), [])" using empty [of l] lr(1) by (simp add: prod_eq_iff)
  ultimately have dec: "root = take l root @ (fst (root ! l), []) # ?M @ drop r root"
    using id_take_nth_drop [of l root] lr by simp
  have M: "snd n = [] \<and> fst n \<noteq> MAX_KEY" if n: "n \<in> set ?M" for n
  proof -
    obtain j where "j < length ?M" "n = ?M ! j" using n by (metis in_set_conv_nth)
    then have "n = root ! (l + 1 + j)" "l + 1 + j < r" using lr by auto
    then show ?thesis using empty [of "l + 1 + j"] by simp
  qed
  have "take (l + 1) root = take l root @ [(fst (root ! l), [])]" using lr l by (simp add: take_Suc_conv_app_nth)
  then show ?thesis using erase_inv [OF inv dec M] by simp
qed

lemma scanned_empty:
  assumes inv: "map_inv root" and root: "root = pre @ (s, []) # ns" and s: "s < MAX_KEY"
    and j: "length pre - left_scan (rev pre) \<le> j" "j < length pre + right_scan ((s, []) # ns)"
  shows "snd (root ! j) = [] \<and> fst (root ! j) \<noteq> MAX_KEY"
proof (cases "j < length pre")
  case True
  have "length pre - 1 - j < left_scan (rev pre)" using j(1) True by linarith
  then have "snd (rev pre ! (length pre - 1 - j)) = []" using left_scan_ok [of "rev pre"] by blast
  then have "snd (root ! j) = []" using True by (simp add: root nth_append rev_nth)
  moreover have "fst (root ! j) < s"
    using map_inv_split(1) [OF inv root] True by (simp add: root nth_append)
  ultimately show ?thesis using s by auto
next
  case False
  then have "j - length pre < right_scan ((s, []) # ns)" using j(2) by linarith
  then have "snd (((s, []) # ns) ! (j - length pre)) = [] \<and> fst (((s, []) # ns) ! (j - length pre)) \<noteq> MAX_KEY"
    using right_scan_ok [of "(s, []) # ns"] by blast
  then show ?thesis using False by (simp only: root nth_append if_False simp_thms)
qed

lemma tryMergeEmpty_ok:
  assumes inv: "index_inv root R" and s: "s \<in> keys_of root" "s < MAX_KEY"
  shows "\<exists>root'. tryMergeEmpty s root = Inr root' \<and> index_inv root' R"
proof -
  define pre where "pre = takeWhile (\<lambda>p. fst p \<noteq> s) root"
  obtain rm where m: "root = takeWhile (\<lambda>p. fst p \<noteq> s) root @ (s, rm) # tl (dropWhile (\<lambda>p. fst p \<noteq> s) root)"
    using split_at_key [OF index_invD(1) [OF inv], of s] s(1) by (auto simp: keys_of_def)
  define ns where "ns = tl (dropWhile (\<lambda>p. fst p \<noteq> s) root)"
  have root: "root = pre @ (s, rm) # ns" using m by (simp add: pre_def ns_def)
  have "pre @ dropWhile (\<lambda>p. fst p \<noteq> s) root = pre @ (s, rm) # ns"
    using takeWhile_dropWhile_id [of "\<lambda>p. fst p \<noteq> s" root] root unfolding pre_def by (rule trans)
  then have post: "dropWhile (\<lambda>p. fst p \<noteq> s) root = (s, rm) # ns" by (rule same_append_eq [THEN iffD1])
  show ?thesis
  proof (cases "rm = []")
    case False
    then show ?thesis using inv by (simp add: tryMergeEmpty_def post Let_def)
  next
    case True
    let ?l = "length pre - (if s = MIN_KEY then 0 else left_scan (rev pre))" and ?r = "length pre + right_scan ((s, []) # ns)"
    have lr: "?l < ?r" "?r \<le> length root"
      using right_scan_ok [of "(s, []) # ns"] s(2) by (auto simp: root)
    have "snd (root ! j) = [] \<and> fst (root ! j) \<noteq> MAX_KEY" if "?l \<le> j" "j < ?r" for j
      using scanned_empty [OF index_invD(1) [OF inv] _ s(2), of pre ns j] that root True by (auto split: if_splits)
    from erase_range_inv [OF inv lr this]
    have "index_inv (take (?l + 1) root @ drop ?r root) R" by simp
    moreover have "tryMergeEmpty s root = Inr (take (?l + 1) root @ drop ?r root)"
      using lr(1) unfolding tryMergeEmpty_def Let_def post pre_def [symmetric] True by simp
    ultimately show ?thesis by blast
  qed
qed

lemma index_remove_ok:
  assumes inv: "index_inv root R" and old: "R i = Some ((s, e), ptr)"
  shows "\<exists>root'. index_remove (s, e) i root = Inr root' \<and> index_inv root' (R(i := None))"
proof -
  note inv' = index_invD [OF inv]
  have k: "s < e" "s \<in> fst ` set root" "e \<in> fst ` set root" using inv'(5) [OF old] by (auto simp: keys_of_def)
  note o = on_range_split [OF inv'(1) k(2)]
  let ?f = "filter (\<lambda>p. fst p \<noteq> i)"
  have present: "map_of rm i \<noteq> None"
    if n: "(k, rm) \<in> set (dropWhile (\<lambda>p. fst p \<noteq> s) root)" "k < e" for k rm
  proof -
    have "(k, rm) \<in> set root" using n(1) by (rule set_dropWhileD)
    moreover have "s \<le> k" using o(3) n(1) by auto
    then have "holds R k i ptr" using old n(2) by (auto simp: holds_def)
    ultimately show ?thesis using inv'(4) [of "(k, rm)"] by (auto simp: node_ok_def)
  qed
  have "remove_loop i e (dropWhile (\<lambda>p. fst p \<noteq> s) root) = Inr (on_range s e ?f (dropWhile (\<lambda>p. fst p \<noteq> s) root))"
    using o(2) o(4) [OF k(3) less_imp_le [OF k(1)]] o(3) present by (rule remove_loop_ok)
  then have r: "index_remove (s, e) i root = tryMergeEmpty s (on_range s e ?f root)"
    using o(1) [of e ?f] k less_imp_neq [OF k(1)] by (simp add: index_remove_def)
  have "index_inv (on_range s e ?f root) (R(i := None))"
  proof (rule on_range_inv [OF inv])
    fix j s' e' ptr' assume "(R(i := None)) j = Some ((s', e'), ptr')"
    then show "s' < e' \<and> s' \<in> keys_of root \<and> e' \<in> keys_of root"
      using inv'(5) by (auto split: if_splits)
  next
    fix k rm assume n: "(k, rm) \<in> set root" "node_ok R (k, rm)"
    have "umap_inv (?f rm)" using n(2) by (auto simp: node_ok_def intro: unordered_map.inv_filter)
    moreover have "map_of rm i = None" if "\<not> (s \<le> k \<and> k < e)"
      using n(2) that old by (cases "map_of rm i") (auto simp: node_ok_def holds_def)
    ultimately show "node_ok (R(i := None)) (k, if s \<le> k \<and> k < e then ?f rm else rm)"
      using n(2) old unfolding node_ok_def holds_def by (auto simp: map_of_erase)
  qed
  moreover have "s \<in> keys_of (on_range s e ?f root)" "s < MAX_KEY"
    using inv'(5) [OF old] keys_bounded(2) [OF inv, of e] by auto
  ultimately show ?thesis using tryMergeEmpty_ok r by metis
qed

subsection \<open>Looking up the regions that overlap a range\<close>

lemma map_of_umap_insert_range: "map_of (umap_insert_range rm res) = map_of rm ++ map_of res"
proof (induction rm arbitrary: res)
  case (Cons p rm)
  obtain i ptr where p: "p = (i, ptr)" by (rule prod.exhaust)
  have "umap_insert_range (p # rm) res = umap_insert_range rm (fst (umap_emplace i ptr res))"
    by (simp add: umap_insert_range_def p)
  moreover have "map_of (fst (umap_emplace i ptr res)) = (map_of res)(i \<mapsto> ptr) |` (- dom (map_of res)) ++ map_of res"
    by (auto simp: umap_emplace_def fun_eq_iff map_add_def restrict_map_def split: option.splits)
  ultimately show ?case
    using Cons.IH [of "fst (umap_emplace i ptr res)"]
    by (auto simp: p fun_eq_iff map_add_def restrict_map_def split: option.splits)
qed (simp add: umap_insert_range_def)

lemma find_loop_ok:
  assumes "e \<in> fst ` set ns"
  shows "\<exists>res'. find_loop (Some e) ns res = Inr res' \<and>
    (\<forall>i. (\<exists>ptr. map_of res' i = Some ptr) \<longleftrightarrow>
       (\<exists>ptr. map_of res i = Some ptr) \<or> (\<exists>n \<in> set (takeWhile (\<lambda>p. fst p \<noteq> e) ns). \<exists>ptr. map_of (snd n) i = Some ptr)) \<and>
    (\<forall>i ptr. map_of res' i = Some ptr \<longrightarrow>
       map_of res i = Some ptr \<or> (\<exists>n \<in> set (takeWhile (\<lambda>p. fst p \<noteq> e) ns). map_of (snd n) i = Some ptr))"
  using assms
proof (induction ns arbitrary: res)
  case (Cons p ns)
  obtain k rm where p: "p = (k, rm)" by (rule prod.exhaust)
  show ?case
  proof (cases "k = e")
    case False
    then have "e \<in> fst ` set ns" using Cons.prems p by auto
    from Cons.IH [OF this, of "umap_insert_range rm res"] show ?thesis
      using False unfolding map_of_umap_insert_range by (fastforce simp: p map_add_Some_iff)
  qed (simp add: p)
qed simp

lemma takeWhile_key:
  assumes "map_inv m" "k \<in> fst ` set m"
  shows "set (takeWhile (\<lambda>p. fst p \<noteq> k) m) = {p \<in> set m. fst p < k}"
proof -
  obtain v where m: "m = takeWhile (\<lambda>p. fst p \<noteq> k) m @ (k, v) # tl (dropWhile (\<lambda>p. fst p \<noteq> k) m)"
    using split_at_key [OF assms] .
  note ord = map_inv_split [OF assms(1) m]
  have "set m = set (takeWhile (\<lambda>p. fst p \<noteq> k) m) \<union> {(k, v)} \<union> set (tl (dropWhile (\<lambda>p. fst p \<noteq> k) m))"
    by (subst m) auto
  then show ?thesis using ord by (auto dest: less_asym)
qed

text \<open>The node with the largest key that is not above \<open>s\<close>.\<close>

definition floor_key :: "'r root_map \<Rightarrow> TiKVRangeKey \<Rightarrow> TiKVRangeKey \<Rightarrow> bool" where
  "floor_key root s k \<longleftrightarrow> k \<in> keys_of root \<and> k \<le> s \<and> (\<forall>k' \<in> keys_of root. k' \<le> k \<or> s < k')"

lemma overlap_iff:
  assumes inv: "index_inv root R" and k0: "floor_key root s k0" and se: "s < e"
  shows "(\<exists>k \<in> keys_of root. k0 \<le> k \<and> k < e \<and> holds R k i ptr) \<longleftrightarrow>
    (\<exists>s' e'. R i = Some ((s', e'), ptr) \<and> s' < e \<and> s < e')" (is "?L \<longleftrightarrow> ?R")
proof
  assume ?L
  then obtain k s' e' where k: "k0 \<le> k" "k < e" and R: "R i = Some ((s', e'), ptr)" and h: "s' \<le> k" "k < e'"
    by (auto simp: holds_def)
  have "e' \<in> keys_of root" using index_invD(5) [OF inv R] by simp
  then have "e' \<le> k0 \<or> s < e'" using k0 by (simp add: floor_key_def)
  then have "s < e'" using k(1) h(2) by auto
  then show ?R using R h(1) k(2) by auto
next
  assume ?R
  then obtain s' e' where R: "R i = Some ((s', e'), ptr)" and o: "s' < e" "s < e'" by blast
  have s': "s' \<in> keys_of root" "s' < e'" using index_invD(5) [OF inv R] by auto
  show ?L
  proof (cases "s' \<le> k0")
    case True
    moreover have "k0 < e'" "k0 < e" using k0 o(2) se by (auto simp: floor_key_def)
    ultimately show ?thesis using k0 R by (auto simp: floor_key_def holds_def)
  next
    case False
    then show ?thesis using s' R o(1) by (intro bexI [of _ s']) (auto simp: holds_def)
  qed
qed

lemma find_start:
  assumes inv: "index_inv root R" and s: "s < MAX_KEY"
  obtains A k0 rm ns where "root = A @ (k0, rm) # ns" "floor_key root s k0"
    "\<And>ek. (case dropWhile (\<lambda>p. fst p < s) root of
        [] \<Rightarrow> Inl OutOfBounds
      | (k, _) # _ \<Rightarrow> if compare_range_key k s \<noteq> 0
          then (if takeWhile (\<lambda>p. fst p < s) root = [] then Inl OutOfBounds
                else find_loop ek (last (takeWhile (\<lambda>p. fst p < s) root) # dropWhile (\<lambda>p. fst p < s) root) [])
          else find_loop ek (dropWhile (\<lambda>p. fst p < s) root) []) = find_loop ek ((k0, rm) # ns) []"
proof -
  note i = index_invD [OF inv]
  define pre where "pre = takeWhile (\<lambda>p. fst p < s) root"
  obtain maxv where maxv: "(MAX_KEY, maxv) \<in> set root" using i(3) by (auto simp: keys_of_def)
  have "dropWhile (\<lambda>p. fst p < s) root \<noteq> []" using maxv s by (metis dropWhile_eq_Nil_conv fst_conv less_asym)
  then obtain k1 rm1 ns where post: "dropWhile (\<lambda>p. fst p < s) root = (k1, rm1) # ns" by (metis neq_Nil_conv prod.exhaust)
  have root: "root = pre @ (k1, rm1) # ns"
    using takeWhile_dropWhile_id [of "\<lambda>p. fst p < s" root] post by (simp add: pre_def)
  have k1: "s \<le> k1" using hd_dropWhile [of "\<lambda>p. fst p < s" root] post by (simp add: not_less)
  note ord = map_inv_split [OF i(1) root]
  show thesis
  proof (cases "k1 = s")
    case True
    have "floor_key root s k1" using True by (auto simp: floor_key_def keys_of_def root)
    then show thesis using that [OF root] post True by simp
  next
    case False
    then have lt: "s < k1" using k1 by simp
    obtain minv where "(MIN_KEY, minv) \<in> set root" using i(2) by (auto simp: keys_of_def)
    then have "(MIN_KEY, minv) \<in> set (pre @ (k1, rm1) # ns)" unfolding root .
    moreover have "MIN_KEY < k1" using lt by (rule le_less_trans [OF MIN_le])
    ultimately have "(MIN_KEY, minv) \<in> set pre" using ord(2) by fastforce
    then obtain us k0 rm0 where pre: "pre = us @ [(k0, rm0)]" by (cases pre rule: rev_cases) auto
    have "k0 < s" using pre unfolding pre_def by (metis (no_types, lifting) fst_conv in_set_conv_decomp set_takeWhileD)
    have r: "root = us @ (k0, rm0) # (k1, rm1) # ns" using root pre by simp
    note ord2 = map_inv_split [OF i(1) r]
    have "k' \<le> k0 \<or> s < k'" if "k' \<in> keys_of root" for k'
      using that ord(2) ord2(1) lt unfolding keys_of_def by (subst (asm) r) fastforce
    then have "floor_key root s k0" using \<open>k0 < s\<close> by (auto simp: floor_key_def keys_of_def r)
    then show thesis using that [OF r] post False pre by (simp add: pre_def [symmetric])
  qed
qed

lemma visited_nodes:
  assumes inv: "index_inv root R" and root: "root = A @ (k0, rm) # ns" and k0: "floor_key root s k0" and se: "s < e"
    and post: "dropWhile (\<lambda>p. fst p < e) root = (ke, rme) # nse"
  shows "ke \<in> fst ` set ((k0, rm) # ns)"
    and "set (takeWhile (\<lambda>p. fst p \<noteq> ke) ((k0, rm) # ns)) = {n \<in> set root. k0 \<le> fst n \<and> fst n < e}"
proof -
  let ?ns = "(k0, rm) # ns"
  note inv_root = index_invD(1) [OF inv]
  note ord = map_inv_split [OF inv_root root]
  have rooty: "root = takeWhile (\<lambda>p. fst p < e) root @ (ke, rme) # nse"
    using takeWhile_dropWhile_id [of "\<lambda>p. fst p < e" root] post by simp
  have ke: "e \<le> ke" using hd_dropWhile [of "\<lambda>p. fst p < e" root] post by (simp add: not_less)
  have "k0 < ke" using k0 se ke by (auto simp: floor_key_def)
  have lt: "fst p < ke \<longleftrightarrow> fst p < e" if "p \<in> set root" for p
  proof -
    have "p \<in> set (takeWhile (\<lambda>p. fst p < e) root) \<or> p = (ke, rme) \<or> p \<in> set nse"
      using that by (subst (asm) rooty) auto
    then show ?thesis using map_inv_split(2) [OF inv_root rooty] ke by (auto dest: set_takeWhileD)
  qed
  have inn: "p \<in> set ?ns \<longleftrightarrow> k0 \<le> fst p" if "p \<in> set root" for p
    using that ord by (auto simp: root less_imp_le dest: leD)
  have "(ke, rme) \<in> set root" by (subst rooty) simp
  then show kens: "ke \<in> fst ` set ?ns" using inn [of "(ke, rme)"] \<open>k0 < ke\<close> by (metis fst_conv image_eqI less_imp_le)
  have inv_ns: "map_inv ?ns" using inv_root by (simp add: root map_inv_def sorted_wrt_append)
  have "set ?ns \<subseteq> set root" by (auto simp: root)
  then show "set (takeWhile (\<lambda>p. fst p \<noteq> ke) ?ns) = {n \<in> set root. k0 \<le> fst n \<and> fst n < e}"
    unfolding takeWhile_key [OF inv_ns kens] using lt inn by blast
qed

lemma collected_regions:
  assumes inv: "index_inv root R" and k0: "floor_key root s k0" and se: "s < e"
    and some: "\<And>j. (\<exists>ptr. map_of res j = Some ptr) \<longleftrightarrow> (\<exists>n \<in> {n \<in> set root. k0 \<le> fst n \<and> fst n < e}. \<exists>ptr. map_of (snd n) j = Some ptr)"
    and from_node: "\<And>j ptr. map_of res j = Some ptr \<Longrightarrow> \<exists>n \<in> {n \<in> set root. k0 \<le> fst n \<and> fst n < e}. map_of (snd n) j = Some ptr"
  shows "map_of res j = Some ptr \<longleftrightarrow> (\<exists>s' e'. R j = Some ((s', e'), ptr) \<and> s' < e \<and> s < e')"
proof -
  let ?V = "{n \<in> set root. k0 \<le> fst n \<and> fst n < e}"
  have node: "map_of (snd n) j = Some ptr \<longleftrightarrow> holds R (fst n) j ptr" if "n \<in> set root" for n j ptr
    using index_invD(4) [OF inv that] by (simp add: node_ok_def)
  have V: "(\<exists>n \<in> ?V. map_of (snd n) j = Some ptr) \<longleftrightarrow> (\<exists>s' e'. R j = Some ((s', e'), ptr) \<and> s' < e \<and> s < e')" for j ptr
  proof -
    have "(\<exists>n \<in> ?V. map_of (snd n) j = Some ptr) \<longleftrightarrow> (\<exists>n \<in> set root. k0 \<le> fst n \<and> fst n < e \<and> holds R (fst n) j ptr)"
      using node by blast
    also have "\<dots> \<longleftrightarrow> (\<exists>k \<in> keys_of root. k0 \<le> k \<and> k < e \<and> holds R k j ptr)" by (simp only: keys_of_def bex_simps)
    finally show ?thesis unfolding overlap_iff [OF inv k0 se] .
  qed
  show ?thesis
  proof
    assume "map_of res j = Some ptr"
    then show "\<exists>s' e'. R j = Some ((s', e'), ptr) \<and> s' < e \<and> s < e'" unfolding V [symmetric] by (rule from_node)
  next
    assume r: "\<exists>s' e'. R j = Some ((s', e'), ptr) \<and> s' < e \<and> s < e'"
    then have "\<exists>n \<in> ?V. map_of (snd n) j = Some ptr" unfolding V .
    then obtain ptr' where p: "map_of res j = Some ptr'" using some by blast
    then have "\<exists>s' e'. R j = Some ((s', e'), ptr') \<and> s' < e \<and> s < e'" unfolding V [symmetric] by (rule from_node)
    then show "map_of res j = Some ptr" using r p by auto
  qed
qed

lemma find_ok:
  assumes inv: "index_inv root R" and se: "s < e" "e \<le> MAX_KEY"
  shows "\<exists>res. findByRangeOverlap (s, e) root = Inr res \<and>
    (\<forall>i ptr. map_of res i = Some ptr \<longleftrightarrow> (\<exists>s' e'. R i = Some ((s', e'), ptr) \<and> s' < e \<and> s < e'))"
proof -
  obtain A k0 rm ns where root: "root = A @ (k0, rm) # ns" and k0: "floor_key root s k0"
      and start: "\<And>ek. (case dropWhile (\<lambda>p. fst p < s) root of
        [] \<Rightarrow> Inl OutOfBounds
      | (k, _) # _ \<Rightarrow> if compare_range_key k s \<noteq> 0
          then (if takeWhile (\<lambda>p. fst p < s) root = [] then Inl OutOfBounds
                else find_loop ek (last (takeWhile (\<lambda>p. fst p < s) root) # dropWhile (\<lambda>p. fst p < s) root) [])
          else find_loop ek (dropWhile (\<lambda>p. fst p < s) root) []) = find_loop ek ((k0, rm) # ns) []"
    using find_start [OF inv less_le_trans [OF se]] by metis
  obtain maxv where maxv: "(MAX_KEY, maxv) \<in> set root" using index_invD(3) [OF inv] by (auto simp: keys_of_def)
  have "dropWhile (\<lambda>p. fst p < e) root \<noteq> []" using maxv se(2) by (metis dropWhile_eq_Nil_conv fst_conv not_less)
  then obtain ke rme nse where post: "dropWhile (\<lambda>p. fst p < e) root = (ke, rme) # nse" by (metis neq_Nil_conv prod.exhaust)
  note v = visited_nodes [OF inv root k0 se(1) post]
  have f: "findByRangeOverlap (s, e) root = find_loop (Some ke) ((k0, rm) # ns) []"
    unfolding findByRangeOverlap_def Let_def fst_conv snd_conv post list.case prod.case by (rule start)
  let ?V = "{n \<in> set root. k0 \<le> fst n \<and> fst n < e}"
  obtain res where res: "find_loop (Some ke) ((k0, rm) # ns) [] = Inr res \<and>
      (\<forall>j. (\<exists>ptr. map_of res j = Some ptr) \<longleftrightarrow>
        (\<exists>ptr. map_of ([] :: 'a region_map) j = Some ptr) \<or> (\<exists>n \<in> ?V. \<exists>ptr. map_of (snd n) j = Some ptr)) \<and>
      (\<forall>j ptr. map_of res j = Some ptr \<longrightarrow>
        map_of ([] :: 'a region_map) j = Some ptr \<or> (\<exists>n \<in> ?V. map_of (snd n) j = Some ptr))"
    using find_loop_ok [OF v(1), of "[]"] unfolding v(2) by (rule exE)
  have "map_of res j = Some ptr \<longleftrightarrow> (\<exists>s' e'. R j = Some ((s', e'), ptr) \<and> s' < e \<and> s < e')" for j ptr
  proof (rule collected_regions [OF inv k0 se(1)])
    show "(\<exists>ptr. map_of res j = Some ptr) \<longleftrightarrow> (\<exists>n \<in> ?V. \<exists>ptr. map_of (snd n) j = Some ptr)" for j
      using spec [OF conjunct1 [OF conjunct2 [OF res]], of j] unfolding map_of.simps option.distinct by blast
    show "\<exists>n \<in> ?V. map_of (snd n) j = Some ptr" if "map_of res j = Some ptr" for j ptr
      using spec [OF spec [OF conjunct2 [OF conjunct2 [OF res]], of j], of ptr] that unfolding map_of.simps option.distinct by blast
  qed
  with trans [OF f conjunct1 [OF res]] show ?thesis by blast
qed

subsection \<open>The interface of the index\<close>

definition range_ok :: "RegionRange \<Rightarrow> bool" where
  "range_ok r \<longleftrightarrow> fst r < snd r \<and> snd r \<le> MAX_KEY"

definition overlaps :: "RegionRange \<Rightarrow> RegionRange \<Rightarrow> bool" where
  "overlaps r q \<longleftrightarrow> fst r < snd q \<and> fst q < snd r"

locale region_index =
  fixes inv :: "'i \<Rightarrow> (RegionID \<rightharpoonup> RegionRange \<times> 'r) \<Rightarrow> bool" and start :: 'i
    and add :: "RegionID \<Rightarrow> RegionRange \<Rightarrow> 'r \<Rightarrow> 'i \<Rightarrow> 'i result"
    and remove :: "RegionRange \<Rightarrow> RegionID \<Rightarrow> 'i \<Rightarrow> 'i result"
    and find :: "RegionRange \<Rightarrow> 'i \<Rightarrow> (RegionID \<times> 'r) list result"
  assumes start_inv: "inv start Map.empty"
    and add_inv: "inv I R \<Longrightarrow> R i \<in> {None, Some (r, ptr)} \<Longrightarrow> range_ok r \<Longrightarrow> \<exists>I'. add i r ptr I = Inr I' \<and> inv I' (R(i \<mapsto> (r, ptr)))"
    and remove_inv: "inv I R \<Longrightarrow> R i = Some (r, ptr) \<Longrightarrow> \<exists>I'. remove r i I = Inr I' \<and> inv I' (R(i := None))"
    and find_exact: "inv I R \<Longrightarrow> range_ok q \<Longrightarrow> \<exists>res. find q I = Inr res \<and>
      (\<forall>i ptr. map_of res i = Some ptr \<longleftrightarrow> (\<exists>r. R i = Some (r, ptr) \<and> overlaps r q))"
begin

text \<open>A region whose range changed is taken out with its old range and put back with the new one.\<close>

lemma move_inv:
  assumes "inv I R" "R i = Some (r, ptr)" "range_ok r'"
  shows "\<exists>I'. rbind (remove r i I) (add i r' ptr) = Inr I' \<and> inv I' (R(i \<mapsto> (r', ptr)))"
proof -
  obtain I1 where I1: "remove r i I = Inr I1" "inv I1 (R(i := None))" using remove_inv [OF assms(1,2)] by blast
  then show ?thesis using add_inv [OF I1(2) _ assms(3), of i ptr] by simp
qed

lemma add_all_inv:
  assumes "inv I R" "distinct (map fst xs)" "\<And>i r ptr. (i, r, ptr) \<in> set xs \<Longrightarrow> R i \<in> {None, Some (r, ptr)} \<and> range_ok r"
  shows "\<exists>I'. rfold (\<lambda>(i, r, ptr). add i r ptr) xs I = Inr I' \<and> inv I' (R ++ map_of xs)"
  using assms
proof (induction xs arbitrary: I R)
  case (Cons x xs)
  obtain i r ptr where x: "x = (i, r, ptr)" by (metis prod.exhaust)
  have "R i \<in> {None, Some (r, ptr)}" "range_ok r" using Cons.prems(3) [of i r ptr] by (simp_all add: x)
  then obtain I1 where I1: "add i r ptr I = Inr I1" "inv I1 (R(i \<mapsto> (r, ptr)))" using add_inv [OF Cons.prems(1)] by blast
  have d: "distinct (map fst xs)" using Cons.prems(2) by simp
  have fr: "(R(i \<mapsto> (r, ptr))) j \<in> {None, Some (q, p)} \<and> range_ok q" if "(j, q, p) \<in> set xs" for j q p
    using Cons.prems(2) Cons.prems(3) [of j q p] that by (force simp: x)
  obtain I' where "rfold (\<lambda>(i, r, ptr). add i r ptr) xs I1 = Inr I'" "inv I' (R(i \<mapsto> (r, ptr)) ++ map_of xs)"
    using Cons.IH [OF I1(2) d] fr by blast
  moreover have "map_of xs i = None" using Cons.prems(2) by (simp add: x map_of_eq_None_iff)
  then have "R(i \<mapsto> (r, ptr)) ++ map_of xs = R ++ map_of (x # xs)"
    by (auto simp: x fun_eq_iff map_add_def split: option.splits)
  ultimately have "rfold (\<lambda>(i, r, ptr). add i r ptr) (x # xs) I = Inr I' \<and> inv I' (R ++ map_of (x # xs))"
    using I1(1) by (simp only: x rfold.simps prod.case rbind_Inr simp_thms)
  then show ?case by blast
qed simp

end

interpretation ranges: region_index index_inv index_clear index_add index_remove findByRangeOverlap
proof
  show "index_inv index_clear Map.empty" by (rule clear_inv)
  show "\<exists>I'. index_add i r ptr I = Inr I' \<and> index_inv I' (R(i \<mapsto> (r, ptr)))"
    if "index_inv I R" "R i \<in> {None, Some (r, ptr)}" "range_ok r" for I :: "'r root_map" and R i r ptr
    using index_add_ok [OF that(1), of i "fst r" "snd r" ptr] that(2,3) by (simp add: range_ok_def)
  show "\<exists>I'. index_remove r i I = Inr I' \<and> index_inv I' (R(i := None))"
    if "index_inv I R" "R i = Some (r, ptr)" for I :: "'r root_map" and R i r ptr
    using index_remove_ok [OF that(1), of i "fst r" "snd r" ptr] that(2) by simp
  show "\<exists>res. findByRangeOverlap q I = Inr res \<and>
      (\<forall>i ptr. map_of res i = Some ptr \<longleftrightarrow> (\<exists>r. R i = Some (r, ptr) \<and> overlaps r q))"
    if "index_inv I R" "range_ok q" for I :: "'r root_map" and R q
    using find_ok [OF that(1), of "fst q" "snd q"] that(2) by (simp add: range_ok_def overlaps_def)
qed

subsection \<open>Histories of an index\<close>

datatype 'r index_op = Add RegionID RegionRange 'r | Remove RegionRange RegionID

fun index_run :: "'r index_op list \<Rightarrow> 'r root_map \<Rightarrow> 'r root_map result" where
  "index_run [] root = Inr root"
| "index_run (Add i r ptr # ops) root = rbind (index_add i r ptr root) (index_run ops)"
| "index_run (Remove r i # ops) root = rbind (index_remove r i root) (index_run ops)"

text \<open>What the history means for the regions: a region is added once, with a range that is not empty, and
  removed with the range it was added with.\<close>

fun regions_run :: "'r index_op list \<Rightarrow> 'r regions_of \<Rightarrow> 'r regions_of option" where
  "regions_run [] R = Some R"
| "regions_run (Add i r ptr # ops) R = (if R i = None \<and> range_ok r then regions_run ops (R(i \<mapsto> (r, ptr))) else None)"
| "regions_run (Remove r i # ops) R =
     (case R i of Some (r', ptr) \<Rightarrow> if r = r' then regions_run ops (R(i := None)) else None | None \<Rightarrow> None)"

lemma index_run_ok:
  "index_inv root R \<Longrightarrow> regions_run ops R = Some R' \<Longrightarrow> \<exists>root'. index_run ops root = Inr root' \<and> index_inv root' R'"
proof (induction ops arbitrary: root R)
  case (Cons op ops)
  show ?case
  proof (cases op)
    case (Add i r ptr)
    then have r: "R i = None" "range_ok r" "regions_run ops (R(i \<mapsto> (r, ptr))) = Some R'"
      using Cons.prems(2) by (auto split: if_splits)
    obtain root1 where r1: "index_add i r ptr root = Inr root1" "index_inv root1 (R(i \<mapsto> (r, ptr)))"
      using ranges.add_inv [OF Cons.prems(1) _ r(2)] r(1) by blast
    show ?thesis using Cons.IH [OF r1(2) r(3)] by (simp add: Add r1(1))
  next
    case (Remove r i)
    then obtain ptr where r: "R i = Some (r, ptr)" "regions_run ops (R(i := None)) = Some R'"
      using Cons.prems(2) by (auto split: option.splits if_splits)
    obtain root1 where r1: "index_remove r i root = Inr root1" "index_inv root1 (R(i := None))"
      using ranges.remove_inv [OF Cons.prems(1) r(1)] by blast
    show ?thesis using Cons.IH [OF r1(2) r(2)] by (simp add: Remove r1(1))
  qed
qed simp

text \<open>
  C2: the index implements the set of regions. After any history of additions and removals, in which a
  region is added once with a range that is not empty and removed with the range it has, no operation has
  failed, and the lookup of a range returns exactly the regions whose range overlaps it, each once.
\<close>

theorem range_index_refines:
  assumes "regions_run ops Map.empty = Some R" and "range_ok q"
  shows "\<exists>root res. index_run ops index_clear = Inr root \<and> findByRangeOverlap q root = Inr res \<and>
    (\<forall>i ptr. map_of res i = Some ptr \<longleftrightarrow> (\<exists>r. R i = Some (r, ptr) \<and> overlaps r q))"
  using index_run_ok [OF clear_inv assms(1)] ranges.find_exact [OF _ assms(2)] by blast

theorem range_index_refines_witness:
  "let ops = [Add 1 (makeComparableKeys [] [5]) CHR ''a'', Add 2 (makeComparableKeys [5] []) CHR ''b'',
              Remove (makeComparableKeys [] [5]) 1, Add 1 (makeComparableKeys [] [3]) CHR ''c'']
   in \<exists>root res. index_run ops index_clear = Inr root
     \<and> findByRangeOverlap (makeComparableKeys [1] [4]) root = Inr res
     \<and> map_of res 1 = Some CHR ''c'' \<and> map_of res 2 = None"
proof -
  have ok: "range_ok (makeComparableKeys [] [5])" "range_ok (makeComparableKeys [5] [])"
      "range_ok (makeComparableKeys [] [3])" "range_ok (makeComparableKeys [1] [4])"
    by (simp_all add: range_ok_def makeComparableKeys_def makeTiKVRangeKey_def MAX_KEY_def less_TiKVRangeKey_def
        less_eq_TiKVRangeKey_def compare_range_key_def str_compare_def)
  have o: "overlaps (makeComparableKeys [] [3]) (makeComparableKeys [1] [4])"
      "\<not> overlaps (makeComparableKeys [5] []) (makeComparableKeys [1] [4])"
    by (simp_all add: overlaps_def makeComparableKeys_def makeTiKVRangeKey_def less_TiKVRangeKey_def
        compare_range_key_def str_compare_def)
  let ?ops = "[Add 1 (makeComparableKeys [] [5]) CHR ''a'', Add 2 (makeComparableKeys [5] []) CHR ''b'',
              Remove (makeComparableKeys [] [5]) 1, Add 1 (makeComparableKeys [] [3]) CHR ''c'']"
  let ?R = "[1 \<mapsto> (makeComparableKeys [] [3], CHR ''c''), 2 \<mapsto> (makeComparableKeys [5] [], CHR ''b'')]"
  have "regions_run ?ops Map.empty = Some ?R" by (simp add: ok fun_upd_twist [of 1 2])
  from range_index_refines [OF this ok(4)] obtain root res where r: "index_run ?ops index_clear = Inr root"
      "findByRangeOverlap (makeComparableKeys [1] [4]) root = Inr res"
      and f: "\<forall>i ptr. map_of res i = Some ptr \<longleftrightarrow> (\<exists>r. ?R i = Some (r, ptr) \<and> overlaps r (makeComparableKeys [1] [4]))"
    by blast
  have "map_of res 1 = Some CHR ''c''" using spec [OF spec [OF f, of 1], of "CHR ''c''"] o(1) by simp
  moreover have "map_of res 2 \<noteq> Some ptr" for ptr using spec [OF spec [OF f, of 2], of ptr] o(2) by simp
  then have "map_of res 2 = None" by (cases "map_of res 2") blast+
  ultimately show ?thesis unfolding Let_def using r by blast
qed

end
