(* ===== verification/Persister.thy ===== *)
theory Persister
  imports Region
begin

section \<open>Persisted regions\<close>

text \<open>
  \<open>Storages/Transaction/RegionPersister.cpp\<close>. The page storage below it, in either of its two versions, is the
  map it presents: a page has the id of a region, a tag and its bytes; a batch with one operation is one
  update of the map; \<open>traverse\<close> visits every page once. The garbage collection of the pages keeps the map.
\<close>

subsection \<open>Operations\<close>

record Page =
  pg_tag :: UInt64
  pg_data :: bytes

type_synonym Pages = "(RegionID \<times> Page) list"

definition persister_drop :: "RegionID \<Rightarrow> Pages \<Rightarrow> Pages" where
  "persister_drop i pages = filter (\<lambda>p. fst p \<noteq> i) pages"

record RegionCacheWriteElement =
  we_region_id :: RegionID
  we_buffer :: bytes
  we_region_size :: UInt64
  we_applied_index :: UInt64

definition computeRegionWriteBuffer :: "ProtoEnv \<Rightarrow> Region \<Rightarrow> RegionCacheWriteElement" where
  "computeRegionWriteBuffer pe rg =
     (case region_serialize pe rg of ((buffer, region_size), applied_index) \<Rightarrow>
       \<lparr>we_region_id = region_id rg, we_buffer = buffer, we_region_size = region_size, we_applied_index = applied_index\<rparr>)"

definition doPersist :: "RegionCacheWriteElement \<Rightarrow> Region \<Rightarrow> Pages \<Rightarrow> Pages" where
  "doPersist el rg pages =
     (if (case map_of pages (we_region_id el) of Some entry \<Rightarrow> pg_tag entry > we_applied_index el | None \<Rightarrow> False) then pages
      else if isPendingRemove rg then pages
      else AList.update (we_region_id el) \<lparr>pg_tag = we_applied_index el, pg_data = we_buffer el\<rparr> pages)"

definition persister_persist :: "ProtoEnv \<Rightarrow> Region \<Rightarrow> Pages \<Rightarrow> Pages" where
  "persister_persist pe rg pages = doPersist (computeRegionWriteBuffer pe rg) rg pages"

definition acceptor :: "ProtoEnv \<Rightarrow> bool \<Rightarrow> RegionID \<times> Page \<Rightarrow> (RegionID \<times> Region) list \<Rightarrow> (RegionID \<times> Region) list result" where
  "acceptor pe proxy page regions =
     rbind (region_deserialize pe proxy (pg_data (snd page))) (\<lambda>(rg, _).
       if fst page \<noteq> region_id rg then throw ''region id and page id not match!''
       else Inr (fst (umap_emplace (fst page) rg regions)))"

definition persister_restore :: "ProtoEnv \<Rightarrow> bool \<Rightarrow> Pages \<Rightarrow> (RegionID \<times> Region) list result" where
  "persister_restore pe proxy pages = rfold (acceptor pe proxy) pages []"

subsection \<open>Loading the pages\<close>

definition loads :: "ProtoEnv \<Rightarrow> bool \<Rightarrow> RegionID \<times> Page \<Rightarrow> Region \<Rightarrow> bool" where
  "loads pe proxy page rg \<longleftrightarrow> (\<exists>rest. region_deserialize pe proxy (pg_data (snd page)) = Inr (rg, rest)) \<and> region_id rg = fst page"

lemma acceptor_iff: "acceptor pe proxy page m = Inr m' \<longleftrightarrow> (\<exists>rg. loads pe proxy page rg \<and> m' = fst (umap_emplace (fst page) rg m))"
  by (cases "region_deserialize pe proxy (pg_data (snd page))") (auto simp: acceptor_def loads_def throw_def split: prod.splits)

lemma loads_unique: "loads pe proxy page rg \<Longrightarrow> loads pe proxy page rg' \<Longrightarrow> rg = rg'"
  by (auto simp: loads_def)

definition loaded :: "ProtoEnv \<Rightarrow> bool \<Rightarrow> Pages \<Rightarrow> (RegionID \<times> Region) list \<Rightarrow> bool" where
  "loaded pe proxy = list_all2 (\<lambda>page e. fst e = fst page \<and> loads pe proxy page (snd e))"

lemma restore_loop:
  assumes "distinct (map fst m @ map fst pages)"
  shows "rfold (acceptor pe proxy) pages m = Inr m' \<longleftrightarrow> (\<exists>rs. m' = m @ rs \<and> loaded pe proxy pages rs)"
  using assms
proof (induction pages arbitrary: m)
  case (Cons page pages)
  have new: "umap_emplace (fst page) rg m = (m @ [(fst page, rg)], True)" for rg
  proof -
    have "map_of m (fst page) = None" using Cons.prems by (simp add: map_of_eq_None_iff)
    then show ?thesis by (simp add: umap_emplace_def)
  qed
  have "rfold (acceptor pe proxy) (page # pages) m = Inr m' \<longleftrightarrow>
      (\<exists>rg. loads pe proxy page rg \<and> rfold (acceptor pe proxy) pages (m @ [(fst page, rg)]) = Inr m')"
    by (auto simp: rbind_eq_Inr acceptor_iff new)
  also have "\<dots> \<longleftrightarrow> (\<exists>rg rs. loads pe proxy page rg \<and> m' = m @ (fst page, rg) # rs \<and> loaded pe proxy pages rs)"
    using Cons.prems by (subst Cons.IH) auto
  also have "\<dots> \<longleftrightarrow> (\<exists>rs. m' = m @ rs \<and> loaded pe proxy (page # pages) rs)"
    by (auto simp: loaded_def list_all2_Cons1)
  finally show ?case .
qed (auto simp: loaded_def)

lemma restore_iff: "umap_inv pages \<Longrightarrow> persister_restore pe proxy pages = Inr m \<longleftrightarrow> loaded pe proxy pages m"
  using restore_loop [of "[]" pages] by (simp add: persister_restore_def umap_inv_def)

lemma loaded_keys: "loaded pe proxy pages m \<Longrightarrow> map fst m = map fst pages"
  unfolding loaded_def by (induction rule: list_all2_induct) auto

lemma loaded_lookup:
  "loaded pe proxy pages m \<Longrightarrow> (case map_of pages i of None \<Rightarrow> map_of m i = None | Some p \<Rightarrow> \<exists>rg. map_of m i = Some rg \<and> loads pe proxy (i, p) rg)"
  unfolding loaded_def by (induction rule: list_all2_induct) (auto split: option.splits)

lemma loaded_erase: "loaded pe proxy pages m \<Longrightarrow> loaded pe proxy (filter (\<lambda>p. fst p \<noteq> i) pages) (filter (\<lambda>p. fst p \<noteq> i) m)"
  unfolding loaded_def by (induction rule: list_all2_induct) auto

lemma loaded_update:
  "loaded pe proxy pages m \<Longrightarrow> loads pe proxy (i, p) rg \<Longrightarrow> loaded pe proxy (AList.update i p pages) (AList.update i rg m)"
  unfolding loaded_def by (induction rule: list_all2_induct) auto

lemma compute_buffer:
  "we_region_id (computeRegionWriteBuffer pe rg) = region_id rg" "we_buffer (computeRegionWriteBuffer pe rg) = fst (fst (region_serialize pe rg))"
  "we_applied_index (computeRegionWriteBuffer pe rg) = region_appliedIndex rg"
proof -
  have "snd (region_serialize pe rg) = region_appliedIndex rg"
    by (simp add: region_serialize_def meta_serialize_def region_appliedIndex_def meta_appliedIndex_def)
  then show "we_region_id (computeRegionWriteBuffer pe rg) = region_id rg"
      "we_buffer (computeRegionWriteBuffer pe rg) = fst (fst (region_serialize pe rg))"
      "we_applied_index (computeRegionWriteBuffer pe rg) = region_appliedIndex rg"
    by (simp_all add: computeRegionWriteBuffer_def split_beta)
qed

lemma persist_cases:
  "persister_persist pe rg pages =
     (if (\<exists>pg. map_of pages (region_id rg) = Some pg \<and> pg_tag pg > region_appliedIndex rg) \<or> isPendingRemove rg then pages
      else AList.update (region_id rg) \<lparr>pg_tag = region_appliedIndex rg, pg_data = fst (fst (region_serialize pe rg))\<rparr> pages)"
  by (cases "map_of pages (region_id rg)") (simp_all add: persister_persist_def doPersist_def compute_buffer)

lemma persist_distinct: "umap_inv pages \<Longrightarrow> umap_inv (persister_persist pe rg pages)"
  by (simp add: persist_cases umap_inv_def distinct_update)

lemma drop_distinct: "umap_inv pages \<Longrightarrow> umap_inv (persister_drop i pages)"
  by (simp add: persister_drop_def umap_inv_def distinct_map_filter)

subsection \<open>Properties\<close>

text \<open>
  C26: persisting a region that is not to be removed and is not older than its page makes a later restart find
  the region with the same meta and equal data, and every other region as before; otherwise nothing is
  written, so the applied index on disk never goes back. A restart after a drop finds all regions but the
  dropped one.
\<close>

theorem persist_restore:
  assumes "umap_inv pages" and "persister_restore pe proxy pages = Inr m"
    and "region_inv rg" and "meta_ok pe (rg_meta rg)" and "stored_ok (rg_data rg)"
  shows "(if isPendingRemove rg \<or> (\<exists>pg. map_of pages (region_id rg) = Some pg \<and> pg_tag pg > region_appliedIndex rg)
      then persister_persist pe rg pages = pages
      else \<exists>m' rg'. persister_restore pe proxy (persister_persist pe rg pages) = Inr m' \<and> map_of m' = (map_of m)(region_id rg \<mapsto> rg')
        \<and> rg_meta rg' = rg_meta rg \<and> Region_eq rg' rg)
    \<and> (\<exists>m'. persister_restore pe proxy (persister_drop i pages) = Inr m' \<and> map_of m' = (map_of m)(i := None))"
proof
  have m: "loaded pe proxy pages m" using assms(1,2) by (simp add: restore_iff)
  show "if isPendingRemove rg \<or> (\<exists>pg. map_of pages (region_id rg) = Some pg \<and> pg_tag pg > region_appliedIndex rg)
      then persister_persist pe rg pages = pages
      else \<exists>m' rg'. persister_restore pe proxy (persister_persist pe rg pages) = Inr m' \<and> map_of m' = (map_of m)(region_id rg \<mapsto> rg')
        \<and> rg_meta rg' = rg_meta rg \<and> Region_eq rg' rg"
  proof (cases "isPendingRemove rg \<or> (\<exists>pg. map_of pages (region_id rg) = Some pg \<and> pg_tag pg > region_appliedIndex rg)")
    case False
    let ?p = "\<lparr>pg_tag = region_appliedIndex rg, pg_data = fst (fst (region_serialize pe rg))\<rparr>"
    obtain rg' where r: "region_deserialize pe proxy (pg_data ?p) = Inr (rg', [])" "rg_meta rg' = rg_meta rg" "Region_eq rg' rg"
      using region_deserialize_serialize [OF assms(3-5), of proxy "[]"] by auto
    then have "loads pe proxy (region_id rg, ?p) rg'" by (simp add: loads_def region_id_def)
    note l = loaded_update [OF m this]
    have eq: "persister_persist pe rg pages = AList.update (region_id rg) ?p pages" unfolding persist_cases using False by auto
    have "persister_restore pe proxy (persister_persist pe rg pages) = Inr (AList.update (region_id rg) rg' m)"
      using l persist_distinct [OF assms(1), of pe rg] unfolding eq by (simp only: restore_iff)
    then show ?thesis unfolding if_not_P [OF False] using r by (intro exI conjI) (auto simp: update_conv')
  qed (auto simp: persist_cases)
  show "\<exists>m'. persister_restore pe proxy (persister_drop i pages) = Inr m' \<and> map_of m' = (map_of m)(i := None)"
    using loaded_erase [OF m, of i] drop_distinct [OF assms(1), of i]
    by (auto simp: restore_iff persister_drop_def map_of_erase intro!: exI)
qed

theorem persist_restore_witness:
  "\<exists>m' rg'. persister_restore sample_env False (persister_persist sample_env sample_region []) = Inr m'
     \<and> map_of m' = [region_id sample_region \<mapsto> rg'] \<and> Region_eq rg' sample_region"
proof -
  have "meta_ok sample_env (rg_meta sample_region)" by (rule sample_region_stored)
  moreover have "stored_ok (rg_data sample_region)" by (rule sample_region_stored)
  moreover have "\<not> isPendingRemove sample_region" "umap_inv ([] :: Pages)" "persister_restore sample_env False [] = Inr []"
    by (simp_all add: isPendingRemove_def peerState_def meta_peerState_def getState_def sample_region_def sample_meta_def umap_inv_def
        persister_restore_def)
  ultimately show ?thesis using persist_restore [OF _ _ sample_region_inv, of "[]" sample_env False "[]" 0] by simp blast
qed

end
