(* ===== verification/KVStore.thy ===== *)
theory KVStore
  imports RegionTable RangeIndex Persister
begin

section \<open>The store of regions\<close>

text \<open>
  \<open>Storages/Transaction/KVStore.cpp\<close>, with the functions of \<open>RegionTable.cpp\<close> that flush a region of the store
  and the queues of \<open>BackgroundService.cpp\<close>. The state holds what a \<open>TMTContext\<close> owns: the regions, their
  index by range, the pages of the persister, the table of regions and the storage. A shared pointer to a
  region is the id of the region, and the region is looked up in the store; an operation that changes a region
  through a pointer writes it back. The locks make each operation one step. The clock is read once for an
  operation. An exception that reaches the caller ends the process (\<open>ProxyFFI.cpp\<close>), so an operation that
  throws has no resulting state; where the code catches an exception, the exception is part of the result.
\<close>

subsection \<open>State\<close>

datatype StorageEngine = Engine_UNSPECIFIED | Engine_TMT | Engine_DT | Engine_UNSUPPORTED | Engine_DEBUGGING_MEMORY

record ('s, 'b) TMTContext =
  tmt_now :: Timepoint
  bg_flush_disabled :: bool
  tmt_proto :: ProtoEnv
  tmt_api :: "('s, 'b) StorageApi"
  tmt_delta :: "'s DeltaApi"
  engine_type :: "TableID \<Rightarrow> 's \<Rightarrow> StorageEngine option"
  flush_cache :: "Region \<Rightarrow> 's \<Rightarrow> 's result"

record 's KVStore =
  ks_regions :: "(RegionID \<times> Region) list"
  ks_index :: "RegionID root_map"
  ks_pages :: Pages
  ks_table :: RegionTable
  ks_storage :: 's
  bg_gc_region_data :: "RegionDataReadInfo list list"
  regions_to_decode :: "RegionID list"
  regions_to_flush :: "RegionID list"
  last_gc_time :: Timepoint
  REGION_COMPACT_LOG_PERIOD :: int
  ks_proxy :: bool

datatype TiFlashApplyRes = Apply_None | Apply_Persist | Apply_NotFound

text \<open>The store before \<open>restore\<close>: the pages are those of the disk.\<close>

definition new_KVStore :: "Pages \<Rightarrow> 's \<Rightarrow> 's KVStore" where
  "new_KVStore pages st =
     \<lparr>ks_regions = [], ks_index = index_clear, ks_pages = pages, ks_table = new_RegionTable, ks_storage = st, bg_gc_region_data = [],
      regions_to_decode = [], regions_to_flush = [], last_gc_time = Timepoint_min, REGION_COMPACT_LOG_PERIOD = 0, ks_proxy = False\<rparr>"

definition ks_getRegion :: "RegionID \<Rightarrow> 's KVStore \<Rightarrow> Region option" where
  "ks_getRegion i ks = map_of (ks_regions ks) i"

text \<open>Writing through the pointer to a region of the store.\<close>

definition putRegion :: "Region \<Rightarrow> 's KVStore \<Rightarrow> 's KVStore" where
  "putRegion rg ks = ks\<lparr>ks_regions := AList.update (region_id rg) rg (ks_regions ks)\<rparr>"

definition region_getRange :: "Region \<Rightarrow> RegionRange result" where
  "region_getRange rg = rbind (meta_getRange (rg_meta rg)) (\<lambda>r. Inr (ori r))"

definition index_region :: "Region \<Rightarrow> 's KVStore \<Rightarrow> 's KVStore result" where
  "index_region rg ks =
     rbind (region_getRange rg) (\<lambda>r. rbind (index_add (region_id rg) r (region_id rg) (ks_index ks)) (\<lambda>root.
       Inr (ks\<lparr>ks_index := root\<rparr>)))"

definition unindex_region :: "RegionRange \<Rightarrow> RegionID \<Rightarrow> 's KVStore \<Rightarrow> 's KVStore result" where
  "unindex_region r i ks = rbind (index_remove r i (ks_index ks)) (\<lambda>root. Inr (ks\<lparr>ks_index := root\<rparr>))"

definition handleRegionsByRangeOverlap :: "RegionRange \<Rightarrow> 's KVStore \<Rightarrow> RegionID region_map result" where
  "handleRegionsByRangeOverlap rng ks = findByRangeOverlap rng (ks_index ks)"

definition addRegionToDecode :: "('s, 'b) TMTContext \<Rightarrow> RegionID \<Rightarrow> 's KVStore \<Rightarrow> 's KVStore result" where
  "addRegionToDecode tmt i ks =
     (if bg_flush_disabled tmt then throw ''Try to addRegionToDecode while background flush is disabled.''
      else Inr (ks\<lparr>regions_to_decode := List.insert i (regions_to_decode ks)\<rparr>))"

definition addRegionToFlush :: "('s, 'b) TMTContext \<Rightarrow> RegionID \<Rightarrow> 's KVStore \<Rightarrow> 's KVStore result" where
  "addRegionToFlush tmt i ks =
     (if bg_flush_disabled tmt then throw ''Try to addRegionToFlush while background flush is disabled.''
      else Inr (ks\<lparr>regions_to_flush := List.insert i (regions_to_flush ks)\<rparr>))"

subsection \<open>Start\<close>

definition ks_restore :: "('s, 'b) TMTContext \<Rightarrow> bool \<Rightarrow> 's KVStore \<Rightarrow> 's KVStore result" where
  "ks_restore tmt proxy ks =
     rbind (persister_restore (tmt_proto tmt) proxy (ks_pages ks)) (\<lambda>regions.
       rfold (\<lambda>(i, rg). index_region rg) regions (ks\<lparr>ks_proxy := proxy, ks_regions := regions\<rparr>))"

definition rt_restore :: "('s, 'b) TMTContext \<Rightarrow> 's KVStore \<Rightarrow> 's KVStore result" where
  "rt_restore tmt ks =
     rbind (rfold (\<lambda>(i, rg). updateRegion (tmt_now tmt) rg) (ks_regions ks) (ks_table ks)) (\<lambda>rt. Inr (ks\<lparr>ks_table := rt\<rparr>))"

definition start_BackgroundService :: "('s, 'b) TMTContext \<Rightarrow> 's KVStore \<Rightarrow> 's KVStore result" where
  "start_BackgroundService tmt ks =
     (if bg_flush_disabled tmt then Inr ks
      else rfold (\<lambda>(i, rg). addRegionToDecode tmt i) (filter (\<lambda>(i, rg). region_dataSize rg \<noteq> 0) (ks_regions ks)) ks)"

definition tmt_restore :: "('s, 'b) TMTContext \<Rightarrow> bool \<Rightarrow> 's KVStore \<Rightarrow> 's KVStore result" where
  "tmt_restore tmt proxy ks =
     rbind (ks_restore tmt proxy ks) (\<lambda>ks1. rbind (rt_restore tmt ks1) (start_BackgroundService tmt))"

subsection \<open>Persisting and flushing\<close>

definition persistRegion :: "('s, 'b) TMTContext \<Rightarrow> Region \<Rightarrow> 's KVStore \<Rightarrow> 's KVStore" where
  "persistRegion tmt rg ks = ks\<lparr>ks_pages := persister_persist (tmt_proto tmt) rg (ks_pages ks)\<rparr>"

definition tryPersist :: "('s, 'b) TMTContext \<Rightarrow> RegionID \<Rightarrow> 's KVStore \<Rightarrow> 's KVStore" where
  "tryPersist tmt i ks = (case ks_getRegion i ks of None \<Rightarrow> ks | Some rg \<Rightarrow> persistRegion tmt rg ks)"

definition tryFlushRegionCacheInStorage :: "('s, 'b) TMTContext \<Rightarrow> Region \<Rightarrow> 's KVStore \<Rightarrow> 's KVStore result" where
  "tryFlushRegionCacheInStorage tmt rg ks =
     (if bg_flush_disabled tmt then
        (case engine_type tmt (rg_table_id rg) (ks_storage ks) of None \<Rightarrow> Inr ks
         | Some _ \<Rightarrow> rbind (flush_cache tmt rg (ks_storage ks)) (\<lambda>st. Inr (ks\<lparr>ks_storage := st\<rparr>)))
      else Inr ks)"

text \<open>
  What a flush leaves: the exception if it threw one, the rows it wrote, the region and the store. The region
  need not be one of the store; it is one when \<open>try_persist\<close> is set.
\<close>

type_synonym 's flushed = "exn option \<times> RegionDataReadInfo list \<times> Region \<times> 's KVStore"

definition flushRegion :: "('s, 'b) TMTContext \<Rightarrow> 'b PreDecodeBlock option \<Rightarrow> bool \<Rightarrow> Region \<Rightarrow> 's KVStore \<Rightarrow> 's flushed" where
  "flushRegion tmt cache try_persist rg ks =
     (case writeBlockByRegion (tmt_api tmt) cache rg (ks_storage ks) of
        Inl e \<Rightarrow> (Some e, [], rg, ks)
      | Inr (rows, rg1, st) \<Rightarrow>
          let ks1 = ks\<lparr>ks_storage := st\<rparr>
          in if region_dataSize rg1 = 0 \<and> try_persist then
               (case tryFlushRegionCacheInStorage tmt rg1 ks1 of
                  Inl e \<Rightarrow> (Some e, [], rg1, ks1)
                | Inr ks2 \<Rightarrow> (None, rows, rg1, tryPersist tmt (region_id rg1) (putRegion rg1 ks2)))
             else (None, rows, rg1, ks1))"

definition tryFlushRegion :: "('s, 'b) TMTContext \<Rightarrow> 'b PreDecodeBlock option \<Rightarrow> bool \<Rightarrow> Region \<Rightarrow> 's KVStore \<Rightarrow> 's flushed result" where
  "tryFlushRegion tmt cache try_persist rg ks =
     rbind (beginFlush (region_id rg) (ks_table ks)) (\<lambda>(status, rt1).
       if \<not> status then Inr (None, [], rg, ks)
       else (case flushRegion tmt cache try_persist rg (ks\<lparr>ks_table := rt1\<rparr>) of (first_exception, rows, rg', ks1) \<Rightarrow>
         rbind (endFlush (tmt_now tmt) rg' (ks_table ks1)) (\<lambda>rt2.
           Inr (first_exception, rows, rg', ks1\<lparr>ks_table := rt2\<rparr>))))"

text \<open>A flush whose exception is not caught.\<close>

definition flush_rethrow :: "('s, 'b) TMTContext \<Rightarrow> bool \<Rightarrow> Region \<Rightarrow> 's KVStore \<Rightarrow> (Region \<times> 's KVStore) result" where
  "flush_rethrow tmt try_persist rg ks =
     rbind (tryFlushRegion tmt None try_persist rg ks) (\<lambda>(first_exception, rows, rg', ks').
       case first_exception of Some e \<Rightarrow> Inl e | None \<Rightarrow> Inr (rg', putRegion rg' ks'))"

definition tryFlushRegion_id :: "('s, 'b) TMTContext \<Rightarrow> bool \<Rightarrow> RegionID \<Rightarrow> 's KVStore \<Rightarrow> (exn option \<times> 's KVStore) result" where
  "tryFlushRegion_id tmt try_persist i ks =
     (case ks_getRegion i ks of None \<Rightarrow> Inr (None, ks)
      | Some rg \<Rightarrow> rbind (tryFlushRegion tmt None try_persist rg ks) (\<lambda>(first_exception, rows, rg', ks').
          Inr (first_exception, putRegion rg' ks')))"

definition tryFlushRegions :: "('s, 'b) TMTContext \<Rightarrow> 's KVStore \<Rightarrow> (exn option \<times> bool \<times> 's KVStore) result" where
  "tryFlushRegions tmt ks =
     rbind (pickRegionToFlush (tmt_now tmt) (ks_table ks)) (\<lambda>(region_to_flush, rt).
       if region_to_flush \<noteq> InvalidRegionID
       then rbind (tryFlushRegion_id tmt True region_to_flush (ks\<lparr>ks_table := rt\<rparr>)) (\<lambda>(e, ks'). Inr (e, True, ks'))
       else Inr (None, False, ks\<lparr>ks_table := rt\<rparr>))"

text \<open>The task of the background service that works on the queues; decoding in advance changes no data.\<close>

definition region_handle_task :: "('s, 'b) TMTContext \<Rightarrow> 's KVStore \<Rightarrow> (exn option \<times> bool \<times> 's KVStore) result" where
  "region_handle_task tmt ks =
     (let ks1 = ks\<lparr>regions_to_decode := tl (regions_to_decode ks)\<rparr>; ok = (regions_to_decode ks \<noteq> [])
      in case regions_to_flush ks1 of [] \<Rightarrow> Inr (None, ok, ks1)
         | i # q \<Rightarrow> rbind (tryFlushRegion_id tmt True i (ks1\<lparr>regions_to_flush := q\<rparr>)) (\<lambda>(e, ks2). Inr (e, True, ks2)))"

definition gcRegionCache :: "('s, 'b) TMTContext \<Rightarrow> int \<Rightarrow> 's KVStore \<Rightarrow> 's KVStore" where
  "gcRegionCache tmt gc_persist_period ks =
     (let ks1 = ks\<lparr>bg_gc_region_data := []\<rparr>
      in if tmt_now tmt < last_gc_time ks1 + gc_persist_period * 1000000000 then ks1 else ks1\<lparr>last_gc_time := tmt_now tmt\<rparr>)"

definition setRegionCompactLogPeriod :: "int \<Rightarrow> 's KVStore \<Rightarrow> 's KVStore" where
  "setRegionCompactLogPeriod period ks = ks\<lparr>REGION_COMPACT_LOG_PERIOD := period\<rparr>"

subsection \<open>Removing regions\<close>

definition removeRegion :: "('s, 'b) TMTContext \<Rightarrow> RegionID \<Rightarrow> bool \<Rightarrow> 's KVStore \<Rightarrow> 's KVStore result" where
  "removeRegion tmt i remove_data ks =
     (case map_of (ks_regions ks) i of None \<Rightarrow> Inl OutOfBounds
      | Some rg \<Rightarrow>
          let ks1 = ks\<lparr>ks_regions := filter (\<lambda>p. fst p \<noteq> i) (ks_regions ks)\<rparr>
          in rbind (region_getRange rg) (\<lambda>r. rbind (unindex_region r i ks1) (\<lambda>ks2.
             let ks3 = ks2\<lparr>ks_pages := persister_drop i (ks_pages ks2)\<rparr>
             in rbind (rt_removeRegion (tmt_delta tmt) i remove_data (ks_table ks3) (ks_storage ks3)) (\<lambda>(rt, st).
               Inr (ks3\<lparr>ks_table := rt, ks_storage := st\<rparr>)))))"

definition handleDestroy :: "('s, 'b) TMTContext \<Rightarrow> RegionID \<Rightarrow> 's KVStore \<Rightarrow> 's KVStore result" where
  "handleDestroy tmt i ks =
     (case ks_getRegion i ks of None \<Rightarrow> Inr ks
      | Some rg \<Rightarrow> removeRegion tmt i True (putRegion (setPendingRemove rg) ks))"

subsection \<open>Write commands\<close>

text \<open>The requests of a raft command; those of another kind are skipped.\<close>

datatype RaftRequest = PutRequest string TiKVKey TiKVValue | DeleteRequest string TiKVKey | OtherRequest

definition add_request :: "RaftRequest \<Rightarrow> WriteCmd list \<Rightarrow> WriteCmd list result" where
  "add_request req cmds =
     (case req of
        PutRequest cf key v \<Rightarrow> rbind (NameToCF cf) (\<lambda>c. Inr (cmds @ [\<lparr>wc_type = Put, wc_cf = c, wc_key = key, wc_val = v\<rparr>]))
      | DeleteRequest cf key \<Rightarrow> rbind (NameToCF cf) (\<lambda>c. Inr (cmds @ [\<lparr>wc_type = Del, wc_cf = c, wc_key = key, wc_val = []\<rparr>]))
      | OtherRequest \<Rightarrow> Inr cmds)"

definition handleWriteRaftCmd :: "('s, 'b) TMTContext \<Rightarrow> WriteCmd list \<Rightarrow> RegionID \<Rightarrow> UInt64 \<Rightarrow> UInt64 \<Rightarrow> 's KVStore \<Rightarrow> (TiFlashApplyRes \<times> 's KVStore) result" where
  "handleWriteRaftCmd tmt cmds i idx t ks =
     (case ks_getRegion i ks of None \<Rightarrow> Inr (Apply_NotFound, ks)
      | Some rg \<Rightarrow>
          rbind (region_handleWriteRaftCmd (tmt_api tmt) (bg_flush_disabled tmt) cmds idx t rg (ks_storage ks)) (\<lambda>(rg', st).
          rbind (updateRegion (tmt_now tmt) rg' (ks_table ks)) (\<lambda>rt.
            let ks1 = putRegion rg' (ks\<lparr>ks_storage := st, ks_table := rt\<rparr>)
            in rbind (if region_dataSize rg' \<noteq> region_dataSize rg \<and> \<not> bg_flush_disabled tmt then addRegionToDecode tmt i ks1 else Inr ks1)
              (\<lambda>ks2. Inr (Apply_None, ks2)))))"

definition handleWriteRaftRequest :: "('s, 'b) TMTContext \<Rightarrow> RaftRequest list \<Rightarrow> RegionID \<Rightarrow> UInt64 \<Rightarrow> UInt64 \<Rightarrow> 's KVStore \<Rightarrow> (TiFlashApplyRes \<times> 's KVStore) result" where
  "handleWriteRaftRequest tmt requests i idx t ks =
     rbind (rfold add_request requests []) (\<lambda>cmds. handleWriteRaftCmd tmt cmds i idx t ks)"

subsection \<open>Operations that keep the place of a region\<close>

text \<open>A region keeps its place when its id, its table and its range do not change.\<close>

definition keeps :: "Region \<Rightarrow> Region \<Rightarrow> bool" where
  "keeps rg rg' \<longleftrightarrow> (region_inv rg \<longrightarrow> region_inv rg') \<and> region_id rg' = region_id rg \<and> rg_table_id rg' = rg_table_id rg
     \<and> rs_range (rm_state (rg_meta rg')) = rs_range (rm_state (rg_meta rg))"

lemma keeps_refl: "keeps rg rg"
  by (simp add: keeps_def)

lemma keeps_trans: "keeps rg1 rg2 \<Longrightarrow> keeps rg2 rg3 \<Longrightarrow> keeps rg1 rg3"
  by (simp add: keeps_def)

lemma keeps_rfold:
  "rfold f xs rg = Inr rg' \<Longrightarrow> (\<And>x rg rg'. f x rg = Inr rg' \<Longrightarrow> keeps rg rg') \<Longrightarrow> keeps rg rg'"
  by (erule rfold_invariant [where P = "keeps rg"]) (auto intro: keeps_refl keeps_trans)

lemma keeps_data: "(RegionData_inv (rg_data rg) \<Longrightarrow> RegionData_inv d) \<Longrightarrow> keeps rg (rg\<lparr>rg_data := d\<rparr>)"
  by (simp add: keeps_def region_inv_def region_id_def)

lemma keeps_applied: "keeps rg (rg\<lparr>rg_meta := doSetApplied i t (rg_meta rg)\<rparr>)"
  by (simp add: keeps_def region_inv_def doSetApplied_inv region_id_def) (simp add: doSetApplied_def)

lemma keeps_state: "keeps rg (setPeerState st rg)"
  by (simp add: keeps_def setPeerState_inv) (simp add: setPeerState_def meta_setPeerState_def setState_def region_id_def)

lemma doInsert_keeps: "doInsert cf key v rg = Inr rg' \<Longrightarrow> keeps rg rg'"
  by (auto simp: doInsert_def rbind_eq_Inr intro: keeps_data RegionData.insert_inv)

lemma doRemove_keeps: "doRemove cf key rg = Inr rg' \<Longrightarrow> keeps rg rg'"
  by (auto simp: doRemove_def rbind_eq_Inr intro: keeps_data RegionData.remove_inv)

lemma handle_write_cmd_keeps: "handle_write_cmd cmds rg = Inr rg' \<Longrightarrow> keeps rg rg'"
  unfolding handle_write_cmd_order
  by (erule keeps_rfold) (auto simp: handle_by_index_def intro: doInsert_keeps doRemove_keeps split: WriteCmdType.splits)

lemma remover_remove_keeps: "keeps rg (remover_remove key rg)"
  using remover_remove_inv [of rg key] by (simp add: keeps_def) (simp add: remover_remove_def region_id_def split: option.split)

lemma RemoveRegionCommitCache_keeps: "keeps rg (RemoveRegionCommitCache rows rg)"
  unfolding RemoveRegionCommitCache_def
  by (induction rows arbitrary: rg) (auto intro: keeps_refl keeps_trans [OF remover_remove_keeps])

lemma writeBlockByRegion_keeps: "writeBlockByRegion api cache rg st = Inr (rows, rg', st') \<Longrightarrow> keeps rg rg'"
  by (erule writeBlockByRegion_cases) (simp_all add: RemoveRegionCommitCache_keeps keeps_refl)

lemma pop_pre_decode_keeps: "keeps rg (pop_pre_decode rg)"
  using pop_pre_decode_inv [of rg] by (simp add: keeps_def) (simp add: pop_pre_decode_def Let_def region_id_def)

lemma region_handleWriteRaftCmd_keeps:
  assumes "region_handleWriteRaftCmd api bg cmds i t rg st = Inr (rg', st')"
  shows "keeps rg rg'"
  using assms
proof (cases rule: region_handleWriteRaftCmd_cases)
  case (applied rg1 rg2)
  have "keeps rg1 rg2"
    using applied(4) by (auto intro: keeps_trans [OF writeBlockByRegion_keeps] pop_pre_decode_keeps keeps_refl split: if_splits)
  then show ?thesis
    using handle_write_cmd_keeps [OF applied(3)] keeps_applied [of rg2] unfolding applied(5) by (blast intro: keeps_trans)
qed (simp add: keeps_refl)

lemma handleIngestSST_keeps: "handleIngestSST snaps i t rg = Inr rg' \<Longrightarrow> keeps rg rg'"
proof -
  have v: "ingest_view sv a = Inr b \<Longrightarrow> keeps a b" for sv a b
    unfolding ingest_view_def by (erule keeps_rfold) (auto dest: doInsert_keeps)
  assume "handleIngestSST snaps i t rg = Inr rg'"
  then show ?thesis
    by (auto simp: handleIngestSST_def rbind_eq_Inr keeps_refl split: if_splits dest!: keeps_rfold [OF _ v] intro: keeps_trans keeps_applied)
qed

subsection \<open>Invariant\<close>

text \<open>
  The regions of the store are well formed and are found under their ids. The index holds exactly these regions
  with their current ranges, and the table of regions knows exactly these regions, each with its table. (This
  last part is given up when the storage of a table is dropped, which takes the table out of the table of
  regions while the regions stay.)
\<close>

definition region_range :: "Region \<Rightarrow> RegionRange" where
  "region_range rg = (case rs_range (rm_state (rg_meta rg)) of Some r \<Rightarrow> ori r | None \<Rightarrow> (MIN_KEY, MAX_KEY))"

definition ranges_of :: "(RegionID \<rightharpoonup> Region) \<Rightarrow> RegionID regions_of" where
  "ranges_of m i = map_option (\<lambda>rg. (region_range rg, i)) (m i)"

definition regions_ok :: "(RegionID \<times> Region) list \<Rightarrow> bool" where
  "regions_ok regs \<longleftrightarrow> umap_inv regs \<and> (\<forall>i rg. map_of regs i = Some rg \<longrightarrow> region_inv rg \<and> region_id rg = i)"

definition tables_of :: "(RegionID \<rightharpoonup> Region) \<Rightarrow> RegionID \<rightharpoonup> TableID" where
  "tables_of m i = map_option rg_table_id (m i)"

definition ks_inv :: "'s KVStore \<Rightarrow> bool" where
  "ks_inv ks \<longleftrightarrow> regions_ok (ks_regions ks) \<and> index_inv (ks_index ks) (ranges_of (map_of (ks_regions ks)))
     \<and> rt_inv (ks_table ks) \<and> map_of (rt_regions (ks_table ks)) = tables_of (map_of (ks_regions ks)) \<and> umap_inv (ks_pages ks)"

lemma ks_invD:
  assumes "ks_inv ks"
  shows "regions_ok (ks_regions ks)" "index_inv (ks_index ks) (ranges_of (map_of (ks_regions ks)))" "rt_inv (ks_table ks)"
    "map_of (rt_regions (ks_table ks)) = tables_of (map_of (ks_regions ks))" "umap_inv (ks_pages ks)"
  using assms by (simp_all add: ks_inv_def)

lemma getRange_ok:
  assumes "region_inv rg"
  shows "region_getRange rg = Inr (region_range rg)" "range_ok (region_range rg)"
proof -
  obtain r where r: "rs_range (rm_state (rg_meta rg)) = Some r"
      "mk_RegionRangeKeys (mr_start_key (getRegion (rm_state (rg_meta rg)))) (mr_end_key (getRegion (rm_state (rg_meta rg)))) = Inr r"
    using assms by (auto simp: region_inv_def meta_inv_def)
  then show "region_getRange rg = Inr (region_range rg)" by (simp add: region_getRange_def meta_getRange_def region_range_def)
  show "range_ok (region_range rg)"
    using mk_RegionRangeKeys_ok [OF r(2)] by (simp add: range_ok_def region_range_def r(1) makeComparableKeys_def makeTiKVRangeKey_le_MAX)
qed

lemma region_in_store:
  assumes "ks_inv ks" "ks_getRegion i ks = Some rg"
  shows "region_inv rg" "region_id rg = i" "map_of (ks_regions ks) i = Some rg" "table_agrees rg (ks_table ks)"
    "ranges_of (map_of (ks_regions ks)) i = Some (region_range rg, i)"
  using ks_invD(1,4) [OF assms(1)] assms(2)
  by (auto simp: regions_ok_def ks_getRegion_def table_agrees_def tables_of_def ranges_of_def)

lemma umap_inv_update_iff: "umap_inv (AList.update k v m) \<longleftrightarrow> umap_inv m"
  by (auto simp: umap_inv_def update_keys)

text \<open>A step that leaves the regions, the index and the tables of the regions as they are.\<close>

definition frame :: "'s KVStore \<Rightarrow> 's KVStore \<Rightarrow> bool" where
  "frame ks ks' \<longleftrightarrow> map_of (ks_regions ks') = map_of (ks_regions ks) \<and> (umap_inv (ks_regions ks) \<longrightarrow> umap_inv (ks_regions ks'))
     \<and> ks_index ks' = ks_index ks \<and> (rt_inv (ks_table ks) \<longrightarrow> rt_inv (ks_table ks'))
     \<and> map_of (rt_regions (ks_table ks')) = map_of (rt_regions (ks_table ks)) \<and> (umap_inv (ks_pages ks) \<longrightarrow> umap_inv (ks_pages ks'))"

lemma frame_refl: "frame ks ks"
  by (simp add: frame_def)

lemma frame_trans: "frame ks1 ks2 \<Longrightarrow> frame ks2 ks3 \<Longrightarrow> frame ks1 ks3"
  by (simp add: frame_def)

lemma frame_inv: "frame ks ks' \<Longrightarrow> ks_inv ks \<Longrightarrow> ks_inv ks'"
  by (simp add: frame_def ks_inv_def regions_ok_def)

lemma frame_get: "frame ks ks' \<Longrightarrow> ks_getRegion i ks' = ks_getRegion i ks"
  by (simp add: frame_def ks_getRegion_def)

lemma frame_put: "frame ks ks' \<Longrightarrow> frame (putRegion rg ks) (putRegion rg ks')"
  by (simp add: frame_def putRegion_def update_conv' umap_inv_update_iff)

lemma putRegion_inv:
  assumes inv: "ks_inv ks" and rg: "ks_getRegion i ks = Some rg" and k: "keeps rg rg'"
  shows "ks_inv (putRegion rg' ks)" "ks_getRegion i (putRegion rg' ks) = Some rg'"
proof -
  note s = region_in_store [OF inv rg]
  have i: "region_id rg' = i" "region_inv rg'" "region_range rg' = region_range rg" "rg_table_id rg' = rg_table_id rg"
    using k s by (auto simp: keeps_def region_range_def)
  have "ranges_of ((map_of (ks_regions ks))(i \<mapsto> rg')) = ranges_of (map_of (ks_regions ks))"
      "tables_of ((map_of (ks_regions ks))(i \<mapsto> rg')) = tables_of (map_of (ks_regions ks))"
    using s(3) i by (auto simp: ranges_of_def tables_of_def)
  then show "ks_inv (putRegion rg' ks)"
    using inv i(1,2) by (auto simp: ks_inv_def putRegion_def update_conv' regions_ok_def umap_inv_update)
  show "ks_getRegion i (putRegion rg' ks) = Some rg'" by (simp add: putRegion_def ks_getRegion_def update_conv' i)
qed

subsection \<open>Flushing and persisting\<close>

lemma persistRegion_frame: "frame ks (persistRegion tmt rg ks)"
  by (simp add: frame_def persistRegion_def persist_distinct)

lemma tryPersist_frame: "frame ks (tryPersist tmt i ks)"
  by (auto simp: tryPersist_def frame_refl persistRegion_frame split: option.split)

lemma storage_frame: "frame ks (ks\<lparr>ks_storage := st\<rparr>)"
  by (simp add: frame_def)

lemma tryFlushRegionCacheInStorage_frame: "tryFlushRegionCacheInStorage tmt rg ks = Inr ks' \<Longrightarrow> frame ks ks'"
  by (auto simp: tryFlushRegionCacheInStorage_def rbind_eq_Inr frame_refl storage_frame split: if_splits option.splits)

lemma addRegionToDecode_frame: "addRegionToDecode tmt i ks = Inr ks' \<Longrightarrow> frame ks ks'"
  by (auto simp: addRegionToDecode_def frame_def split: if_splits)

lemma addRegionToFlush_frame: "addRegionToFlush tmt i ks = Inr ks' \<Longrightarrow> frame ks ks'"
  by (auto simp: addRegionToFlush_def frame_def split: if_splits)

lemma beginFlush_frame: "beginFlush i (ks_table ks) = Inr (b, rt) \<Longrightarrow> frame ks (ks\<lparr>ks_table := rt\<rparr>)"
  using beginFlush_inv [of "ks_table ks" i b rt]
  by (auto simp: frame_def beginFlush_def rbind_eq_Inr setInternalRegion_fields split: option.splits if_splits)

lemma endFlush_frame: "endFlush now rg (ks_table ks) = Inr rt \<Longrightarrow> frame ks (ks\<lparr>ks_table := rt\<rparr>)"
  using endFlush_inv [of "ks_table ks" now rg rt]
  by (auto simp: frame_def endFlush_def Let_def rbind_eq_Inr setInternalRegion_fields dirty_insert_def split: option.splits if_splits)

lemma flushRegion_ok:
  assumes "flushRegion tmt cache try_persist rg ks = (e, rows, rg', ks')"
  shows "keeps rg rg'" "frame (putRegion rg' ks) (putRegion rg' ks')" "\<not> try_persist \<Longrightarrow> frame ks ks'"
proof -
  have "keeps rg rg' \<and> frame (putRegion rg' ks) (putRegion rg' ks') \<and> (\<not> try_persist \<longrightarrow> frame ks ks')"
  proof (cases "writeBlockByRegion (tmt_api tmt) cache rg (ks_storage ks)")
    case (Inl x)
    then show ?thesis using assms by (auto simp: flushRegion_def keeps_refl frame_refl)
  next
    case (Inr res)
    obtain rws rg1 st where res: "res = (rws, rg1, st)" by (metis prod.exhaust)
    have k: "keeps rg rg1" using writeBlockByRegion_keeps Inr res by metis
    let ?ks1 = "ks\<lparr>ks_storage := st\<rparr>"
    have f1: "frame (putRegion rg1 ks) (putRegion rg1 ?ks1)" by (rule frame_put [OF storage_frame])
    show ?thesis
    proof (cases "region_dataSize rg1 = 0 \<and> try_persist")
      case False
      then have "rg' = rg1 \<and> ks' = ?ks1" using assms Inr res by (auto simp: flushRegion_def Let_def)
      then show ?thesis using k f1 storage_frame by auto
    next
      case True
      have twice: "frame (putRegion rg1 ks2) (putRegion rg1 (putRegion rg1 ks2))" for ks2 :: "'a KVStore"
        by (simp add: frame_def putRegion_def update_conv' umap_inv_update_iff)
      show ?thesis
      proof (cases "tryFlushRegionCacheInStorage tmt rg1 ?ks1")
        case e: (Inl x)
        then have "rg' = rg1 \<and> ks' = ?ks1" using assms Inr res True by (auto simp: flushRegion_def Let_def)
        then show ?thesis using k f1 storage_frame True by auto
      next
        case ok: (Inr ks2)
        then have eq: "rg' = rg1" "ks' = tryPersist tmt (region_id rg1) (putRegion rg1 ks2)"
          using assms Inr res True by (auto simp: flushRegion_def Let_def)
        have "frame (putRegion rg1 ks) (putRegion rg1 ks2)"
          using f1 frame_put [OF tryFlushRegionCacheInStorage_frame [OF ok]] by (rule frame_trans)
        then show ?thesis
          using k True frame_trans [OF twice frame_put [OF tryPersist_frame]] unfolding eq by (blast intro: frame_trans)
      qed
    qed
  qed
  then show "keeps rg rg'" "frame (putRegion rg' ks) (putRegion rg' ks')" "\<not> try_persist \<Longrightarrow> frame ks ks'" by auto
qed

lemma tryFlushRegion_ok:
  assumes "tryFlushRegion tmt cache try_persist rg ks = Inr (e, rows, rg', ks')"
  shows "keeps rg rg'" "frame (putRegion rg' ks) (putRegion rg' ks')" "\<not> try_persist \<Longrightarrow> frame ks ks'"
proof -
  obtain b rt1 where b: "beginFlush (region_id rg) (ks_table ks) = Inr (b, rt1)"
    using assms unfolding tryFlushRegion_def rbind_eq_Inr by auto
  note fb = beginFlush_frame [OF b]
  have "keeps rg rg' \<and> frame (putRegion rg' ks) (putRegion rg' ks') \<and> (\<not> try_persist \<longrightarrow> frame ks ks')"
  proof (cases b)
    case False
    then show ?thesis using assms b by (auto simp: tryFlushRegion_def keeps_refl frame_refl)
  next
    case True
    obtain e1 rows1 rg1 ks1 where f: "flushRegion tmt cache try_persist rg (ks\<lparr>ks_table := rt1\<rparr>) = (e1, rows1, rg1, ks1)" by (metis prod.exhaust)
    then obtain rt2 where e: "endFlush (tmt_now tmt) rg1 (ks_table ks1) = Inr rt2" "rg' = rg1" "ks' = ks1\<lparr>ks_table := rt2\<rparr>"
      using assms b True by (auto simp: tryFlushRegion_def rbind_eq_Inr)
    note fe = endFlush_frame [OF e(1)]
    show ?thesis
      unfolding e using flushRegion_ok [OF f] frame_put [OF fb] frame_put [OF fe] fb fe by (blast intro: frame_trans)
  qed
  then show "keeps rg rg'" "frame (putRegion rg' ks) (putRegion rg' ks')" "\<not> try_persist \<Longrightarrow> frame ks ks'" by auto
qed

lemma tryFlushRegion_inv:
  assumes "ks_inv ks" "ks_getRegion i ks = Some rg" "tryFlushRegion tmt cache try_persist rg ks = Inr (e, rows, rg', ks')"
  shows "ks_inv (putRegion rg' ks')" "ks_getRegion i (putRegion rg' ks') = Some rg'" "keeps rg rg'"
proof -
  note t = tryFlushRegion_ok [OF assms(3)]
  note p = putRegion_inv [OF assms(1,2) t(1)]
  show "ks_inv (putRegion rg' ks')" by (rule frame_inv [OF t(2) p(1)])
  show "ks_getRegion i (putRegion rg' ks') = Some rg'" using frame_get [OF t(2)] p(2) by simp
  show "keeps rg rg'" by (rule t)
qed

lemma flush_rethrow_inv:
  assumes "ks_inv ks" "ks_getRegion i ks = Some rg" "flush_rethrow tmt try_persist rg ks = Inr (rg', ks')"
  shows "ks_inv ks'" "ks_getRegion i ks' = Some rg'" "keeps rg rg'"
proof -
  obtain e rows ks1 where "tryFlushRegion tmt None try_persist rg ks = Inr (e, rows, rg', ks1)" "ks' = putRegion rg' ks1"
    using assms(3) by (auto simp: flush_rethrow_def rbind_eq_Inr split: option.splits)
  then show "ks_inv ks'" "ks_getRegion i ks' = Some rg'" "keeps rg rg'" using tryFlushRegion_inv [OF assms(1,2)] by auto
qed

lemma tryFlushRegion_id_inv: "ks_inv ks \<Longrightarrow> tryFlushRegion_id tmt try_persist i ks = Inr (e, ks') \<Longrightarrow> ks_inv ks'"
  by (auto simp: tryFlushRegion_id_def rbind_eq_Inr split: option.splits dest: tryFlushRegion_inv)

lemma tryFlushRegions_inv:
  assumes "ks_inv ks" "tryFlushRegions tmt ks = Inr (e, b, ks')"
  shows "ks_inv ks'"
proof -
  obtain i rt where p: "pickRegionToFlush (tmt_now tmt) (ks_table ks) = Inr (i, rt)"
    using assms(2) unfolding tryFlushRegions_def rbind_eq_Inr by auto
  obtain kept where kept: "rt = (ks_table ks)\<lparr>dirty_regions := kept\<rparr>" "distinct kept"
    using p pick_loop_ok [OF ks_invD(3) [OF assms(1)], of "tmt_now tmt" "dirty_regions (ks_table ks)"] rt_invD(3) [OF ks_invD(3) [OF assms(1)]]
    by (auto simp: pickRegionToFlush_def rbind_eq_Inr)
  have "frame ks (ks\<lparr>ks_table := rt\<rparr>)" using kept by (simp add: frame_def) (simp add: rt_inv_def)
  note inv = frame_inv [OF this assms(1)]
  show ?thesis
    using assms(2) p inv by (auto simp: tryFlushRegions_def rbind_eq_Inr split: if_splits dest: tryFlushRegion_id_inv)
qed

lemma queue_frame:
  "frame ks (ks\<lparr>regions_to_decode := q\<rparr>)" "frame ks (ks\<lparr>regions_to_flush := q\<rparr>)" "frame ks (ks\<lparr>bg_gc_region_data := d\<rparr>)"
  "frame ks (ks\<lparr>last_gc_time := t\<rparr>)" "frame ks (ks\<lparr>REGION_COMPACT_LOG_PERIOD := p\<rparr>)"
  by (simp_all add: frame_def)

lemma region_handle_task_inv:
  assumes "ks_inv ks" "region_handle_task tmt ks = Inr (e, b, ks')"
  shows "ks_inv ks'"
proof -
  have "ks_inv (ks\<lparr>regions_to_decode := q\<rparr>)" "ks_inv (ks\<lparr>regions_to_decode := q, regions_to_flush := q'\<rparr>)" for q q'
    using assms(1) by (simp_all add: ks_inv_def)
  then show ?thesis
    using assms(2) by (auto simp: region_handle_task_def Let_def rbind_eq_Inr split: list.splits dest!: tryFlushRegion_id_inv [rotated])
qed

lemma gcRegionCache_frame: "frame ks (gcRegionCache tmt p ks)"
  by (simp add: gcRegionCache_def Let_def frame_def)

subsection \<open>Removing a region\<close>

lemma rt_removeRegion_ok:
  assumes "rt_inv rt" "rt_removeRegion api i remove_data rt st = Inr (rt', st')"
  shows "rt_inv rt'" "map_of (rt_regions rt') = (map_of (rt_regions rt))(i := None)"
proof -
  show "rt_inv rt'" by (rule rt_removeRegion_inv [OF assms])
  show "map_of (rt_regions rt') = (map_of (rt_regions rt))(i := None)"
    using rt_removeRegion_cases [OF assms(2)]
  proof
    assume n: "eraseRegion i rt = Inr None \<and> rt' = rt \<and> st' = st"
    have "map_of (rt_regions rt) i = None"
    proof (rule ccontr)
      assume "map_of (rt_regions rt) i \<noteq> None"
      then obtain tr where "rt_abs rt i = Some tr" using rt_abs_known [OF assms(1), of i] by auto
      then show False using eraseRegion_refines(2) [OF assms(1)] n by fastforce
    qed
    then show ?thesis using n by (auto simp: fun_eq_iff)
  next
    assume "\<exists>t r. eraseRegion i rt = Inr (Some ((t, r), rt')) \<and> (if remove_data then removeObsoleteDataInStorage api t r st = Inr st' else st' = st)"
    then show ?thesis using eraseRegion_inv(2) [OF assms(1)] by blast
  qed
qed

lemma removeRegion_fields:
  assumes rg: "map_of (ks_regions ks) i = Some rg" "region_inv rg" and R: "index_inv (ks_index ks) R" "R i = Some (region_range rg, i)"
    and rt: "rt_inv (ks_table ks)" and rem: "removeRegion tmt i remove_data ks = Inr ks'"
  shows "map_of (ks_regions ks') = (map_of (ks_regions ks))(i := None)" "umap_inv (ks_regions ks) \<Longrightarrow> umap_inv (ks_regions ks')"
    "index_inv (ks_index ks') (R(i := None))" "rt_inv (ks_table ks')"
    "map_of (rt_regions (ks_table ks')) = (map_of (rt_regions (ks_table ks)))(i := None)" "umap_inv (ks_pages ks) \<Longrightarrow> umap_inv (ks_pages ks')"
proof -
  obtain I' where I': "index_remove (region_range rg) i (ks_index ks) = Inr I'" "index_inv I' (R(i := None))"
    using ranges.remove_inv [OF R] by blast
  then obtain rt' st' where r: "rt_removeRegion (tmt_delta tmt) i remove_data (ks_table ks) (ks_storage ks) = Inr (rt', st')"
      and ks': "ks' = ks\<lparr>ks_regions := filter (\<lambda>p. fst p \<noteq> i) (ks_regions ks), ks_index := I', ks_pages := persister_drop i (ks_pages ks),
        ks_table := rt', ks_storage := st'\<rparr>"
    using rem rg getRange_ok(1) [OF rg(2)] by (auto simp: removeRegion_def unindex_region_def Let_def rbind_eq_Inr)
  show "map_of (ks_regions ks') = (map_of (ks_regions ks))(i := None)" by (simp add: ks' map_of_erase)
  show "umap_inv (ks_regions ks) \<Longrightarrow> umap_inv (ks_regions ks')" by (simp add: ks' umap_inv_filter)
  show "index_inv (ks_index ks') (R(i := None))" by (simp add: ks' I')
  show "rt_inv (ks_table ks')" using rt_removeRegion_ok(1) [OF rt r] by (simp add: ks')
  show "map_of (rt_regions (ks_table ks')) = (map_of (rt_regions (ks_table ks)))(i := None)" using rt_removeRegion_ok(2) [OF rt r] by (simp add: ks')
  show "umap_inv (ks_pages ks) \<Longrightarrow> umap_inv (ks_pages ks')" by (simp add: ks' drop_distinct)
qed

lemma ranges_of_upd: "ranges_of (m(i := None)) = (ranges_of m)(i := None)" "ranges_of (m(i \<mapsto> rg)) = (ranges_of m)(i \<mapsto> (region_range rg, i))"
  by (auto simp: ranges_of_def)

lemma tables_of_upd: "tables_of (m(i := None)) = (tables_of m)(i := None)" "tables_of (m(i \<mapsto> rg)) = (tables_of m)(i \<mapsto> rg_table_id rg)"
  by (auto simp: tables_of_def)

lemma removeRegion_inv:
  assumes inv: "ks_inv ks" and rem: "removeRegion tmt i remove_data ks = Inr ks'"
  shows "ks_inv ks'" "map_of (ks_regions ks') = (map_of (ks_regions ks))(i := None)"
proof -
  obtain rg where rg: "map_of (ks_regions ks) i = Some rg" using rem by (auto simp: removeRegion_def split: option.splits)
  note s = region_in_store [OF inv, of i rg, unfolded ks_getRegion_def, OF rg]
  note f = removeRegion_fields [OF rg s(1) ks_invD(2) [OF inv] s(5) ks_invD(3) [OF inv] rem]
  show "ks_inv ks'" using f ks_invD [OF inv] by (auto simp: ks_inv_def regions_ok_def ranges_of_upd tables_of_upd)
  show "map_of (ks_regions ks') = (map_of (ks_regions ks))(i := None)" by (rule f)
qed

lemma handleDestroy_inv:
  assumes "ks_inv ks" "handleDestroy tmt i ks = Inr ks'"
  shows "ks_inv ks'" "map_of (ks_regions ks') = (map_of (ks_regions ks))(i := None)"
proof -
  have "ks_inv ks' \<and> map_of (ks_regions ks') = (map_of (ks_regions ks))(i := None)"
  proof (cases "ks_getRegion i ks")
    case None
    then show ?thesis using assms by (auto simp: handleDestroy_def ks_getRegion_def)
  next
    case (Some rg)
    let ?rg = "setPendingRemove rg"
    have k: "keeps rg ?rg" by (simp add: setPendingRemove_def keeps_state)
    have "removeRegion tmt i True (putRegion ?rg ks) = Inr ks'" using assms(2) Some by (simp add: handleDestroy_def)
    note r = removeRegion_inv [OF putRegion_inv(1) [OF assms(1) Some k] this]
    have "region_id ?rg = i" using k region_in_store(2) [OF assms(1) Some] by (simp add: keeps_def)
    then show ?thesis using r by (simp add: putRegion_def update_conv')
  qed
  then show "ks_inv ks'" "map_of (ks_regions ks') = (map_of (ks_regions ks))(i := None)" by auto
qed

subsection \<open>Write commands\<close>

lemma updateRegion_frame:
  assumes "rt_inv (ks_table ks)" "map_of (rt_regions (ks_table ks)) (region_id rg) = Some (rg_table_id rg)" "updateRegion now rg (ks_table ks) = Inr rt"
  shows "frame ks (ks\<lparr>ks_table := rt\<rparr>)"
  using updateRegion_ok [OF assms(1) _ assms(3)] assms(2) by (simp add: frame_def table_agrees_def fun_upd_idem)

lemma shrinkRegionRange_frame:
  assumes "rt_inv (ks_table ks)" "map_of (rt_regions (ks_table ks)) (region_id rg) = Some (rg_table_id rg)" "shrinkRegionRange now rg (ks_table ks) = Inr rt"
  shows "frame ks (ks\<lparr>ks_table := rt\<rparr>)"
  using shrinkRegionRange_ok [OF assms(1) _ assms(3)] assms(2) by (simp add: frame_def table_agrees_def fun_upd_idem)

lemma known_region: "ks_inv ks \<Longrightarrow> ks_getRegion i ks = Some rg \<Longrightarrow> map_of (rt_regions (ks_table ks)) i = Some (rg_table_id rg)"
  by (simp add: ks_invD(4) tables_of_def ks_getRegion_def)

lemma handleWriteRaftCmd_inv:
  assumes "ks_inv ks" "handleWriteRaftCmd tmt cmds i idx t ks = Inr (res, ks')"
  shows "ks_inv ks'"
proof (cases "ks_getRegion i ks")
  case None
  then show ?thesis using assms by (simp add: handleWriteRaftCmd_def)
next
  case (Some rg)
  obtain rg' st rt where w: "region_handleWriteRaftCmd (tmt_api tmt) (bg_flush_disabled tmt) cmds idx t rg (ks_storage ks) = Inr (rg', st)"
      and u: "updateRegion (tmt_now tmt) rg' (ks_table ks) = Inr rt"
      and r: "(let ks1 = putRegion rg' (ks\<lparr>ks_storage := st, ks_table := rt\<rparr>)
            in rbind (if region_dataSize rg' \<noteq> region_dataSize rg \<and> \<not> bg_flush_disabled tmt then addRegionToDecode tmt i ks1 else Inr ks1)
              (\<lambda>ks2. Inr (Apply_None, ks2))) = Inr (res, ks')"
    using assms(2) Some unfolding handleWriteRaftCmd_def by (auto simp: rbind_eq_Inr)
  have k: "keeps rg rg'" by (rule region_handleWriteRaftCmd_keeps [OF w])
  have id: "region_id rg' = i" "rg_table_id rg' = rg_table_id rg"
    using k region_in_store(2) [OF assms(1) Some] by (auto simp: keeps_def)
  have "frame ks (ks\<lparr>ks_table := rt\<rparr>)"
    using u by (rule updateRegion_frame [OF ks_invD(3) [OF assms(1)], rotated]) (simp add: id known_region [OF assms(1) Some])
  then have f: "frame ks (ks\<lparr>ks_storage := st, ks_table := rt\<rparr>)" by (simp add: frame_def)
  have "ks_inv (putRegion rg' (ks\<lparr>ks_storage := st, ks_table := rt\<rparr>))"
    using putRegion_inv(1) [OF frame_inv [OF f assms(1)] _ k] frame_get [OF f] Some by simp
  then show ?thesis using r by (auto simp: Let_def rbind_eq_Inr split: if_splits dest: addRegionToDecode_frame intro: frame_inv)
qed

subsection \<open>Start\<close>

lemma index_regions_eq:
  "\<forall>(i, rg) \<in> set xs. region_inv rg \<and> region_id rg = i \<Longrightarrow>
   rfold (\<lambda>(i, rg). index_region rg) xs ks =
   rbind (rfold (\<lambda>(i, r, ptr). index_add i r ptr) (map (\<lambda>(i, rg). (i, region_range rg, i)) xs) (ks_index ks)) (\<lambda>I. Inr (ks\<lparr>ks_index := I\<rparr>))"
proof (induction xs arbitrary: ks)
  case (Cons x xs)
  obtain i rg where x: "x = (i, rg)" by (rule prod.exhaust)
  have "region_getRange rg = Inr (region_range rg)" "region_id rg = i" using Cons.prems getRange_ok(1) by (auto simp: x)
  then show ?case using Cons by (cases "index_add i (region_range rg) i (ks_index ks)") (simp_all add: x index_region_def)
qed simp

lemma index_regions:
  assumes "index_inv (ks_index ks) R" "distinct (map fst xs)"
    "\<And>i rg. (i, rg) \<in> set xs \<Longrightarrow> region_inv rg \<and> region_id rg = i \<and> R i \<in> {None, Some (region_range rg, i)}"
  shows "\<exists>I'. rfold (\<lambda>(i, rg). index_region rg) xs ks = Inr (ks\<lparr>ks_index := I'\<rparr>) \<and> index_inv I' (R ++ ranges_of (map_of xs))"
proof -
  let ?ys = "map (\<lambda>(i, rg). (i, region_range rg, i)) xs"
  have eq: "rfold (\<lambda>(i, rg). index_region rg) xs ks = rbind (rfold (\<lambda>(i, r, ptr). index_add i r ptr) ?ys (ks_index ks)) (\<lambda>I. Inr (ks\<lparr>ks_index := I\<rparr>))"
    by (rule index_regions_eq) (use assms(3) in auto)
  have k: "map fst ?ys = map fst xs" by (simp add: split_beta comp_def)
  obtain I' where I': "rfold (\<lambda>(i, r, ptr). index_add i r ptr) ?ys (ks_index ks) = Inr I'" "index_inv I' (R ++ map_of ?ys)"
    using ranges.add_all_inv [OF assms(1), of ?ys] assms(2,3) getRange_ok(2) unfolding k by fastforce
  have "map_of ?ys = ranges_of (map_of xs)" by (induction xs) (auto simp: ranges_of_def fun_eq_iff)
  then show ?thesis using eq I' by (intro exI [of _ I']) simp
qed

lemma update_regions:
  assumes "rfold (\<lambda>(i, rg). updateRegion now rg) xs rt = Inr rt'" "rt_inv rt" "distinct (map fst xs)"
    "\<And>i rg. (i, rg) \<in> set xs \<Longrightarrow> region_id rg = i \<and> map_of (rt_regions rt) i = None"
  shows "rt_inv rt' \<and> map_of (rt_regions rt') = map_of (rt_regions rt) ++ tables_of (map_of xs)"
  using assms
proof (induction xs arbitrary: rt)
  case (Cons x xs)
  obtain i rg where x: "x = (i, rg)" by (rule prod.exhaust)
  then have i: "region_id rg = i" "map_of (rt_regions rt) i = None" using Cons.prems(4) by auto
  obtain rt1 where r: "updateRegion now rg rt = Inr rt1" "rfold (\<lambda>(i, rg). updateRegion now rg) xs rt1 = Inr rt'"
    using Cons.prems(1) by (auto simp: x rbind_eq_Inr)
  have "table_agrees rg rt" by (simp add: table_agrees_def i)
  note u = updateRegion_ok [OF Cons.prems(2) this r(1)]
  have "rt_inv rt' \<and> map_of (rt_regions rt') = map_of (rt_regions rt1) ++ tables_of (map_of xs)"
    by (rule Cons.IH [OF r(2) u(1)]) (use Cons.prems(3,4) in \<open>force simp: x u(2) i\<close>)+
  moreover have "map_of xs i = None" using Cons.prems(3) by (simp add: x map_of_eq_None_iff)
  ultimately show ?case by (auto simp: x u(2) i fun_eq_iff map_add_def tables_of_def split: option.splits)
qed (simp add: tables_of_def map_add_def)

lemma update_regions_total:
  assumes "rt_inv rt" "distinct (map fst xs)" "\<And>i rg. (i, rg) \<in> set xs \<Longrightarrow> region_inv rg \<and> region_id rg = i \<and> map_of (rt_regions rt) i = None"
  shows "\<exists>rt'. rfold (\<lambda>(i, rg). updateRegion now rg) xs rt = Inr rt'"
  using assms
proof (induction xs arbitrary: rt)
  case (Cons x xs)
  obtain i rg where x: "x = (i, rg)" by (rule prod.exhaust)
  then have i: "region_inv rg" "region_id rg = i" "map_of (rt_regions rt) i = None" using Cons.prems(3) by auto
  have a: "table_agrees rg rt" by (simp add: table_agrees_def i)
  obtain rt1 where r: "updateRegion now rg rt = Inr rt1" using updateRegion_refines [OF Cons.prems(1) a i(1)] by blast
  note u = updateRegion_ok [OF Cons.prems(1) a r]
  have "\<exists>rt'. rfold (\<lambda>(i, rg). updateRegion now rg) xs rt1 = Inr rt'"
    by (rule Cons.IH [OF u(1)]) (use Cons.prems(2,3) in \<open>force simp: x u(2) i\<close>)+
  then show ?case by (simp add: x r)
qed simp

text \<open>A start succeeds whenever the pages can be read.\<close>

lemma tmt_restore_total:
  assumes "persister_restore (tmt_proto tmt) proxy pages = Inr regs" "umap_inv pages"
  shows "\<exists>ks. tmt_restore tmt proxy (new_KVStore pages st) = Inr ks \<and> ks_regions ks = regs"
proof -
  let ?ks0 = "(new_KVStore pages st)\<lparr>ks_proxy := proxy, ks_regions := regs\<rparr>"
  have l: "loaded (tmt_proto tmt) proxy pages regs" using assms by (simp add: restore_iff)
  have d: "distinct (map fst regs)" using loaded_keys [OF l] assms(2) by (simp add: umap_inv_def)
  have ok: "region_inv rg \<and> region_id rg = i" if "(i, rg) \<in> set regs" for i rg
    using l that region_deserialize_inv unfolding loaded_def loads_def
    by (fastforce simp: in_set_conv_nth list_all2_conv_all_nth)
  obtain I where I: "rfold (\<lambda>(i, rg). index_region rg) regs ?ks0 = Inr (?ks0\<lparr>ks_index := I\<rparr>)"
    using index_regions [of ?ks0 Map.empty regs] d ok clear_inv by (auto simp: new_KVStore_def)
  obtain rt where rt: "rfold (\<lambda>(i, rg). updateRegion (tmt_now tmt) rg) regs new_RegionTable = Inr rt"
  proof -
    have "map_of (rt_regions new_RegionTable) = Map.empty" by (simp add: new_RegionTable_def)
    then show thesis using update_regions_total [OF new_RegionTable_inv d, where now = "tmt_now tmt"] ok that by auto
  qed
  have q: "\<exists>ks'. rfold (\<lambda>(i, rg). addRegionToDecode tmt i) xs ks = Inr ks' \<and> ks_regions ks' = ks_regions ks" if "\<not> bg_flush_disabled tmt" for xs :: "(RegionID \<times> Region) list" and ks :: "'a KVStore"
  proof (induction xs arbitrary: ks)
    case (Cons x xs)
    show ?case using Cons.IH [of "ks\<lparr>regions_to_decode := List.insert (fst x) (regions_to_decode ks)\<rparr>"] that
      by (simp add: addRegionToDecode_def split_beta)
  qed simp
  have "\<exists>ks. start_BackgroundService tmt (?ks0\<lparr>ks_index := I, ks_table := rt\<rparr>) = Inr ks \<and> ks_regions ks = regs"
    using q by (fastforce simp: start_BackgroundService_def)
  then show ?thesis
    using assms(1) I rt by (simp add: tmt_restore_def ks_restore_def rt_restore_def new_KVStore_def)
qed

lemma tmt_restore_inv:
  assumes "tmt_restore tmt proxy (new_KVStore pages st) = Inr ks" "umap_inv pages"
  shows "ks_inv ks" "ks_pages ks = pages"
proof -
  let ?ks0 = "new_KVStore pages st"
  obtain ks1 ks2 where r: "ks_restore tmt proxy ?ks0 = Inr ks1" "rt_restore tmt ks1 = Inr ks2" "start_BackgroundService tmt ks2 = Inr ks"
    using assms(1) by (auto simp: tmt_restore_def rbind_eq_Inr)
  obtain regs where regs: "persister_restore (tmt_proto tmt) proxy pages = Inr regs"
      "rfold (\<lambda>(i, rg). index_region rg) regs (?ks0\<lparr>ks_proxy := proxy, ks_regions := regs\<rparr>) = Inr ks1"
    using r(1) by (auto simp: ks_restore_def rbind_eq_Inr new_KVStore_def)
  have l: "loaded (tmt_proto tmt) proxy pages regs" using regs(1) assms(2) by (simp add: restore_iff)
  have d: "distinct (map fst regs)" using loaded_keys [OF l] assms(2) by (simp add: umap_inv_def)
  have ok: "region_inv rg \<and> region_id rg = i" if "(i, rg) \<in> set regs" for i rg
    using l that region_deserialize_inv unfolding loaded_def loads_def
    by (fastforce simp: in_set_conv_nth list_all2_conv_all_nth)
  obtain I where I: "ks1 = ?ks0\<lparr>ks_proxy := proxy, ks_regions := regs, ks_index := I\<rparr>" "index_inv I (ranges_of (map_of regs))"
    using index_regions [of "?ks0\<lparr>ks_proxy := proxy, ks_regions := regs\<rparr>" Map.empty regs] d ok regs(2) clear_inv
    by (auto simp: new_KVStore_def)
  obtain rt where rt: "rfold (\<lambda>(i, rg). updateRegion (tmt_now tmt) rg) regs new_RegionTable = Inr rt" "ks2 = ks1\<lparr>ks_table := rt\<rparr>"
    using r(2) by (auto simp: rt_restore_def rbind_eq_Inr I(1) new_KVStore_def)
  have "map_of (rt_regions new_RegionTable) = Map.empty" by (simp add: new_RegionTable_def)
  then have t: "rt_inv rt" "map_of (rt_regions rt) = tables_of (map_of regs)"
    using update_regions [OF rt(1) new_RegionTable_inv d] ok by auto
  have i2: "ks_inv ks2"
    using t I(2) assms(2) d ok by (auto simp: rt(2) I(1) ks_inv_def regions_ok_def umap_inv_def new_KVStore_def dest: map_of_SomeD)
  have f: "frame ks2 ks \<and> ks_pages ks = ks_pages ks2"
  proof (cases "bg_flush_disabled tmt")
    case False
    then have "rfold (\<lambda>(i, rg). addRegionToDecode tmt i) (filter (\<lambda>(i, rg). region_dataSize rg \<noteq> 0) (ks_regions ks2)) ks2 = Inr ks"
      using r(3) by (simp add: start_BackgroundService_def)
    then show ?thesis
      by (rule rfold_invariant) (auto simp: frame_refl addRegionToDecode_def intro: frame_trans [OF _ queue_frame(1)] split: if_splits)
  qed (use r(3) in \<open>simp add: start_BackgroundService_def frame_refl\<close>)
  show "ks_inv ks" using f i2 by (blast intro: frame_inv)
  show "ks_pages ks = pages" using f by (simp add: rt(2) I(1) new_KVStore_def)
qed

subsection \<open>Flags of a flush\<close>

lemma flushRegion_table: "flushRegion tmt cache try_persist rg ks = (e, rows, rg', ks') \<Longrightarrow> ks_table ks' = ks_table ks"
  by (auto simp: flushRegion_def tryPersist_def persistRegion_def putRegion_def tryFlushRegionCacheInStorage_def rbind_eq_Inr Let_def
      split: sum.splits if_splits option.splits prod.splits)

lemma endFlush_flags:
  assumes "map_of (rt_regions rt) (region_id rg) = Some t" "doGetInternalRegion t (region_id rg) rt = Inr ir"
  shows "\<exists>rt' ir'. endFlush now rg rt = Inr rt' \<and> map_of (rt_regions rt') = map_of (rt_regions rt)
    \<and> doGetInternalRegion t (region_id rg) rt' = Inr ir' \<and> \<not> pause_flush ir'
    \<and> cache_bytes ir' = region_dataSize rg \<and> (region_id rg \<in> set (dirty_regions rt') \<longleftrightarrow> region_dataSize rg \<noteq> 0)"
proof -
  obtain tb where tb: "map_of (rt_tables rt) t = Some tb" using assms(2) by (auto simp: doGetInternalRegion_def split: option.splits)
  show ?thesis
    using assms tb
    by (auto simp: endFlush_def Let_def setInternalRegion_fields dirty_insert_def doGet_set [where t = t and tb = tb])
qed

lemma tryFlushRegion_outcome:
  assumes inv: "rt_inv (ks_table ks)" and t: "map_of (rt_regions (ks_table ks)) (region_id rg) = Some t"
    and np: "\<not> flush_paused (region_id rg) (ks_table ks)"
  shows "\<exists>rt. tryFlushRegion tmt None False rg ks =
    (case writeBlockByRegion (tmt_api tmt) None rg (ks_storage ks) of Inl e \<Rightarrow> Inr (Some e, [], rg, ks\<lparr>ks_table := rt\<rparr>)
     | Inr (rows, rg', st) \<Rightarrow> Inr (None, rows, rg', ks\<lparr>ks_storage := st, ks_table := rt\<rparr>))"
proof -
  obtain ir where ir: "doGetInternalRegion t (region_id rg) (ks_table ks) = Inr ir" using doGetInternalRegion_ok [OF inv t] by blast
  let ?rt = "setInternalRegion t (region_id rg) (ir\<lparr>pause_flush := True\<rparr>) (ks_table ks)"
  have b: "beginFlush (region_id rg) (ks_table ks) = Inr (True, ?rt)" using np t ir by (simp add: beginFlush_def flush_paused_def)
  obtain tb where tb: "map_of (rt_tables (ks_table ks)) t = Some tb" using ir by (auto simp: doGetInternalRegion_def split: option.splits)
  have g: "map_of (rt_regions ?rt) (region_id rg) = Some t" "doGetInternalRegion t (region_id rg) ?rt = Inr (ir\<lparr>pause_flush := True\<rparr>)"
    using t tb by (simp_all add: doGet_set setInternalRegion_fields)
  have e: "\<exists>rt'. endFlush (tmt_now tmt) x ?rt = Inr rt'" if "region_id x = region_id rg" for x
    using endFlush_flags [of ?rt x t "ir\<lparr>pause_flush := True\<rparr>" "tmt_now tmt"] g unfolding that by blast
  show ?thesis
  proof (cases "writeBlockByRegion (tmt_api tmt) None rg (ks_storage ks)")
    case (Inl x)
    obtain rt' where e': "endFlush (tmt_now tmt) rg ?rt = Inr rt'" using e [OF refl] ..
    have f: "flushRegion tmt None False rg (ks\<lparr>ks_table := ?rt\<rparr>) = (Some x, [], rg, ks\<lparr>ks_table := ?rt\<rparr>)"
      by (simp add: flushRegion_def Inl)
    have "tryFlushRegion tmt None False rg ks = Inr (Some x, [], rg, ks\<lparr>ks_table := rt'\<rparr>)"
      by (simp add: tryFlushRegion_def b f e')
    then show ?thesis by (simp add: Inl) blast
  next
    case (Inr y)
    obtain rows rg' st where y: "y = (rows, rg', st)" by (metis prod.exhaust)
    have w: "writeBlockByRegion (tmt_api tmt) None rg (ks_storage ks) = Inr (rows, rg', st)" using Inr y by simp
    have "region_id rg' = region_id rg" using writeBlockByRegion_keeps [OF w] unfolding keeps_def by blast
    from e [OF this] obtain rt' where e': "endFlush (tmt_now tmt) rg' ?rt = Inr rt'" ..
    have f: "flushRegion tmt None False rg (ks\<lparr>ks_table := ?rt\<rparr>) = (None, rows, rg', ks\<lparr>ks_table := ?rt, ks_storage := st\<rparr>)"
      by (simp add: flushRegion_def Let_def w)
    have "tryFlushRegion tmt None False rg ks = Inr (None, rows, rg', ks\<lparr>ks_storage := st, ks_table := rt'\<rparr>)"
      by (simp add: tryFlushRegion_def b f e')
    then show ?thesis by (simp add: w) blast
  qed
qed

definition sample_tmt :: "(RegionDataReadInfo list, RegionDataReadInfo list) TMTContext" where
  "sample_tmt = \<lparr>tmt_now = 100, bg_flush_disabled = False, tmt_proto = sample_env, tmt_api = sample_api,
     tmt_delta = \<lparr>da_is_delta = (\<lambda>t st. True), da_lock = (\<lambda>t st. Inr ()), da_delete_range = (\<lambda>t r st. Inr []), da_flush_cache = (\<lambda>t r st. Inr st)\<rparr>,
     engine_type = (\<lambda>t st. Some Engine_DT), flush_cache = (\<lambda>rg st. Inr st)\<rparr>"

lemma sample_table: "\<exists>rt t ir. updateRegion 0 sample_region new_RegionTable = Inr rt \<and> rt_inv rt \<and> map_of (rt_regions rt) (region_id sample_region) = Some t
    \<and> doGetInternalRegion t (region_id sample_region) rt = Inr ir \<and> \<not> pause_flush ir"
proof -
  have a: "table_agrees sample_region new_RegionTable" by (simp add: table_agrees_def new_RegionTable_def)
  obtain r where r: "meta_getRange (rg_meta sample_region) = Inr r"
    using sample_region_inv by (auto simp: region_inv_def meta_inv_def meta_getRange_def)
  have "\<exists>rt ir. updateRegion 0 sample_region new_RegionTable = Inr rt \<and> doGetInternalRegion 1 (region_id sample_region) rt = Inr ir \<and> \<not> pause_flush ir"
  proof -
    have "rg_table_id sample_region = 1" by (simp add: sample_region_def)
    then show ?thesis
      by (simp add: updateRegion_def getOrInsertRegion_def getOrCreateTable_def new_RegionTable_def insertRegion_def setInternalRegion_def
          doGetInternalRegion_def r mk_InternalRegion_def dirty_insert_def Let_def)
  qed
  then show ?thesis using updateRegion_ok [OF new_RegionTable_inv a] by (fastforce simp: sample_region_def)
qed

subsection \<open>Properties\<close>

text \<open>
  C27: a flush of a region that the table knows does nothing while another flush of the region is under way.
  Otherwise it always returns, and whether or not the storage threw, the region can be flushed again
  afterwards; the table then has the current size of its data, and the region is marked dirty exactly when
  it has data left.
\<close>

theorem flush_releases_pause:
  assumes "rt_inv (ks_table ks)" and "map_of (rt_regions (ks_table ks)) (region_id rg) = Some t"
    and "doGetInternalRegion t (region_id rg) (ks_table ks) = Inr ir"
  shows "if pause_flush ir then tryFlushRegion tmt cache try_persist rg ks = Inr (None, [], rg, ks)
    else \<exists>e rows rg' ks' ir'. tryFlushRegion tmt cache try_persist rg ks = Inr (e, rows, rg', ks')
      \<and> doGetInternalRegion t (region_id rg) (ks_table ks') = Inr ir' \<and> \<not> pause_flush ir' \<and> cache_bytes ir' = region_dataSize rg'
      \<and> (region_id rg \<in> set (dirty_regions (ks_table ks')) \<longleftrightarrow> region_dataSize rg' \<noteq> 0)"
proof (cases "pause_flush ir")
  case True
  then show ?thesis using assms(2,3) by (simp add: tryFlushRegion_def beginFlush_def)
next
  case False
  let ?rt1 = "setInternalRegion t (region_id rg) (ir\<lparr>pause_flush := True\<rparr>) (ks_table ks)"
  have b: "beginFlush (region_id rg) (ks_table ks) = Inr (True, ?rt1)" using assms(2,3) False by (simp add: beginFlush_def)
  obtain tb where tb: "map_of (rt_tables (ks_table ks)) t = Some tb" using assms(3) by (auto simp: doGetInternalRegion_def split: option.splits)
  obtain e rows rg' ks1 where f: "flushRegion tmt cache try_persist rg (ks\<lparr>ks_table := ?rt1\<rparr>) = (e, rows, rg', ks1)" by (metis prod.exhaust)
  have id: "region_id rg' = region_id rg" using flushRegion_ok(1) [OF f] by (simp add: keeps_def)
  have t1: "ks_table ks1 = ?rt1" using flushRegion_table [OF f] by simp
  have "map_of (rt_regions ?rt1) (region_id rg') = Some t" "doGetInternalRegion t (region_id rg') ?rt1 = Inr (ir\<lparr>pause_flush := True\<rparr>)"
    using assms(2) by (simp_all add: id setInternalRegion_fields doGet_set [OF tb])
  from endFlush_flags [OF this, of "tmt_now tmt"] show ?thesis
    using b f False unfolding id by (auto simp: tryFlushRegion_def t1)
qed

theorem flush_releases_pause_witness:
  "\<exists>rt e rows rg' ks' ir'. tryFlushRegion sample_tmt None False sample_region ((new_KVStore [] [])\<lparr>ks_table := rt\<rparr>) = Inr (e, rows, rg', ks')
     \<and> doGetInternalRegion 1 (region_id sample_region) (ks_table ks') = Inr ir' \<and> \<not> pause_flush ir'"
proof -
  obtain rt t ir where rt: "updateRegion 0 sample_region new_RegionTable = Inr rt" "rt_inv rt"
      "map_of (rt_regions rt) (region_id sample_region) = Some t" "doGetInternalRegion t (region_id sample_region) rt = Inr ir" "\<not> pause_flush ir"
    using sample_table by blast
  have "t = 1"
    using updateRegion_ok(2) [OF new_RegionTable_inv _ rt(1)] rt(3) by (simp add: table_agrees_def new_RegionTable_def sample_region_def)
  then show ?thesis
    using flush_releases_pause [of "(new_KVStore [] [])\<lparr>ks_table := rt\<rparr>" sample_region t ir sample_tmt None False] rt(2-5)
    by simp blast
qed

end
