(* ===== verification/AdminCmd.thy ===== *)
theory AdminCmd
  imports KVStore
begin

section \<open>Administration commands\<close>

text \<open>
  The commands that change the shape of regions: \<open>RegionRaftCommandDelegate::handleAdminRaftCmd\<close> of
  \<open>Region.cpp\<close> with \<open>execCommitMerge\<close>, which needs the store and the table of regions, and
  \<open>KVStore::handleAdminRaftCmd\<close>, which carries the result of a command over to the index, the table of regions
  and the pages.
\<close>

subsection \<open>Commands on a region\<close>

datatype RaftCommandResult = R_Default | R_IndexError | R_BatchSplit "Region list" RegionRange | R_ChangePeer | R_CommitMerge RegionID RegionRange

text \<open>
  The source of a merge is marked before the table of regions and the target change. When the source is the
  target itself, the code locks a mutex twice, which is undefined.
\<close>

definition region_execCommitMerge :: "('s, 'b) TMTContext \<Rightarrow> AdminRequest \<Rightarrow> AdminResponse \<Rightarrow> UInt64 \<Rightarrow> UInt64 \<Rightarrow> Region \<Rightarrow> 's KVStore \<Rightarrow>
    (RegionID \<times> Region \<times> 's KVStore) result" where
  "region_execCommitMerge tmt request response idx t rg ks =
     (let source_id = mr_id (commit_source request)
      in case ks_getRegion source_id ks of None \<Rightarrow> throw '': region not found''
         | Some source \<Rightarrow>
             rbind (checkBeforeCommitMerge request (rg_meta source) (rg_meta rg)) (\<lambda>res.
             if source_id = region_id rg then Inl OutOfBounds
             else
               (let source' = setPendingRemove source; ks1 = putRegion source' ks;
                    sr = getRegion (rm_state (rg_meta source')); tr = getRegion (rm_state (rg_meta rg));
                    new_start_key = (if source_at_left res then mr_start_key sr else mr_start_key tr);
                    new_end_key = (if source_at_left res then mr_end_key tr else mr_end_key sr)
                in rbind (mk_RegionRangeKeys new_start_key new_end_key) (\<lambda>keys.
                   rbind (extendRegionRange (tmt_now tmt) (region_id rg) keys (ks_table ks1)) (\<lambda>rt.
                   rbind (rd_mergeFrom (rg_data source') (rg_data rg)) (\<lambda>d.
                   rbind (execCommitMerge res idx t (rg_meta source') response (rg_meta rg)) (\<lambda>m.
                     Inr (source_id, rg\<lparr>rg_data := d, rg_meta := m\<rparr>, ks1\<lparr>ks_table := rt\<rparr>))))))))"

definition region_handleAdminRaftCmd :: "('s, 'b) TMTContext \<Rightarrow> AdminRequest \<Rightarrow> AdminResponse \<Rightarrow> UInt64 \<Rightarrow> UInt64 \<Rightarrow> Region \<Rightarrow> 's KVStore \<Rightarrow>
    (RaftCommandResult \<times> Region \<times> 's KVStore) result" where
  "region_handleAdminRaftCmd tmt request response idx t rg ks =
     (if idx \<le> region_appliedIndex rg then Inr (R_IndexError, rg, ks)
      else if cmd_type request \<in> {ChangePeer, ChangePeerV2} then
        rbind (execChangePeer response idx t (rg_meta rg)) (\<lambda>m. Inr (R_ChangePeer, rg\<lparr>rg_meta := m\<rparr>, ks))
      else if cmd_type request \<in> {Split, BatchSplit} then
        rbind (region_getRange rg) (\<lambda>r.
        rbind (execBatchSplit (tmt_proto tmt) response idx t rg) (\<lambda>(split_regions, rg'). Inr (R_BatchSplit split_regions r, rg', ks)))
      else if cmd_type request \<in> {CompactLog, ComputeHash, VerifyHash} then
        Inr (R_Default, rg\<lparr>rg_meta := doSetApplied idx t (rg_meta rg)\<rparr>, ks)
      else if cmd_type request = PrepareMerge then
        rbind (execPrepareMerge request response idx t (rg_meta rg)) (\<lambda>m. Inr (R_Default, rg\<lparr>rg_meta := m\<rparr>, ks))
      else if cmd_type request = CommitMerge then
        rbind (region_getRange rg) (\<lambda>r.
        rbind (region_execCommitMerge tmt request response idx t rg ks) (\<lambda>(source_id, rg', ks'). Inr (R_CommitMerge source_id r, rg', ks')))
      else if cmd_type request = RollbackMerge then
        rbind (execRollbackMerge request response idx t (rg_meta rg)) (\<lambda>m. Inr (R_Default, rg\<lparr>rg_meta := m\<rparr>, ks))
      else throw '': unsupported admin command type '')"

subsection \<open>Commands on the store\<close>

text \<open>A pointer to a region of the store.\<close>

definition deref :: "RegionID \<Rightarrow> 's KVStore \<Rightarrow> Region result" where
  "deref i ks = (case ks_getRegion i ks of Some rg \<Rightarrow> Inr rg | None \<Rightarrow> Inl OutOfBounds)"

definition handleUselessAdminRaftCmd :: "('s, 'b) TMTContext \<Rightarrow> AdminCmdType \<Rightarrow> RegionID \<Rightarrow> UInt64 \<Rightarrow> UInt64 \<Rightarrow> 's KVStore \<Rightarrow> (TiFlashApplyRes \<times> 's KVStore) result" where
  "handleUselessAdminRaftCmd tmt type i idx t ks =
     (case ks_getRegion i ks of None \<Rightarrow> Inr (Apply_NotFound, ks)
      | Some rg \<Rightarrow>
          rbind (region_handleWriteRaftCmd (tmt_api tmt) (bg_flush_disabled tmt) [] idx t rg (ks_storage ks)) (\<lambda>(rg1, st).
            let sync_log = (type = CompactLog \<and> \<not> last_compact_log_time rg1 + REGION_COMPACT_LOG_PERIOD ks * 1000000000 > tmt_now tmt);
                rg2 = (if sync_log then markCompactLog (tmt_now tmt) rg1 else rg1);
                ks1 = putRegion rg2 (ks\<lparr>ks_storage := st\<rparr>)
            in if sync_log
               then rbind (tryFlushRegionCacheInStorage tmt rg2 ks1) (\<lambda>ks2. Inr (Apply_Persist, persistRegion tmt rg2 ks2))
               else Inr (Apply_None, ks1)))"

definition try_to_flush_region :: "('s, 'b) TMTContext \<Rightarrow> RegionID \<Rightarrow> 's KVStore \<Rightarrow> 's KVStore result" where
  "try_to_flush_region tmt i ks =
     rbind (deref i ks) (\<lambda>rg.
       if bg_flush_disabled tmt then rbind (flush_rethrow tmt False rg ks) (\<lambda>(rg', ks'). Inr ks')
       else if writeCFCount rg \<ge> 8192 then addRegionToFlush tmt i ks else Inr ks)"

definition persist_and_sync :: "('s, 'b) TMTContext \<Rightarrow> RegionID \<Rightarrow> 's KVStore \<Rightarrow> 's KVStore result" where
  "persist_and_sync tmt i ks =
     rbind (deref i ks) (\<lambda>rg. rbind (tryFlushRegionCacheInStorage tmt rg ks) (\<lambda>ks'. Inr (persistRegion tmt rg ks')))"

definition emplace_region :: "Region \<Rightarrow> 's KVStore \<Rightarrow> 's KVStore" where
  "emplace_region rg ks = ks\<lparr>ks_regions := fst (umap_emplace (region_id rg) rg (ks_regions ks))\<rparr>"

definition index_ptr :: "RegionID \<Rightarrow> 's KVStore \<Rightarrow> 's KVStore result" where
  "index_ptr i ks = rbind (deref i ks) (\<lambda>rg. index_region rg ks)"

definition update_ptr :: "('s, 'b) TMTContext \<Rightarrow> RegionID \<Rightarrow> 's KVStore \<Rightarrow> 's KVStore result" where
  "update_ptr tmt i ks =
     rbind (deref i ks) (\<lambda>rg. rbind (updateRegion (tmt_now tmt) rg (ks_table ks)) (\<lambda>rt. Inr (ks\<lparr>ks_table := rt\<rparr>)))"

definition shrink_ptr :: "('s, 'b) TMTContext \<Rightarrow> RegionID \<Rightarrow> 's KVStore \<Rightarrow> 's KVStore result" where
  "shrink_ptr tmt i ks =
     rbind (deref i ks) (\<lambda>rg. rbind (shrinkRegionRange (tmt_now tmt) rg (ks_table ks)) (\<lambda>rt. Inr (ks\<lparr>ks_table := rt\<rparr>)))"

definition handle_batch_split :: "('s, 'b) TMTContext \<Rightarrow> RegionID \<Rightarrow> Region list \<Rightarrow> RegionRange \<Rightarrow> 's KVStore \<Rightarrow> 's KVStore result" where
  "handle_batch_split tmt i split_regions ori_range ks =
     (let ids = map region_id split_regions; ks1 = fold emplace_region split_regions ks
      in rbind (unindex_region ori_range i ks1) (\<lambda>ks2.
         rbind (index_ptr i ks2) (\<lambda>ks3.
         rbind (rfold index_ptr ids ks3) (\<lambda>ks4.
         rbind (rfold (update_ptr tmt) ids ks4) (\<lambda>ks5.
         rbind (shrink_ptr tmt i ks5) (\<lambda>ks6.
         rbind (rfold (try_to_flush_region tmt) ids ks6) (\<lambda>ks7.
         rbind (rfold (persist_and_sync tmt) ids ks7) (\<lambda>ks8.
           persist_and_sync tmt i ks8))))))))"

definition handle_change_peer :: "('s, 'b) TMTContext \<Rightarrow> RegionID \<Rightarrow> 's KVStore \<Rightarrow> 's KVStore result" where
  "handle_change_peer tmt i ks =
     rbind (deref i ks) (\<lambda>rg. if isPendingRemove rg then removeRegion tmt i True ks else persist_and_sync tmt i ks)"

definition handle_commit_merge :: "('s, 'b) TMTContext \<Rightarrow> RegionID \<Rightarrow> RegionID \<Rightarrow> RegionRange \<Rightarrow> 's KVStore \<Rightarrow> 's KVStore result" where
  "handle_commit_merge tmt i source_id ori_range ks =
     rbind (shrink_ptr tmt i ks) (\<lambda>ks1.
     rbind (try_to_flush_region tmt i ks1) (\<lambda>ks2.
     rbind (persist_and_sync tmt i ks2) (\<lambda>ks3.
     rbind (removeRegion tmt source_id False ks3) (\<lambda>ks4.
     rbind (unindex_region ori_range i ks4) (\<lambda>ks5.
       index_ptr i ks5)))))"

definition handle_index_error :: "('s, 'b) TMTContext \<Rightarrow> AdminRequest \<Rightarrow> 's KVStore \<Rightarrow> 's KVStore result" where
  "handle_index_error tmt request ks =
     (if cmd_type request = CommitMerge
      then (case ks_getRegion (mr_id (commit_source request)) ks of
              Some source \<Rightarrow> removeRegion tmt (region_id source) False (putRegion (setPendingRemove source) ks)
            | None \<Rightarrow> Inr ks)
      else Inr ks)"

definition handleAdminRaftCmd :: "('s, 'b) TMTContext \<Rightarrow> AdminRequest \<Rightarrow> AdminResponse \<Rightarrow> RegionID \<Rightarrow> UInt64 \<Rightarrow> UInt64 \<Rightarrow> 's KVStore \<Rightarrow> (TiFlashApplyRes \<times> 's KVStore) result" where
  "handleAdminRaftCmd tmt request response i idx t ks =
     (if cmd_type request \<in> {CompactLog, VerifyHash, ComputeHash} then handleUselessAdminRaftCmd tmt (cmd_type request) i idx t ks
      else (case ks_getRegion i ks of None \<Rightarrow> Inr (Apply_NotFound, ks)
        | Some rg \<Rightarrow>
            rbind (region_handleAdminRaftCmd tmt request response idx t rg ks) (\<lambda>(result, rg', ks').
              let ks1 = putRegion rg' ks'
              in rbind (case result of
                     R_IndexError \<Rightarrow> handle_index_error tmt request ks1
                   | R_BatchSplit split_regions ori_range \<Rightarrow> handle_batch_split tmt i split_regions ori_range ks1
                   | R_Default \<Rightarrow> persist_and_sync tmt i ks1
                   | R_ChangePeer \<Rightarrow> handle_change_peer tmt i ks1
                   | R_CommitMerge source_id ori_range \<Rightarrow> handle_commit_merge tmt i source_id ori_range ks1)
                 (\<lambda>ks2. Inr (Apply_Persist, ks2)))))"

subsection \<open>Parts of the invariant\<close>

text \<open>
  Inside of a command the index and the table of regions lag behind the regions: the index holds the ranges
  \<open>R\<close> and the table of regions the tables \<open>T\<close>.
\<close>

definition ks_part :: "RegionID regions_of \<Rightarrow> (RegionID \<rightharpoonup> TableID) \<Rightarrow> 's KVStore \<Rightarrow> bool" where
  "ks_part R T ks \<longleftrightarrow> regions_ok (ks_regions ks) \<and> index_inv (ks_index ks) R \<and> rt_inv (ks_table ks)
     \<and> map_of (rt_regions (ks_table ks)) = T \<and> umap_inv (ks_pages ks)"

abbreviation regs :: "'s KVStore \<Rightarrow> RegionID \<rightharpoonup> Region" where
  "regs ks \<equiv> map_of (ks_regions ks)"

lemma ks_inv_part: "ks_inv ks \<longleftrightarrow> ks_part (ranges_of (regs ks)) (tables_of (regs ks)) ks"
  by (auto simp: ks_inv_def ks_part_def)

lemma ks_partD:
  assumes "ks_part R T ks"
  shows "regions_ok (ks_regions ks)" "index_inv (ks_index ks) R" "rt_inv (ks_table ks)" "map_of (rt_regions (ks_table ks)) = T"
  using assms by (simp_all add: ks_part_def)

lemma regions_okD: "regions_ok rs \<Longrightarrow> map_of rs i = Some rg \<Longrightarrow> region_inv rg \<and> region_id rg = i"
  by (simp add: regions_ok_def)

lemma deref_ok: "deref i ks = Inr rg \<longleftrightarrow> regs ks i = Some rg"
  by (simp add: deref_def ks_getRegion_def split: option.split)

text \<open>A step that changes neither the parts nor the place of any region.\<close>

definition steady :: "'s KVStore \<Rightarrow> 's KVStore \<Rightarrow> bool" where
  "steady ks ks' \<longleftrightarrow> (\<forall>R T. ks_part R T ks \<longrightarrow> ks_part R T ks') \<and> ranges_of (regs ks') = ranges_of (regs ks) \<and> tables_of (regs ks') = tables_of (regs ks)"

lemma steady_refl: "steady ks ks"
  by (simp add: steady_def)

lemma steady_trans: "steady ks1 ks2 \<Longrightarrow> steady ks2 ks3 \<Longrightarrow> steady ks1 ks3"
  by (simp add: steady_def)

lemma steady_inv: "steady ks ks' \<Longrightarrow> ks_inv ks \<Longrightarrow> ks_inv ks'"
  by (simp add: steady_def ks_inv_part)

lemma steady_part: "steady ks ks' \<Longrightarrow> ks_part R T ks \<Longrightarrow> ks_part R T ks'"
  by (simp add: steady_def)

lemma steady_dom: "steady ks ks' \<Longrightarrow> regs ks' j = None \<longleftrightarrow> regs ks j = None"
  by (auto simp: steady_def ranges_of_def dest!: fun_cong [where x = j])

lemma frame_steady: "frame ks ks' \<Longrightarrow> steady ks ks'"
  by (auto simp: steady_def frame_def ks_part_def regions_ok_def)

lemma putRegion_part: "ks_part R T ks \<Longrightarrow> region_inv rg \<Longrightarrow> ks_part R T (putRegion rg ks)"
  by (auto simp: ks_part_def putRegion_def regions_ok_def umap_inv_update_iff update_conv')

lemma putRegion_steady:
  assumes "regions_ok (ks_regions ks)" "regs ks i = Some rg" "keeps rg rg'"
  shows "steady ks (putRegion rg' ks)"
proof -
  have i: "region_id rg' = i" "region_inv rg'" "region_range rg' = region_range rg" "rg_table_id rg' = rg_table_id rg"
    using assms(3) regions_okD [OF assms(1,2)] by (auto simp: keeps_def region_range_def)
  have "ranges_of ((regs ks)(i \<mapsto> rg')) = ranges_of (regs ks)" "tables_of ((regs ks)(i \<mapsto> rg')) = tables_of (regs ks)"
    using assms(2) i by (auto simp: ranges_of_def tables_of_def)
  then show ?thesis using putRegion_part [of _ _ ks rg'] i by (simp add: steady_def putRegion_def update_conv')
qed

subsection \<open>Steps inside of a command\<close>

lemma persist_and_sync_steady: "persist_and_sync tmt i ks = Inr ks' \<Longrightarrow> steady ks ks'"
  by (auto simp: persist_and_sync_def rbind_eq_Inr
      intro!: frame_steady intro: frame_trans [OF tryFlushRegionCacheInStorage_frame persistRegion_frame])

lemma try_to_flush_region_steady:
  assumes "regions_ok (ks_regions ks)" "try_to_flush_region tmt i ks = Inr ks'"
  shows "steady ks ks'"
proof -
  obtain rg where rg: "regs ks i = Some rg" using assms(2) by (auto simp: try_to_flush_region_def rbind_eq_Inr deref_ok)
  then have r: "deref i ks = Inr rg" by (simp add: deref_ok)
  show ?thesis
  proof (cases "bg_flush_disabled tmt")
    case True
    then obtain e rows rg' ks1 where f: "tryFlushRegion tmt None False rg ks = Inr (e, rows, rg', ks1)" "ks' = putRegion rg' ks1"
      using assms(2) r by (auto simp: try_to_flush_region_def flush_rethrow_def rbind_eq_Inr split: option.splits)
    note o = tryFlushRegion_ok [OF f(1)]
    show ?thesis
      using steady_trans [OF putRegion_steady [OF assms(1) rg o(1)] frame_steady [OF o(2)]] by (simp add: f(2))
  next
    case False
    then show ?thesis
      using assms(2) r by (auto simp: try_to_flush_region_def intro: steady_refl frame_steady addRegionToFlush_frame split: if_splits)
  qed
qed

lemma unindex_part:
  assumes "ks_part R T ks" "R i = Some (r, i)"
  shows "\<exists>I. unindex_region r i ks = Inr (ks\<lparr>ks_index := I\<rparr>) \<and> ks_part (R(i := None)) T (ks\<lparr>ks_index := I\<rparr>)"
  using ranges.remove_inv [OF ks_partD(2) [OF assms(1)] assms(2)] assms(1) by (auto simp: unindex_region_def ks_part_def)

lemma index_ptr_part:
  assumes "ks_part R T ks" "regs ks i = Some rg" "R i \<in> {None, Some (region_range rg, i)}"
  shows "\<exists>I. index_ptr i ks = Inr (ks\<lparr>ks_index := I\<rparr>) \<and> ks_part (R(i \<mapsto> (region_range rg, i))) T (ks\<lparr>ks_index := I\<rparr>)"
proof -
  have rg: "region_inv rg" "region_id rg = i" using regions_okD [OF ks_partD(1) [OF assms(1)] assms(2)] by auto
  have d: "deref i ks = Inr rg" by (simp add: deref_ok assms(2))
  obtain I where "index_add i (region_range rg) i (ks_index ks) = Inr I" "index_inv I (R(i \<mapsto> (region_range rg, i)))"
    using ranges.add_inv [OF ks_partD(2) [OF assms(1)] assms(3) getRange_ok(2) [OF rg(1)]] by blast
  then show ?thesis using assms(1) getRange_ok(1) [OF rg(1)] by (auto simp: index_ptr_def d index_region_def rg(2) ks_part_def)
qed

lemma index_ptrs_part:
  assumes "ks_part R T ks" "\<forall>j \<in> set ids. regs ks j \<noteq> None \<and> R j \<in> {None, ranges_of (regs ks) j}"
  shows "\<exists>I. rfold index_ptr ids ks = Inr (ks\<lparr>ks_index := I\<rparr>) \<and> ks_part (override_on R (ranges_of (regs ks)) (set ids)) T (ks\<lparr>ks_index := I\<rparr>)"
  using assms
proof (induction ids arbitrary: R ks)
  case Nil
  then show ?case by (intro exI [of _ "ks_index ks"]) simp
next
  case (Cons j ids)
  then obtain rg where rg: "regs ks j = Some rg" by auto
  have rj: "ranges_of (regs ks) j = Some (region_range rg, j)" using rg by (simp add: ranges_of_def)
  obtain I1 where I1: "index_ptr j ks = Inr (ks\<lparr>ks_index := I1\<rparr>)" "ks_part (R(j \<mapsto> (region_range rg, j))) T (ks\<lparr>ks_index := I1\<rparr>)"
    using index_ptr_part [OF Cons.prems(1) rg] Cons.prems(2) rj by auto
  obtain I where I: "rfold index_ptr ids (ks\<lparr>ks_index := I1\<rparr>) = Inr (ks\<lparr>ks_index := I\<rparr>)"
      "ks_part (override_on (R(j \<mapsto> (region_range rg, j))) (ranges_of (regs ks)) (set ids)) T (ks\<lparr>ks_index := I\<rparr>)"
  proof -
    have "\<forall>k \<in> set ids. regs (ks\<lparr>ks_index := I1\<rparr>) k \<noteq> None \<and> (R(j \<mapsto> (region_range rg, j))) k \<in> {None, ranges_of (regs (ks\<lparr>ks_index := I1\<rparr>)) k}"
      using Cons.prems(2) rj by auto
    from Cons.IH [OF I1(2) this] show thesis using that by (auto simp del: fun_upd_apply)
  qed
  have "override_on (R(j \<mapsto> (region_range rg, j))) (ranges_of (regs ks)) (set ids) = override_on R (ranges_of (regs ks)) (set (j # ids))"
    using rj by (auto simp: override_on_def fun_eq_iff)
  then show ?case using I I1(1) by auto
qed

lemma update_ptr_part:
  assumes "ks_part R T ks" "regs ks i = Some rg" "T i \<in> {None, Some (rg_table_id rg)}"
  shows "\<exists>rt. update_ptr tmt i ks = Inr (ks\<lparr>ks_table := rt\<rparr>) \<and> ks_part R (T(i \<mapsto> rg_table_id rg)) (ks\<lparr>ks_table := rt\<rparr>)"
proof -
  have rg: "region_inv rg" "region_id rg = i" using regions_okD [OF ks_partD(1) [OF assms(1)] assms(2)] by auto
  have d: "deref i ks = Inr rg" by (simp add: deref_ok assms(2))
  have a: "table_agrees rg (ks_table ks)" using assms(3) ks_partD(4) [OF assms(1)] by (auto simp: table_agrees_def rg(2))
  obtain rt where rt: "updateRegion (tmt_now tmt) rg (ks_table ks) = Inr rt"
    using updateRegion_refines [OF ks_partD(3) [OF assms(1)] a rg(1)] by blast
  show ?thesis
    using updateRegion_ok [OF ks_partD(3) [OF assms(1)] a rt] assms(1) rt by (auto simp: update_ptr_def d ks_part_def rg(2))
qed

lemma update_ptrs_part:
  assumes "ks_part R T ks" "\<forall>j \<in> set ids. regs ks j \<noteq> None \<and> T j \<in> {None, tables_of (regs ks) j}"
  shows "\<exists>rt. rfold (update_ptr tmt) ids ks = Inr (ks\<lparr>ks_table := rt\<rparr>) \<and> ks_part R (override_on T (tables_of (regs ks)) (set ids)) (ks\<lparr>ks_table := rt\<rparr>)"
  using assms
proof (induction ids arbitrary: T ks)
  case Nil
  then show ?case by (intro exI [of _ "ks_table ks"]) simp
next
  case (Cons j ids)
  then obtain rg where rg: "regs ks j = Some rg" by auto
  have rj: "tables_of (regs ks) j = Some (rg_table_id rg)" using rg by (simp add: tables_of_def)
  obtain rt1 where r1: "update_ptr tmt j ks = Inr (ks\<lparr>ks_table := rt1\<rparr>)" "ks_part R (T(j \<mapsto> rg_table_id rg)) (ks\<lparr>ks_table := rt1\<rparr>)"
    using update_ptr_part [OF Cons.prems(1) rg] Cons.prems(2) rj by auto
  obtain rt where rt: "rfold (update_ptr tmt) ids (ks\<lparr>ks_table := rt1\<rparr>) = Inr (ks\<lparr>ks_table := rt\<rparr>)"
      "ks_part R (override_on (T(j \<mapsto> rg_table_id rg)) (tables_of (regs ks)) (set ids)) (ks\<lparr>ks_table := rt\<rparr>)"
  proof -
    have "\<forall>k \<in> set ids. regs (ks\<lparr>ks_table := rt1\<rparr>) k \<noteq> None \<and> (T(j \<mapsto> rg_table_id rg)) k \<in> {None, tables_of (regs (ks\<lparr>ks_table := rt1\<rparr>)) k}"
      using Cons.prems(2) rj by auto
    from Cons.IH [OF r1(2) this] show thesis using that by (auto simp del: fun_upd_apply)
  qed
  have "override_on (T(j \<mapsto> rg_table_id rg)) (tables_of (regs ks)) (set ids) = override_on T (tables_of (regs ks)) (set (j # ids))"
    using rj by (auto simp: override_on_def fun_eq_iff)
  then show ?case using rt r1(1) by auto
qed

lemma shrink_ptr_steady:
  assumes "ks_part R T ks" "T = tables_of (regs ks)" "shrink_ptr tmt i ks = Inr ks'"
  shows "steady ks ks'"
proof -
  obtain rg rt where rg: "regs ks i = Some rg" "shrinkRegionRange (tmt_now tmt) rg (ks_table ks) = Inr rt" "ks' = ks\<lparr>ks_table := rt\<rparr>"
    using assms(3) by (auto simp: shrink_ptr_def rbind_eq_Inr deref_ok)
  have "region_id rg = i" using regions_okD [OF ks_partD(1) [OF assms(1)] rg(1)] by simp
  then have "map_of (rt_regions (ks_table ks)) (region_id rg) = Some (rg_table_id rg)"
    using ks_partD(4) [OF assms(1)] assms(2) rg(1) by (simp add: tables_of_def)
  then show ?thesis using shrinkRegionRange_frame [OF ks_partD(3) [OF assms(1)] _ rg(2)] rg(3) by (simp add: frame_steady)
qed

subsection \<open>Splits\<close>

lemma map_of_umap_emplace: "map_of (fst (umap_emplace k v m)) = (if map_of m k = None then (map_of m)(k \<mapsto> v) else map_of m)"
  by (auto simp: umap_emplace_def fun_eq_iff map_add_def split: option.splits)

lemma emplace_region_part:
  assumes "ks_part R T ks" "region_inv rg"
  shows "ks_part R T (emplace_region rg ks)" "regs ks \<subseteq>\<^sub>m regs (emplace_region rg ks)"
    "dom (regs (emplace_region rg ks)) = insert (region_id rg) (dom (regs ks))"
proof -
  have m: "regs (emplace_region rg ks) = (if regs ks (region_id rg) = None then (regs ks)(region_id rg \<mapsto> rg) else regs ks)"
    by (simp add: emplace_region_def map_of_umap_emplace)
  have "umap_inv (ks_regions (emplace_region rg ks))"
    using ks_partD(1) [OF assms(1)]
    by (auto simp: emplace_region_def umap_emplace_def regions_ok_def umap_inv_def map_of_eq_None_iff split: option.split)
  then have "regions_ok (ks_regions (emplace_region rg ks))"
    unfolding regions_ok_def m using assms(2) regions_okD [OF ks_partD(1) [OF assms(1)]] by (auto split: if_splits)
  then show "ks_part R T (emplace_region rg ks)" using assms(1) by (simp add: ks_part_def emplace_region_def)
  show "regs ks \<subseteq>\<^sub>m regs (emplace_region rg ks)" by (auto simp: m map_le_def)
  show "dom (regs (emplace_region rg ks)) = insert (region_id rg) (dom (regs ks))" by (auto simp: m)
qed

lemma emplace_regions_part:
  assumes "ks_part R T ks" "\<forall>rg \<in> set new. region_inv rg"
  shows "ks_part R T (fold emplace_region new ks) \<and> regs ks \<subseteq>\<^sub>m regs (fold emplace_region new ks)
    \<and> dom (regs (fold emplace_region new ks)) = dom (regs ks) \<union> region_id ` set new"
  using assms
proof (induction new arbitrary: ks)
  case (Cons rg new)
  have "region_inv rg" using Cons.prems(2) by simp
  note e = emplace_region_part [OF Cons.prems(1) this]
  show ?case using Cons.IH [OF e(1)] Cons.prems(2) e(2,3) by (auto intro: map_le_trans)
qed simp

lemma handle_batch_split_index:
  assumes inv: "ks_inv ks" and rg: "regs ks i = Some rg" and rg': "region_inv rg'" "region_id rg' = i" "rg_table_id rg' = rg_table_id rg"
    and new: "\<forall>s \<in> set new. region_inv s \<and> region_id s \<noteq> i"
  shows "\<exists>ks2 ks3 ks4 ks5. unindex_region (region_range rg) i (fold emplace_region new (putRegion rg' ks)) = Inr ks2
    \<and> index_ptr i ks2 = Inr ks3 \<and> rfold index_ptr (map region_id new) ks3 = Inr ks4 \<and> rfold (update_ptr tmt) (map region_id new) ks4 = Inr ks5
    \<and> ks_inv ks5 \<and> regs ks5 = regs (fold emplace_region new (putRegion rg' ks))"
proof -
  let ?M = "regs ks" and ?ids = "map region_id new" and ?ks1 = "fold emplace_region new (putRegion rg' ks)"
  let ?R = "ranges_of ?M" and ?T = "tables_of ?M" and ?M1 = "regs ?ks1"
  have "ks_part ?R ?T (putRegion rg' ks)" using inv rg' by (simp add: ks_inv_part putRegion_part)
  from emplace_regions_part [OF this] new have p1: "ks_part ?R ?T ?ks1"
    and le: "regs (putRegion rg' ks) \<subseteq>\<^sub>m ?M1" and dm: "dom ?M1 = dom (regs (putRegion rg' ks)) \<union> set ?ids" by auto
  have put: "regs (putRegion rg' ks) = ?M(i \<mapsto> rg')" by (simp add: putRegion_def update_conv' rg')
  have M1i: "?M1 i = Some rg'" using le unfolding put map_le_def by (auto dest: bspec [of _ _ i])
  have M1o: "?M1 j = ?M j" if "j \<noteq> i" "?M j \<noteq> None" for j
    using bspec [OF le [unfolded put map_le_def], of j] that by (simp add: domIff)
  have M1s: "?M1 j \<noteq> None" if "j \<in> set ?ids" for j using dm that by (metis UnI2 domIff)
  have M1n: "?M1 j = ?M j" if "j \<noteq> i" "j \<notin> set ?ids" for j
  proof (cases "?M j")
    case None
    then have "j \<notin> dom ?M1" unfolding dm put using that by (simp add: domIff)
    then show ?thesis using None by (simp add: domIff)
  qed (use M1o that in simp)
  obtain I2 where I2: "unindex_region (region_range rg) i ?ks1 = Inr (?ks1\<lparr>ks_index := I2\<rparr>)" "ks_part (?R(i := None)) ?T (?ks1\<lparr>ks_index := I2\<rparr>)"
    using unindex_part [OF p1, of i "region_range rg"] rg by (auto simp: ranges_of_def)
  obtain I3 where I3: "index_ptr i (?ks1\<lparr>ks_index := I2\<rparr>) = Inr (?ks1\<lparr>ks_index := I3\<rparr>)"
      "ks_part (?R(i \<mapsto> (region_range rg', i))) ?T (?ks1\<lparr>ks_index := I3\<rparr>)"
    using index_ptr_part [OF I2(2), of i rg'] M1i by simp blast
  have c: "(?R(i \<mapsto> (region_range rg', i))) j \<in> {None, ranges_of ?M1 j}" "?T j \<in> {None, tables_of ?M1 j}" if "j \<in> set ?ids" for j
    using that new M1o [of j] by (cases "?M j"; auto simp: ranges_of_def tables_of_def)+
  obtain I4 where I4: "rfold index_ptr ?ids (?ks1\<lparr>ks_index := I3\<rparr>) = Inr (?ks1\<lparr>ks_index := I4\<rparr>)"
      "ks_part (override_on (?R(i \<mapsto> (region_range rg', i))) (ranges_of ?M1) (set ?ids)) ?T (?ks1\<lparr>ks_index := I4\<rparr>)"
    using index_ptrs_part [OF I3(2), of ?ids] c(1) M1s by simp blast
  obtain rt where rt: "rfold (update_ptr tmt) ?ids (?ks1\<lparr>ks_index := I4\<rparr>) = Inr (?ks1\<lparr>ks_index := I4, ks_table := rt\<rparr>)"
      "ks_part (override_on (?R(i \<mapsto> (region_range rg', i))) (ranges_of ?M1) (set ?ids)) (override_on ?T (tables_of ?M1) (set ?ids)) (?ks1\<lparr>ks_index := I4, ks_table := rt\<rparr>)"
    using update_ptrs_part [OF I4(2), of ?ids] c(2) M1s by simp blast
  have "override_on (?R(i \<mapsto> (region_range rg', i))) (ranges_of ?M1) (set ?ids) = ranges_of ?M1"
    using M1i M1n by (auto simp: override_on_def fun_eq_iff ranges_of_def)
  moreover have "override_on ?T (tables_of ?M1) (set ?ids) = tables_of ?M1"
  proof
    show "override_on ?T (tables_of ?M1) (set ?ids) j = tables_of ?M1 j" for j
      using M1i M1n [of j] rg rg'(3) by (cases "j = i") (simp_all add: override_on_def tables_of_def)
  qed
  ultimately have "ks_inv (?ks1\<lparr>ks_index := I4, ks_table := rt\<rparr>)" using rt(2) by (simp add: ks_inv_part)
  then show ?thesis
    using I2(1) I3(1) I4(1) rt(1)
    by (intro exI [of _ "?ks1\<lparr>ks_index := I2\<rparr>"] exI [of _ "?ks1\<lparr>ks_index := I3\<rparr>"] exI [of _ "?ks1\<lparr>ks_index := I4\<rparr>"]
        exI [of _ "?ks1\<lparr>ks_index := I4, ks_table := rt\<rparr>"]) simp
qed

lemma rfold_steady:
  assumes "rfold f xs ks = Inr ks'" "ks_inv ks" "\<And>x a b. regions_ok (ks_regions a) \<Longrightarrow> f x a = Inr b \<Longrightarrow> steady a b"
  shows "steady ks ks'"
  using assms(1)
proof (rule rfold_invariant)
  show "steady ks b" if "steady ks a" "f x a = Inr b" for x a b
    using that assms(3) [of a x b] steady_inv [OF that(1) assms(2)] steady_trans [OF that(1)] by (simp add: ks_inv_def)
qed (rule steady_refl)

lemma shrink_ptr_inv: "ks_inv ks \<Longrightarrow> shrink_ptr tmt i ks = Inr ks' \<Longrightarrow> steady ks ks'"
  unfolding ks_inv_part by (rule shrink_ptr_steady) auto

lemma handle_batch_split_ok:
  assumes inv: "ks_inv ks" and rg: "regs ks i = Some rg" and rg': "region_inv rg'" "region_id rg' = i" "rg_table_id rg' = rg_table_id rg"
    and new: "\<forall>s \<in> set new. region_inv s \<and> region_id s \<noteq> i"
    and h: "handle_batch_split tmt i new (region_range rg) (putRegion rg' ks) = Inr ks'"
  shows "ks_inv ks'" "ranges_of (regs ks') = ranges_of (regs (fold emplace_region new (putRegion rg' ks)))"
proof -
  obtain ks2 ks3 ks4 ks5 where u: "unindex_region (region_range rg) i (fold emplace_region new (putRegion rg' ks)) = Inr ks2"
      "index_ptr i ks2 = Inr ks3" "rfold index_ptr (map region_id new) ks3 = Inr ks4" "rfold (update_ptr tmt) (map region_id new) ks4 = Inr ks5"
      and i5: "ks_inv ks5" "regs ks5 = regs (fold emplace_region new (putRegion rg' ks))"
    using handle_batch_split_index [OF inv rg rg' new] by blast
  obtain ks6 ks7 ks8 where w: "shrink_ptr tmt i ks5 = Inr ks6" "rfold (try_to_flush_region tmt) (map region_id new) ks6 = Inr ks7"
      "rfold (persist_and_sync tmt) (map region_id new) ks7 = Inr ks8" "persist_and_sync tmt i ks8 = Inr ks'"
    using h unfolding handle_batch_split_def Let_def by (simp add: u) (auto simp: rbind_eq_Inr)
  have s6: "steady ks5 ks6" by (rule shrink_ptr_inv [OF i5(1) w(1)])
  have s7: "steady ks6 ks7" by (rule rfold_steady [OF w(2) steady_inv [OF s6 i5(1)] try_to_flush_region_steady])
  have s8: "steady ks7 ks8"
    by (rule rfold_steady [OF w(3) steady_inv [OF s7 steady_inv [OF s6 i5(1)]]]) (rule persist_and_sync_steady)
  have st: "steady ks5 ks'"
    using s6 s7 s8 persist_and_sync_steady [OF w(4)] by (blast intro: steady_trans)
  show "ks_inv ks'" by (rule steady_inv [OF st i5(1)])
  show "ranges_of (regs ks') = ranges_of (regs (fold emplace_region new (putRegion rg' ks)))" using st i5(2) by (simp add: steady_def)
qed

lemma execBatchSplit_table:
  assumes "execBatchSplit pe response i t rg = Inr (new, rg')" "region_inv rg"
  shows "rg_table_id rg' = rg_table_id rg" "\<forall>s \<in> set new. region_inv s \<and> region_id s \<noteq> region_id rg"
proof -
  obtain info rg1 m where l: "batch_split_loop pe (resp_splits response) None [] rg = Inr (Some info, new, rg1)" and rg': "rg' = rg1\<lparr>rg_meta := m\<rparr>"
    using assms(1) by (auto simp: execBatchSplit_def rbind_eq_Inr split: if_splits option.splits)
  have "rg1 = rg\<lparr>rg_data := rg_data rg1\<rparr>" using batch_split_loop_ok [OF l assms(2)] by auto
  then have "rg_table_id rg1 = rg_table_id rg" by (cases rg; cases rg1) simp
  then show "rg_table_id rg' = rg_table_id rg" by (simp add: rg')
  note o = execBatchSplit_ok [OF assms]
  have "region_id s \<noteq> region_id rg" if "s \<in> set new" for s
  proof -
    have "region_id s \<in> set (map region_id new)" using that by simp
    then show ?thesis unfolding o(5) by simp
  qed
  then show "\<forall>s \<in> set new. region_inv s \<and> region_id s \<noteq> region_id rg" using o(1) by (auto simp: split_parts_def)
qed

subsection \<open>Merges\<close>

lemma extendRegionRange_known:
  assumes "rt_inv rt" "map_of (rt_regions rt) i = Some t" "extendRegionRange now i keys rt = Inr rt'"
  shows "rt_inv rt'" "map_of (rt_regions rt') = map_of (rt_regions rt)"
proof -
  have "mapped_table_id keys = t" using assms(2,3) by (auto simp: extendRegionRange_def Let_def split: if_splits)
  then show "rt_inv rt'" "map_of (rt_regions rt') = map_of (rt_regions rt)"
    using extendRegionRange_inv [OF assms(1,3)] assms(2) by (auto simp: fun_upd_idem)
qed

lemma region_execCommitMerge_ok:
  assumes inv: "ks_inv ks" and rg: "regs ks i = Some rg"
    and e: "region_execCommitMerge tmt request response idx t rg ks = Inr (j, rg', ks1)"
  obtains src res rt where "j = mr_id (commit_source request)" "regs ks j = Some src" "j \<noteq> i"
    "checkBeforeCommitMerge request (rg_meta src) (rg_meta rg) = Inr res"
    "rd_mergeFrom (rg_data src) (rg_data rg) = Inr (rg_data rg')"
    "execCommitMerge res idx t (rg_meta (setPendingRemove src)) response (rg_meta rg) = Inr (rg_meta rg')"
    "region_inv rg'" "region_id rg' = i" "rg_table_id rg' = rg_table_id rg"
    "ks1 = (putRegion (setPendingRemove src) ks)\<lparr>ks_table := rt\<rparr>" "frame (putRegion (setPendingRemove src) ks) ks1"
proof -
  have rgi: "region_inv rg" "region_id rg = i" using regions_okD [OF ks_invD(1) [OF inv] rg] by auto
  obtain src where src: "ks_getRegion (mr_id (commit_source request)) ks = Some src"
    using e by (auto simp: region_execCommitMerge_def Let_def split: option.splits)
  let ?src = "setPendingRemove src"
  obtain res where res: "checkBeforeCommitMerge request (rg_meta src) (rg_meta rg) = Inr res"
    using e src by (auto simp: region_execCommitMerge_def Let_def rbind_eq_Inr)
  have ne: "mr_id (commit_source request) \<noteq> i" using e src res by (auto simp: region_execCommitMerge_def Let_def rgi)
  obtain keys rt d m where x: "extendRegionRange (tmt_now tmt) i keys (ks_table (putRegion ?src ks)) = Inr rt"
      "rd_mergeFrom (rg_data ?src) (rg_data rg) = Inr d" "execCommitMerge res idx t (rg_meta ?src) response (rg_meta rg) = Inr m"
      "j = mr_id (commit_source request)" "rg' = rg\<lparr>rg_data := d, rg_meta := m\<rparr>" "ks1 = (putRegion ?src ks)\<lparr>ks_table := rt\<rparr>"
    using e src res ne by (auto simp: region_execCommitMerge_def Let_def rgi rbind_eq_Inr)
  have sd: "rg_data ?src = rg_data src" by (simp add: setPendingRemove_def setPeerState_def)
  have si: "region_inv src" by (rule region_in_store(1) [OF inv src])
  have t: "map_of (rt_regions (ks_table (putRegion ?src ks))) i = Some (rg_table_id rg)"
    using known_region [OF inv, of i rg] rg by (simp add: putRegion_def ks_getRegion_def)
  have ti: "rt_inv (ks_table (putRegion ?src ks))" using ks_invD(3) [OF inv] by (simp add: putRegion_def)
  have f: "frame (putRegion ?src ks) ks1" using extendRegionRange_known [OF ti t x(1)] by (simp add: frame_def x(6))
  have ri: "region_inv rg'" "region_id rg' = i"
    using mergeFrom_inv(1) [OF _ _ x(2)] execCommitMerge_inv [OF _ x(3)] execCommitMerge_state [OF x(3)] rgi si
    by (auto simp: x(5) region_inv_def sd region_id_def)
  show thesis
    by (rule that [OF x(4) _ _ res _ _ ri _ x(6) f]) (use src x sd ne in \<open>auto simp: ks_getRegion_def\<close>)
qed

lemma handle_commit_merge_ok:
  assumes inv: "ks_inv ks" and rg: "regs ks i = Some rg"
    and e: "region_execCommitMerge tmt request response idx t rg ks = Inr (j, rg', ks1)"
    and h: "handle_commit_merge tmt i j (region_range rg) (putRegion rg' ks1) = Inr ks'"
  shows "ks_inv ks'" "regs ks' j = None"
proof -
  obtain src where src: "regs ks j = Some src" "j \<noteq> i" and rg': "region_inv rg'" "region_id rg' = i" "rg_table_id rg' = rg_table_id rg"
      and f: "frame (putRegion (setPendingRemove src) ks) ks1"
    using region_execCommitMerge_ok [OF inv rg e] by metis
  let ?R = "ranges_of (regs ks)" and ?T = "tables_of (regs ks)" and ?c = "putRegion rg' ks1"
  have "steady ks (putRegion (setPendingRemove src) ks)"
    using putRegion_steady [OF ks_invD(1) [OF inv] src(1)] keeps_state by (simp add: setPendingRemove_def)
  then have s1: "steady ks ks1" using frame_steady [OF f] by (rule steady_trans)
  then have p: "ks_part ?R ?T ?c" using putRegion_part rg'(1) inv steady_part by (fastforce simp: ks_inv_part)
  have rc: "ranges_of (regs ?c) = ?R(i \<mapsto> (region_range rg', i))" "tables_of (regs ?c) = ?T"
    using s1 rg rg'(2,3) by (auto simp: putRegion_def update_conv' ranges_of_upd tables_of_upd steady_def tables_of_def fun_upd_idem)
  obtain k1 k2 k3 k4 k5 where w: "shrink_ptr tmt i ?c = Inr k1" "try_to_flush_region tmt i k1 = Inr k2" "persist_and_sync tmt i k2 = Inr k3"
      "removeRegion tmt j False k3 = Inr k4" "unindex_region (region_range rg) i k4 = Inr k5" "index_ptr i k5 = Inr ks'"
    using h by (auto simp: handle_commit_merge_def rbind_eq_Inr)
  have a1: "steady ?c k1" by (rule shrink_ptr_steady [OF p _ w(1)]) (simp add: rc)
  have a2: "steady k1 k2" by (rule try_to_flush_region_steady [OF _ w(2)]) (use steady_part [OF a1 p] in \<open>simp add: ks_part_def\<close>)
  have a: "steady ?c k3" using a1 a2 persist_and_sync_steady [OF w(3)] by (blast intro: steady_trans)
  have p3: "ks_part ?R ?T k3" by (rule steady_part [OF a p])
  have r3: "ranges_of (regs k3) = ?R(i \<mapsto> (region_range rg', i))" "tables_of (regs k3) = ?T" using a rc by (auto simp: steady_def)
  obtain s3 where s3: "regs k3 j = Some s3" using fun_cong [OF r3(1), of j] src by (auto simp: ranges_of_def)
  have rs: "?R j = Some (region_range s3, j)" using fun_cong [OF r3(1), of j] src s3 by (simp add: ranges_of_def)
  have i3: "region_inv s3" using regions_okD [OF ks_partD(1) [OF p3] s3] by simp
  note m = removeRegion_fields [OF s3 i3 ks_partD(2) [OF p3] rs ks_partD(3) [OF p3] w(4)]
  have p4: "ks_part (?R(j := None)) (?T(j := None)) k4"
    using m p3 by (auto simp: ks_part_def regions_ok_def)
  obtain I5 where I5: "k5 = k4\<lparr>ks_index := I5\<rparr>" "ks_part (?R(j := None, i := None)) (?T(j := None)) k5"
    using unindex_part [OF p4, of i "region_range rg"] rg src(2) w(5) by (auto simp: ranges_of_def)
  have r5: "regs k5 = (regs k3)(j := None)" using m(1) I5(1) by simp
  have r5': "ranges_of (regs k5) = ?R(j := None, i \<mapsto> (region_range rg', i))" using r3(1) src(2) by (simp add: r5 ranges_of_upd fun_upd_twist)
  obtain rg5 where rg5: "regs k5 i = Some rg5" "region_range rg5 = region_range rg'"
    using fun_cong [OF r5', of i] by (auto simp: ranges_of_def)
  obtain I6 where I6: "ks' = k5\<lparr>ks_index := I6\<rparr>" "ks_part (?R(j := None, i \<mapsto> (region_range rg', i))) (?T(j := None)) ks'"
    using index_ptr_part [OF I5(2) rg5(1)] w(6) rg5(2) by auto
  have r6: "regs ks' = regs k5" by (simp add: I6(1))
  show "ks_inv ks'" using I6(2) r5' r3(2) by (simp add: ks_inv_part r6 r5 tables_of_upd)
  show "regs ks' j = None" by (simp add: r6 r5)
qed

subsection \<open>Other commands\<close>

lemma execPrepareMerge_keeps: "execPrepareMerge request response i t (rg_meta rg) = Inr m \<Longrightarrow> keeps rg (rg\<lparr>rg_meta := m\<rparr>)"
  using execPrepareMerge_inv [of "rg_meta rg" request response i t m]
  by (auto simp: keeps_def region_inv_def region_id_def) (auto simp: execPrepareMerge_def Let_def rbind_eq_Inr state_defs)

lemma execRollbackMerge_keeps: "execRollbackMerge request response i t (rg_meta rg) = Inr m \<Longrightarrow> keeps rg (rg\<lparr>rg_meta := m\<rparr>)"
  using execRollbackMerge_inv [of "rg_meta rg" request response i t m]
  by (auto simp: keeps_def region_inv_def region_id_def) (auto simp: execRollbackMerge_def Let_def rbind_eq_Inr state_defs split: if_splits)

text \<open>A change of the peers comes with the bounds that the region has.\<close>

definition same_bounds :: "AdminResponse \<Rightarrow> Region \<Rightarrow> bool" where
  "same_bounds response rg \<longleftrightarrow>
     mr_start_key (resp_change_peer_region response) = mr_start_key (getRegion (rm_state (rg_meta rg)))
     \<and> mr_end_key (resp_change_peer_region response) = mr_end_key (getRegion (rm_state (rg_meta rg)))"

lemma execChangePeer_keeps:
  assumes "execChangePeer response i t (rg_meta rg) = Inr m" "same_bounds response rg" "region_inv rg"
  shows "keeps rg (rg\<lparr>rg_meta := m\<rparr>)"
proof -
  let ?c = "resp_change_peer_region response"
  obtain st where st: "setRegion ?c (rm_state (rg_meta rg)) = Inr st" "rs_range (rm_state m) = rs_range st" "rm_region_id m = rm_region_id (rg_meta rg)"
    using assms(1) by (auto simp: execChangePeer_def doSetRegion_def rbind_eq_Inr Let_def state_defs split: if_splits)
  have "rs_range st = rs_range (rm_state (rg_meta rg))"
    using st(1) assms(2,3) by (auto simp: setRegion_def updateRegionRange_def rbind_eq_Inr state_defs same_bounds_def region_inv_def meta_inv_def)
  then show ?thesis using execChangePeer_inv [OF assms(1)] assms(3) st by (simp add: keeps_def region_inv_def region_id_def)
qed

lemma handle_change_peer_inv: "ks_inv ks \<Longrightarrow> handle_change_peer tmt i ks = Inr ks' \<Longrightarrow> ks_inv ks'"
  by (auto simp: handle_change_peer_def rbind_eq_Inr dest: removeRegion_inv(1) steady_inv [OF persist_and_sync_steady] split: if_splits)

lemma handle_index_error_inv:
  assumes "ks_inv ks" "handle_index_error tmt request ks = Inr ks'"
  shows "ks_inv ks'"
proof (cases "cmd_type request = CommitMerge \<and> ks_getRegion (mr_id (commit_source request)) ks \<noteq> None")
  case True
  then obtain src where src: "ks_getRegion (mr_id (commit_source request)) ks = Some src" by blast
  have "keeps src (setPendingRemove src)" by (simp add: setPendingRemove_def keeps_state)
  from putRegion_inv(1) [OF assms(1) src this] show ?thesis using assms(2) True src removeRegion_inv(1) by (auto simp: handle_index_error_def)
qed (use assms in \<open>auto simp: handle_index_error_def split: if_splits option.splits\<close>)

lemma handleUselessAdminRaftCmd_inv:
  assumes "ks_inv ks" "handleUselessAdminRaftCmd tmt type i idx t ks = Inr (res, ks')"
  shows "ks_inv ks'"
proof (cases "ks_getRegion i ks")
  case None
  then show ?thesis using assms by (simp add: handleUselessAdminRaftCmd_def)
next
  case (Some rg)
  obtain rg1 st where w: "region_handleWriteRaftCmd (tmt_api tmt) (bg_flush_disabled tmt) [] idx t rg (ks_storage ks) = Inr (rg1, st)"
    using assms(2) Some unfolding handleUselessAdminRaftCmd_def by (auto simp: rbind_eq_Inr)
  have "keeps rg1 (markCompactLog (tmt_now tmt) rg1)" by (simp add: keeps_def markCompactLog_def region_inv_def region_id_def)
  then have k: "keeps rg rg1" "keeps rg (markCompactLog (tmt_now tmt) rg1)"
    using region_handleWriteRaftCmd_keeps [OF w] keeps_trans by blast+
  have "ks_inv (putRegion rg2 (ks\<lparr>ks_storage := st\<rparr>))" if "keeps rg rg2" for rg2
    using putRegion_inv(1) [OF frame_inv [OF storage_frame assms(1)] _ that] frame_get [OF storage_frame] Some by metis
  note p = this [OF k(1)] this [OF k(2)]
  have c: "ks_inv (persistRegion tmt rg2 ks2)" if "tryFlushRegionCacheInStorage tmt rg2 ks1 = Inr ks2" "ks_inv ks1" for rg2 ks1 ks2
    using frame_inv [OF frame_trans [OF tryFlushRegionCacheInStorage_frame [OF that(1)] persistRegion_frame] that(2)] .
  show ?thesis
    using assms(2) Some w p unfolding handleUselessAdminRaftCmd_def by (auto simp: Let_def rbind_eq_Inr split: if_splits intro: c)
qed

lemma handleAdminRaftCmd_inv:
  assumes inv: "ks_inv ks" and h: "handleAdminRaftCmd tmt request response i idx t ks = Inr (res, ks')"
    and b: "\<And>rg. cmd_type request \<in> {ChangePeer, ChangePeerV2} \<Longrightarrow> ks_getRegion i ks = Some rg \<Longrightarrow> same_bounds response rg"
  shows "ks_inv ks'"
proof (cases "cmd_type request \<in> {CompactLog, VerifyHash, ComputeHash} \<or> ks_getRegion i ks = None")
  case True
  then show ?thesis using inv h handleUselessAdminRaftCmd_inv by (auto simp: handleAdminRaftCmd_def split: if_splits)
next
  case False
  then obtain rg where rg: "ks_getRegion i ks = Some rg" by blast
  then have rg': "regs ks i = Some rg" by (simp add: ks_getRegion_def)
  obtain result rg1 ks1 where r: "region_handleAdminRaftCmd tmt request response idx t rg ks = Inr (result, rg1, ks1)"
      and n: "(case result of R_IndexError \<Rightarrow> handle_index_error tmt request (putRegion rg1 ks1)
        | R_BatchSplit split_regions ori_range \<Rightarrow> handle_batch_split tmt i split_regions ori_range (putRegion rg1 ks1)
        | R_Default \<Rightarrow> persist_and_sync tmt i (putRegion rg1 ks1) | R_ChangePeer \<Rightarrow> handle_change_peer tmt i (putRegion rg1 ks1)
        | R_CommitMerge source_id ori_range \<Rightarrow> handle_commit_merge tmt i source_id ori_range (putRegion rg1 ks1)) = Inr ks'"
    using h rg False by (auto simp: handleAdminRaftCmd_def Let_def rbind_eq_Inr)
  note s = region_in_store [OF inv rg]
  have put: "ks_inv (putRegion rg1 ks)" if "keeps rg rg1" by (rule putRegion_inv(1) [OF inv rg that])
  note g = getRange_ok(1) [OF s(1)]
  have kp: "keeps rg (rg\<lparr>rg_meta := doSetApplied idx t (rg_meta rg)\<rparr>)" by (rule keeps_applied)
  show ?thesis
  proof (cases result)
    case R_Default
    then have "keeps rg rg1 \<and> ks1 = ks"
      using r False
      by (auto simp: region_handleAdminRaftCmd_def rbind_eq_Inr intro: execPrepareMerge_keeps execRollbackMerge_keeps split: if_splits)
    then show ?thesis using n R_Default put persist_and_sync_steady steady_inv by fastforce
  next
    case R_IndexError
    then have "rg1 = rg \<and> ks1 = ks" using r by (auto simp: region_handleAdminRaftCmd_def rbind_eq_Inr split: if_splits)
    then show ?thesis using n R_IndexError put keeps_refl handle_index_error_inv by fastforce
  next
    case (R_BatchSplit new ori_range)
    then have x: "execBatchSplit (tmt_proto tmt) response idx t rg = Inr (new, rg1)" "ori_range = region_range rg" "ks1 = ks"
      using r g by (auto simp: region_handleAdminRaftCmd_def rbind_eq_Inr split: if_splits)
    note o = execBatchSplit_ok [OF x(1) s(1)] and e = execBatchSplit_table [OF x(1) s(1)]
    show ?thesis using handle_batch_split_ok(1) [OF inv rg' o(2) _ e(1)] o(3) e(2) n by (simp add: R_BatchSplit x s(2))
  next
    case R_ChangePeer
    then have x: "cmd_type request \<in> {ChangePeer, ChangePeerV2}" "ks1 = ks" "\<exists>m. execChangePeer response idx t (rg_meta rg) = Inr m \<and> rg1 = rg\<lparr>rg_meta := m\<rparr>"
      using r by (auto simp: region_handleAdminRaftCmd_def rbind_eq_Inr split: if_splits)
    then have "keeps rg rg1" using execChangePeer_keeps [OF _ b [OF x(1) rg] s(1)] by blast
    then show ?thesis using n R_ChangePeer x(2) put handle_change_peer_inv by fastforce
  next
    case (R_CommitMerge j ori_range)
    then have x: "region_execCommitMerge tmt request response idx t rg ks = Inr (j, rg1, ks1)" "ori_range = region_range rg"
      using r g by (auto simp: region_handleAdminRaftCmd_def rbind_eq_Inr split: if_splits)
    then show ?thesis using handle_commit_merge_ok(1) [OF inv rg' x(1)] n by (simp add: R_CommitMerge)
  qed
qed

subsection \<open>A merge without background flush\<close>

lemma removeRegion_total:
  assumes rg: "regs ks i = Some rg" "region_inv rg" and R: "index_inv (ks_index ks) R" "R i = Some (region_range rg, i)" and rt: "rt_inv (ks_table ks)"
  shows "\<exists>ks'. removeRegion tmt i False ks = Inr ks' \<and> ks_storage ks' = ks_storage ks \<and> ks_pages ks' = persister_drop i (ks_pages ks)"
proof -
  obtain I where I: "index_remove (region_range rg) i (ks_index ks) = Inr I" using ranges.remove_inv [OF R] by blast
  have "\<exists>rt'. rt_removeRegion (tmt_delta tmt) i False (ks_table ks) st = Inr (rt', st)" for st
    using eraseRegion_refines [OF rt, of i] by (cases "rt_abs (ks_table ks) i") (fastforce simp: rt_removeRegion_def)+
  then obtain rt' where "rt_removeRegion (tmt_delta tmt) i False (ks_table ks) (ks_storage ks) = Inr (rt', ks_storage ks)" by blast
  then show ?thesis using rg getRange_ok(1) [OF rg(2)] I by (simp add: removeRegion_def unindex_region_def Let_def)
qed

lemma shrink_ptr_total:
  assumes "ks_part R T ks" "T = tables_of (regs ks)" "regs ks i = Some rg"
  shows "\<exists>rt. shrink_ptr tmt i ks = Inr (ks\<lparr>ks_table := rt\<rparr>)"
proof -
  have rg: "region_inv rg" "region_id rg = i" using regions_okD [OF ks_partD(1) [OF assms(1)] assms(3)] by auto
  have d: "deref i ks = Inr rg" by (simp add: deref_ok assms(3))
  have "table_agrees rg (ks_table ks)"
    using ks_partD(4) [OF assms(1)] assms(2,3) by (simp add: table_agrees_def rg(2) tables_of_def)
  from shrinkRegionRange_refines [OF ks_partD(3) [OF assms(1)] this rg(1)]
  obtain rt where "shrinkRegionRange (tmt_now tmt) rg (ks_table ks) = Inr rt" by blast
  then show ?thesis by (auto simp: shrink_ptr_def d)
qed

lemma try_to_flush_region_queued:
  assumes "\<not> bg_flush_disabled tmt" "regs ks i = Some rg"
  shows "\<exists>q. try_to_flush_region tmt i ks = Inr (ks\<lparr>regions_to_flush := q\<rparr>)"
proof -
  have d: "deref i ks = Inr rg" by (simp add: deref_ok assms(2))
  have e: "\<exists>q. ks = ks\<lparr>regions_to_flush := q\<rparr>" by (rule exI [of _ "regions_to_flush ks"]) simp
  show ?thesis using assms(1) e by (auto simp: try_to_flush_region_def addRegionToFlush_def d)
qed

lemma persist_and_sync_direct:
  assumes "\<not> bg_flush_disabled tmt" "regs ks i = Some rg"
  shows "persist_and_sync tmt i ks = Inr (persistRegion tmt rg ks)"
proof -
  have "deref i ks = Inr rg" by (simp add: deref_ok assms(2))
  then show ?thesis using assms(1) by (simp add: persist_and_sync_def tryFlushRegionCacheInStorage_def)
qed

text \<open>
  What follows a committed merge: when the background flush is enabled the target is only queued, and otherwise
  its commit records are flushed, unless a flush of it is under way, and the cache of its storage is flushed.
\<close>

definition flush_after_merge :: "('s, 'b) TMTContext \<Rightarrow> bool \<Rightarrow> Region \<Rightarrow> 's \<Rightarrow> (RegionDataReadInfo list \<times> Region \<times> 's) result" where
  "flush_after_merge tmt paused rg st =
     (if \<not> bg_flush_disabled tmt then Inr ([], rg, st)
      else rbind (if paused then Inr ([], rg, st) else writeBlockByRegion (tmt_api tmt) None rg st) (\<lambda>(rows, rg', st1).
           rbind (case engine_type tmt (rg_table_id rg') st1 of None \<Rightarrow> Inr st1 | Some _ \<Rightarrow> flush_cache tmt rg' st1) (\<lambda>st2. Inr (rows, rg', st2))))"

lemma try_to_flush_region_outcome:
  assumes inv: "rt_inv (ks_table ks)" and rg: "regs ks i = Some rg" "region_id rg = i" and t: "map_of (rt_regions (ks_table ks)) i = Some t"
    and bg: "bg_flush_disabled tmt"
  shows "case (if flush_paused i (ks_table ks) then Inr ([], rg, ks_storage ks) else writeBlockByRegion (tmt_api tmt) None rg (ks_storage ks)) of
    Inl e \<Rightarrow> try_to_flush_region tmt i ks = Inl e
  | Inr (rows, rg', st) \<Rightarrow> \<exists>k2. try_to_flush_region tmt i ks = Inr k2 \<and> ks_storage k2 = st \<and> regs k2 = (regs ks)(i \<mapsto> rg')"
proof -
  have d: "deref i ks = Inr rg" by (simp add: deref_ok rg(1))
  show ?thesis
  proof (cases "flush_paused i (ks_table ks)")
    case True
    obtain ir where "doGetInternalRegion t i (ks_table ks) = Inr ir" using doGetInternalRegion_ok [OF inv t] by blast
    then have "beginFlush i (ks_table ks) = Inr (False, ks_table ks)" using True t by (simp add: beginFlush_def flush_paused_def)
    then have "try_to_flush_region tmt i ks = Inr (putRegion rg ks)"
      using bg by (simp add: try_to_flush_region_def d flush_rethrow_def rg(2) tryFlushRegion_def)
    then show ?thesis using True by (simp add: putRegion_def update_conv' rg(2))
  next
    case False
    obtain rt where f: "tryFlushRegion tmt None False rg ks =
      (case writeBlockByRegion (tmt_api tmt) None rg (ks_storage ks) of Inl e \<Rightarrow> Inr (Some e, [], rg, ks\<lparr>ks_table := rt\<rparr>)
       | Inr (rows, rg', st) \<Rightarrow> Inr (None, rows, rg', ks\<lparr>ks_storage := st, ks_table := rt\<rparr>))"
      using tryFlushRegion_outcome [OF inv, of rg t] t False rg(2) by auto
    show ?thesis
    proof (cases "writeBlockByRegion (tmt_api tmt) None rg (ks_storage ks)")
      case (Inl e)
      then show ?thesis using f False bg by (simp add: try_to_flush_region_def d flush_rethrow_def)
    next
      case (Inr y)
      obtain rows rg' st where y: "y = (rows, rg', st)" by (metis prod.exhaust)
      have "region_id rg' = i" using writeBlockByRegion_keeps [OF Inr [unfolded y]] rg(2) unfolding keeps_def by blast
      then show ?thesis
        using f False bg Inr y by (simp add: try_to_flush_region_def d flush_rethrow_def putRegion_def update_conv')
    qed
  qed
qed

lemma flush_after_merge_outcome:
  assumes inv: "rt_inv (ks_table ks)" and rg: "regs ks i = Some rg" "region_id rg = i" and t: "map_of (rt_regions (ks_table ks)) i = Some t"
  shows "case flush_after_merge tmt (flush_paused i (ks_table ks)) rg (ks_storage ks) of
    Inl e \<Rightarrow> rbind (try_to_flush_region tmt i ks) (persist_and_sync tmt i) = Inl e
  | Inr (rows, rg', st) \<Rightarrow> \<exists>k2 k3. try_to_flush_region tmt i ks = Inr k2 \<and> persist_and_sync tmt i k2 = Inr k3
      \<and> ks_storage k3 = st \<and> regs k3 = (regs ks)(i \<mapsto> rg')"
proof (cases "bg_flush_disabled tmt")
  case False
  obtain q where k3: "try_to_flush_region tmt i ks = Inr (ks\<lparr>regions_to_flush := q\<rparr>)"
    using try_to_flush_region_queued [OF False rg(1)] by auto
  have k4: "persist_and_sync tmt i (ks\<lparr>regions_to_flush := q\<rparr>) = Inr (persistRegion tmt rg (ks\<lparr>regions_to_flush := q\<rparr>))"
    by (rule persist_and_sync_direct [OF False]) (simp add: rg)
  show ?thesis using False k3 k4 rg by (simp add: flush_after_merge_def persistRegion_def fun_upd_idem)
next
  case bg: True
  let ?w = "if flush_paused i (ks_table ks) then Inr ([], rg, ks_storage ks) else writeBlockByRegion (tmt_api tmt) None rg (ks_storage ks)"
  note o = try_to_flush_region_outcome [OF inv rg t bg]
  show ?thesis
  proof (cases ?w)
    case (Inl e)
    then show ?thesis using o bg by (simp add: flush_after_merge_def)
  next
    case (Inr y)
    obtain rows rg' st where y: "y = (rows, rg', st)" by (metis prod.exhaust)
    obtain k2 where k2: "try_to_flush_region tmt i ks = Inr k2" "ks_storage k2 = st" "regs k2 = (regs ks)(i \<mapsto> rg')" using o unfolding Inr y by auto
    have d: "deref i k2 = Inr rg'" by (simp add: deref_ok k2(3))
    have "flush_after_merge tmt (flush_paused i (ks_table ks)) rg (ks_storage ks) =
        rbind (case engine_type tmt (rg_table_id rg') st of None \<Rightarrow> Inr st | Some _ \<Rightarrow> flush_cache tmt rg' st) (\<lambda>st2. Inr (rows, rg', st2))"
      unfolding flush_after_merge_def Inr y using bg by simp
    then show ?thesis
      using k2 bg d
      by (cases "engine_type tmt (rg_table_id rg') st"; cases "flush_cache tmt rg' st")
        (simp_all add: persist_and_sync_def tryFlushRegionCacheInStorage_def persistRegion_def)
  qed
qed

text \<open>The range of a region is one of the table.\<close>

definition in_table :: "TableID \<Rightarrow> Region \<Rightarrow> bool" where
  "in_table t rg \<longleftrightarrow> (\<exists>r. rs_range (rm_state (rg_meta rg)) = Some r \<and> mapped_table_id r = t)"

lemma region_execCommitMerge_total:
  assumes inv: "ks_inv ks" and rg: "ks_getRegion i ks = Some rg" and src: "ks_getRegion j ks = Some src" and ij: "i \<noteq> j"
    and id: "mr_id (commit_source request) = j" and chk: "checkBeforeCommitMerge request (rg_meta src) (rg_meta rg) = Inr res"
    and adj: "mr_end_key (getRegion (rm_state (rg_meta src))) = mr_start_key (getRegion (rm_state (rg_meta rg)))
      \<or> mr_end_key (getRegion (rm_state (rg_meta rg))) = mr_start_key (getRegion (rm_state (rg_meta src)))"
    and tb: "in_table (rg_table_id rg) src" "in_table (rg_table_id rg) rg" and dd: "disjoint_data (rg_data src) (rg_data rg)"
    and resp: "\<forall>l. resp_split_left response = Some l \<longrightarrow>
      MetaRegion_eq l (merged_MetaRegion res (getRegion (rm_state (rg_meta src))) (getRegion (rm_state (rg_meta rg))))"
  shows "\<exists>rg' ks1. region_execCommitMerge tmt request response idx t rg ks = Inr (j, rg', ks1)"
proof -
  let ?src = "setPendingRemove src"
  have eq: "getRegion (rm_state (rg_meta ?src)) = getRegion (rm_state (rg_meta src))" "rg_data ?src = rg_data src"
    by (simp_all add: setPendingRemove_def setPeerState_def meta_setPeerState_def state_defs)
  have ri: "region_inv rg" "region_inv src" "region_id rg = i" using region_in_store(1,2) [OF inv] rg src by auto
  obtain r where r: "mk_RegionRangeKeys (mr_start_key (merged_MetaRegion res (getRegion (rm_state (rg_meta src))) (getRegion (rm_state (rg_meta rg)))))
      (mr_end_key (merged_MetaRegion res (getRegion (rm_state (rg_meta src))) (getRegion (rm_state (rg_meta rg))))) = Inr r" "mapped_table_id r = rg_table_id rg"
    using merged_keys [OF _ _ adj chk] ri(1,2) tb by (force simp: region_inv_def in_table_def)
  obtain m where m: "execCommitMerge res idx t (rg_meta ?src) response (rg_meta rg) = Inr m"
    using execCommitMerge_total [of res "rg_meta ?src" "rg_meta rg"] r(1) resp unfolding eq(1) by blast
  obtain d where d: "rd_mergeFrom (rg_data ?src) (rg_data rg) = Inr d"
    using rd_merge_total [OF _ _ dd] ri unfolding eq(2) region_inv_def by blast
  have "u = mapped_table_id r" if "rt_abs (ks_table ks) i = Some (u, rr)" for u rr
    using rt_abs_Some [OF ks_invD(3) [OF inv] that] known_region [OF inv rg] r(2) by force
  then obtain rt where "extendRegionRange (tmt_now tmt) i r (ks_table ks) = Inr rt" using extendRegionRange_refines [OF ks_invD(3) [OF inv]] by blast
  then have x: "extendRegionRange (tmt_now tmt) i r (ks_table (putRegion ?src ks)) = Inr rt" by (simp add: putRegion_def)
  show ?thesis
    using r(1)
    by (cases "source_at_left res") (simp_all add: region_execCommitMerge_def Let_def id src chk ij [symmetric] ri(3) eq m [unfolded eq] d [unfolded eq(2)] x merged_MetaRegion_def)
qed

lemma execCommitMerge_paused:
  assumes inv: "ks_inv ks" and rg: "regs ks i = Some rg"
    and e: "region_execCommitMerge tmt request response idx t rg ks = Inr (j, rg', ks1)"
  shows "flush_paused i (ks_table ks1) \<longleftrightarrow> flush_paused i (ks_table ks)"
proof -
  have g: "ks_getRegion i ks = Some rg" "region_id rg = i" using rg regions_okD [OF ks_invD(1) [OF inv] rg] by (auto simp: ks_getRegion_def)
  obtain keys where x: "extendRegionRange (tmt_now tmt) i keys (ks_table ks) = Inr (ks_table ks1)"
    using e g(2) by (auto simp: region_execCommitMerge_def Let_def rbind_eq_Inr putRegion_def split: option.splits if_splits)
  have "rg_table_id rg = mapped_table_id keys" using x known_region [OF inv g(1)] by (auto simp: extendRegionRange_def Let_def split: if_splits)
  then show ?thesis using extendRegionRange_paused [OF ks_invD(3) [OF inv] _ x] known_region [OF inv g(1)] by simp
qed

lemma merge_shrunk:
  assumes inv: "ks_inv ks" and rg: "regs ks i = Some rg"
    and e: "region_execCommitMerge tmt request response idx t rg ks = Inr (j, rg', ks1)"
  shows "\<exists>k1 src. shrink_ptr tmt i (putRegion rg' ks1) = Inr k1 \<and> ks_part (ranges_of (regs ks)) (tables_of (regs ks)) k1
    \<and> regs ks j = Some src \<and> regs k1 = (regs ks)(j \<mapsto> setPendingRemove src, i \<mapsto> rg') \<and> ks_storage k1 = ks_storage ks
    \<and> (flush_paused i (ks_table k1) \<longleftrightarrow> flush_paused i (ks_table ks))"
proof -
  obtain src rt where src: "regs ks j = Some src" "j \<noteq> i" and rg': "region_inv rg'" "region_id rg' = i" "rg_table_id rg' = rg_table_id rg"
      and k1: "ks1 = (putRegion (setPendingRemove src) ks)\<lparr>ks_table := rt\<rparr>" and f: "frame (putRegion (setPendingRemove src) ks) ks1"
    using region_execCommitMerge_ok [OF inv rg e] by metis
  let ?src = "setPendingRemove src" and ?R = "ranges_of (regs ks)" and ?T = "tables_of (regs ks)" and ?c = "putRegion rg' ks1"
  have kp: "keeps src ?src" by (simp add: setPendingRemove_def keeps_state)
  have sid: "region_id ?src = j" "rg_table_id ?src = rg_table_id src"
    using kp regions_okD [OF ks_invD(1) [OF inv] src(1)] by (auto simp: keeps_def)
  have "steady ks ks1"
    using putRegion_steady [OF ks_invD(1) [OF inv] src(1) kp] frame_steady [OF f] by (rule steady_trans)
  then have p: "ks_part ?R ?T ?c" using putRegion_part rg'(1) inv steady_part by (fastforce simp: ks_inv_part)
  have rc: "regs ?c = (regs ks)(j \<mapsto> ?src, i \<mapsto> rg')" by (simp add: putRegion_def update_conv' k1 sid(1) rg'(2))
  have T: "?T = tables_of (regs ?c)" unfolding rc tables_of_upd using rg src rg'(3) sid(2) by (auto simp: tables_of_def)
  obtain rt2 where k2: "shrink_ptr tmt i ?c = Inr (?c\<lparr>ks_table := rt2\<rparr>)" using shrink_ptr_total [OF p T, of i rg'] by (auto simp: rc)
  have p1: "ks_part ?R ?T (?c\<lparr>ks_table := rt2\<rparr>)" using shrink_ptr_steady [OF p T k2] p by (rule steady_part)
  have "shrinkRegionRange (tmt_now tmt) rg' (ks_table ?c) = Inr rt2"
    using k2 deref_ok [of i ?c rg'] by (auto simp: shrink_ptr_def rbind_eq_Inr rc dest!: arg_cong [where f = ks_table])
  then have "flush_paused i rt2 \<longleftrightarrow> flush_paused i (ks_table ?c)"
    using shrinkRegionRange_paused [OF ks_partD(3) [OF p], of rg'] ks_partD(4) [OF p] rg rg'(2,3) by (auto simp: tables_of_def)
  then have "flush_paused i (ks_table (?c\<lparr>ks_table := rt2\<rparr>)) \<longleftrightarrow> flush_paused i (ks_table ks)" "ks_storage (?c\<lparr>ks_table := rt2\<rparr>) = ks_storage ks"
    using execCommitMerge_paused [OF assms] by (simp_all add: putRegion_def k1)
  moreover have "regs (?c\<lparr>ks_table := rt2\<rparr>) = (regs ks)(j \<mapsto> ?src, i \<mapsto> rg')" by (simp add: rc)
  ultimately show ?thesis using k2 p1 src(1) by blast
qed

lemma merge_source_removed:
  assumes p: "ks_part R T ks" and src: "regs ks j = Some src" "R j = Some (region_range src, j)" and i: "R i = Some (r, i)" "i \<noteq> j"
    and rg: "regs ks i = Some rg"
  shows "\<exists>k1 k2 k3. removeRegion tmt j False ks = Inr k1 \<and> unindex_region r i k1 = Inr k2 \<and> index_ptr i k2 = Inr k3
    \<and> ks_storage k3 = ks_storage ks \<and> map_of (ks_pages k3) j = None \<and> regs k3 = (regs ks)(j := None)"
proof -
  have si: "region_inv src" using regions_okD [OF ks_partD(1) [OF p] src(1)] by simp
  obtain k1 where k1: "removeRegion tmt j False ks = Inr k1" "ks_storage k1 = ks_storage ks" "ks_pages k1 = persister_drop j (ks_pages ks)"
    using removeRegion_total [OF src(1) si ks_partD(2) [OF p] src(2) ks_partD(3) [OF p]] by blast
  note m = removeRegion_fields [OF src(1) si ks_partD(2) [OF p] src(2) ks_partD(3) [OF p] k1(1)]
  have p1: "ks_part (R(j := None)) (T(j := None)) k1" using m p by (auto simp: ks_part_def regions_ok_def)
  obtain I2 where I2: "unindex_region r i k1 = Inr (k1\<lparr>ks_index := I2\<rparr>)" "ks_part (R(j := None, i := None)) (T(j := None)) (k1\<lparr>ks_index := I2\<rparr>)"
    using unindex_part [OF p1, of i r] i by auto
  obtain I3 where I3: "index_ptr i (k1\<lparr>ks_index := I2\<rparr>) = Inr (k1\<lparr>ks_index := I3\<rparr>)"
    using index_ptr_part [OF I2(2), of i rg] m(1) rg i(2) by auto
  have "ks_storage (k1\<lparr>ks_index := I3\<rparr>) = ks_storage ks" "map_of (ks_pages (k1\<lparr>ks_index := I3\<rparr>)) j = None" "regs (k1\<lparr>ks_index := I3\<rparr>) = (regs ks)(j := None)"
    using k1(2,3) m(1) by (simp_all add: persister_drop_def map_of_erase)
  then show ?thesis using k1(1) I2(1) I3 by blast
qed

lemma handle_commit_merge_total:
  assumes inv: "ks_inv ks" and rg: "regs ks i = Some rg"
    and e: "region_execCommitMerge tmt request response idx t rg ks = Inr (j, rg', ks1)"
  shows "case flush_after_merge tmt (flush_paused i (ks_table ks)) rg' (ks_storage ks) of
    Inl x \<Rightarrow> handle_commit_merge tmt i j (region_range rg) (putRegion rg' ks1) = Inl x
  | Inr (rows, rg2, st) \<Rightarrow> \<exists>ks'. handle_commit_merge tmt i j (region_range rg) (putRegion rg' ks1) = Inr ks' \<and> ks_storage ks' = st
      \<and> map_of (ks_pages ks') j = None \<and> regs ks' = (regs ks)(j := None, i \<mapsto> rg2)"
proof -
  have rg': "region_id rg' = i" "j \<noteq> i" "rg_table_id rg' = rg_table_id rg" using region_execCommitMerge_ok [OF inv rg e] by metis+
  let ?R = "ranges_of (regs ks)" and ?T = "tables_of (regs ks)"
  obtain k1 src where k1: "shrink_ptr tmt i (putRegion rg' ks1) = Inr k1" and p1: "ks_part ?R ?T k1" and src: "regs ks j = Some src"
      and r1: "regs k1 = (regs ks)(j \<mapsto> setPendingRemove src, i \<mapsto> rg')"
      and s1: "ks_storage k1 = ks_storage ks" "flush_paused i (ks_table k1) = flush_paused i (ks_table ks)"
    using merge_shrunk [OF assms] by blast
  have ri: "regs k1 i = Some rg'" "map_of (rt_regions (ks_table k1)) i = Some (rg_table_id rg')"
    using r1 ks_partD(4) [OF p1] rg rg'(3) by (simp_all add: tables_of_def)
  note o = flush_after_merge_outcome [OF ks_partD(3) [OF p1] ri(1) rg'(1) ri(2), of tmt, unfolded s1]
  show ?thesis
  proof (cases "flush_after_merge tmt (flush_paused i (ks_table ks)) rg' (ks_storage ks)")
    case (Inl x)
    then have "rbind (try_to_flush_region tmt i k1) (persist_and_sync tmt i) = Inl x" using o by simp
    then have "handle_commit_merge tmt i j (region_range rg) (putRegion rg' ks1) = Inl x"
      by (auto simp: handle_commit_merge_def k1 rbind_def split: sum.splits)
    then show ?thesis by (simp add: Inl)
  next
    case (Inr y)
    obtain rows rg2 st where y: "y = (rows, rg2, st)" by (metis prod.exhaust)
    obtain k3 k4 where k3: "try_to_flush_region tmt i k1 = Inr k3" and k4: "persist_and_sync tmt i k3 = Inr k4"
        and m4: "ks_storage k4 = st" "regs k4 = (regs k1)(i \<mapsto> rg2)" using o unfolding Inr y by auto
    have "steady k1 k3" by (rule try_to_flush_region_steady [OF ks_partD(1) [OF p1] k3])
    then have p4: "ks_part ?R ?T k4" using persist_and_sync_steady [OF k4] p1 by (blast intro: steady_part steady_trans)
    have "region_range (setPendingRemove src) = region_range src"
      using keeps_state [of src] by (simp add: setPendingRemove_def keeps_def region_range_def)
    then have s4: "regs k4 j = Some (setPendingRemove src)" "?R j = Some (region_range (setPendingRemove src), j)" "?R i = Some (region_range rg, i)" "regs k4 i = Some rg2"
      using src rg rg'(2) by (simp_all add: m4(2) r1 ranges_of_def)
    obtain k5 k6 k7 where k7: "removeRegion tmt j False k4 = Inr k5" "unindex_region (region_range rg) i k5 = Inr k6" "index_ptr i k6 = Inr k7"
        "ks_storage k7 = st" "map_of (ks_pages k7) j = None" "regs k7 = (regs k4)(j := None)"
      using merge_source_removed [OF p4 s4(1-3) _ s4(4), of tmt] rg'(2) m4(1) by blast
    have "handle_commit_merge tmt i j (region_range rg) (putRegion rg' ks1) = Inr k7"
      by (simp add: handle_commit_merge_def k1 k3 k4 k7(1-3))
    moreover have "regs k7 = (regs ks)(j := None, i \<mapsto> rg2)" unfolding k7(6) m4(2) r1 using rg'(2) by (auto simp: fun_eq_iff)
    ultimately show ?thesis using k7(4,5) unfolding Inr y by simp
  qed
qed

lemma merge_entries:
  assumes "RegionData_inv d" "RegionData_inv src" "rd_mergeFrom src d = Inr d'"
  shows "mset (kv_entries d') = mset (kv_entries d) + mset (kv_entries src)"
  using mergeFrom_inv(2-4) [OF assms] by (simp add: kv_entries_def)

lemma covers_range: "rs_range (rm_state (rg_meta rg)) = Some r \<Longrightarrow> region_covers rg key \<longleftrightarrow> in_range (ori r) key"
  by (simp add: region_covers_def)

lemma merged_region:
  assumes inv: "ks_inv ks" and rg: "ks_getRegion i ks = Some rg" and src: "ks_getRegion j ks = Some src"
    and chk: "checkBeforeCommitMerge request (rg_meta src) (rg_meta rg) = Inr res"
    and adj: "mr_end_key (getRegion (rm_state (rg_meta src))) = mr_start_key (getRegion (rm_state (rg_meta rg)))
      \<or> mr_end_key (getRegion (rm_state (rg_meta rg))) = mr_start_key (getRegion (rm_state (rg_meta src)))"
    and x: "region_execCommitMerge tmt request response idx t rg ks = Inr (j, rg', ks1)"
  shows "region_inv rg'" "region_appliedIndex rg' = idx"
    "getRegion (rm_state (rg_meta rg')) = merged_MetaRegion res (getRegion (rm_state (rg_meta src))) (getRegion (rm_state (rg_meta rg)))"
    "\<forall>key. region_covers rg' key \<longleftrightarrow> region_covers rg key \<or> region_covers src key"
    "mset (kv_entries (rg_data rg')) = mset (kv_entries (rg_data rg)) + mset (kv_entries (rg_data src))" "\<not> isPendingRemove rg'"
proof -
  have ri: "region_inv rg" "region_inv src" using region_in_store(1) [OF inv] rg src by auto
  obtain src' res' where m: "regs ks j = Some src'" "checkBeforeCommitMerge request (rg_meta src') (rg_meta rg) = Inr res'"
      "rd_mergeFrom (rg_data src') (rg_data rg) = Inr (rg_data rg')"
      "execCommitMerge res' idx t (rg_meta (setPendingRemove src')) response (rg_meta rg) = Inr (rg_meta rg')" "region_inv rg'"
    using region_execCommitMerge_ok [OF inv _ x] rg unfolding ks_getRegion_def by metis
  have s: "src' = src" "res' = res" using m(1,2) src chk by (simp_all add: ks_getRegion_def)
  have eq: "getRegion (rm_state (rg_meta (setPendingRemove src))) = getRegion (rm_state (rg_meta src))"
    by (simp add: setPendingRemove_def setPeerState_def meta_setPeerState_def state_defs)
  have e: "execCommitMerge res idx t (rg_meta src) response (rg_meta rg) = Inr (rg_meta rg')"
    using m(4) unfolding s execCommitMerge_def eq .
  show "region_inv rg'" by (rule m)
  show "region_appliedIndex rg' = idx" using execCommitMerge_state [OF e] by (auto simp: region_appliedIndex_def)
  show "getRegion (rm_state (rg_meta rg')) = merged_MetaRegion res (getRegion (rm_state (rg_meta src))) (getRegion (rm_state (rg_meta rg)))"
    using execCommitMerge_state [OF e] unfolding merged_MetaRegion_def by blast
  show "\<forall>key. region_covers rg' key \<longleftrightarrow> region_covers rg key \<or> region_covers src key"
    using merged_range [OF _ _ adj chk e] ri unfolding region_inv_def by (auto simp: covers_range)
  show "mset (kv_entries (rg_data rg')) = mset (kv_entries (rg_data rg)) + mset (kv_entries (rg_data src))"
    using merge_entries [OF _ _ m(3)] ri by (simp add: s region_inv_def)
  show "\<not> isPendingRemove rg'" using execCommitMerge_state [OF e] by (auto simp: isPendingRemove_def peerState_def meta_peerState_def)
qed

lemma flush_after_merge_flushed:
  assumes "region_inv rg" "\<not> isPendingRemove rg" "flush_after_merge tmt paused rg st = Inr (rows, rg', st')"
  shows "rg_meta rg' = rg_meta rg \<and> (if bg_flush_disabled tmt \<and> \<not> paused \<and> data_map (rd_write (rg_data rg)) \<noteq> []
    then rows_flushed rows rg rg' else rows = [] \<and> rg' = rg)"
  using assms(3) by (auto simp: flush_after_merge_def rbind_eq_Inr split: if_splits dest!: writeBlockByRegion_flushed [OF assms(1,2)])

subsection \<open>A sample store\<close>

lemma store_exists:
  assumes "distinct (map fst xs)" "\<forall>(i, rg) \<in> set xs. region_inv rg \<and> region_id rg = i"
  shows "\<exists>ks. ks_inv ks \<and> ks_regions ks = xs \<and> ks_storage ks = st"
proof -
  let ?ks = "(new_KVStore [] st)\<lparr>ks_regions := xs\<rparr>"
  have "regions_ok xs" using assms by (auto simp: regions_ok_def umap_inv_def dest: map_of_SomeD)
  then have p: "ks_part Map.empty Map.empty ?ks"
    by (simp add: ks_part_def new_KVStore_def clear_inv new_RegionTable_inv) (simp add: new_RegionTable_def umap_inv_def)
  have k: "\<forall>j \<in> set (map fst xs). regs ?ks j \<noteq> None" by (auto simp: map_of_eq_None_iff)
  then obtain I where I: "ks_part (override_on Map.empty (ranges_of (regs ?ks)) (set (map fst xs))) Map.empty (?ks\<lparr>ks_index := I\<rparr>)"
    using index_ptrs_part [OF p, of "map fst xs"] by auto
  from update_ptrs_part [OF this, of "map fst xs"] k obtain rt where
    rt: "ks_part (override_on Map.empty (ranges_of (regs ?ks)) (set (map fst xs))) (override_on Map.empty (tables_of (regs ?ks)) (set (map fst xs)))
      (?ks\<lparr>ks_index := I, ks_table := rt\<rparr>)" by auto
  have "map_of xs j = None" if "j \<notin> set (map fst xs)" for j using that by (simp add: map_of_eq_None_iff)
  then have "override_on Map.empty (ranges_of (regs ?ks)) (set (map fst xs)) = ranges_of (regs ?ks)"
      "override_on Map.empty (tables_of (regs ?ks)) (set (map fst xs)) = tables_of (regs ?ks)"
    by (auto simp: override_on_def fun_eq_iff ranges_of_def tables_of_def)
  then have "ks_inv (?ks\<lparr>ks_index := I, ks_table := rt\<rparr>)" using rt by (simp add: ks_inv_part)
  moreover have "ks_regions (?ks\<lparr>ks_index := I, ks_table := rt\<rparr>) = xs" "ks_storage (?ks\<lparr>ks_index := I, ks_table := rt\<rparr>) = st"
    by (simp_all add: new_KVStore_def)
  ultimately show ?thesis by blast
qed

definition sample_neighbour :: Region where
  "sample_neighbour = sample_region\<lparr>rg_data := empty_RegionData, rg_meta := sample_meta 11 50 90\<rparr>"

lemma sample_neighbour_inv: "region_inv sample_neighbour" "region_id sample_neighbour = 11" "rg_table_id sample_neighbour = 1"
proof -
  have "meta_inv (sample_meta 11 50 90)" by (rule reachable_meta_inv [OF sample_meta_reachable]) (simp add: word_sless_alt)
  then show "region_inv sample_neighbour" by (simp add: sample_neighbour_def region_inv_def empty_inv)
qed (simp_all add: sample_neighbour_def region_id_def sample_meta_def sample_region_def)

lemma sample_store: "\<exists>ks. ks_inv ks \<and> ks_regions ks = [(10, sample_region), (11, sample_neighbour)] \<and> ks_storage ks = []"
  by (rule store_exists) (use sample_region_inv sample_neighbour_inv in \<open>auto simp: sample_region_def region_id_def sample_meta_def\<close>)

subsection \<open>Properties\<close>

text \<open>
  C25: when the merge of a region with a neighbour of the same table is committed, the two have no key in common
  and the response, if it has a region, has the merged one, then the command applies the merge: the target has
  the entries of both regions and covers the keys of both. With the background flush enabled the command always
  succeeds and the storage stays as it is. With it disabled, the target is flushed unless a flush of it is under
  way, which moves its committed rows to the storage, and the cache of the storage is flushed; the command fails
  exactly when one of these fails, with the same exception. When the command succeeds, the source has left the
  store, the index, the table of regions and the pages, its rows in the storage are not deleted, no other region
  changes and the invariant of the store holds.
\<close>

theorem commit_merge_store:
  assumes "ks_inv ks" and "ks_getRegion i ks = Some rg" and "ks_getRegion j ks = Some src" and "i \<noteq> j"
    and "cmd_type request = CommitMerge" and "mr_id (commit_source request) = j" and "region_appliedIndex rg < idx"
    and "checkBeforeCommitMerge request (rg_meta src) (rg_meta rg) = Inr res"
    and "mr_end_key (getRegion (rm_state (rg_meta src))) = mr_start_key (getRegion (rm_state (rg_meta rg)))
      \<or> mr_end_key (getRegion (rm_state (rg_meta rg))) = mr_start_key (getRegion (rm_state (rg_meta src)))"
    and "in_table (rg_table_id rg) src" and "in_table (rg_table_id rg) rg" and "disjoint_data (rg_data src) (rg_data rg)"
    and "\<forall>l. resp_split_left response = Some l \<longrightarrow>
      MetaRegion_eq l (merged_MetaRegion res (getRegion (rm_state (rg_meta src))) (getRegion (rm_state (rg_meta rg))))"
  shows "\<exists>merged. region_appliedIndex merged = idx
    \<and> getRegion (rm_state (rg_meta merged)) = merged_MetaRegion res (getRegion (rm_state (rg_meta src))) (getRegion (rm_state (rg_meta rg)))
    \<and> (\<forall>key. region_covers merged key \<longleftrightarrow> region_covers rg key \<or> region_covers src key)
    \<and> mset (kv_entries (rg_data merged)) = mset (kv_entries (rg_data rg)) + mset (kv_entries (rg_data src))
    \<and> (case flush_after_merge tmt (flush_paused i (ks_table ks)) merged (ks_storage ks) of
        Inl e \<Rightarrow> handleAdminRaftCmd tmt request response i idx t ks = Inl e
      | Inr (rows, rg', st) \<Rightarrow> \<exists>ks'. handleAdminRaftCmd tmt request response i idx t ks = Inr (Apply_Persist, ks')
          \<and> ks_inv ks' \<and> ks_storage ks' = st \<and> ks_getRegion i ks' = Some rg' \<and> ks_getRegion j ks' = None \<and> map_of (ks_pages ks') j = None
          \<and> (\<forall>k. k \<notin> {i, j} \<longrightarrow> ks_getRegion k ks' = ks_getRegion k ks)
          \<and> rg_meta rg' = rg_meta merged
          \<and> (if bg_flush_disabled tmt \<and> \<not> flush_paused i (ks_table ks) \<and> data_map (rd_write (rg_data merged)) \<noteq> []
             then rows_flushed rows merged rg' else rows = [] \<and> rg' = merged))"
proof -
  obtain rg' ks1 where x: "region_execCommitMerge tmt request response idx t rg ks = Inr (j, rg', ks1)"
    using region_execCommitMerge_total [OF assms(1-4,6,8-13)] by blast
  have rg: "regs ks i = Some rg" using assms(2) by (simp add: ks_getRegion_def)
  note m = merged_region [OF assms(1,2,3) assms(8,9) x]
  let ?F = "flush_after_merge tmt (flush_paused i (ks_table ks)) rg' (ks_storage ks)"
  have h: "handleAdminRaftCmd tmt request response i idx t ks =
      rbind (handle_commit_merge tmt i j (region_range rg) (putRegion rg' ks1)) (\<lambda>ks'. Inr (Apply_Persist, ks'))"
    using assms(2,5,7) x getRange_ok(1) [OF region_in_store(1) [OF assms(1,2)]]
    by (simp add: handleAdminRaftCmd_def region_handleAdminRaftCmd_def Let_def not_le [symmetric])
  have "case ?F of Inl e \<Rightarrow> handleAdminRaftCmd tmt request response i idx t ks = Inl e
      | Inr (rows, rg2, st) \<Rightarrow> \<exists>ks'. handleAdminRaftCmd tmt request response i idx t ks = Inr (Apply_Persist, ks')
          \<and> ks_inv ks' \<and> ks_storage ks' = st \<and> ks_getRegion i ks' = Some rg2 \<and> ks_getRegion j ks' = None \<and> map_of (ks_pages ks') j = None
          \<and> (\<forall>k. k \<notin> {i, j} \<longrightarrow> ks_getRegion k ks' = ks_getRegion k ks)
          \<and> rg_meta rg2 = rg_meta rg'
          \<and> (if bg_flush_disabled tmt \<and> \<not> flush_paused i (ks_table ks) \<and> data_map (rd_write (rg_data rg')) \<noteq> []
             then rows_flushed rows rg' rg2 else rows = [] \<and> rg2 = rg')"
  proof (cases ?F)
    case (Inl e)
    then show ?thesis using handle_commit_merge_total [OF assms(1) rg x] by (simp add: h)
  next
    case (Inr y)
    obtain rows rg2 st where y: "y = (rows, rg2, st)" by (metis prod.exhaust)
    obtain ks' where k: "handle_commit_merge tmt i j (region_range rg) (putRegion rg' ks1) = Inr ks'" "ks_storage ks' = st"
        "map_of (ks_pages ks') j = None" "regs ks' = (regs ks)(j := None, i \<mapsto> rg2)"
      using handle_commit_merge_total [OF assms(1) rg x] unfolding Inr y by auto
    have "ks_inv ks'" by (rule handle_commit_merge_ok(1) [OF assms(1) rg x k(1)])
    then show ?thesis
      using k flush_after_merge_flushed [OF m(1,6) Inr [unfolded y]] assms(4) unfolding Inr y by (simp add: h ks_getRegion_def)
  qed
  then show ?thesis using m(2-5) by blast
qed

theorem commit_merge_store_witness:
  "\<exists>ks rg' ks'. ks_getRegion 10 ks = Some sample_region \<and> ks_getRegion 11 ks = Some sample_neighbour
     \<and> handleAdminRaftCmd sample_tmt sample_merge_request sample_response 10 20 6 ks = Inr (Apply_Persist, ks') \<and> ks_inv ks'
     \<and> ks_getRegion 10 ks' = Some rg' \<and> ks_getRegion 11 ks' = None \<and> ks_storage ks' = ks_storage ks
     \<and> (region_covers rg' (genKey 1 70) \<longleftrightarrow> region_covers sample_region (genKey 1 70) \<or> region_covers sample_neighbour (genKey 1 70))"
proof -
  obtain ks :: "RegionDataReadInfo list KVStore" where ks: "ks_inv ks" "ks_regions ks = [(10, sample_region), (11, sample_neighbour)]" using sample_store by blast
  then have g: "ks_getRegion 10 ks = Some sample_region" "ks_getRegion 11 ks = Some sample_neighbour" by (simp_all add: ks_getRegion_def)
  have a: "(10 :: RegionID) \<noteq> 11" "cmd_type sample_merge_request = CommitMerge" "mr_id (commit_source sample_merge_request) = 11"
      "region_appliedIndex sample_region < 20" "\<not> bg_flush_disabled sample_tmt"
      "mr_end_key (getRegion (rm_state (rg_meta sample_region))) = mr_start_key (getRegion (rm_state (rg_meta sample_neighbour)))"
    by (simp_all add: sample_merge_request_def sample_tmt_def region_appliedIndex_def meta_appliedIndex_def sample_region_def sample_neighbour_def
        sample_meta_def sample_meta_region_def initialApplyState_def RAFT_INIT_LOG_INDEX_def state_defs)
  have c: "checkBeforeCommitMerge sample_merge_request (rg_meta sample_neighbour) (rg_meta sample_region) = Inr \<lparr>source_at_left = False, merge_version = 5\<rparr>"
    using sample_merge_check by (simp add: sample_neighbour_def sample_region_def)
  have b: "in_table (rg_table_id sample_region) sample_neighbour" "in_table (rg_table_id sample_region) sample_region"
      "disjoint_data (rg_data sample_neighbour) (rg_data sample_region)"
    by (simp_all add: in_table_def disjoint_data_def sample_region_def sample_neighbour_def sample_meta_def sample_keys_def empty_RegionData_def empty_cf_def)
  have r: "\<forall>l. resp_split_left sample_response = Some l \<longrightarrow>
      MetaRegion_eq l (merged_MetaRegion \<lparr>source_at_left = False, merge_version = 5\<rparr> (getRegion (rm_state (rg_meta sample_neighbour))) (getRegion (rm_state (rg_meta sample_region))))"
    by (simp add: sample_response_def)
  have f: "flush_after_merge sample_tmt p rg st = Inr ([], rg, st)" for p rg st using a(5) by (simp add: flush_after_merge_def)
  show ?thesis
    using commit_merge_store [OF ks(1) g a(1-4) c disjI2 [OF a(6)] b r, of sample_tmt 6] g unfolding f by auto
qed

end
