(* ===== verification/TableHandle.thy ===== *)
theory TableHandle
  imports RangeKeys "HOL-Library.Product_Lexorder"
begin

section \<open>Handles of tables with an unsigned primary key\<close>

text \<open>
  \<open>Storages/Transaction/CHTableHandle.h\<close>. The transaction layer orders handles as signed numbers; the storage
  orders the rows of a table with an unsigned primary key as unsigned numbers. A handle is the same 64-bit
  word in both readings, so a handle of the unsigned kind is a value of the type \<open>Handle\<close> that is compared
  with the unsigned order.
\<close>

subsection \<open>Operations\<close>

definition SIGN_MARK :: UInt64 where "SIGN_MARK = push_bit 63 1"

definition withSignMark :: "HandleID \<Rightarrow> bool" where
  "withSignMark i \<longleftrightarrow> and i SIGN_MARK \<noteq> 0"

definition id_less_uhandle :: "HandleID \<Rightarrow> Handle \<Rightarrow> bool" where
  "id_less_uhandle i y \<longleftrightarrow> handle_type y = H_MAX \<or> i < handle_id y"

definition id_geq_uhandle :: "HandleID \<Rightarrow> Handle \<Rightarrow> bool" where
  "id_geq_uhandle i y \<longleftrightarrow> \<not> id_less_uhandle i y"

definition unormal_min :: Handle where "unormal_min = Handle H_NORMAL 0"

definition empty_uhandle_range :: HandleRange where
  "empty_uhandle_range = (Handle H_NORMAL 0, Handle H_NORMAL 0)"

definition splitForUInt64TableHandle :: "HandleRange \<Rightarrow> (nat \<times> HandleRange \<times> HandleRange) result" where
  "splitForUInt64TableHandle ori_range =
     (let b = fst ori_range; e = snd ori_range; unsigned_2_power_max = push_bit 63 1
      in if handle_type b = handle_type e then
           if handle_type b \<noteq> H_NORMAL then Inr (1, (b, e), empty_uhandle_range)
           else if and (handle_id b) SIGN_MARK = and (handle_id e) SIGN_MARK
           then Inr (1, (Handle H_NORMAL (handle_id b), Handle H_NORMAL (handle_id e)), empty_uhandle_range)
           else Inr (2, (Handle H_NORMAL 0, Handle H_NORMAL (handle_id e)), (Handle H_NORMAL (handle_id b), handle_max))
         else (case handle_type b of
             H_NORMAL \<Rightarrow>
               if handle_type e \<noteq> H_MAX then throw ''end.type != HandleIDType::MAX''
               else if withSignMark (handle_id b) then
                 if unsigned_2_power_max = handle_id b then Inr (1, (unormal_min, handle_max), empty_uhandle_range)
                 else Inr (2, (Handle H_NORMAL 0, Handle H_NORMAL unsigned_2_power_max), (Handle H_NORMAL (handle_id b), handle_max))
               else Inr (1, (Handle H_NORMAL (handle_id b), Handle H_NORMAL unsigned_2_power_max), empty_uhandle_range)
           | H_MAX \<Rightarrow> throw ''begin.type == HandleIDType::MAX && end.type != HandleIDType::MAX''))"

text \<open>The loop of \<open>merge_ranges\<close>: the element at position \<open>size\<close> and the ranges still to visit.\<close>

fun merge_loop :: "'a::linorder \<times> 'a \<Rightarrow> ('a \<times> 'a) list \<Rightarrow> ('a \<times> 'a) list" where
  "merge_loop cur [] = [cur]"
| "merge_loop cur (r # rs) =
     (if fst r \<le> snd cur then merge_loop (fst cur, max (snd r) (snd cur)) rs else cur # merge_loop r rs)"

definition merge_ranges :: "('a::linorder \<times> 'a) list \<Rightarrow> ('a \<times> 'a) list" where
  "merge_ranges ranges = (case sort ranges of [] \<Rightarrow> [] | r # rs \<Rightarrow> merge_loop r rs)"

definition needSplit :: "HandleRange \<Rightarrow> bool" where
  "needSplit r \<longleftrightarrow> and (handle_id (fst r)) SIGN_MARK \<noteq> and (handle_id (snd r)) SIGN_MARK"

subsection \<open>Signed and unsigned order\<close>

lemma bit_SIGN_MARK: "bit SIGN_MARK n \<longleftrightarrow> n = 63"
  unfolding SIGN_MARK_def bit_push_bit_iff bit_1_iff by auto

lemma bit_63_iff: "bit (x :: UInt64) 63 \<longleftrightarrow> 2 ^ 63 \<le> uint x"
proof -
  have "uint x < 2 * 2 ^ 63" using uint_lt2p [of x] by simp
  then have "uint x div 2 ^ 63 = (if 2 ^ 63 \<le> uint x then 1 else 0)"
    by (auto simp: div_pos_pos_trivial intro: int_div_pos_eq [where r = "uint x - 2 ^ 63"])
  moreover have "bit x 63 \<longleftrightarrow> bit (uint x) 63" by (simp add: bit_uint_iff)
  ultimately show ?thesis unfolding bit_iff_odd [of "uint x"] by simp
qed

lemma and_SIGN_MARK: "and x SIGN_MARK = (if 2 ^ 63 \<le> uint x then SIGN_MARK else 0)"
proof -
  have "and x SIGN_MARK = (if bit x 63 then SIGN_MARK else 0)"
    by (rule bit_word_eqI) (auto simp: bit_and_iff bit_SIGN_MARK)
  then show ?thesis by (simp add: bit_63_iff)
qed

lemma SIGN_MARK_neq_0: "SIGN_MARK \<noteq> 0"
  by (simp add: SIGN_MARK_def)

lemma sint_conv_uint: "sint (x :: UInt64) = (if 2 ^ 63 \<le> uint x then uint x - 2 ^ 64 else uint x)"
proof -
  have s: "sint x = (uint x + 2 ^ 63) mod 2 ^ 64 - 2 ^ 63"
    by (simp add: sint_uint signed_take_bit_eq_take_bit_shift take_bit_eq_mod)
  have u: "0 \<le> uint x" "uint x < 2 ^ 64" using uint_lt2p [of x] by simp_all
  show ?thesis
  proof (cases "2 ^ 63 \<le> uint x")
    case True
    have "(uint x + 2 ^ 63) mod 2 ^ 64 = (uint x - 2 ^ 63 + 2 ^ 64) mod 2 ^ 64" by (simp add: add.commute)
    also have "\<dots> = uint x - 2 ^ 63" using True u by (subst mod_add_self2) (rule mod_pos_pos_trivial; simp)
    finally show ?thesis using True by (simp add: s)
  next
    case False
    then have "(uint x + 2 ^ 63) mod 2 ^ 64 = uint x + 2 ^ 63" using u by (intro mod_pos_pos_trivial) simp_all
    then show ?thesis using False by (simp add: s)
  qed
qed

subsection \<open>Splitting a range\<close>

text \<open>The handles of a range in the order of the transaction layer and in the one of the storage.\<close>

definition in_handles :: "HandleRange \<Rightarrow> HandleID \<Rightarrow> bool" where
  "in_handles r h \<longleftrightarrow> id_geq_handle h (fst r) \<and> id_less_handle h (snd r)"

definition in_uhandles :: "HandleRange \<Rightarrow> HandleID \<Rightarrow> bool" where
  "in_uhandles r h \<longleftrightarrow> id_geq_uhandle h (fst r) \<and> id_less_uhandle h (snd r)"

lemmas handle_defs = in_handles_def in_uhandles_def id_geq_handle_def id_less_handle_def id_geq_uhandle_def id_less_uhandle_def
  handle_less_def handle_max_def unormal_min_def empty_uhandle_range_def word_sless_alt sint_conv_uint word_less_alt

definition split_spec :: "HandleRange \<Rightarrow> nat \<Rightarrow> HandleRange \<Rightarrow> HandleRange \<Rightarrow> bool" where
  "split_spec r n r1 r2 \<longleftrightarrow> splitForUInt64TableHandle r = Inr (n, r1, r2) \<and> (n = 1 \<and> r2 = empty_uhandle_range \<or> n = 2)
     \<and> (\<forall>h. in_handles r h \<longleftrightarrow> in_uhandles r1 h \<or> in_uhandles r2 h) \<and> (\<forall>h. \<not> (in_uhandles r1 h \<and> in_uhandles r2 h))"

lemma split_specI:
  assumes "splitForUInt64TableHandle r = Inr (n, r1, r2)" "n = 1 \<and> r2 = empty_uhandle_range \<or> n = 2"
    "\<And>h u. uint h = u \<Longrightarrow> 0 \<le> u \<Longrightarrow> u < 2 ^ 64 \<Longrightarrow> (in_handles r h \<longleftrightarrow> in_uhandles r1 h \<or> in_uhandles r2 h) \<and> \<not> (in_uhandles r1 h \<and> in_uhandles r2 h)"
  shows "\<exists>n r1 r2. split_spec r n r1 r2"
proof -
  have "uint h < 2 ^ 64" for h :: UInt64 using uint_lt2p [of h] by simp
  then show ?thesis using assms(1,2) assms(3) [OF refl uint_ge_0] unfolding split_spec_def by blast
qed

lemma split_exact:
  assumes "\<not> handle_less e b"
  shows "\<exists>n r1 r2. split_spec (b, e) n r1 r2"
proof -
  obtain bt bi et ei where be: "b = Handle bt bi" "e = Handle et ei" by (cases b; cases e)
  have u: "uint (push_bit 63 1 :: UInt64) = 2 ^ 63" by simp
  obtain ub ue where up: "uint bi = ub" "0 \<le> ub" "ub < 2 ^ 64" "uint ei = ue" "0 \<le> ue" "ue < 2 ^ 64"
    using uint_lt2p [of bi] uint_lt2p [of ei] by simp
  have eq_mark: "9223372036854775808 = bi \<longleftrightarrow> uint bi = 2 ^ 63" by (auto simp: word_uint_eq_iff)
  note simps = be splitForUInt64TableHandle_def and_SIGN_MARK SIGN_MARK_neq_0 withSignMark_def Let_def
  show ?thesis
  proof (cases bt; cases et)
    assume t: "bt = H_NORMAL" "et = H_NORMAL"
    then have le: "\<not> ei <s bi" using assms by (simp add: be handle_less_def)
    show ?thesis
    proof (cases "2 ^ 63 \<le> uint bi \<longleftrightarrow> 2 ^ 63 \<le> uint ei")
      case True
      then have eq: "splitForUInt64TableHandle (b, e) = Inr (1, (b, e), empty_uhandle_range)" by (simp add: simps t)
      show ?thesis using True up by - (rule split_specI [OF eq]; auto simp: be t handle_defs)
    next
      case False
      then have eq: "splitForUInt64TableHandle (b, e) = Inr (2, (Handle H_NORMAL 0, e), (b, handle_max))" by (auto simp: simps t)
      have "uint ei < 2 ^ 63" "2 ^ 63 \<le> uint bi" using False le up by (auto simp: word_sless_alt sint_conv_uint split: if_splits)
      then show ?thesis using up by - (rule split_specI [OF eq]; auto simp: be t handle_defs)
    qed
  next
    assume t: "bt = H_NORMAL" "et = H_MAX"
    consider "uint bi = 2 ^ 63" | "2 ^ 63 < uint bi" | "uint bi < 2 ^ 63" by linarith
    then show ?thesis
    proof cases
      case 1
      then have eq: "splitForUInt64TableHandle (b, e) = Inr (1, (unormal_min, handle_max), empty_uhandle_range)" by (simp add: simps t eq_mark)
      show ?thesis using 1 up by - (rule split_specI [OF eq]; auto simp: be t handle_defs)
    next
      case 2
      then have eq: "splitForUInt64TableHandle (b, e) = Inr (2, (Handle H_NORMAL 0, Handle H_NORMAL (push_bit 63 1)), (b, handle_max))"
        by (auto simp: simps t eq_mark)
      show ?thesis using 2 u up by - (rule split_specI [OF eq]; auto simp: be t handle_defs)
    next
      case 3
      then have eq: "splitForUInt64TableHandle (b, e) = Inr (1, (b, Handle H_NORMAL (push_bit 63 1)), empty_uhandle_range)" by (auto simp: simps t)
      show ?thesis using 3 u up by - (rule split_specI [OF eq]; auto simp: be t handle_defs)
    qed
  next
    assume t: "bt = H_MAX" "et = H_MAX"
    then have eq: "splitForUInt64TableHandle (b, e) = Inr (1, (b, e), empty_uhandle_range)" by (simp add: simps)
    show ?thesis by (rule split_specI [OF eq]) (auto simp: be t handle_defs)
  qed (use assms in \<open>simp add: be handle_less_def\<close>)
qed

subsection \<open>Merging ranges\<close>

definition covered :: "('a::linorder \<times> 'a) list \<Rightarrow> 'a \<Rightarrow> bool" where
  "covered rs x \<longleftrightarrow> (\<exists>(a, b) \<in> set rs. a \<le> x \<and> x < b)"

text \<open>Neighbours are apart: a range starts after the end of the one before.\<close>

fun separated :: "('a::linorder \<times> 'a) list \<Rightarrow> bool" where
  "separated (r # s # rs) \<longleftrightarrow> snd r < fst s \<and> separated (s # rs)"
| "separated _ \<longleftrightarrow> True"

lemma covered_Cons: "covered (r # rs) x \<longleftrightarrow> fst r \<le> x \<and> x < snd r \<or> covered rs x"
  by (auto simp: covered_def split_beta)

lemma merge_loop_covered:
  "\<forall>s \<in> set rs. fst cur \<le> fst s \<Longrightarrow> sorted (map fst rs) \<Longrightarrow> covered (merge_loop cur rs) x \<longleftrightarrow> covered (cur # rs) x"
proof (induction cur rs rule: merge_loop.induct)
  case (2 cur r rs)
  then show ?case by (auto simp: covered_Cons less_max_iff_disj)
qed simp

lemma merge_loop_fst: "fst (hd (merge_loop cur rs)) = fst cur" "merge_loop cur rs \<noteq> []"
  by (induction cur rs rule: merge_loop.induct) auto

lemma separated_Cons: "rs \<noteq> [] \<Longrightarrow> separated (r # rs) \<longleftrightarrow> snd r < fst (hd rs) \<and> separated rs"
  by (cases rs) auto

lemma merge_loop_separated: "separated (merge_loop cur rs)"
  by (induction cur rs rule: merge_loop.induct) (auto simp: separated_Cons merge_loop_fst not_le)

lemma sorted_map_fst: "sorted rs \<Longrightarrow> sorted (map fst rs)" for rs :: "('a::linorder \<times> 'b::linorder) list"
  by (induction rs) (auto simp: less_eq_prod_def)

lemma merge_ranges_ok: "covered (merge_ranges ranges) x \<longleftrightarrow> covered ranges x" "separated (merge_ranges ranges)"
proof -
  have c: "covered (sort ranges) x \<longleftrightarrow> covered ranges x" by (simp add: covered_def)
  have s: "sorted (map fst (sort ranges))" by (rule sorted_map_fst) simp
  show "covered (merge_ranges ranges) x \<longleftrightarrow> covered ranges x"
    using c s by (cases "sort ranges") (auto simp: merge_ranges_def merge_loop_covered)
  show "separated (merge_ranges ranges)"
    by (cases "sort ranges") (simp_all add: merge_ranges_def merge_loop_separated)
qed

subsection \<open>Properties\<close>

text \<open>
  C28: a range of signed handles is split into at most two ranges of unsigned handles that have no handle in
  common and together contain exactly the handles of the given range. When a number of ranges is merged, the
  result covers what they cover and a gap is left between any two of its ranges.
\<close>

theorem unsigned_ranges_exact:
  assumes "\<not> handle_less e b"
  shows "(\<exists>n r1 r2. splitForUInt64TableHandle (b, e) = Inr (n, r1, r2) \<and> (n = 1 \<and> r2 = empty_uhandle_range \<or> n = 2)
      \<and> (\<forall>h. in_handles (b, e) h \<longleftrightarrow> in_uhandles r1 h \<or> in_uhandles r2 h) \<and> (\<forall>h. \<not> (in_uhandles r1 h \<and> in_uhandles r2 h)))
    \<and> (\<forall>x. covered (merge_ranges ranges) x \<longleftrightarrow> covered ranges x) \<and> separated (merge_ranges ranges)"
  using split_exact [OF assms] merge_ranges_ok [of ranges] unfolding split_spec_def by blast

theorem unsigned_ranges_exact_witness:
  "\<not> handle_less (Handle H_NORMAL 10) (Handle H_NORMAL (- 1))
   \<and> (\<exists>n r1 r2. splitForUInt64TableHandle (Handle H_NORMAL (- 1), Handle H_NORMAL 10) = Inr (n, r1, r2)
     \<and> (in_uhandles r1 5 \<or> in_uhandles r2 5) \<and> (in_uhandles r1 (- 1) \<or> in_uhandles r2 (- 1))
     \<and> \<not> in_uhandles r1 20 \<and> \<not> in_uhandles r2 20)
   \<and> covered (merge_ranges [(5, 9), (1, 3), (2, 6 :: int)]) 4"
proof -
  have le: "\<not> handle_less (Handle H_NORMAL 10) (Handle H_NORMAL (- 1))" by (simp add: handle_less_def word_sless_alt)
  have in_r: "in_handles (Handle H_NORMAL (- 1), Handle H_NORMAL 10) 5" "in_handles (Handle H_NORMAL (- 1), Handle H_NORMAL 10) (- 1)"
      "\<not> in_handles (Handle H_NORMAL (- 1), Handle H_NORMAL 10) 20" "covered [(5, 9), (1, 3), (2, 6)] (4 :: int)"
    by (simp_all add: in_handles_def id_geq_handle_def id_less_handle_def word_sless_alt covered_def)
  show ?thesis using le in_r unsigned_ranges_exact [OF le, of "[(5, 9), (1, 3), (2, 6 :: int)]"] by metis
qed

end
