(* ===== verification/ApplySnapshot.thy ===== *)
theory ApplySnapshot
  imports AdminCmd TableHandle
begin

section \<open>Snapshots and ingested files\<close>

text \<open>
  \<open>Storages/Transaction/ApplySnapshot.cpp\<close> with \<open>KVStore::onSnapshot\<close>, and the loop of \<open>RegionDataMover.cpp\<close> that
  collects the rows of a range. The rows that a query on the storage gives, the lock of a table and the safe
  point are arguments. \<open>tryPreDecodeTiKVValue\<close>, which only fills caches, is left out.
\<close>

subsection \<open>Rows of the storage\<close>

record 's SnapshotApi =
  sn_common_handle :: "TableID \<Rightarrow> 's \<Rightarrow> bool"
  sn_pk_uint64 :: "TableID \<Rightarrow> 's \<Rightarrow> bool"
  sn_handle_rows :: "bool \<Rightarrow> TableID \<Rightarrow> HandleRange \<Rightarrow> 's \<Rightarrow> (HandleID \<times> Timestamp \<times> UInt8) list result"
  sn_lock :: "TableID \<Rightarrow> 's \<Rightarrow> unit result"
  sn_safe_point :: Timestamp

text \<open>The comparison of pairs of a version and a delete mark.\<close>

definition ele_less :: "Timestamp \<times> UInt8 \<Rightarrow> Timestamp \<times> UInt8 \<Rightarrow> bool" where
  "ele_less x y \<longleftrightarrow> fst x < fst y \<or> fst x = fst y \<and> snd x < snd y"

definition add_handle_row :: "HandleID \<times> Timestamp \<times> UInt8 \<Rightarrow> HandleMap \<Rightarrow> HandleMap" where
  "add_handle_row row output_data =
     (case umap_emplace (fst row) (snd row) output_data of
        (m, True) \<Rightarrow> m
      | (m, False) \<Rightarrow> (case map_of m (fst row) of
            Some ele \<Rightarrow> AList.update (fst row) (if ele_less ele (snd row) then snd row else ele) m
          | None \<Rightarrow> m))"

definition getHandleMapByRange :: "'s SnapshotApi \<Rightarrow> bool \<Rightarrow> TableID \<Rightarrow> HandleRange \<Rightarrow> 's \<Rightarrow> HandleMap \<Rightarrow> HandleMap result" where
  "getHandleMapByRange sn is_unsigned table_id handle_range st output_data =
     rbind (sn_handle_rows sn is_unsigned table_id handle_range st) (\<lambda>rows. Inr (fold add_handle_row rows output_data))"

definition handle_map_of_range :: "'s SnapshotApi \<Rightarrow> TableID \<Rightarrow> HandleRange \<Rightarrow> 's \<Rightarrow> HandleMap result" where
  "handle_map_of_range sn table_id handle_range st =
     (if sn_pk_uint64 sn table_id st then
        rbind (splitForUInt64TableHandle handle_range) (\<lambda>(n, r0, r1).
        rbind (getHandleMapByRange sn True table_id r0 st []) (\<lambda>hm.
          if n > 1 then getHandleMapByRange sn True table_id r1 st hm else Inr hm))
      else getHandleMapByRange sn False table_id handle_range st [])"

text \<open>What becomes of the rows that the storage has in the range of the new region.\<close>

definition handle_old_rows :: "('s, 'b) TMTContext \<Rightarrow> 's SnapshotApi \<Rightarrow> Region \<Rightarrow> 's \<Rightarrow> (Region \<times> 's) result" where
  "handle_old_rows tmt sn rg st =
     (let table_id = rg_table_id rg
      in case engine_type tmt table_id st of
           None \<Rightarrow> Inr (rg, st)
         | Some Engine_TMT \<Rightarrow>
             if sn_common_handle sn table_id st then throw ''TMT table does not support clustered index''
             else rbind (meta_getRange (rg_meta rg)) (\<lambda>keys.
               rbind (getHandleRangeByTable (RegionRangeKeys.raw keys) table_id) (\<lambda>handle_range.
               rbind (sn_lock sn table_id st) (\<lambda>_.
               rbind (handle_map_of_range sn table_id handle_range st) (\<lambda>handle_map.
               rbind (compareAndCompleteSnapshot handle_map (sn_safe_point sn) rg) (\<lambda>(_, rg'). Inr (rg', st))))))
         | Some Engine_DT \<Rightarrow>
             rbind (sn_lock sn table_id st) (\<lambda>_.
             rbind (meta_getRange (rg_meta rg)) (\<lambda>keys.
             rbind (da_delete_range (tmt_delta tmt) table_id (RegionRangeKeys.raw keys) st) (\<lambda>st'. Inr (rg, st'))))
         | Some _ \<Rightarrow> throw ''Unknown StorageEngine: '')"

subsection \<open>Applying a snapshot\<close>

text \<open>The first flush, whose exceptions are ignored.\<close>

definition flush_snapshot :: "('s, 'b) TMTContext \<Rightarrow> 'b PreDecodeBlock option \<Rightarrow> Region \<Rightarrow> 's KVStore \<Rightarrow> (Region \<times> 's KVStore) result" where
  "flush_snapshot tmt cache rg ks =
     rbind (tryFlushRegion tmt cache False rg ks) (\<lambda>(e, rows, rg', ks1).
       case e of Some _ \<Rightarrow> Inr (rg', ks1)
       | None \<Rightarrow>
           let ks2 = ks1\<lparr>bg_gc_region_data := bg_gc_region_data ks1 @ [rows]\<rparr>
           in (case tryFlushRegionCacheInStorage tmt rg' ks2 of Inl _ \<Rightarrow> Inr (rg', ks2) | Inr ks3 \<Rightarrow> Inr (rg', ks3)))"

text \<open>The new region takes the place of the old one, whose object stays, or is put into the store.\<close>

definition place_snapshot :: "Region \<Rightarrow> RegionID \<Rightarrow> 's KVStore \<Rightarrow> 's KVStore result" where
  "place_snapshot new_region i ks =
     (case ks_getRegion i ks of
        Some old \<Rightarrow>
          rbind (region_getRange old) (\<lambda>r.
          rbind (unindex_region r i ks) (\<lambda>ks2.
          rbind (assignRegion new_region old) (\<lambda>rg. Inr (putRegion rg ks2))))
      | None \<Rightarrow> Inr (emplace_region new_region ks))"

text \<open>
  The region that was in the store when the snapshot came, \<open>old_region\<close>, is given by whether there was one. The
  lookup finds the same pointer when there was one and is one still.
\<close>

definition onSnapshot :: "('s, 'b) TMTContext \<Rightarrow> 'b PreDecodeBlock option \<Rightarrow> Region \<Rightarrow> bool \<Rightarrow> UInt64 \<Rightarrow> 's KVStore \<Rightarrow> 's KVStore result" where
  "onSnapshot tmt cache new_region old_region old_region_index ks =
     (let i = region_id new_region
      in rbind (meta_getRange (rg_meta new_region)) (\<lambda>keys.
         rbind (extendRegionRange (tmt_now tmt) i keys (ks_table ks)) (\<lambda>rt.
         rbind (flush_snapshot tmt cache new_region (ks\<lparr>ks_table := rt\<rparr>)) (\<lambda>(new_region1, ks1).
           if (ks_getRegion i ks1 \<noteq> None) \<noteq> old_region \<or> (case ks_getRegion i ks1 of Some old \<Rightarrow> old_region_index \<noteq> region_appliedIndex old | None \<Rightarrow> False)
           then throw '' instance changed, should not happen''
           else rbind (place_snapshot new_region1 i ks1) (\<lambda>ks3.
             rbind (deref i ks3) (\<lambda>rg.
             rbind (index_ptr i (persistRegion tmt rg ks3)) (\<lambda>ks4.
               shrink_ptr tmt i ks4)))))))"

text \<open>
  The old region, if there is one, stops serving reads and is flushed and persisted. The result is nothing when
  the snapshot has been applied already, and whether there is an old region and its applied index otherwise.
\<close>

definition prepare_old_region :: "('s, 'b) TMTContext \<Rightarrow> Region \<Rightarrow> 's KVStore \<Rightarrow> (bool \<times> UInt64 \<times> 's KVStore) option result" where
  "prepare_old_region tmt new_region ks =
     (case ks_getRegion (region_id new_region) ks of
        None \<Rightarrow> Inr (Some (False, 0, ks))
      | Some old \<Rightarrow>
          if region_appliedIndex old > region_appliedIndex new_region then throw '' already has newer index ''
          else if region_appliedIndex old = region_appliedIndex new_region then Inr None
          else
            (let old1 = setStateApplying old
             in rbind (flush_rethrow tmt False old1 (putRegion old1 ks)) (\<lambda>(old2, ks1).
                rbind (tryFlushRegionCacheInStorage tmt old2 ks1) (\<lambda>ks2.
                  Inr (Some (True, region_appliedIndex old, persistRegion tmt old2 ks2))))))"

definition tryApplySnapshot :: "('s, 'b) TMTContext \<Rightarrow> 's SnapshotApi \<Rightarrow> 'b PreDecodeBlock option \<Rightarrow> Region \<Rightarrow> 's KVStore \<Rightarrow> 's KVStore result" where
  "tryApplySnapshot tmt sn cache new_region ks =
     rbind (prepare_old_region tmt new_region ks) (\<lambda>res.
       case res of None \<Rightarrow> Inr ks
       | Some (old_region, old_applied_index, ks1) \<Rightarrow>
           rbind (region_getRange new_region) (\<lambda>new_range.
           rbind (handleRegionsByRangeOverlap new_range ks1) (\<lambda>region_map.
             if \<exists>p \<in> set region_map. fst p \<noteq> region_id new_region then throw '' is overlapped with region ''
             else rbind (handle_old_rows tmt sn new_region (ks_storage ks1)) (\<lambda>(new_region1, st).
               onSnapshot tmt cache new_region1 old_region old_applied_index (ks1\<lparr>ks_storage := st\<rparr>)))))"

subsection \<open>Making the region of a snapshot\<close>

definition findPeer :: "MetaRegion \<Rightarrow> UInt64 \<Rightarrow> Peer result" where
  "findPeer r i = (case List.find (\<lambda>p. peer_id p = i) (mr_peers r) of Some p \<Rightarrow> Inr p | None \<Rightarrow> throw '': peer  not found'')"

definition genRegionPtr :: "ProtoEnv \<Rightarrow> bool \<Rightarrow> MetaRegion \<Rightarrow> UInt64 \<Rightarrow> UInt64 \<Rightarrow> UInt64 \<Rightarrow> Region result" where
  "genRegionPtr pe proxy r i idx t =
     rbind (findPeer r i) (\<lambda>peer.
     rbind (new_RegionMeta pe peer r \<lparr>as_applied_index = idx, as_truncated_index = idx, as_truncated_term = t\<rparr>) (\<lambda>m.
       mk_Region proxy m))"

definition preHandleSnapshot :: "('s, 'b) TMTContext \<Rightarrow> Region \<Rightarrow> SnapshotView list \<Rightarrow> 's KVStore \<Rightarrow> ('b PreDecodeBlock option \<times> Region \<times> 's KVStore) result" where
  "preHandleSnapshot tmt new_region snaps ks =
     (let ks1 = ks\<lparr>bg_gc_region_data := butlast (bg_gc_region_data ks)\<rparr>
      in rbind (rfold ingest_view snaps new_region) (\<lambda>rg1.
         rbind (GenRegionPreDecodeBlockData (tmt_api tmt) rg1 (ks_storage ks1)) (\<lambda>(cache, rg2, st).
           Inr (cache, rg2, ks1\<lparr>ks_storage := st\<rparr>))))"

definition handleApplySnapshot :: "('s, 'b) TMTContext \<Rightarrow> 's SnapshotApi \<Rightarrow> MetaRegion \<Rightarrow> UInt64 \<Rightarrow> SnapshotView list \<Rightarrow> UInt64 \<Rightarrow> UInt64 \<Rightarrow> 's KVStore \<Rightarrow> 's KVStore result" where
  "handleApplySnapshot tmt sn r peer snaps idx t ks =
     rbind (genRegionPtr (tmt_proto tmt) (ks_proxy ks) r peer idx t) (\<lambda>new_region.
     rbind (preHandleSnapshot tmt new_region snaps ks) (\<lambda>(cache, new_region1, ks1).
       tryApplySnapshot tmt sn cache new_region1 ks1))"

subsection \<open>Ingesting files\<close>

text \<open>
  Only a \<open>DB::Exception\<close> is ignored. The exceptions of the standard library are not of this class, and undefined
  behaviour is not an exception.
\<close>

definition db_exception :: "exn \<Rightarrow> bool" where
  "db_exception e \<longleftrightarrow> e \<notin> {OutOfRange, LengthError, SignedOverflow, OutOfBounds}"

definition ignore_db :: "exn \<Rightarrow> 'a \<Rightarrow> 'a result" where
  "ignore_db e x = (if db_exception e then Inr x else Inl e)"

definition ingest_try_flush :: "('s, 'b) TMTContext \<Rightarrow> RegionID \<Rightarrow> 's KVStore \<Rightarrow> 's KVStore result" where
  "ingest_try_flush tmt i ks =
     rbind (deref i ks) (\<lambda>rg.
       if writeCFCount rg = 0 then Inr ks
       else rbind (tryFlushRegion tmt None False rg ks) (\<lambda>(e, rows, rg', ks1).
         let ks2 = putRegion rg' ks1
         in case e of Some x \<Rightarrow> ignore_db x ks2
            | None \<Rightarrow> (case tryFlushRegionCacheInStorage tmt rg' ks2 of Inl x \<Rightarrow> ignore_db x ks2 | Inr ks3 \<Rightarrow> Inr ks3)))"

definition ks_handleIngestSST :: "('s, 'b) TMTContext \<Rightarrow> RegionID \<Rightarrow> SnapshotView list \<Rightarrow> UInt64 \<Rightarrow> UInt64 \<Rightarrow> 's KVStore \<Rightarrow> (TiFlashApplyRes \<times> 's KVStore) result" where
  "ks_handleIngestSST tmt i snaps idx t ks =
     (case ks_getRegion i ks of None \<Rightarrow> Inr (Apply_NotFound, ks)
      | Some _ \<Rightarrow>
          rbind (ingest_try_flush tmt i ks) (\<lambda>ks1.
          rbind (deref i ks1) (\<lambda>rg.
          rbind (handleIngestSST snaps idx t rg) (\<lambda>rg1.
          rbind (ingest_try_flush tmt i (putRegion rg1 ks1)) (\<lambda>ks2.
          rbind (deref i ks2) (\<lambda>rg2.
            if region_dataSize rg2 \<noteq> 0 then Inr (Apply_None, ks2)
            else Inr (Apply_Persist, persistRegion tmt rg2 ks2)))))))"

subsection \<open>The server\<close>

text \<open>
  The functions that the raft proxy calls (\<open>ProxyFFI.cpp\<close>). A snapshot is prepared in one call and applied in
  a later one; the prepared snapshots that the proxy holds meanwhile are part of the state. An exception that
  reaches one of these functions ends the process.
\<close>

record 'b PreHandledSnapshot =
  ph_region :: Region
  ph_cache :: "'b PreDecodeBlock option"

record ('s, 'b) Server =
  sv_store :: "'s KVStore"
  sv_snapshots :: "'b PreHandledSnapshot list"

definition PreHandleSnapshot :: "('s, 'b) TMTContext \<Rightarrow> MetaRegion \<Rightarrow> UInt64 \<Rightarrow> SnapshotView list \<Rightarrow> UInt64 \<Rightarrow> UInt64 \<Rightarrow> ('s, 'b) Server \<Rightarrow> ('s, 'b) Server result" where
  "PreHandleSnapshot tmt r peer snaps idx t sv =
     rbind (genRegionPtr (tmt_proto tmt) (ks_proxy (sv_store sv)) r peer idx t) (\<lambda>new_region.
     rbind (preHandleSnapshot tmt new_region snaps (sv_store sv)) (\<lambda>(cache, new_region1, ks).
       Inr \<lparr>sv_store = ks, sv_snapshots = sv_snapshots sv @ [\<lparr>ph_region = new_region1, ph_cache = cache\<rparr>]\<rparr>))"

definition ApplyPreHandledSnapshot :: "('s, 'b) TMTContext \<Rightarrow> 's SnapshotApi \<Rightarrow> nat \<Rightarrow> ('s, 'b) Server \<Rightarrow> ('s, 'b) Server result" where
  "ApplyPreHandledSnapshot tmt sn n sv =
     (if length (sv_snapshots sv) \<le> n then Inl OutOfBounds
      else rbind (tryApplySnapshot tmt sn (ph_cache (sv_snapshots sv ! n)) (ph_region (sv_snapshots sv ! n)) (sv_store sv)) (\<lambda>ks.
        Inr \<lparr>sv_store = ks, sv_snapshots = take n (sv_snapshots sv) @ drop (Suc n) (sv_snapshots sv)\<rparr>))"

subsection \<open>Regions of snapshots\<close>

text \<open>A region that is not in the store has the table of its range.\<close>

definition snapshot_region :: "Region \<Rightarrow> bool" where
  "snapshot_region rg \<longleftrightarrow> region_inv rg \<and> (\<exists>keys. meta_getRange (rg_meta rg) = Inr keys \<and> mapped_table_id keys = rg_table_id rg)"

lemma snapshot_region_keeps: "snapshot_region rg \<Longrightarrow> keeps rg rg' \<Longrightarrow> snapshot_region rg'"
  by (auto simp: snapshot_region_def keeps_def meta_getRange_def)

lemma ingest_view_keeps: "ingest_view sv rg = Inr rg' \<Longrightarrow> keeps rg rg'"
  unfolding ingest_view_def by (erule keeps_rfold) (auto dest: doInsert_keeps)

lemma GenRegionPreDecodeBlockData_keeps:
  assumes "GenRegionPreDecodeBlockData api rg st = Inr (cache, rg', st')"
  shows "keeps rg rg'"
proof -
  obtain d where d: "ReadRegionCommitCache rg = Inr d"
    using assms unfolding GenRegionPreDecodeBlockData_def by (simp only: rbind_eq_Inr) blast
  show ?thesis
  proof (cases d)
    case None
    then show ?thesis using assms d by (simp add: GenRegionPreDecodeBlockData_def keeps_refl)
  next
    case (Some rows)
    obtain b ver st1 where "(Some \<lparr>pd_block = b, pd_schema_version = ver, pd_rows = rows\<rparr>, RemoveRegionCommitCache rows rg, st1) = (cache, rg', st')"
      using assms unfolding GenRegionPreDecodeBlockData_def d Some
      by (simp only: rbind_Inr option.case prod.case rbind_eq_Inr split_paired_Ex sum.inject) blast
    then show ?thesis using RemoveRegionCommitCache_keeps by blast
  qed
qed

lemma compareAndCompleteSnapshot_keeps:
  assumes "compareAndCompleteSnapshot hm sp rg = Inr (hm', rg')"
  shows "keeps rg rg'"
proof -
  have "region_inv rg \<Longrightarrow> region_inv rg'" using compareAndCompleteSnapshot_inv [OF assms] .
  moreover have "\<exists>d. rg' = rg\<lparr>rg_data := d\<rparr>"
    using assms by (auto simp: compareAndCompleteSnapshot_def rbind_eq_Inr split: if_splits intro: exI [of _ "rg_data rg"])
  ultimately show ?thesis by (auto simp: keeps_def region_id_def)
qed

lemma handle_old_rows_keeps: "handle_old_rows tmt sn rg st = Inr (rg', st') \<Longrightarrow> keeps rg rg'"
  by (auto simp: handle_old_rows_def Let_def rbind_eq_Inr keeps_refl compareAndCompleteSnapshot_keeps
      split: option.splits StorageEngine.splits if_splits)

lemma genRegionPtr_ok:
  assumes "genRegionPtr pe proxy r i idx t = Inr rg"
  shows "snapshot_region rg" "region_id rg = mr_id r" "region_appliedIndex rg = idx" "rg_data rg = empty_RegionData"
proof -
  obtain p m where m: "new_RegionMeta pe p r \<lparr>as_applied_index = idx, as_truncated_index = idx, as_truncated_term = t\<rparr> = Inr m" "mk_Region proxy m = Inr rg"
    using assms by (auto simp: genRegionPtr_def rbind_eq_Inr)
  show "snapshot_region rg"
    using mk_Region_inv [OF m(2) new_RegionMeta_inv [OF m(1)]] m(2) by (auto simp: snapshot_region_def mk_Region_def rbind_eq_Inr)
  show "region_id rg = mr_id r" "region_appliedIndex rg = idx" "rg_data rg = empty_RegionData"
    using m by (auto simp: new_RegionMeta_def mk_Region_ok rbind_eq_Inr region_id_def region_appliedIndex_def meta_appliedIndex_def)
qed

lemma preHandleSnapshot_ok:
  assumes "preHandleSnapshot tmt rg snaps ks = Inr (cache, rg', ks')"
  shows "keeps rg rg'" "frame ks ks'"
proof -
  obtain rg1 st where r: "rfold ingest_view snaps rg = Inr rg1" "GenRegionPreDecodeBlockData (tmt_api tmt) rg1 (ks_storage ks) = Inr (cache, rg', st)"
      "ks' = ks\<lparr>bg_gc_region_data := butlast (bg_gc_region_data ks), ks_storage := st\<rparr>"
    using assms by (auto simp: preHandleSnapshot_def Let_def rbind_eq_Inr)
  show "keeps rg rg'"
    using keeps_rfold [OF r(1) ingest_view_keeps] GenRegionPreDecodeBlockData_keeps [OF r(2)] by (rule keeps_trans)
  show "frame ks ks'" unfolding r(3) by (rule frame_trans [OF queue_frame(3) storage_frame])
qed

lemma prepared_snapshot:
  "genRegionPtr pe proxy r i idx t = Inr rg \<Longrightarrow> preHandleSnapshot tmt rg snaps ks = Inr (cache, rg', ks') \<Longrightarrow> snapshot_region rg' \<and> frame ks ks'"
  using snapshot_region_keeps [OF genRegionPtr_ok(1) preHandleSnapshot_ok(1)] preHandleSnapshot_ok(2) by blast

lemma RemoveRegionCommitCache_meta: "rg_meta (RemoveRegionCommitCache rows rg) = rg_meta rg"
proof -
  have "rg_meta (remover_remove key r) = rg_meta r" for key r by (simp add: remover_remove_def split: option.split)
  then show ?thesis unfolding RemoveRegionCommitCache_def by (induction rows arbitrary: rg) auto
qed

lemma tryFlushRegion_meta: "tryFlushRegion tmt cache try_persist rg ks = Inr (e, rows, rg', ks') \<Longrightarrow> rg_meta rg' = rg_meta rg"
proof -
  have "rg_meta rg' = rg_meta rg" if "flushRegion tmt cache try_persist rg ks = (e, rows, rg', ks')" for e rows rg' and ks ks' :: "'a KVStore"
    using that
    by (auto simp: flushRegion_def Let_def RemoveRegionCommitCache_meta split: sum.splits if_splits prod.splits elim!: writeBlockByRegion_cases)
  then show "tryFlushRegion tmt cache try_persist rg ks = Inr (e, rows, rg', ks') \<Longrightarrow> rg_meta rg' = rg_meta rg"
    unfolding tryFlushRegion_def by (auto simp: rbind_eq_Inr split: if_splits prod.splits)
qed

lemma flush_snapshot_ok:
  assumes "flush_snapshot tmt cache rg ks = Inr (rg', ks')"
  shows "keeps rg rg'" "frame ks ks'" "rg_meta rg' = rg_meta rg"
proof -
  obtain e rows ks1 where f: "tryFlushRegion tmt cache False rg ks = Inr (e, rows, rg', ks1)"
    using assms by (auto simp: flush_snapshot_def rbind_eq_Inr Let_def split: option.splits sum.splits)
  note t = tryFlushRegion_ok [OF f]
  show "keeps rg rg'" by (rule t(1))
  show "rg_meta rg' = rg_meta rg" by (rule tryFlushRegion_meta [OF f])
  let ?ks2 = "ks1\<lparr>bg_gc_region_data := bg_gc_region_data ks1 @ [rows]\<rparr>"
  have "frame ks1 ks'"
    using assms f queue_frame(3) frame_trans [OF queue_frame(3) tryFlushRegionCacheInStorage_frame]
    by (fastforce simp: flush_snapshot_def Let_def frame_refl split: option.splits sum.splits)
  then show "frame ks ks'" using t(3) frame_trans by blast
qed

subsection \<open>Installing the region\<close>

lemma install_region:
  assumes p: "ks_part (R(i := None)) (tables_of (regs ks)) ks" and rg: "regs ks i = Some rg" and R: "ranges_of (regs ks) = R(i \<mapsto> (region_range rg, i))"
    and h: "index_ptr i (persistRegion tmt rg ks) = Inr ks1" "shrink_ptr tmt i ks1 = Inr ks2"
  shows "ks_inv ks2" "regs ks2 = regs ks"
proof -
  let ?ks = "persistRegion tmt rg ks"
  have f: "frame ks ?ks" by (rule persistRegion_frame)
  have r: "regs ?ks = regs ks" using f by (simp add: frame_def)
  have "ks_part (R(i := None)) (tables_of (regs ks)) ?ks" using steady_part [OF frame_steady [OF f] p] .
  from index_ptr_part [OF this, of i rg] rg obtain I where I: "ks1 = ?ks\<lparr>ks_index := I\<rparr>"
      "ks_part (R(i \<mapsto> (region_range rg, i))) (tables_of (regs ks)) (?ks\<lparr>ks_index := I\<rparr>)"
    using h(1) by (auto simp: r)
  have i1: "ks_inv ks1" using I R r by (simp add: ks_inv_part)
  show "ks_inv ks2" by (rule steady_inv [OF shrink_ptr_inv [OF i1 h(2)] i1])
  show "regs ks2 = regs ks" using h(2) r by (auto simp: shrink_ptr_def rbind_eq_Inr I(1))
qed

lemma place_region:
  assumes p: "ks_part (ranges_of (regs ks)) T ks" and T: "T i = Some (rg_table_id new)" "\<And>old. regs ks i = Some old \<Longrightarrow> rg_table_id old = rg_table_id new"
    and new: "region_inv new" "region_id new = i"
    and c: "place_snapshot new i ks = Inr ks'"
  shows "\<exists>rg. regs ks' = (regs ks)(i \<mapsto> rg) \<and> ks_part ((ranges_of (regs ks))(i := None)) T ks' \<and> rg_table_id rg = rg_table_id new
    \<and> kv_entries (rg_data rg) = kv_entries (rg_data new) \<and> rm_apply_state (rg_meta rg) = rm_apply_state (rg_meta new) \<and> rm_state (rg_meta rg) = rm_state (rg_meta new)"
proof (cases "regs ks i")
  case None
  then have ks': "ks' = emplace_region new ks" using c by (simp add: place_snapshot_def ks_getRegion_def)
  have "(ranges_of (regs ks))(i := None) = ranges_of (regs ks)" using None by (simp add: ranges_of_def fun_upd_idem)
  then show ?thesis
    using emplace_region_part(1) [OF p new(1)] None by (intro exI [of _ new]) (simp add: ks' emplace_region_def map_of_umap_emplace new(2))
next
  case (Some old)
  have old: "region_inv old" "region_id old = i" using regions_okD [OF ks_partD(1) [OF p] Some] by auto
  obtain I where I: "unindex_region (region_range old) i ks = Inr (ks\<lparr>ks_index := I\<rparr>)" "ks_part ((ranges_of (regs ks))(i := None)) T (ks\<lparr>ks_index := I\<rparr>)"
    using unindex_part [OF p, of i "region_range old"] Some by (auto simp: ranges_of_def)
  obtain rg where rg: "assignRegion new old = Inr rg" "ks' = putRegion rg (ks\<lparr>ks_index := I\<rparr>)"
    using c Some getRange_ok(1) [OF old(1)] I(1) by (auto simp: place_snapshot_def ks_getRegion_def rbind_eq_Inr)
  have a: "region_id rg = i" "rg_table_id rg = rg_table_id old" "kv_entries (rg_data rg) = kv_entries (rg_data new)" "rm_apply_state (rg_meta rg) = rm_apply_state (rg_meta new)"
      "rm_state (rg_meta rg) = rm_state (rg_meta new)"
    using rg(1) old(2) by (auto simp: assignRegion_def Let_def rbind_eq_Inr assignRegionMeta_def region_id_def assignRegionData_def
        cf_move_assign_def kv_entries_def split: if_splits)
  show ?thesis
    using putRegion_part [OF I(2) assignRegion_inv [OF rg(1) new(1) old(1)]] a T(2) [OF Some]
    by (intro exI [of _ rg]) (simp add: rg(2) putRegion_def update_conv')
qed

lemma onSnapshot_ok:
  assumes inv: "ks_inv ks" and new: "snapshot_region new" and i: "i = region_id new" and h: "onSnapshot tmt cache new old idx ks = Inr ks'"
  shows "ks_inv ks' \<and> (\<exists>rg new1. regs ks' = (regs ks)(i \<mapsto> rg) \<and> kv_entries (rg_data rg) = kv_entries (rg_data new1) \<and> keeps new new1 \<and> rg_meta new1 = rg_meta new
    \<and> rm_apply_state (rg_meta rg) = rm_apply_state (rg_meta new) \<and> rm_state (rg_meta rg) = rm_state (rg_meta new))"
proof -
  obtain keys where keys: "meta_getRange (rg_meta new) = Inr keys" "mapped_table_id keys = rg_table_id new" "region_inv new"
    using new by (auto simp: snapshot_region_def)
  let ?R = "ranges_of (regs ks)" and ?T = "tables_of (regs ks)" and ?t = "rg_table_id new"
  obtain rt new1 ks1 ks3 ks4 rg where rt: "extendRegionRange (tmt_now tmt) i keys (ks_table ks) = Inr rt"
      and f: "flush_snapshot tmt cache new (ks\<lparr>ks_table := rt\<rparr>) = Inr (new1, ks1)"
      and c: "place_snapshot new1 i ks1 = Inr ks3"
      and d: "deref i ks3 = Inr rg" and x: "index_ptr i (persistRegion tmt rg ks3) = Inr ks4" "shrink_ptr tmt i ks4 = Inr ks'"
  proof -
    obtain rt new1 ks1 where 1: "extendRegionRange (tmt_now tmt) i keys (ks_table ks) = Inr rt" "flush_snapshot tmt cache new (ks\<lparr>ks_table := rt\<rparr>) = Inr (new1, ks1)"
      using h unfolding onSnapshot_def Let_def i [symmetric] keys(1) rbind_Inr by (simp only: rbind_eq_Inr split_paired_Ex) blast
    show thesis
      using h that [OF 1] unfolding onSnapshot_def Let_def i [symmetric] keys(1) 1 rbind_Inr prod.case
      by (simp only: rbind_eq_Inr throw_def split: if_splits) blast+
  qed
  have e: "rt_inv rt" "map_of (rt_regions rt) = ?T(i \<mapsto> ?t)"
    using extendRegionRange_inv [OF ks_invD(3) [OF inv] rt] keys(2) ks_invD(4) [OF inv] by auto
  have "ks_part ?R (?T(i \<mapsto> ?t)) (ks\<lparr>ks_table := rt\<rparr>)" using inv e by (simp add: ks_inv_def ks_part_def)
  then have p1: "ks_part ?R (?T(i \<mapsto> ?t)) ks1" using steady_part [OF frame_steady] flush_snapshot_ok(2) [OF f] by blast
  have r1: "regs ks1 = regs ks" using flush_snapshot_ok(2) [OF f] by (simp add: frame_def)
  have k: "keeps new new1" "rg_meta new1 = rg_meta new" using flush_snapshot_ok(1,3) [OF f] by auto
  then have n1: "region_inv new1" "region_id new1 = i" "rg_table_id new1 = ?t" using keys(3) i by (auto simp: keeps_def)
  have "\<exists>rg'. regs ks3 = (regs ks)(i \<mapsto> rg') \<and> ks_part (?R(i := None)) (?T(i \<mapsto> ?t)) ks3 \<and> rg_table_id rg' = ?t \<and> kv_entries (rg_data rg') = kv_entries (rg_data new1)
      \<and> rm_apply_state (rg_meta rg') = rm_apply_state (rg_meta new1) \<and> rm_state (rg_meta rg') = rm_state (rg_meta new1)"
  proof -
    have "rg_table_id o' = ?t" if "regs ks i = Some o'" for o'
      using extendRegionRange_known(2) [OF ks_invD(3) [OF inv] _ rt] e(2) ks_invD(4) [OF inv] that
      by (auto simp: tables_of_def dest!: fun_cong [where x = i])
    then show ?thesis
      using place_region [where ks = ks1 and T = "?T(i \<mapsto> ?t)" and new = new1 and i = i and ks' = ks3] p1 c n1 by (simp add: r1)
  qed
  then obtain rg' where rg': "regs ks3 = (regs ks)(i \<mapsto> rg')" "ks_part (?R(i := None)) (?T(i \<mapsto> ?t)) ks3" "rg_table_id rg' = ?t"
      "kv_entries (rg_data rg') = kv_entries (rg_data new1)"
      "rm_apply_state (rg_meta rg') = rm_apply_state (rg_meta new1)" "rm_state (rg_meta rg') = rm_state (rg_meta new1)" by blast
  have "rg = rg'" using d rg'(1) by (simp add: deref_ok)
  moreover have "tables_of (regs ks3) = ?T(i \<mapsto> ?t)" "ranges_of (regs ks3) = ?R(i \<mapsto> (region_range rg', i))"
    using rg'(1,3) by (simp_all add: tables_of_upd ranges_of_upd)
  ultimately have "ks_inv ks' \<and> regs ks' = regs ks3"
    using install_region [of ?R i ks3 rg' tmt ks4 ks'] rg'(1,2) x by simp
  then show ?thesis using rg' k by auto
qed

lemma prepare_old_region_ok:
  assumes inv: "ks_inv ks" and i: "region_id new = i" and h: "prepare_old_region tmt new ks = Inr (Some (old_region, idx, ks1))"
  shows "ks_inv ks1" "ranges_of (regs ks1) = ranges_of (regs ks)" "\<And>j. j \<noteq> i \<Longrightarrow> regs ks1 j = regs ks j"
    "\<And>old. regs ks i = Some old \<Longrightarrow> region_appliedIndex old < region_appliedIndex new"
proof -
  have "ks_inv ks1 \<and> ranges_of (regs ks1) = ranges_of (regs ks) \<and> (\<forall>j. j \<noteq> i \<longrightarrow> regs ks1 j = regs ks j)
    \<and> (\<forall>old. regs ks i = Some old \<longrightarrow> region_appliedIndex old < region_appliedIndex new)"
  proof (cases "ks_getRegion i ks")
    case None
    then show ?thesis using h inv by (auto simp: prepare_old_region_def i ks_getRegion_def)
  next
    case (Some old)
    have lt: "region_appliedIndex old < region_appliedIndex new"
      using h Some by (auto simp: prepare_old_region_def i throw_def split: if_splits)
    let ?old = "setStateApplying old"
    obtain old2 ks2 ks3 where r: "flush_rethrow tmt False ?old (putRegion ?old ks) = Inr (old2, ks2)"
        "tryFlushRegionCacheInStorage tmt old2 ks2 = Inr ks3" "ks1 = persistRegion tmt old2 ks3"
      using h Some lt by (auto simp: prepare_old_region_def i Let_def rbind_eq_Inr split: if_splits)
    have k: "keeps old ?old" using keeps_state by (simp add: setStateApplying_def keeps_def region_inv_def region_id_def)
    note p = putRegion_inv [OF inv Some k]
    note f = flush_rethrow_inv [OF p r(1)]
    have fr: "frame ks2 ks1" unfolding r(3) using tryFlushRegionCacheInStorage_frame [OF r(2)] persistRegion_frame by (rule frame_trans)
    have i1: "ks_inv ks1" by (rule frame_inv [OF fr f(1)])
    have id: "region_id ?old = i" "region_id old2 = i" using k f(3) region_in_store(2) [OF inv Some] by (auto simp: keeps_def)
    have rs: "regs ks1 = (regs ks)(i \<mapsto> old2)"
    proof -
      obtain e rows ks4 where t: "tryFlushRegion tmt None False ?old (putRegion ?old ks) = Inr (e, rows, old2, ks4)" "ks2 = putRegion old2 ks4"
        using r(1) by (auto simp: flush_rethrow_def rbind_eq_Inr split: option.splits)
      have "regs ks4 = regs (putRegion ?old ks)" using tryFlushRegion_ok(3) [OF t(1)] by (simp add: frame_def)
      then show ?thesis using fr by (simp add: frame_def t(2) putRegion_def update_conv' id)
    qed
    have "region_range old2 = region_range old" using k f(3) by (simp add: keeps_def region_range_def)
    then show ?thesis
      using i1 rs lt Some by (auto simp: ks_getRegion_def ranges_of_upd fun_upd_idem_iff) (simp add: ranges_of_def)
  qed
  then show "ks_inv ks1" "ranges_of (regs ks1) = ranges_of (regs ks)" "\<And>j. j \<noteq> i \<Longrightarrow> regs ks1 j = regs ks j"
    "\<And>old. regs ks i = Some old \<Longrightarrow> region_appliedIndex old < region_appliedIndex new" by auto
qed

lemma prepare_old_region_None:
  assumes "prepare_old_region tmt new ks = Inr None" "region_id new = i"
  shows "\<exists>old. ks_getRegion i ks = Some old \<and> region_appliedIndex old = region_appliedIndex new"
proof (cases "ks_getRegion i ks")
  case (Some old)
  then show ?thesis
  proof (cases "region_appliedIndex old = region_appliedIndex new")
    case False
    then show ?thesis
      using assms Some by (simp add: prepare_old_region_def throw_def Let_def rbind_eq_Inr split: if_splits)
  qed simp
qed (use assms in \<open>simp add: prepare_old_region_def\<close>)

text \<open>What the check of the overlapping regions guarantees.\<close>

lemma overlap_exact:
  assumes "ks_inv ks" "range_ok q"
  shows "\<exists>res. handleRegionsByRangeOverlap q ks = Inr res
    \<and> (\<forall>j p. map_of res j = Some p \<longleftrightarrow> p = j \<and> (\<exists>rg. regs ks j = Some rg \<and> overlaps (region_range rg) q))"
proof -
  obtain res where "handleRegionsByRangeOverlap q ks = Inr res"
      "\<forall>j p. map_of res j = Some p \<longleftrightarrow> (\<exists>r. ranges_of (regs ks) j = Some (r, p) \<and> overlaps r q)"
    using ranges.find_exact [OF ks_invD(2) [OF assms(1)] assms(2)] by (auto simp: handleRegionsByRangeOverlap_def simp del: split_paired_Ex)
  then show ?thesis by (intro exI [of _ res]) (auto simp: ranges_of_def simp del: split_paired_Ex)
qed

lemma handle_old_rows_meta: "handle_old_rows tmt sn rg st = Inr (rg', st') \<Longrightarrow> rg_meta rg' = rg_meta rg"
  by (auto simp: handle_old_rows_def Let_def rbind_eq_Inr compareAndCompleteSnapshot_def
      split: option.splits StorageEngine.splits if_splits)

lemma tryApplySnapshot_ok:
  assumes inv: "ks_inv ks" and new: "snapshot_region new" and i: "region_id new = i" and h: "tryApplySnapshot tmt sn cache new ks = Inr ks'"
  obtains (same) old where "ks_getRegion i ks = Some old" "region_appliedIndex old = region_appliedIndex new" "ks' = ks"
  | (applied) rg where "ks_inv ks'" "ks_getRegion i ks' = Some rg" "\<And>j. j \<noteq> i \<Longrightarrow> ks_getRegion j ks' = ks_getRegion j ks"
      "rm_apply_state (rg_meta rg) = rm_apply_state (rg_meta new)" "rm_state (rg_meta rg) = rm_state (rg_meta new)"
      "\<And>old. ks_getRegion i ks = Some old \<Longrightarrow> region_appliedIndex old < region_appliedIndex new"
      "\<And>j rg'. j \<noteq> i \<Longrightarrow> ks_getRegion j ks = Some rg' \<Longrightarrow> \<not> overlaps (region_range rg') (region_range new)"
proof -
  obtain res where res: "prepare_old_region tmt new ks = Inr res" using h unfolding tryApplySnapshot_def by (simp only: rbind_eq_Inr) blast
  have ri: "region_inv new" using new by (simp add: snapshot_region_def)
  show thesis
  proof (cases res)
    case None
    then obtain old where o: "ks_getRegion i ks = Some old" "region_appliedIndex old = region_appliedIndex new"
      using prepare_old_region_None [OF _ i] res by blast
    have "ks' = ks" using h unfolding tryApplySnapshot_def res None by simp
    then show thesis by (rule same [OF o])
  next
    case (Some r)
    obtain old_region idx ks1 where r: "res = Some (old_region, idx, ks1)" using Some by (cases r) auto
    note p = prepare_old_region_ok [OF inv i res [unfolded r]]
    obtain m where m: "handleRegionsByRangeOverlap (region_range new) ks1 = Inr m"
        "\<forall>j p. map_of m j = Some p \<longleftrightarrow> p = j \<and> (\<exists>rg. regs ks1 j = Some rg \<and> overlaps (region_range rg) (region_range new))"
      using overlap_exact [OF p(1) getRange_ok(2) [OF ri]] by blast
    obtain new1 st where s: "\<not> (\<exists>p \<in> set m. fst p \<noteq> i)" "handle_old_rows tmt sn new (ks_storage ks1) = Inr (new1, st)"
        "onSnapshot tmt cache new1 old_region idx (ks1\<lparr>ks_storage := st\<rparr>) = Inr ks'"
      using h unfolding tryApplySnapshot_def res r rbind_Inr option.case prod.case getRange_ok(1) [OF ri] m(1) i
      by (simp only: rbind_eq_Inr throw_def split_paired_Ex prod.case split: if_splits) blast+
    note k = handle_old_rows_keeps [OF s(2)] handle_old_rows_meta [OF s(2)]
    have n1: "snapshot_region new1" "i = region_id new1" using snapshot_region_keeps [OF new k(1)] k(1) i by (auto simp: keeps_def)
    have "ks_inv (ks1\<lparr>ks_storage := st\<rparr>)" by (rule frame_inv [OF storage_frame p(1)])
    from onSnapshot_ok [OF this n1 s(3)] obtain rg where o: "ks_inv ks'" "regs ks' = (regs ks1)(i \<mapsto> rg)"
        "rm_apply_state (rg_meta rg) = rm_apply_state (rg_meta new)" "rm_state (rg_meta rg) = rm_state (rg_meta new)"
      unfolding k(2) by auto
    have ov: "\<not> overlaps (region_range rg') (region_range new)" if "j \<noteq> i" "regs ks j = Some rg'" for j rg'
      using m(2) s(1) p(3) [OF that(1)] that map_of_SomeD [of m j j] by fastforce
    show thesis
      using applied [of rg] o p(3,4) ov by (simp add: ks_getRegion_def)
  qed
qed

lemma tryApplySnapshot_inv:
  assumes "ks_inv ks" "snapshot_region new" "tryApplySnapshot tmt sn cache new ks = Inr ks'"
  shows "ks_inv ks'"
  by (rule tryApplySnapshot_ok [OF assms(1,2) refl assms(3)]) (use assms(1) in auto)

lemma handleApplySnapshot_inv: "ks_inv ks \<Longrightarrow> handleApplySnapshot tmt sn r peer snaps idx t ks = Inr ks' \<Longrightarrow> ks_inv ks'"
  unfolding handleApplySnapshot_def rbind_eq_Inr
  by (auto dest!: prepared_snapshot intro: tryApplySnapshot_inv frame_inv)

subsection \<open>Ingesting keeps the invariant\<close>

lemma ingest_try_flush_inv:
  assumes "ks_inv ks" "ingest_try_flush tmt i ks = Inr ks'"
  shows "ks_inv ks'"
proof -
  obtain rg where rg: "ks_getRegion i ks = Some rg" "deref i ks = Inr rg"
    using assms(2) by (auto simp: ingest_try_flush_def rbind_eq_Inr deref_ok ks_getRegion_def)
  show ?thesis
  proof (cases "writeCFCount rg = 0")
    case True
    then show ?thesis using assms rg(2) by (simp add: ingest_try_flush_def)
  next
    case False
    then obtain e rows rg' ks1 where f: "tryFlushRegion tmt None False rg ks = Inr (e, rows, rg', ks1)"
        "frame (putRegion rg' ks1) ks'"
      using assms(2) rg(2) by (auto simp: ingest_try_flush_def ignore_db_def rbind_eq_Inr Let_def frame_refl dest: tryFlushRegionCacheInStorage_frame
          split: option.splits sum.splits if_splits)
    show ?thesis by (rule frame_inv [OF f(2) tryFlushRegion_inv(1) [OF assms(1) rg(1) f(1)]])
  qed
qed

lemma ks_handleIngestSST_inv:
  assumes "ks_inv ks" "ks_handleIngestSST tmt i snaps idx t ks = Inr (res, ks')"
  shows "ks_inv ks'"
proof (cases "ks_getRegion i ks")
  case None
  then show ?thesis using assms by (simp add: ks_handleIngestSST_def)
next
  case (Some old)
  obtain ks1 rg rg1 ks2 where s: "ingest_try_flush tmt i ks = Inr ks1" "deref i ks1 = Inr rg" "handleIngestSST snaps idx t rg = Inr rg1"
      "ingest_try_flush tmt i (putRegion rg1 ks1) = Inr ks2" "frame ks2 ks'"
    using assms(2) Some unfolding ks_handleIngestSST_def by (fastforce simp: rbind_eq_Inr frame_refl persistRegion_frame split: if_splits)
  note i1 = ingest_try_flush_inv [OF assms(1) s(1)]
  have "ks_getRegion i ks1 = Some rg" using s(2) by (simp add: deref_ok ks_getRegion_def)
  note i2 = ingest_try_flush_inv [OF putRegion_inv(1) [OF i1 this handleIngestSST_keeps [OF s(3)]] s(4)]
  show ?thesis by (rule frame_inv [OF s(5) i2])
qed

subsection \<open>Steps of the server\<close>

text \<open>
  The calls of the proxy, the tasks of the background pool and a restart, each with a context of its own: the
  clock, the storage and the metadata may change in between. A command changes the peers of a region only and
  not its bounds. A restart finds the pages of the store and loses everything else.
\<close>

inductive server_step :: "('s, 'b) Server \<Rightarrow> ('s, 'b) Server \<Rightarrow> bool" where
  write_cmd: "handleWriteRaftCmd (tmt :: ('s, 'b) TMTContext) cmds i idx t (sv_store sv) = Inr (res, ks) \<Longrightarrow> server_step sv (sv\<lparr>sv_store := ks\<rparr>)"
| request: "handleWriteRaftRequest (tmt :: ('s, 'b) TMTContext) reqs i idx t (sv_store sv) = Inr (res, ks) \<Longrightarrow> server_step sv (sv\<lparr>sv_store := ks\<rparr>)"
| admin: "handleAdminRaftCmd (tmt :: ('s, 'b) TMTContext) request response i idx t (sv_store sv) = Inr (res, ks) \<Longrightarrow>
    (\<And>rg. cmd_type request \<in> {ChangePeer, ChangePeerV2} \<Longrightarrow> ks_getRegion i (sv_store sv) = Some rg \<Longrightarrow> same_bounds response rg) \<Longrightarrow>
    server_step sv (sv\<lparr>sv_store := ks\<rparr>)"
| destroy: "handleDestroy (tmt :: ('s, 'b) TMTContext) i (sv_store sv) = Inr ks \<Longrightarrow> server_step sv (sv\<lparr>sv_store := ks\<rparr>)"
| ingest: "ks_handleIngestSST (tmt :: ('s, 'b) TMTContext) i snaps idx t (sv_store sv) = Inr (res, ks) \<Longrightarrow> server_step sv (sv\<lparr>sv_store := ks\<rparr>)"
| pre_handle: "PreHandleSnapshot tmt r peer snaps idx t sv = Inr sv' \<Longrightarrow> server_step sv sv'"
| apply_snapshot: "ApplyPreHandledSnapshot tmt sn n sv = Inr sv' \<Longrightarrow> server_step sv sv'"
| handle_snapshot: "handleApplySnapshot (tmt :: ('s, 'b) TMTContext) sn r peer snaps idx t (sv_store sv) = Inr ks \<Longrightarrow> server_step sv (sv\<lparr>sv_store := ks\<rparr>)"
| flush_regions: "tryFlushRegions (tmt :: ('s, 'b) TMTContext) (sv_store sv) = Inr (e, b, ks) \<Longrightarrow> server_step sv (sv\<lparr>sv_store := ks\<rparr>)"
| region_task: "region_handle_task (tmt :: ('s, 'b) TMTContext) (sv_store sv) = Inr (e, b, ks) \<Longrightarrow> server_step sv (sv\<lparr>sv_store := ks\<rparr>)"
| flush_queue: "addRegionToFlush (tmt :: ('s, 'b) TMTContext) i (sv_store sv) = Inr ks \<Longrightarrow> server_step sv (sv\<lparr>sv_store := ks\<rparr>)"
| gc: "server_step sv (sv\<lparr>sv_store := gcRegionCache (tmt :: ('s, 'b) TMTContext) p (sv_store sv)\<rparr>)"
| period: "server_step sv (sv\<lparr>sv_store := setRegionCompactLogPeriod q (sv_store sv)\<rparr>)"
| restart: "tmt_restore (tmt :: ('s, 'b) TMTContext) proxy (new_KVStore (ks_pages (sv_store sv)) st) = Inr ks \<Longrightarrow> server_step sv \<lparr>sv_store = ks, sv_snapshots = []\<rparr>"

inductive reachable_server :: "('s, 'b) Server \<Rightarrow> bool" where
  start: "umap_inv pages \<Longrightarrow> tmt_restore (tmt :: ('s, 'b) TMTContext) proxy (new_KVStore pages st) = Inr ks \<Longrightarrow> reachable_server \<lparr>sv_store = ks, sv_snapshots = []\<rparr>"
| step: "reachable_server sv \<Longrightarrow> server_step sv sv' \<Longrightarrow> reachable_server sv'"

definition server_inv :: "('s, 'b) Server \<Rightarrow> bool" where
  "server_inv sv \<longleftrightarrow> ks_inv (sv_store sv) \<and> (\<forall>ph \<in> set (sv_snapshots sv). snapshot_region (ph_region ph))"

lemma server_invI: "server_inv sv \<Longrightarrow> (ks_inv (sv_store sv) \<Longrightarrow> ks_inv ks) \<Longrightarrow> server_inv (sv\<lparr>sv_store := ks\<rparr>)"
  by (simp add: server_inv_def)

lemma PreHandleSnapshot_inv: "server_inv sv \<Longrightarrow> PreHandleSnapshot tmt r peer snaps idx t sv = Inr sv' \<Longrightarrow> server_inv sv'"
  unfolding PreHandleSnapshot_def rbind_eq_Inr
  by (auto simp: server_inv_def dest!: prepared_snapshot intro: frame_inv)

lemma ApplyPreHandledSnapshot_inv:
  assumes "server_inv sv" "ApplyPreHandledSnapshot tmt sn n sv = Inr sv'"
  shows "server_inv sv'"
proof -
  let ?ph = "sv_snapshots sv ! n"
  obtain ks where n: "n < length (sv_snapshots sv)" and ks: "tryApplySnapshot tmt sn (ph_cache ?ph) (ph_region ?ph) (sv_store sv) = Inr ks"
      and sv': "sv' = \<lparr>sv_store = ks, sv_snapshots = take n (sv_snapshots sv) @ drop (Suc n) (sv_snapshots sv)\<rparr>"
    using assms(2) by (auto simp: ApplyPreHandledSnapshot_def rbind_eq_Inr not_le split: if_splits)
  have "snapshot_region (ph_region ?ph)" using assms(1) n by (simp add: server_inv_def)
  then show ?thesis
    using assms(1) tryApplySnapshot_inv [OF _ _ ks] by (auto simp: server_inv_def sv' dest: in_set_takeD in_set_dropD)
qed

lemma server_step_inv: "server_step sv sv' \<Longrightarrow> server_inv sv \<Longrightarrow> server_inv sv'"
proof (induction rule: server_step.induct)
  case (admin tmt request response i idx t sv res ks)
  show ?case by (rule server_invI [OF admin(3)]) (rule handleAdminRaftCmd_inv [OF _ admin(1,2)])
next
  case (request tmt reqs i idx t sv res ks)
  then show ?case by (auto simp: handleWriteRaftRequest_def rbind_eq_Inr intro: server_invI handleWriteRaftCmd_inv)
next
  case (restart tmt proxy sv st ks)
  then show ?case using tmt_restore_inv(1) [OF restart(1)] by (simp add: server_inv_def ks_invD(5))
qed (auto intro!: server_invI intro: handleWriteRaftCmd_inv handleDestroy_inv(1) ks_handleIngestSST_inv PreHandleSnapshot_inv ApplyPreHandledSnapshot_inv
    handleApplySnapshot_inv tryFlushRegions_inv region_handle_task_inv frame_inv [OF addRegionToFlush_frame] frame_inv [OF gcRegionCache_frame]
    frame_inv [OF queue_frame(5), folded setRegionCompactLogPeriod_def])

lemma reachable_server_inv: "reachable_server sv \<Longrightarrow> server_inv sv"
proof (induction rule: reachable_server.induct)
  case (start pages tmt proxy st ks)
  then show ?case using tmt_restore_inv(1) [OF start(2,1)] by (simp add: server_inv_def)
qed (rule server_step_inv)

subsection \<open>A write that fails\<close>

lemma extend_new_region:
  assumes "rt_inv rt" "map_of (rt_regions rt) i = None"
  shows "\<exists>rt' ir. extendRegionRange now i keys rt = Inr rt' \<and> doGetInternalRegion (mapped_table_id keys) i rt' = Inr ir \<and> \<not> pause_flush ir"
proof -
  let ?t = "mapped_table_id keys" and ?rt1 = "getOrCreateTable (mapped_table_id keys) rt"
  obtain tb where tb: "map_of (rt_tables ?rt1) ?t = Some tb" using getOrCreateTable_fields(2) by blast
  have "rt_abs rt i = None" using assms by (simp add: rt_abs_known)
  then obtain rt' where rt': "extendRegionRange now i keys rt = Inr rt'"
    using extendRegionRange_refines [OF assms(1), of i keys now] by auto
  then have "insertRegion now ?t (RegionRangeKeys.raw keys) i ?rt1 = Inr rt'" using assms(2) by (simp add: extendRegionRange_def Let_def)
  then obtain rs where "rt' = (setInternalRegion ?t i (mk_InternalRegion now i (RegionRangeKeys.raw keys)) ?rt1)\<lparr>rt_regions := rs\<rparr>"
    using tb by (auto simp: insertRegion_def throw_def split: if_splits)
  moreover have "doGetInternalRegion ?t i (r\<lparr>rt_regions := rs\<rparr>) = doGetInternalRegion ?t i r" for r by (simp add: doGetInternalRegion_def)
  ultimately have "doGetInternalRegion ?t i rt' = Inr (mk_InternalRegion now i (RegionRangeKeys.raw keys))" by (simp add: doGet_set [OF tb])
  then show ?thesis using rt' by (simp add: mk_InternalRegion_def)
qed

lemma flush_snapshot_total:
  assumes "map_of (rt_regions (ks_table ks)) (region_id rg) = Some t" "doGetInternalRegion t (region_id rg) (ks_table ks) = Inr ir" "\<not> pause_flush ir"
  shows "\<exists>rg1 ks1. flush_snapshot tmt cache rg ks = Inr (rg1, ks1)
    \<and> (\<forall>e. writeBlockByRegion (tmt_api tmt) cache rg (ks_storage ks) = Inl e \<longrightarrow> rg1 = rg \<and> ks_storage ks1 = ks_storage ks)"
proof -
  let ?rt1 = "setInternalRegion t (region_id rg) (ir\<lparr>pause_flush := True\<rparr>) (ks_table ks)"
  obtain tb where tb: "map_of (rt_tables (ks_table ks)) t = Some tb" using assms(2) by (auto simp: doGetInternalRegion_def split: option.splits)
  have b: "beginFlush (region_id rg) (ks_table ks) = Inr (True, ?rt1)" using assms by (simp add: beginFlush_def)
  obtain e rows rg1 ks1 where f: "flushRegion tmt cache False rg (ks\<lparr>ks_table := ?rt1\<rparr>) = (e, rows, rg1, ks1)" by (metis prod.exhaust)
  have id: "region_id rg1 = region_id rg" using flushRegion_ok(1) [OF f] by (simp add: keeps_def)
  have "map_of (rt_regions ?rt1) (region_id rg1) = Some t" "doGetInternalRegion t (region_id rg1) ?rt1 = Inr (ir\<lparr>pause_flush := True\<rparr>)"
    using assms(1) by (simp_all add: id setInternalRegion_fields doGet_set [OF tb])
  from endFlush_flags [OF this, of "tmt_now tmt"] obtain rt2 where "endFlush (tmt_now tmt) rg1 (ks_table ks1) = Inr rt2"
    using flushRegion_table [OF f] by auto
  then have t: "tryFlushRegion tmt cache False rg ks = Inr (e, rows, rg1, ks1\<lparr>ks_table := rt2\<rparr>)" using b f by (simp add: tryFlushRegion_def)
  show ?thesis
  proof (cases e)
    case (Some x)
    then show ?thesis using t f by (auto simp: flush_snapshot_def flushRegion_def)
  next
    case None
    let ?ks2 = "ks1\<lparr>ks_table := rt2, bg_gc_region_data := bg_gc_region_data ks1 @ [rows]\<rparr>"
    have "writeBlockByRegion (tmt_api tmt) cache rg (ks_storage ks) \<noteq> Inl x" for x using f None by (auto simp: flushRegion_def)
    then show ?thesis
      using t None by (cases "tryFlushRegionCacheInStorage tmt rg1 ?ks2") (auto simp: flush_snapshot_def Let_def)
  qed
qed

lemma onSnapshot_total:
  assumes inv: "ks_inv ks" and new: "snapshot_region new" and i: "i = region_id new" and n: "ks_getRegion i ks = None"
  shows "\<exists>ks' new1. onSnapshot tmt cache new False 0 ks = Inr ks' \<and> regs ks' = (regs ks)(i \<mapsto> new1)
    \<and> (\<forall>e. writeBlockByRegion (tmt_api tmt) cache new (ks_storage ks) = Inl e \<longrightarrow> new1 = new \<and> ks_storage ks' = ks_storage ks)"
proof -
  obtain keys where keys: "meta_getRange (rg_meta new) = Inr keys" "mapped_table_id keys = rg_table_id new" "region_inv new"
    using new by (auto simp: snapshot_region_def)
  let ?R = "ranges_of (regs ks)" and ?T = "tables_of (regs ks)" and ?t = "rg_table_id new"
  have ni: "regs ks i = None" "?T i = None" "?R i = None" using n by (simp_all add: ks_getRegion_def tables_of_def ranges_of_def)
  obtain rt ir where rt: "extendRegionRange (tmt_now tmt) i keys (ks_table ks) = Inr rt" "doGetInternalRegion ?t i rt = Inr ir" "\<not> pause_flush ir"
    using extend_new_region [OF ks_invD(3) [OF inv], of i "tmt_now tmt" keys] ks_invD(4) [OF inv] ni keys(2) by auto
  have e: "rt_inv rt" "map_of (rt_regions rt) = ?T(i \<mapsto> ?t)"
    using extendRegionRange_inv [OF ks_invD(3) [OF inv] rt(1)] keys(2) ks_invD(4) [OF inv] by auto
  obtain new1 ks1 where f: "flush_snapshot tmt cache new (ks\<lparr>ks_table := rt\<rparr>) = Inr (new1, ks1)"
      "\<forall>e. writeBlockByRegion (tmt_api tmt) cache new (ks_storage ks) = Inl e \<longrightarrow> new1 = new \<and> ks_storage ks1 = ks_storage ks"
    using flush_snapshot_total [of "ks\<lparr>ks_table := rt\<rparr>" new ?t ir tmt cache] e(2) rt i by auto
  note fl = flush_snapshot_ok [OF f(1)]
  have n1: "region_inv new1" "region_id new1 = i" "rg_table_id new1 = ?t" using fl(1) keys(3) i by (auto simp: keeps_def)
  have r1: "regs ks1 = regs ks" using fl(2) by (simp add: frame_def)
  have "ks_part ?R (?T(i \<mapsto> ?t)) (ks\<lparr>ks_table := rt\<rparr>)" using inv e by (simp add: ks_inv_def ks_part_def)
  then have p1: "ks_part ?R (?T(i \<mapsto> ?t)) ks1" using steady_part [OF frame_steady [OF fl(2)]] by blast
  let ?ks3 = "emplace_region new1 ks1" and ?ks4 = "persistRegion tmt new1 (emplace_region new1 ks1)"
  have r3: "regs ?ks3 = (regs ks)(i \<mapsto> new1)" by (simp add: emplace_region_def map_of_umap_emplace n1 r1 ni)
  have p3: "ks_part ?R (?T(i \<mapsto> ?t)) ?ks3" by (rule emplace_region_part(1) [OF p1 n1(1)])
  have r4: "regs ?ks4 = (regs ks)(i \<mapsto> new1)" using r3 by (simp add: persistRegion_def)
  have "ks_part ?R (?T(i \<mapsto> ?t)) ?ks4" using steady_part [OF frame_steady [OF persistRegion_frame] p3] .
  from index_ptr_part [OF this, of i new1] r4 ni(3) obtain I where I: "index_ptr i ?ks4 = Inr (?ks4\<lparr>ks_index := I\<rparr>)"
      "ks_part (?R(i \<mapsto> (region_range new1, i))) (?T(i \<mapsto> ?t)) (?ks4\<lparr>ks_index := I\<rparr>)" by auto
  obtain rt5 where s: "shrink_ptr tmt i (?ks4\<lparr>ks_index := I\<rparr>) = Inr (?ks4\<lparr>ks_index := I, ks_table := rt5\<rparr>)"
    using shrink_ptr_total [OF I(2), of i new1 tmt] r4 n1(3) by (auto simp: tables_of_upd)
  have d: "deref i ?ks3 = Inr new1" using r3 by (simp add: deref_ok)
  have g: "ks_getRegion i ks1 = None" using ni(1) r1 by (simp add: ks_getRegion_def)
  have "onSnapshot tmt cache new False 0 ks = Inr (?ks4\<lparr>ks_index := I, ks_table := rt5\<rparr>)"
    unfolding onSnapshot_def Let_def i [symmetric] keys(1) rbind_Inr rt(1) f(1) prod.case g
    using d I(1) s g by (simp add: place_snapshot_def)
  then show ?thesis using r4 f(2) by (intro exI [of _ "?ks4\<lparr>ks_index := I, ks_table := rt5\<rparr>"] exI [of _ new1]) (simp add: persistRegion_def emplace_region_def)
qed

lemma tryApplySnapshot_total:
  assumes inv: "ks_inv ks" and new: "snapshot_region new" and i: "i = region_id new" and n: "ks_getRegion i ks = None"
    and o: "\<And>j rg. ks_getRegion j ks = Some rg \<Longrightarrow> \<not> overlaps (region_range rg) (region_range new)"
    and h: "handle_old_rows tmt sn new (ks_storage ks) = Inr (new1, st)"
  shows "\<exists>ks' new2. tryApplySnapshot tmt sn cache new ks = Inr ks' \<and> regs ks' = (regs ks)(i \<mapsto> new2)
    \<and> (\<forall>e. writeBlockByRegion (tmt_api tmt) cache new1 st = Inl e \<longrightarrow> new2 = new1 \<and> ks_storage ks' = st)"
proof -
  have ri: "region_inv new" using new by (simp add: snapshot_region_def)
  obtain m where m: "handleRegionsByRangeOverlap (region_range new) ks = Inr m"
      "\<forall>j p. map_of m j = Some p \<longleftrightarrow> p = j \<and> (\<exists>rg. regs ks j = Some rg \<and> overlaps (region_range rg) (region_range new))"
    using overlap_exact [OF inv getRange_ok(2) [OF ri]] by blast
  have "map_of m (fst (hd m)) = None" using m(2) o by (cases "map_of m (fst (hd m))") (auto simp: ks_getRegion_def)
  then have e: "m = []" by (cases m) auto
  have p: "prepare_old_region tmt new ks = Inr (Some (False, 0, ks))" using n by (simp add: prepare_old_region_def i)
  have k: "snapshot_region new1" "i = region_id new1"
    using snapshot_region_keeps [OF new handle_old_rows_keeps [OF h]] handle_old_rows_keeps [OF h] i by (auto simp: keeps_def)
  have "tryApplySnapshot tmt sn cache new ks = onSnapshot tmt cache new1 False 0 (ks\<lparr>ks_storage := st\<rparr>)"
    by (simp add: tryApplySnapshot_def p getRange_ok(1) [OF ri] m(1) e h)
  then show ?thesis
    using onSnapshot_total [OF frame_inv [OF storage_frame inv] k, of st tmt cache] n by (simp add: ks_getRegion_def)
qed

lemma GenRegionPreDecodeBlockData_rows:
  assumes "region_inv rg" "GenRegionPreDecodeBlockData api rg st = Inr (Some c, new, st')"
  shows "committed_rows True (rg_data rg) (data_map (rd_write (rg_data rg))) = Inr (pd_rows c)" "new = RemoveRegionCommitCache (pd_rows c) rg"
    "data_map (rd_write (rg_data rg)) \<noteq> []" "data_map (rd_write (rg_data new)) = []" "rg_meta new = rg_meta rg"
proof -
  obtain d where d: "ReadRegionCommitCache rg = Inr d"
    using assms(2) unfolding GenRegionPreDecodeBlockData_def by (simp only: rbind_eq_Inr) blast
  obtain rows where rows: "d = Some rows" using assms(2) d by (cases d) (simp_all add: GenRegionPreDecodeBlockData_def)
  obtain b ver st1 where "(Some \<lparr>pd_block = b, pd_schema_version = ver, pd_rows = rows\<rparr>, RemoveRegionCommitCache rows rg, st1) = (Some c, new, st')"
    using assms(2) unfolding GenRegionPreDecodeBlockData_def d rows
    by (simp only: rbind_Inr option.case prod.case rbind_eq_Inr split_paired_Ex sum.inject) blast
  then have e: "pd_rows c = rows" and n: "new = RemoveRegionCommitCache rows rg" by auto
  show r: "committed_rows True (rg_data rg) (data_map (rd_write (rg_data rg))) = Inr (pd_rows c)" and "data_map (rd_write (rg_data rg)) \<noteq> []"
    using d unfolding rows e by (auto simp: ReadRegionCommitCache_rows rbind_eq_Inr split: if_splits)
  show "new = RemoveRegionCommitCache (pd_rows c) rg" by (simp add: n e)
  show "data_map (rd_write (rg_data new)) = []" "rg_meta new = rg_meta rg"
    using flush_removes_rows(1,4) [OF assms(1) r] by (simp_all add: n e)
qed

subsection \<open>Completing after pre-decoding\<close>

lemma complete_inserts_old:
  assumes "RegionData_inv d" "\<exists>e \<in> set hm. sp \<le> fst (snd e)"
  shows "\<exists>x. rfold (complete_insert t sp) hm d = Inl x"
  using assms
proof (induction hm arbitrary: d)
  case (Cons e hm)
  obtain h ts del where e: "e = (h, ts, del)" by (metis prod.exhaust)
  show ?case
  proof (cases "complete_insert t sp (h, ts, del) d")
    case (Inr d1)
    note c = complete_insert_ok [OF Cons.prems(1) Inr]
    show ?thesis using Cons.IH [OF c(1)] Cons.prems(2) c(2) by (auto simp: e Inr not_le [symmetric])
  qed (simp add: e)
qed simp

lemma handle_pk_inj: "handle_pk h = handle_pk h' \<longleftrightarrow> h = h'"
  using RawTiDBPK_handle_mem_of by metis

lemma complete_inserts_total:
  assumes "RegionData_inv d" "distinct (map fst hm)" "\<forall>e \<in> set hm. fst (snd e) < sp"
    "\<forall>e \<in> set hm. map_of (data_map (rd_write d)) (handle_pk (fst e), fst (snd e)) = None"
  shows "\<exists>d'. rfold (complete_insert t sp) hm d = Inr d'"
  using assms
proof (induction hm arbitrary: d)
  case (Cons e hm)
  obtain h ts del where e: "e = (h, ts, del)" by (metis prod.exhaust)
  obtain d1 where d1: "complete_insert t sp (h, ts, del) d = Inr d1"
    using complete_insert_defined [OF Cons.prems(1), of h ts sp t del] Cons.prems(3,4) by (auto simp: e)
  note c = complete_insert_ok [OF Cons.prems(1) d1]
  have "\<exists>d'. rfold (complete_insert t sp) hm d1 = Inr d'"
    by (rule Cons.IH [OF c(1)]) (use Cons.prems(2-4) in \<open>auto simp: e c(4) handle_pk_inj image_iff\<close>)
  then show ?case by (simp add: e d1)
qed simp

subsection \<open>A sample snapshot\<close>

definition sample_sn :: "RegionDataReadInfo list SnapshotApi" where
  "sample_sn = \<lparr>sn_common_handle = (\<lambda>t st. False), sn_pk_uint64 = (\<lambda>t st. False), sn_handle_rows = (\<lambda>u t r st. Inr []),
     sn_lock = (\<lambda>t st. Inr ()), sn_safe_point = 50\<rparr>"

lemma sample_handle_old_rows:
  assumes "region_inv rg"
  shows "handle_old_rows sample_tmt sample_sn rg st = Inr (rg, [])"
proof -
  obtain r where "meta_getRange (rg_meta rg) = Inr r" using assms by (auto simp: region_inv_def meta_inv_def meta_getRange_def)
  then show ?thesis by (simp add: handle_old_rows_def sample_tmt_def sample_sn_def)
qed

lemma sample_genRegionPtr: "\<exists>rg. genRegionPtr sample_env True (sample_meta_region 10 0 50) 110 30 6 = Inr rg"
proof -
  have "mk_RegionRangeKeys (genKey 1 0) (genKey 1 50) = Inr (sample_keys 0 50)"
    by (rule mk_RegionRangeKeys_sample) (simp add: word_sless_alt)
  then show ?thesis
    by (simp add: genRegionPtr_def findPeer_def sample_meta_region_def new_RegionMeta_def setRegion_def updateRegionRange_def mk_Region_def meta_getRange_def Let_def
        state_defs)
qed

lemma sample_snapshot:
  assumes "ks_inv ks" "ks_regions ks = []" "ks_proxy ks"
  shows "\<exists>rg ks'. genRegionPtr sample_env True (sample_meta_region 10 0 50) 110 30 6 = Inr rg
    \<and> handleApplySnapshot sample_tmt sample_sn (sample_meta_region 10 0 50) 110 [] 30 6 ks = Inr ks'
    \<and> tryApplySnapshot sample_tmt sample_sn None rg (ks\<lparr>bg_gc_region_data := butlast (bg_gc_region_data ks)\<rparr>) = Inr ks' \<and> ks_getRegion 10 ks' \<noteq> None"
proof -
  obtain rg where rg: "genRegionPtr sample_env True (sample_meta_region 10 0 50) 110 30 6 = Inr rg" using sample_genRegionPtr by blast
  note g = genRegionPtr_ok [OF rg]
  have id: "region_id rg = 10" using g(2) by (simp add: sample_meta_region_def)
  let ?ks = "ks\<lparr>bg_gc_region_data := butlast (bg_gc_region_data ks)\<rparr>"
  have "ReadRegionCommitCache rg = Inr None" by (simp add: ReadRegionCommitCache_rows g(4) empty_RegionData_def empty_cf_def)
  then have p: "preHandleSnapshot sample_tmt rg [] ks = Inr (None, rg, ?ks)" by (simp add: preHandleSnapshot_def GenRegionPreDecodeBlockData_def)
  have "ks_inv ?ks" by (rule frame_inv [OF queue_frame(3) assms(1)])
  from tryApplySnapshot_total [OF this g(1) id [symmetric], of sample_tmt sample_sn rg "[]" None] obtain ks' new2
    where "tryApplySnapshot sample_tmt sample_sn None rg ?ks = Inr ks'" "regs ks' = (regs ?ks)(10 \<mapsto> new2)"
    using assms(2) sample_handle_old_rows g(1) by (auto simp: ks_getRegion_def snapshot_region_def)
  then show ?thesis
    using rg p assms(3) by (auto simp: handleApplySnapshot_def sample_tmt_def ks_getRegion_def)
qed

lemma sample_start: "\<exists>ks :: RegionDataReadInfo list KVStore. tmt_restore sample_tmt True (new_KVStore [] []) = Inr ks \<and> ks_inv ks \<and> ks_regions ks = [] \<and> ks_proxy ks"
proof -
  have p: "umap_inv ([] :: Pages)" "persister_restore (tmt_proto sample_tmt) True [] = Inr []" by (simp_all add: umap_inv_def persister_restore_def)
  obtain ks :: "RegionDataReadInfo list KVStore" where ks: "tmt_restore sample_tmt True (new_KVStore [] []) = Inr ks" "ks_regions ks = []"
    using tmt_restore_total [OF p(2,1)] by blast
  have "ks_proxy ks"
    using ks(1) p(2) by (simp add: tmt_restore_def ks_restore_def rt_restore_def new_KVStore_def start_BackgroundService_def sample_tmt_def) auto
  then show ?thesis using ks tmt_restore_inv(1) [OF ks(1) p(1)] by blast
qed

subsection \<open>Properties\<close>

text \<open>
  C1: whatever sequence of commands, snapshots, background tasks and restarts the server has been through, its
  regions are well formed and found under their ids, a search by key range finds exactly the regions whose
  current range overlaps, and the table of regions knows exactly the regions of the store with their tables.
\<close>

theorem store_invariant:
  assumes "reachable_server sv"
  shows "(\<forall>i rg. ks_getRegion i (sv_store sv) = Some rg \<longrightarrow> region_inv rg \<and> region_id rg = i)
    \<and> (\<forall>q. range_ok q \<longrightarrow> (\<exists>res. handleRegionsByRangeOverlap q (sv_store sv) = Inr res
        \<and> (\<forall>i p. map_of res i = Some p \<longleftrightarrow> p = i \<and> (\<exists>rg. ks_getRegion i (sv_store sv) = Some rg \<and> overlaps (region_range rg) q))))
    \<and> (\<forall>i. map_of (rt_regions (ks_table (sv_store sv))) i = map_option rg_table_id (ks_getRegion i (sv_store sv)))"
proof -
  have inv: "ks_inv (sv_store sv)" using reachable_server_inv [OF assms] by (simp add: server_inv_def)
  show ?thesis
    using region_in_store(1,2) [OF inv] overlap_exact [OF inv] ks_invD(4) [OF inv] by (auto simp: ks_getRegion_def tables_of_def)
qed

theorem store_invariant_witness:
  "\<exists>(sv :: (RegionDataReadInfo list, RegionDataReadInfo list) Server) rg. reachable_server sv \<and> ks_getRegion 10 (sv_store sv) = Some rg \<and> region_inv rg \<and> region_id rg = 10
     \<and> map_of (rt_regions (ks_table (sv_store sv))) 10 = Some (rg_table_id rg)"
proof -
  obtain ks :: "RegionDataReadInfo list KVStore" where ks: "tmt_restore sample_tmt True (new_KVStore [] []) = Inr ks" "ks_inv ks" "ks_regions ks = []" "ks_proxy ks"
    using sample_start by blast
  let ?sv = "\<lparr>sv_store = ks, sv_snapshots = []\<rparr> :: (RegionDataReadInfo list, RegionDataReadInfo list) Server"
  have r: "reachable_server ?sv" by (rule reachable_server.start [OF _ ks(1)]) (simp add: umap_inv_def)
  obtain rg ks' where s: "handleApplySnapshot sample_tmt sample_sn (sample_meta_region 10 0 50) 110 [] 30 6 ks = Inr ks'" "ks_getRegion 10 ks' = Some rg"
    using sample_snapshot [OF ks(2-4)] by blast
  have "handleApplySnapshot sample_tmt sample_sn (sample_meta_region 10 0 50) 110 [] 30 6 (sv_store ?sv) = Inr ks'" by (simp add: s(1))
  from reachable_server.step [OF r server_step.handle_snapshot [OF this]] show ?thesis using store_invariant [of "?sv\<lparr>sv_store := ks'\<rparr>"] s(2) by auto
qed

text \<open>
  C5: a snapshot that is applied changes no other region. It is skipped when its index is the applied index of
  the region; otherwise it is newer, its range overlaps no other region, and the region has its index and range
  afterwards.
\<close>

theorem snapshot_replaces_region:
  assumes "ks_inv ks" and "snapshot_region new" and "tryApplySnapshot tmt sn cache new ks = Inr ks'"
  shows "ks_inv ks' \<and> (\<forall>j. j \<noteq> region_id new \<longrightarrow> ks_getRegion j ks' = ks_getRegion j ks)
    \<and> (case ks_getRegion (region_id new) ks of Some old \<Rightarrow> region_appliedIndex old \<le> region_appliedIndex new | None \<Rightarrow> True)
    \<and> (if map_option region_appliedIndex (ks_getRegion (region_id new) ks) = Some (region_appliedIndex new) then ks' = ks
       else (\<exists>rg. ks_getRegion (region_id new) ks' = Some rg \<and> region_appliedIndex rg = region_appliedIndex new
           \<and> region_range rg = region_range new \<and> peerState rg = peerState new)
         \<and> (\<forall>j rg. j \<noteq> region_id new \<longrightarrow> ks_getRegion j ks = Some rg \<longrightarrow> \<not> overlaps (region_range rg) (region_range new)))"
  using assms(1,2) refl assms(3)
proof (cases rule: tryApplySnapshot_ok)
  case (same old)
  then show ?thesis using assms(1) by simp
next
  case (applied rg)
  have "region_appliedIndex rg = region_appliedIndex new" "region_range rg = region_range new" "peerState rg = peerState new"
    using applied(4,5) by (simp_all add: region_appliedIndex_def meta_appliedIndex_def region_range_def peerState_def meta_peerState_def)
  moreover have "map_option region_appliedIndex (ks_getRegion (region_id new) ks) \<noteq> Some (region_appliedIndex new)" using applied(6) by fastforce
  ultimately show ?thesis using applied by (auto split: option.split dest: less_imp_le)
qed

theorem snapshot_replaces_region_witness:
  "\<exists>(ks :: RegionDataReadInfo list KVStore) new ks' rg. region_appliedIndex new = 30 \<and> tryApplySnapshot sample_tmt sample_sn None new ks = Inr ks'
     \<and> ks_getRegion 10 ks' = Some rg \<and> region_appliedIndex rg = 30"
proof -
  obtain ks :: "RegionDataReadInfo list KVStore" where ks: "ks_inv ks" "ks_regions ks = []" "ks_proxy ks" using sample_start by blast
  let ?ks = "ks\<lparr>bg_gc_region_data := butlast (bg_gc_region_data ks)\<rparr>"
  obtain new ks' where s: "genRegionPtr sample_env True (sample_meta_region 10 0 50) 110 30 6 = Inr new"
      "tryApplySnapshot sample_tmt sample_sn None new ?ks = Inr ks'"
    using sample_snapshot [OF ks] by blast
  note g = genRegionPtr_ok [OF s(1)]
  have id: "region_id new = 10" using g(2) by (simp add: sample_meta_region_def)
  have "ks_getRegion 10 ?ks = None" using ks(2) by (simp add: ks_getRegion_def)
  then show ?thesis
    using snapshot_replaces_region [OF frame_inv [OF queue_frame(3) ks(1)] g(1) s(2)] s(2) g(3) unfolding id by auto
qed

text \<open>
  C31: before a snapshot is applied its commit records are taken out of the region and decoded into a block. When
  the storage then fails to write the block, the exception is ignored and the snapshot counts as applied: the
  region has no commit record and the storage is as before, so the rows of the snapshot are lost.
\<close>

theorem failed_write_loses_rows:
  assumes "ks_inv ks" and "snapshot_region rg" and "ks_getRegion (region_id rg) ks = None"
    and "\<And>j rg'. ks_getRegion j ks = Some rg' \<Longrightarrow> \<not> overlaps (region_range rg') (region_range rg)"
    and "GenRegionPreDecodeBlockData (tmt_api tmt) rg (ks_storage ks) = Inr (Some c, new, ks_storage ks)"
    and "handle_old_rows tmt sn new (ks_storage ks) = Inr (new, st)"
    and "writeRegionDataToStorage (tmt_api tmt) (rg_table_id new) (Some c) (pd_rows c) st = Inl e"
  shows "\<exists>ks'. tryApplySnapshot tmt sn (Some c) new ks = Inr ks' \<and> ks_storage ks' = st \<and> ks_getRegion (region_id rg) ks' = Some new
    \<and> committed_rows True (rg_data rg) (data_map (rd_write (rg_data rg))) = Inr (pd_rows c) \<and> pd_rows c \<noteq> []
    \<and> data_map (rd_write (rg_data new)) = []"
proof -
  have inv: "region_inv rg" using assms(2) by (simp add: snapshot_region_def)
  note p = GenRegionPreDecodeBlockData_rows [OF inv assms(5)]
  have k: "keeps rg new" by (rule GenRegionPreDecodeBlockData_keeps [OF assms(5)])
  then have n: "snapshot_region new" "region_id rg = region_id new" "region_range new = region_range rg"
    using snapshot_region_keeps [OF assms(2) k] by (auto simp: keeps_def region_range_def)
  have w: "writeBlockByRegion (tmt_api tmt) (Some c) new st = Inl e" using assms(7) by (simp add: writeBlockByRegion_def)
  obtain ks' where ks': "tryApplySnapshot tmt sn (Some c) new ks = Inr ks'" "regs ks' = (regs ks)(region_id rg \<mapsto> new)" "ks_storage ks' = st"
    using tryApplySnapshot_total [OF assms(1) n(1,2) assms(3) _ assms(6), of "Some c"] assms(4) w unfolding n(3) by blast
  have "pd_rows c \<noteq> []" using p(1,3) committed_rows_keys [OF p(1)] by auto
  then show ?thesis using ks' p(1,4) by (simp add: ks_getRegion_def)
qed

theorem failed_write_loses_rows_witness:
  "\<exists>tmt sn (c :: RegionDataReadInfo list PreDecodeBlock) new (ks :: RegionDataReadInfo list KVStore) ks'. tryApplySnapshot tmt sn (Some c) new ks = Inr ks' \<and> pd_rows c \<noteq> [] \<and> ks_storage ks' = []
     \<and> ks_getRegion 10 ks' = Some new \<and> data_map (rd_write (rg_data new)) = []"
proof -
  let ?tmt = "sample_tmt\<lparr>tmt_api := sample_api\<lparr>sa_write := (\<lambda>t b st. throw ''disk is full'')\<rparr>\<rparr>"
  let ?rows = "[(handle_pk 7, PutFlag, 9, Some [1, 2])]"
  let ?c = "\<lparr>pd_block = ?rows, pd_schema_version = 1, pd_rows = ?rows\<rparr>" and ?new = "RemoveRegionCommitCache [(handle_pk 7, PutFlag, 9, Some [1, 2])] sample_region"
  obtain ks :: "RegionDataReadInfo list KVStore" where ks: "ks_inv ks" "ks_regions ks = []" "ks_storage ks = []"
    using store_exists [of "[]" "[] :: RegionDataReadInfo list"] by auto
  have t: "rg_table_id sample_region = 1" "region_id sample_region = 10" by (simp_all add: sample_region_def region_id_def sample_meta_def)
  have sr: "snapshot_region sample_region" unfolding snapshot_region_def
    using sample_region_inv by (simp add: sample_region_def meta_getRange_def sample_meta_def sample_keys_def)
  have g: "GenRegionPreDecodeBlockData (tmt_api ?tmt) sample_region (ks_storage ks) = Inr (Some ?c, ?new, ks_storage ks)"
    using sample_rows sample_not_pending sample_write_nonempty
    by (simp add: GenRegionPreDecodeBlockData_def ReadRegionCommitCache_rows atomicDecode_def t) (simp add: sample_api_def)
  have k: "keeps sample_region ?new" by (rule RemoveRegionCommitCache_keeps)
  then have n: "region_inv ?new" "rg_table_id ?new = 1" using sample_region_inv t by (auto simp: keeps_def)
  have h: "handle_old_rows ?tmt sample_sn ?new (ks_storage ks) = Inr (?new, [])"
    using sample_handle_old_rows [OF n(1), of "ks_storage ks"] by (simp add: handle_old_rows_def) (simp add: sample_tmt_def)
  have w: "writeRegionDataToStorage (tmt_api ?tmt) (rg_table_id ?new) (Some ?c) (pd_rows ?c) [] = Inl (LogicalError ''disk is full'')"
    unfolding n(2) by (simp add: writeRegionDataToStorage_def atomicReadWrite_def sample_api_def throw_def)
  have "ks_getRegion j ks = None" for j using ks(2) by (simp add: ks_getRegion_def)
  then obtain ks' where "tryApplySnapshot ?tmt sample_sn (Some ?c) ?new ks = Inr ks'" "ks_storage ks' = []" "ks_getRegion 10 ks' = Some ?new"
      "data_map (rd_write (rg_data ?new)) = []"
    using failed_write_loses_rows [OF ks(1) sr _ _ g h w] unfolding t(2) by auto
  then show ?thesis
    by - (intro exI [of _ ?tmt] exI [of _ sample_sn] exI [of _ ?c] exI [of _ ?new] exI [of _ ks] exI [of _ ks'], simp)
qed

text \<open>
  C32: for a table of the engine TMT a snapshot is completed with the rows that the storage has. By then the commit
  records are out of the region, so that no row counts as part of the snapshot: a single row that is not older
  than the safe point makes the snapshot fail, and otherwise every row gets a delete mark, also one whose
  version the snapshot contains.
\<close>

theorem predecoded_rows_not_compared:
  assumes "region_inv rg" and "GenRegionPreDecodeBlockData api rg st = Inr (Some c, new, st')" and "distinct (map fst handle_map)"
  shows "if \<exists>e \<in> set handle_map. safe_point \<le> fst (snd e) then \<exists>x. compareAndCompleteSnapshot handle_map safe_point new = Inl x
    else \<exists>hm new'. compareAndCompleteSnapshot handle_map safe_point new = Inr (hm, new')
      \<and> (\<forall>h ts del. (h, ts, del) \<in> set handle_map \<longrightarrow>
           (\<exists>w. map_of (data_map (rd_write (rg_data new'))) (handle_pk h, ts) = Some w \<and> write_type (snd (snd w)) = DelFlag))"
proof -
  note p = GenRegionPreDecodeBlockData_rows [OF assms(1,2)]
  have "region_inv new" using GenRegionPreDecodeBlockData_keeps [OF assms(2)] assms(1) by (simp add: keeps_def)
  then have d: "RegionData_inv (rg_data new)" by (simp add: region_inv_def)
  show ?thesis
  proof (cases "\<exists>e \<in> set handle_map. safe_point \<le> fst (snd e)")
    case True
    then show ?thesis
      using complete_inserts_old [OF d True, of "rg_table_id new"] p(4) by (auto simp: compareAndCompleteSnapshot_def)
  next
    case False
    obtain d' where d': "rfold (complete_insert (rg_table_id new) safe_point) handle_map (rg_data new) = Inr d'"
      using complete_inserts_total [OF d assms(3), of safe_point "rg_table_id new"] False p(4) by (auto simp: not_le)
    then have c: "compareAndCompleteSnapshot handle_map safe_point new = Inr (handle_map, new\<lparr>rg_data := d'\<rparr>)"
      using p(4) by (cases "handle_map = []") (auto simp: compareAndCompleteSnapshot_def)
    have "\<exists>w. map_of (data_map (rd_write d')) (handle_pk h, ts) = Some w \<and> write_type (snd (snd w)) = DelFlag" if "(h, ts, del) \<in> set handle_map" for h ts del
      using complete_inserts_ok [OF d' d] that p(4) by fastforce
    then show ?thesis using False c by auto
  qed
qed

theorem predecoded_rows_not_compared_witness:
  "\<exists>c new x hm new' w. GenRegionPreDecodeBlockData sample_api sample_region [] = Inr (Some c, new, [])
     \<and> compareAndCompleteSnapshot [(7, 9, 0)] 5 new = Inl x
     \<and> compareAndCompleteSnapshot [(7, 9, 0)] 20 new = Inr (hm, new')
     \<and> map_of (data_map (rd_write (rg_data new'))) (handle_pk 7, 9) = Some w \<and> write_type (snd (snd w)) = DelFlag"
proof -
  have t: "rg_table_id sample_region = 1" by (simp add: sample_region_def)
  obtain c new where g: "GenRegionPreDecodeBlockData sample_api sample_region [] = Inr (Some c, new, [])"
    using sample_rows sample_not_pending sample_write_nonempty
    by (simp add: GenRegionPreDecodeBlockData_def ReadRegionCommitCache_rows atomicDecode_def t) (simp add: sample_api_def)
  show ?thesis
    using predecoded_rows_not_compared [OF sample_region_inv g, of "[(7, 9, 0)]" 5]
      predecoded_rows_not_compared [OF sample_region_inv g, of "[(7, 9, 0)]" 20] g by (simp del: split_paired_Ex)
qed

end
