(* ===== verification/LearnerRead.thy ===== *)
theory LearnerRead
  imports KVStore
begin

section \<open>Learner reads\<close>

text \<open>
  \<open>Storages/Transaction/LearnerRead.cpp\<close>: before a query reads the storage, every region it touches is checked,
  asked for its read index and waited for until it has applied that index; after the query has read, the
  regions are checked again. The read holds pointers to the regions while other threads change them, so the
  contents of the regions at the moments when the read looks at them are arguments. The batches run one after
  the other. The proxy that answers the read index requests is an argument.
\<close>

subsection \<open>Queries\<close>

record RegionQueryInfo =
  qi_region_id :: RegionID
  qi_version :: UInt64
  qi_conf_version :: UInt64
  qi_range_in_table :: RawRange
  qi_required_handle_ranges :: "RawRange list"
  qi_bypass_lock_ts :: "UInt64 list option"

record MvccQueryInfo =
  mq_resolve_locks :: bool
  mq_read_tso :: Timestamp
  mq_regions_query_info :: "RegionQueryInfo list"

type_synonym LearnerReadSnapshot = "(RegionID \<times> UInt64) list"

text \<open>How a learner read ends. A read that waits for an index in the given state of the region does not end.\<close>

datatype 'l LearnerRead =
    LR_Snapshot LearnerReadSnapshot
  | LR_RegionException "RegionID list" RegionReadStatus RegionID
  | LR_ProxyLocked RegionID 'l
  | LR_Locked RegionID DecodedLockCFValue
  | LR_Waiting RegionID

definition throwRetryRegion :: "RegionQueryInfo list \<Rightarrow> RegionReadStatus \<Rightarrow> RegionID \<Rightarrow> 'l LearnerRead" where
  "throwRetryRegion regions_info status unavailable = LR_RegionException (map qi_region_id regions_info) status unavailable"

definition isValidRegion :: "RegionQueryInfo \<Rightarrow> Region \<Rightarrow> RegionReadStatus result" where
  "isValidRegion q rg =
     (if peerState rg \<noteq> Normal then Inr RS_NOT_FOUND
      else rbind (dumpRegionMetaSnapshot (rg_meta rg)) (\<lambda>snap.
        if snap_ver snap \<noteq> qi_version q \<or> snap_conf_ver snap \<noteq> qi_conf_version q then Inr RS_EPOCH_NOT_MATCH
        else Inr RS_OK))"

subsection \<open>Regions of a query\<close>

definition query_of_region :: "RegionID \<times> Region \<Rightarrow> RegionQueryInfo result" where
  "query_of_region p =
     rbind (meta_getRange (rg_meta (snd p))) (\<lambda>keys.
       Inr \<lparr>qi_region_id = fst p, qi_version = getVersion (rm_state (rg_meta (snd p))),
         qi_conf_version = getConfVersion (rm_state (rg_meta (snd p))), qi_range_in_table = RegionRangeKeys.raw keys,
         qi_required_handle_ranges = [], qi_bypass_lock_ts = None\<rparr>)"

definition regions_to_query :: "TableID \<Rightarrow> MvccQueryInfo \<Rightarrow> 's KVStore \<Rightarrow> RegionQueryInfo list result" where
  "regions_to_query table_id mvcc ks =
     (if mq_regions_query_info mvcc \<noteq> [] then Inr (mq_regions_query_info mvcc)
      else rfold (\<lambda>p qs. rbind (query_of_region p) (\<lambda>q. Inr (qs @ [q])))
        (getRegionsByTable (\<lambda>i. ks_getRegion i ks) table_id (ks_table ks)) [])"

fun collect_regions :: "RegionQueryInfo list \<Rightarrow> 's KVStore \<Rightarrow> LearnerReadSnapshot \<Rightarrow> LearnerReadSnapshot option" where
  "collect_regions [] ks snap = Some snap"
| "collect_regions (q # qs) ks snap =
     (case ks_getRegion (qi_region_id q) ks of None \<Rightarrow> None
      | Some rg \<Rightarrow> collect_regions qs ks (fst (umap_emplace (qi_region_id q) (snapshot_event_flag rg) snap)))"

subsection \<open>Batches\<close>

text \<open>The number of threads; \<open>streams\<close> is the product of \<open>num_streams\<close> and the factor of the query.\<close>

definition concurrent_num :: "nat \<Rightarrow> nat \<Rightarrow> nat \<Rightarrow> nat" where
  "concurrent_num max_thread streams num_regions = min max_thread (max 1 (min streams num_regions))"

partial_function (option) batch_begins :: "nat \<Rightarrow> nat \<Rightarrow> nat \<Rightarrow> nat list option" where
  "batch_begins batch_size num_regions region_begin_idx =
     (if region_begin_idx < num_regions
      then Option.bind (batch_begins batch_size num_regions (region_begin_idx + batch_size)) (\<lambda>rest. Some (region_begin_idx # rest))
      else Some [])"

definition batch_indices :: "nat \<Rightarrow> nat \<Rightarrow> nat \<Rightarrow> nat list" where
  "batch_indices batch_size num_regions region_begin_idx = [region_begin_idx ..< min (region_begin_idx + batch_size) num_regions]"

subsection \<open>One batch\<close>

text \<open>
  A turn is a region of the query with the content of the region when it is checked and its content when the
  wait for its index is over.
\<close>

type_synonym turn = "RegionQueryInfo \<times> Region \<times> Region"

record 's ReadState =
  lr_status :: RegionReadStatus
  lr_unavailable :: RegionID
  lr_storage :: 's
  lr_written :: "(RegionID \<times> Region) list"

fun build_requests :: "Timestamp \<Rightarrow> turn list \<Rightarrow> (RegionReadStatus \<times> ReadIndexRequest list) result" where
  "build_requests start_ts [] = Inr (RS_OK, [])"
| "build_requests start_ts ((q, checked, _) # turns) =
     rbind (isValidRegion q checked) (\<lambda>status.
       if status \<noteq> RS_OK then Inr (status, [])
       else rbind (GenRegionReadIndexReq checked start_ts) (\<lambda>req.
         rbind (build_requests start_ts turns) (\<lambda>(status', reqs). Inr (status', req # reqs))))"

type_synonym 'l proxy = "ReadIndexRequest list \<Rightarrow> ('l ReadIndexResponse \<times> RegionID) list"

definition batch_read_index :: "'l proxy option \<Rightarrow> 'l proxy" where
  "batch_read_index proxy_helper reqs =
     (case proxy_helper of Some batchReadIndex \<Rightarrow> batchReadIndex reqs
      | None \<Rightarrow> map (\<lambda>req. (\<lparr>rr_region_error = None, rr_read_index = 0, rr_locked = None\<rparr>, rq_region_id req)) reqs)"

fun check_responses :: "('l ReadIndexResponse \<times> RegionID) list \<Rightarrow> 's ReadState \<Rightarrow> ('l LearnerRead option \<times> bool \<times> 's ReadState)" where
  "check_responses [] s = (None, True, s)"
| "check_responses ((resp, i) # res) s =
     (case rr_region_error resp of
        Some True \<Rightarrow> (None, False, s\<lparr>lr_status := RS_EPOCH_NOT_MATCH\<rparr>)
      | Some False \<Rightarrow> (None, False, s\<lparr>lr_status := RS_NOT_FOUND, lr_unavailable := i\<rparr>)
      | None \<Rightarrow> (case rr_locked resp of Some l \<Rightarrow> (Some (LR_ProxyLocked i l), False, s) | None \<Rightarrow> check_responses res s))"

definition resolve_turn :: "('s, 'b) StorageApi \<Rightarrow> TableID \<Rightarrow> Timestamp \<Rightarrow> RegionQueryInfo \<Rightarrow> Region \<Rightarrow> 's ReadState \<Rightarrow> ('l LearnerRead option \<times> 's ReadState) result" where
  "resolve_turn api table_id start_ts q rg s =
     rbind (resolveLocksAndWriteRegion api table_id start_ts (qi_bypass_lock_ts q) (qi_version q) (qi_conf_version q) rg (lr_storage s)) (\<lambda>res.
       case res of Locked i l \<Rightarrow> Inr (Some (LR_Locked i l), s)
       | Unlocked (status, rg', st) \<Rightarrow>
           let s' = s\<lparr>lr_storage := st, lr_written := lr_written s @ [(qi_region_id q, rg')]\<rparr>
           in Inr (None, if status \<noteq> RS_OK then s'\<lparr>lr_status := status\<rparr> else s'))"

fun wait_turns :: "('s, 'b) StorageApi \<Rightarrow> TableID \<Rightarrow> Timestamp \<Rightarrow> bool \<Rightarrow> bool \<Rightarrow> (turn \<times> 'l ReadIndexResponse) list \<Rightarrow> 's ReadState \<Rightarrow>
    ('l LearnerRead option \<times> 's ReadState) result" where
  "wait_turns api table_id start_ts resolve_locks terminated [] s = Inr (None, s)"
| "wait_turns api table_id start_ts resolve_locks terminated (((q, _, waited), resp) # turns) s =
     (case region_waitIndex (rr_read_index resp) terminated waited of
        None \<Rightarrow> Inr (Some (LR_Waiting (qi_region_id q)), s)
      | Some True \<Rightarrow> wait_turns api table_id start_ts resolve_locks terminated turns (s\<lparr>lr_status := RS_NOT_FOUND\<rparr>)
      | Some False \<Rightarrow>
          if \<not> resolve_locks then wait_turns api table_id start_ts resolve_locks terminated turns s
          else rbind (resolve_turn api table_id start_ts q waited s) (\<lambda>(e, s').
            case e of Some x \<Rightarrow> Inr (Some x, s') | None \<Rightarrow> wait_turns api table_id start_ts resolve_locks terminated turns s'))"

definition batch_wait_index :: "('s, 'b) StorageApi \<Rightarrow> 'l proxy option \<Rightarrow> TableID \<Rightarrow> Timestamp \<Rightarrow> bool \<Rightarrow> bool \<Rightarrow> turn list \<Rightarrow> 's ReadState \<Rightarrow>
    ('l LearnerRead option \<times> 's ReadState) result" where
  "batch_wait_index api proxy_helper table_id start_ts resolve_locks terminated turns s =
     (if turns \<noteq> [] \<and> lr_status s \<noteq> RS_OK then Inr (None, s)
      else rbind (build_requests start_ts turns) (\<lambda>(status, reqs).
        if status \<noteq> RS_OK then Inr (None, s\<lparr>lr_status := status\<rparr>)
        else
          (let result = batch_read_index proxy_helper reqs
           in case check_responses result s of
                (Some x, _, s1) \<Rightarrow> Inr (Some x, s1)
              | (None, False, s1) \<Rightarrow> Inr (None, s1)
              | (None, True, s1) \<Rightarrow>
                  if length result \<noteq> length reqs then throw ''Batch read index got unexpected size, should not happen''
                  else wait_turns api table_id start_ts resolve_locks terminated (zip turns (map fst result)) s1)))"

fun run_batches :: "(nat list \<Rightarrow> 's ReadState \<Rightarrow> ('l LearnerRead option \<times> 's ReadState) result) \<Rightarrow> nat list list \<Rightarrow> 's ReadState \<Rightarrow>
    ('l LearnerRead option \<times> 's ReadState) result" where
  "run_batches batch [] s = Inr (None, s)"
| "run_batches batch (ks # kss) s =
     rbind (batch ks s) (\<lambda>(e, s'). case e of Some x \<Rightarrow> Inr (Some x, s') | None \<Rightarrow> run_batches batch kss s')"

subsection \<open>The read\<close>

text \<open>\<open>contents k\<close> is the content of the region of index \<open>k\<close> when it is checked and when its wait is over.\<close>

definition doLearnerRead :: "('s, 'b) TMTContext \<Rightarrow> 'l proxy option \<Rightarrow> nat \<Rightarrow> nat \<Rightarrow> bool \<Rightarrow> (nat \<Rightarrow> Region \<times> Region) \<Rightarrow> TableID \<Rightarrow> MvccQueryInfo \<Rightarrow>
    's KVStore \<Rightarrow> ('l LearnerRead \<times> (RegionID \<times> Region) list \<times> 's) option result" where
  "doLearnerRead tmt proxy_helper max_thread streams terminated contents table_id mvcc ks =
     rbind (regions_to_query table_id mvcc ks) (\<lambda>regions_info.
       case collect_regions regions_info ks [] of
         None \<Rightarrow> Inr (Some (throwRetryRegion regions_info RS_NOT_FOUND InvalidRegionID, [], ks_storage ks))
       | Some regions_snapshot \<Rightarrow>
           if length regions_snapshot \<noteq> length regions_info then throw ''Duplicate region id''
           else
             (let num_regions = length regions_info; n = concurrent_num max_thread streams num_regions; batch_size = num_regions div n;
                  batch = (\<lambda>ix. batch_wait_index (tmt_api tmt) proxy_helper table_id (mq_read_tso mvcc) (mq_resolve_locks mvcc) terminated
                    (map (\<lambda>k. (regions_info ! k, contents k)) ix))
              in if n = 0 then Inl OutOfBounds
                 else case (if n \<le> 1 then Some [0] else batch_begins batch_size num_regions 0) of
                   None \<Rightarrow> Inr None
                 | Some begins \<Rightarrow>
                     rbind (run_batches batch (map (batch_indices batch_size num_regions) begins)
                         \<lparr>lr_status = RS_OK, lr_unavailable = InvalidRegionID, lr_storage = ks_storage ks, lr_written = []\<rparr>) (\<lambda>(e, s).
                       Inr (Some (case e of Some x \<Rightarrow> x
                           | None \<Rightarrow> if lr_status s \<noteq> RS_OK then throwRetryRegion regions_info (lr_status s) (lr_unavailable s)
                               else LR_Snapshot regions_snapshot,
                         lr_written s, lr_storage s)))))"

subsection \<open>Checking after the query\<close>

text \<open>
  A region is the one of the snapshot when the pointer and the flag are the same; whether another region has
  come to the place of the pointer is the argument \<open>replaced\<close>.
\<close>

definition snapshot_differs :: "(RegionID \<Rightarrow> bool) \<Rightarrow> RegionID \<Rightarrow> LearnerReadSnapshot \<Rightarrow> Region option \<Rightarrow> bool" where
  "snapshot_differs replaced i snap region =
     (case map_of snap i of None \<Rightarrow> True
      | Some flag \<Rightarrow> (case region of None \<Rightarrow> True | Some rg \<Rightarrow> replaced i \<or> flag \<noteq> snapshot_event_flag rg))"

definition validate_region :: "(RegionID \<Rightarrow> bool) \<Rightarrow> LearnerReadSnapshot \<Rightarrow> 's KVStore \<Rightarrow> RegionQueryInfo \<Rightarrow> RegionReadStatus" where
  "validate_region replaced snap ks q =
     (let region = ks_getRegion (qi_region_id q) ks
      in if snapshot_differs replaced (qi_region_id q) snap region then RS_NOT_FOUND
         else (case region of
             Some rg \<Rightarrow> if getVersion (rm_state (rg_meta rg)) \<noteq> qi_version q then RS_EPOCH_NOT_MATCH else RS_OK
           | None \<Rightarrow> RS_NOT_FOUND))"

definition validateQueryInfo :: "(RegionID \<Rightarrow> bool) \<Rightarrow> MvccQueryInfo \<Rightarrow> LearnerReadSnapshot \<Rightarrow> 's KVStore \<Rightarrow> (RegionID list \<times> RegionReadStatus) option" where
  "validateQueryInfo replaced mvcc snap ks =
     (let (fail_region_ids, fail_status) = fold (\<lambda>q (ids, status).
          case validate_region replaced snap ks q of RS_OK \<Rightarrow> (ids, status) | st \<Rightarrow> (ids @ [qi_region_id q], st))
        (mq_regions_query_info mvcc) ([], RS_OK)
      in if fail_region_ids \<noteq> [] then Some (fail_region_ids, fail_status) else None)"

subsection \<open>Batches cover the regions\<close>

lemma batch_begins_cover:
  assumes "0 < b"
  shows "\<exists>begins. batch_begins b n k = Some begins \<and> concat (map (batch_indices b n) begins) = [k ..< n]"
proof (induction "n - k" arbitrary: k rule: less_induct)
  case less
  show ?case
  proof (cases "k < n")
    case True
    then have "n - (k + b) < n - k" using assms by linarith
    then obtain begins where bs: "batch_begins b n (k + b) = Some begins" "concat (map (batch_indices b n) begins) = [k + b ..< n]"
      using less by blast
    have "batch_indices b n k @ [k + b ..< n] = [k ..< n]"
      using True upt_add_eq_append [of k "k + b" "n - (k + b)"] by (cases "k + b \<le> n") (simp_all add: batch_indices_def min_def)
    then show ?thesis using True bs by (simp add: batch_begins.simps [of b n k])
  qed (simp add: batch_begins.simps [of b n k])
qed

lemma batches_cover:
  assumes "0 < max_thread" "c = concurrent_num max_thread streams n"
  shows "0 < c \<and> (\<exists>begins. (if c \<le> 1 then Some [0] else batch_begins (n div c) n 0) = Some begins
    \<and> concat (map (batch_indices (n div c) n) begins) = [0 ..< n])"
proof -
  have c: "0 < c" "1 < c \<Longrightarrow> c \<le> n" using assms by (auto simp: concurrent_num_def min_def max_def split: if_splits)
  show ?thesis
  proof (cases "c \<le> 1")
    case True
    then have "c = 1" using c(1) by simp
    then show ?thesis by (simp add: batch_indices_def)
  next
    case False
    then have "0 < n div c" using c by (simp add: div_greater_zero_iff)
    then show ?thesis using batch_begins_cover [of "n div c" n 0] c(1) False by auto
  qed
qed

subsection \<open>Turns\<close>

definition turn_checked :: "(ReadIndexRequest \<Rightarrow> 'l ReadIndexResponse) \<Rightarrow> Timestamp \<Rightarrow> turn \<Rightarrow> ReadIndexRequest \<Rightarrow> bool" where
  "turn_checked answer start_ts turn req \<longleftrightarrow> isValidRegion (fst turn) (fst (snd turn)) = Inr RS_OK \<and> GenRegionReadIndexReq (fst (snd turn)) start_ts = Inr req
     \<and> rr_region_error (answer req) = None \<and> rr_locked (answer req) = None"

definition turn_waited :: "bool \<Rightarrow> Timestamp \<Rightarrow> RegionQueryInfo \<Rightarrow> Region \<Rightarrow> UInt64 \<Rightarrow> bool" where
  "turn_waited resolve_locks start_ts q waited idx \<longleftrightarrow>
     (has_proxy waited \<longrightarrow> doCheckIndex idx (rg_meta waited))
     \<and> (resolve_locks \<longrightarrow> peerState waited = Normal \<and> getVersion (rm_state (rg_meta waited)) = qi_version q
          \<and> getConfVersion (rm_state (rg_meta waited)) = qi_conf_version q
          \<and> getLockInfo \<lparr>read_tso = start_ts, bypass_lock_ts = qi_bypass_lock_ts q\<rparr> (rg_data waited) = None)"

lemma isValidRegion_ok:
  "isValidRegion q rg = Inr RS_OK \<Longrightarrow> peerState rg = Normal \<and> getVersion (rm_state (rg_meta rg)) = qi_version q \<and> getConfVersion (rm_state (rg_meta rg)) = qi_conf_version q"
  by (auto simp: isValidRegion_def dumpRegionMetaSnapshot_def rbind_eq_Inr split: if_splits)

lemma resolve_turn_ok:
  assumes "resolve_turn api table_id start_ts q rg s = Inr (None, s')" "lr_status s' = RS_OK"
  shows "lr_status s = RS_OK \<and> peerState rg = Normal \<and> getVersion (rm_state (rg_meta rg)) = qi_version q
    \<and> getConfVersion (rm_state (rg_meta rg)) = qi_conf_version q \<and> getLockInfo \<lparr>read_tso = start_ts, bypass_lock_ts = qi_bypass_lock_ts q\<rparr> (rg_data rg) = None"
proof -
  let ?w = "resolveLocksAndWriteRegion api table_id start_ts (qi_bypass_lock_ts q) (qi_version q) (qi_conf_version q) rg (lr_storage s)"
  obtain res where res: "?w = Inr res" using assms(1) unfolding resolve_turn_def by (simp only: rbind_eq_Inr) blast
  obtain status rg' st1 where u: "res = Unlocked (status, rg', st1)"
  proof (cases res)
    case (Unlocked x)
    then show thesis using that by (cases x) auto
  qed (use assms(1) res in \<open>simp add: resolve_turn_def\<close>)
  have st: "status = RS_OK" "lr_status s = RS_OK"
    using assms res by (cases "status = RS_OK"; auto simp: resolve_turn_def u Let_def)+
  obtain out where out: "resolveLocksAndReadRegionData table_id start_ts (qi_bypass_lock_ts q) (qi_version q) (qi_conf_version q) True True rg = Inr out"
    using res unfolding resolveLocksAndWriteRegion_def by (simp only: rbind_eq_Inr) blast
  have "\<exists>rows rng. out = ReadDone rows RS_OK rng"
    using res st(1) unfolding u resolveLocksAndWriteRegion_def out by (cases out) (auto split: if_splits)
  then obtain rows rng where "resolveLocksAndReadRegionData table_id start_ts (qi_bypass_lock_ts q) (qi_version q) (qi_conf_version q) True True rg = Inr (ReadDone rows RS_OK rng)"
    using out by blast
  from locked_read_cases [OF this] st show ?thesis by auto
qed

lemma wait_turns_ok:
  assumes "wait_turns api table_id start_ts resolve_locks terminated turns s = Inr (None :: 'l LearnerRead option, s')" "lr_status s' = RS_OK"
  shows "lr_status s = RS_OK \<and> (\<forall>((q, c, w), resp) \<in> set turns. turn_waited resolve_locks start_ts q w (rr_read_index resp))"
  using assms
proof (induction api table_id start_ts resolve_locks terminated turns s rule: wait_turns.induct)
  case (2 api table_id start_ts resolve_locks terminated q c w resp turns s)
  have f: "region_waitIndex (rr_read_index resp) terminated w = Some False"
  proof (cases "region_waitIndex (rr_read_index resp) terminated w")
    case None
    then show ?thesis using "2.prems"(1) by simp
  next
    case (Some b)
    show ?thesis
    proof (cases b)
      case True
      then show ?thesis using "2.IH"(1) [OF Some] "2.prems" Some by simp
    qed (use Some in simp)
  qed
  then have i: "has_proxy w \<longrightarrow> doCheckIndex (rr_read_index resp) (rg_meta w)"
    by (auto simp: region_waitIndex_def waitIndex_pred_def split: if_splits)
  show ?case
  proof (cases resolve_locks)
    case False
    then show ?thesis using "2.IH"(2) [OF f] "2.prems" f i by (simp add: turn_waited_def)
  next
    case True
    obtain s1 where r: "resolve_turn api table_id start_ts q w s = Inr (None :: 'l LearnerRead option, s1)"
        "wait_turns api table_id start_ts resolve_locks terminated turns s1 = Inr (None, s')"
      using "2.prems"(1) f True by (auto simp: rbind_eq_Inr split: option.splits)
    have IH: "lr_status s1 = RS_OK \<and> (\<forall>((q, c, w), resp) \<in> set turns. turn_waited resolve_locks start_ts q w (rr_read_index resp))"
      using "2.IH"(3) [OF f] True r "2.prems"(2) by auto
    then show ?thesis using resolve_turn_ok [OF r(1)] i True by (simp add: turn_waited_def)
  qed
qed simp

lemma build_requests_ok:
  "build_requests start_ts turns = Inr (RS_OK, reqs) \<Longrightarrow>
   list_all2 (\<lambda>turn req. isValidRegion (fst turn) (fst (snd turn)) = Inr RS_OK \<and> GenRegionReadIndexReq (fst (snd turn)) start_ts = Inr req) turns reqs"
  by (induction start_ts turns arbitrary: reqs rule: build_requests.induct) (auto simp: rbind_eq_Inr split: if_splits)

lemma check_responses_ok:
  "check_responses res s = (e, b, s') \<Longrightarrow>
   (if b then s' = s \<and> e = None \<and> (\<forall>r \<in> set res. rr_region_error (fst r) = None \<and> rr_locked (fst r) = None) else e = None \<longrightarrow> lr_status s' \<noteq> RS_OK)"
  by (induction res s rule: check_responses.induct) (auto split: option.splits bool.splits if_splits)

lemma batch_wait_index_ok:
  assumes p: "\<And>reqs. batch_read_index proxy_helper reqs = map (\<lambda>r. (answer r, rq_region_id r)) reqs"
    and b: "batch_wait_index api proxy_helper table_id start_ts resolve_locks terminated turns s = Inr (None, s')" and s: "lr_status s' = RS_OK"
  shows "lr_status s = RS_OK \<and> (\<forall>(q, c, w) \<in> set turns. \<exists>req. turn_checked answer start_ts (q, c, w) req
    \<and> turn_waited resolve_locks start_ts q w (rr_read_index (answer req)))"
proof (cases "turns = []")
  case False
  have s0: "lr_status s = RS_OK"
  proof (rule ccontr)
    assume n: "lr_status s \<noteq> RS_OK"
    then have "s' = s" using b False by (simp add: batch_wait_index_def)
    then show False using n s by simp
  qed
  obtain status reqs where r: "build_requests start_ts turns = Inr (status, reqs)"
  proof (cases "build_requests start_ts turns")
    case (Inr x)
    then show thesis using that by (cases x) simp
  qed (use b s0 in \<open>simp add: batch_wait_index_def\<close>)
  have st: "status = RS_OK"
  proof (rule ccontr)
    assume n: "status \<noteq> RS_OK"
    then have "s' = s\<lparr>lr_status := status\<rparr>" using b s0 r by (simp add: batch_wait_index_def)
    then show False using n s by simp
  qed
  obtain e ok s1 where c: "check_responses (map (\<lambda>r. (answer r, rq_region_id r)) reqs) s = (e, ok, s1)" by (rule prod_cases3)
  have b1: "(case (e, ok, s1) of (Some x, _, s1) \<Rightarrow> Inr (Some x, s1) | (None, False, s1) \<Rightarrow> Inr (None, s1)
      | (None, True, s1) \<Rightarrow> wait_turns api table_id start_ts resolve_locks terminated (zip turns (map answer reqs)) s1) = Inr (None, s')"
    using b s0 r st c by (cases e; cases ok) (simp_all add: batch_wait_index_def p Let_def comp_def)
  have ok: "ok" "e = None"
  proof -
    show e: "e = None" using b1 by (cases e) simp_all
    show "ok" using b1 s check_responses_ok [OF c] by (cases ok) (simp_all add: e)
  qed
  note cr = check_responses_ok [OF c, unfolded ok(2)]
  have w: "wait_turns api table_id start_ts resolve_locks terminated (zip turns (map answer reqs)) s1 = Inr (None, s')"
    using b1 ok by simp
  note l = build_requests_ok [OF r [unfolded st]]
  have "\<exists>req. turn_checked answer start_ts t req \<and> turn_waited resolve_locks start_ts (fst t) (snd (snd t)) (rr_read_index (answer req))" if m: "t \<in> set turns" for t
  proof -
    obtain j where j: "j < length turns" "t = turns ! j" using m by (auto simp: in_set_conv_nth)
    have n: "j < length reqs" using j(1) list_all2_lengthD [OF l] by simp
    have "(t, answer (reqs ! j)) \<in> set (zip turns (map answer reqs))" using j n by (auto simp: set_zip)
    from bspec [OF conjunct2 [OF wait_turns_ok [OF w s]] this]
    have "turn_waited resolve_locks start_ts (fst t) (snd (snd t)) (rr_read_index (answer (reqs ! j)))" by (simp add: split_beta)
    moreover have "turn_checked answer start_ts t (reqs ! j)"
      using list_all2_nthD [OF l j(1)] cr ok(1) n by (auto simp: turn_checked_def j(2))
    ultimately show ?thesis by blast
  qed
  then show ?thesis using s0 by (simp add: split_beta)
qed (use b s p [of "[]"] in \<open>simp add: batch_wait_index_def\<close>)

lemma run_batches_ok:
  assumes "run_batches batch kss s = Inr (None, s')" "lr_status s' = RS_OK"
    and "\<And>ix s s'. batch ix s = Inr (None, s') \<Longrightarrow> lr_status s' = RS_OK \<Longrightarrow> lr_status s = RS_OK \<and> (\<forall>k \<in> set ix. P k)"
  shows "lr_status s = RS_OK \<and> (\<forall>k \<in> set (concat kss). P k)"
  using assms(1,2)
proof (induction kss arbitrary: s)
  case (Cons ix kss)
  obtain s1 where "batch ix s = Inr (None, s1)" "run_batches batch kss s1 = Inr (None, s')"
    using Cons.prems(1) by (auto simp: rbind_eq_Inr split: option.splits)
  then show ?case using Cons.IH [of s1] Cons.prems(2) assms(3) by fastforce
qed simp

lemma collect_regions_ok:
  assumes "collect_regions qs ks snap0 = Some snap" "\<forall>i flag. map_of snap0 i = Some flag \<longrightarrow> (\<exists>rg. ks_getRegion i ks = Some rg \<and> flag = snapshot_event_flag rg)"
  shows "map_of snap0 \<subseteq>\<^sub>m map_of snap
    \<and> (\<forall>q \<in> set qs. \<exists>rg. ks_getRegion (qi_region_id q) ks = Some rg \<and> map_of snap (qi_region_id q) = Some (snapshot_event_flag rg))"
  using assms
proof (induction qs ks snap0 rule: collect_regions.induct)
  case (2 q qs ks snap0)
  let ?i = "qi_region_id q"
  obtain rg where rg: "ks_getRegion ?i ks = Some rg" "collect_regions qs ks (fst (umap_emplace ?i (snapshot_event_flag rg) snap0)) = Some snap"
    using "2.prems"(1) by (auto split: option.splits)
  let ?s = "fst (umap_emplace ?i (snapshot_event_flag rg) snap0)"
  have e: "map_of ?s = (if map_of snap0 ?i = None then (map_of snap0)(?i \<mapsto> snapshot_event_flag rg) else map_of snap0)"
    by (auto simp: umap_emplace_def fun_eq_iff map_add_def split: option.splits)
  have "\<forall>i flag. map_of ?s i = Some flag \<longrightarrow> (\<exists>rg. ks_getRegion i ks = Some rg \<and> flag = snapshot_event_flag rg)"
    using "2.prems"(2) rg(1) by (auto simp: e)
  note IH = "2.IH" [OF rg this]
  have "map_of snap0 \<subseteq>\<^sub>m map_of ?s" "map_of ?s ?i = Some (snapshot_event_flag rg)" using "2.prems"(2) rg(1) by (fastforce simp: e map_le_def)+
  moreover from this(2) have "map_of snap ?i = Some (snapshot_event_flag rg)" using conjunct1 [OF IH] by (force simp: map_le_def dom_def)
  ultimately show ?case using IH rg(1) map_le_trans by auto
qed simp

text \<open>Only the end of the read gives a snapshot.\<close>

definition gives_up :: "'l LearnerRead option \<Rightarrow> bool" where
  "gives_up e \<longleftrightarrow> (\<forall>snap. e \<noteq> Some (LR_Snapshot snap))"

lemma check_responses_exit: "check_responses res s = (e, b, s') \<Longrightarrow> gives_up e"
  by (induction res s rule: check_responses.induct) (auto simp: gives_up_def split: option.splits bool.splits)

lemma resolve_turn_exit:
  assumes "resolve_turn api table_id start_ts q rg s = Inr (e, s')"
  shows "gives_up e"
proof -
  obtain res where res: "resolveLocksAndWriteRegion api table_id start_ts (qi_bypass_lock_ts q) (qi_version q) (qi_conf_version q) rg (lr_storage s) = Inr res"
    using assms unfolding resolve_turn_def by (simp only: rbind_eq_Inr) blast
  show ?thesis
  proof (cases res)
    case (Unlocked x)
    then show ?thesis using assms res by (cases x) (simp add: resolve_turn_def gives_up_def Let_def)
  qed (use assms res in \<open>auto simp: resolve_turn_def gives_up_def\<close>)
qed

lemma wait_turns_exit:
  "wait_turns api table_id start_ts resolve_locks terminated turns s = Inr (e :: 'l LearnerRead option, s') \<Longrightarrow> gives_up e"
proof (induction api table_id start_ts resolve_locks terminated turns s rule: wait_turns.induct)
  case (2 api table_id start_ts resolve_locks terminated q c w resp turns s)
  show ?case
  proof (cases "region_waitIndex (rr_read_index resp) terminated w")
    case None
    then show ?thesis using "2.prems" by (auto simp: gives_up_def)
  next
    case (Some b)
    show ?thesis
    proof (cases "b \<or> \<not> resolve_locks")
      case True
      then show ?thesis using "2.IH"(1,2) [OF Some] "2.prems" Some by (cases b) auto
    next
      case False
      then obtain x :: "'l LearnerRead option" and s1 where x: "resolve_turn api table_id start_ts q w s = Inr (x, s1)"
        using "2.prems" Some by (auto simp: rbind_eq_Inr)
      show ?thesis using resolve_turn_exit [OF x] "2.IH"(3) [OF Some] "2.prems" Some False x by (cases x) auto
    qed
  qed
qed (simp add: gives_up_def)

lemma batch_wait_index_exit:
  assumes "batch_wait_index api proxy_helper table_id start_ts resolve_locks terminated turns s = Inr (e, s')"
  shows "gives_up e"
proof (cases "build_requests start_ts turns")
  case (Inl x)
  then show ?thesis using assms by (auto simp: batch_wait_index_def gives_up_def split: if_splits)
next
  case (Inr x)
  obtain status reqs where x: "x = (status, reqs)" by (rule prod.exhaust)
  obtain y b s1 where c: "check_responses (batch_read_index proxy_helper reqs) s = (y, b, s1)" by (rule prod_cases3)
  show ?thesis
  proof (cases "turns \<noteq> [] \<and> lr_status s \<noteq> RS_OK \<or> status \<noteq> RS_OK")
    case True
    then show ?thesis using assms Inr x by (auto simp: batch_wait_index_def gives_up_def split: if_splits)
  next
    case False
    then show ?thesis
      using assms Inr x c check_responses_exit [OF c]
      by (cases y; cases b) (auto simp: batch_wait_index_def gives_up_def [of None] Let_def throw_def split: if_splits dest: wait_turns_exit)
  qed
qed

lemma run_batches_exit:
  "run_batches batch kss s = Inr (e, s') \<Longrightarrow> (\<And>ix s e s'. batch ix s = Inr (e, s') \<Longrightarrow> gives_up e) \<Longrightarrow> gives_up e"
proof (induction kss arbitrary: s)
  case (Cons ix kss)
  obtain x s1 where "batch ix s = Inr (x, s1)" using Cons.prems(1) by (auto simp: rbind_eq_Inr)
  then show ?case using Cons.IH [of s1] Cons.prems by (cases x) auto
qed (simp add: gives_up_def)

lemma doLearnerRead_cases:
  assumes "regions_to_query table_id mvcc ks = Inr infos"
    and "doLearnerRead tmt proxy_helper max_thread streams terminated contents table_id mvcc ks = Inr (Some (LR_Snapshot snap, written, st))"
  obtains begins s where "collect_regions infos ks [] = Some snap"
    "concat (map (batch_indices (length infos div concurrent_num max_thread streams (length infos)) (length infos)) begins) = [0 ..< length infos]"
    "run_batches (\<lambda>ix. batch_wait_index (tmt_api tmt) proxy_helper table_id (mq_read_tso mvcc) (mq_resolve_locks mvcc) terminated (map (\<lambda>k. (infos ! k, contents k)) ix))
      (map (batch_indices (length infos div concurrent_num max_thread streams (length infos)) (length infos)) begins)
      \<lparr>lr_status = RS_OK, lr_unavailable = InvalidRegionID, lr_storage = ks_storage ks, lr_written = []\<rparr> = Inr (None, s)" "lr_status s = RS_OK"
proof -
  let ?n = "length infos" and ?c = "concurrent_num max_thread streams (length infos)"
  let ?run = "\<lambda>begins. run_batches (\<lambda>ix. batch_wait_index (tmt_api tmt) proxy_helper table_id (mq_read_tso mvcc) (mq_resolve_locks mvcc) terminated (map (\<lambda>k. (infos ! k, contents k)) ix))
      (map (batch_indices (?n div ?c) ?n) begins) \<lparr>lr_status = RS_OK, lr_unavailable = InvalidRegionID, lr_storage = ks_storage ks, lr_written = []\<rparr>"
  obtain snap' where snap': "collect_regions infos ks [] = Some snap'"
    using assms by (cases "collect_regions infos ks []") (simp_all add: doLearnerRead_def throwRetryRegion_def)
  have c: "?c \<noteq> 0" "length snap' = ?n" using assms snap' by (auto simp: doLearnerRead_def Let_def throw_def split: if_splits)
  have "0 < max_thread" using c(1) by (cases max_thread) (simp_all add: concurrent_num_def)
  from batches_cover [OF this refl, of streams ?n] obtain begins
    where b: "(if ?c \<le> 1 then Some [0] else batch_begins (?n div ?c) ?n 0) = Some begins" "concat (map (batch_indices (?n div ?c) ?n) begins) = [0 ..< ?n]" by blast
  have "rbind (?run begins) (\<lambda>(e, s). Inr (Some (case e of Some x \<Rightarrow> x | None \<Rightarrow> if lr_status s \<noteq> RS_OK then throwRetryRegion infos (lr_status s) (lr_unavailable s)
      else LR_Snapshot snap', lr_written s, lr_storage s))) = Inr (Some (LR_Snapshot snap, written, st))"
    using assms(2) c unfolding doLearnerRead_def assms(1) rbind_Inr snap' option.case Let_def b by simp
  then obtain e s where r: "?run begins = Inr (e, s)" "(case e of Some x \<Rightarrow> x | None \<Rightarrow> if lr_status s \<noteq> RS_OK then throwRetryRegion infos (lr_status s) (lr_unavailable s)
      else LR_Snapshot snap') = LR_Snapshot snap"
    by (auto simp: rbind_eq_Inr)
  have "gives_up e" by (rule run_batches_exit [OF r(1)]) (rule batch_wait_index_exit)
  then have "e = None" using r(2) by (cases e) (auto simp: gives_up_def)
  moreover have "lr_status s = RS_OK" "snap' = snap" using r(2) by (auto simp: \<open>e = None\<close> throwRetryRegion_def split: if_splits)
  ultimately show thesis using that snap' b(2) r(1) by simp
qed

lemma validateQueryInfo_loop:
  "fold (\<lambda>q (ids, status). case validate_region replaced snap ks q of RS_OK \<Rightarrow> (ids, status) | st \<Rightarrow> (ids @ [qi_region_id q], st)) qs (ids0, st0)
   = (ids0 @ map qi_region_id (filter (\<lambda>q. validate_region replaced snap ks q \<noteq> RS_OK) qs),
      last (st0 # map (validate_region replaced snap ks) (filter (\<lambda>q. validate_region replaced snap ks q \<noteq> RS_OK) qs)))"
  by (induction qs arbitrary: ids0 st0) (auto split: RegionReadStatus.splits)

lemma validate_region_ok:
  "validate_region replaced snap ks q = RS_OK \<longleftrightarrow>
   (\<exists>rg. ks_getRegion (qi_region_id q) ks = Some rg \<and> map_of snap (qi_region_id q) = Some (snapshot_event_flag rg) \<and> \<not> replaced (qi_region_id q)
     \<and> getVersion (rm_state (rg_meta rg)) = qi_version q)"
  by (auto simp: validate_region_def snapshot_differs_def Let_def split: option.splits)

subsection \<open>Properties\<close>

text \<open>
  C4: a learner read that gives a snapshot has found every region of the query in the normal state and at the
  version of the query, has got its read index without a region error or a lock, and has waited until the
  region had applied that index (or was removed). When it resolves locks, the region was then still at that
  version and had no lock that blocks the read. The snapshot has the flag of every region of the query. The proxy
  gives one answer for every request.
\<close>

theorem learner_read_safe:
  assumes "regions_to_query table_id mvcc ks = Inr infos"
    and "\<And>reqs. batch_read_index proxy_helper reqs = map (\<lambda>r. (answer r, rq_region_id r)) reqs"
    and "doLearnerRead tmt proxy_helper max_thread streams terminated contents table_id mvcc ks = Inr (Some (LR_Snapshot snap, written, st))"
    and "k < length infos"
  shows "peerState (fst (contents k)) = Normal \<and> getVersion (rm_state (rg_meta (fst (contents k)))) = qi_version (infos ! k)
    \<and> getConfVersion (rm_state (rg_meta (fst (contents k)))) = qi_conf_version (infos ! k)
    \<and> (\<exists>req. GenRegionReadIndexReq (fst (contents k)) (mq_read_tso mvcc) = Inr req \<and> rr_region_error (answer req) = None \<and> rr_locked (answer req) = None
        \<and> (has_proxy (snd (contents k)) \<longrightarrow> doCheckIndex (rr_read_index (answer req)) (rg_meta (snd (contents k)))))
    \<and> (mq_resolve_locks mvcc \<longrightarrow> peerState (snd (contents k)) = Normal \<and> getVersion (rm_state (rg_meta (snd (contents k)))) = qi_version (infos ! k)
        \<and> getLockInfo \<lparr>read_tso = mq_read_tso mvcc, bypass_lock_ts = qi_bypass_lock_ts (infos ! k)\<rparr> (rg_data (snd (contents k))) = None)
    \<and> (\<exists>rg. ks_getRegion (qi_region_id (infos ! k)) ks = Some rg \<and> map_of snap (qi_region_id (infos ! k)) = Some (snapshot_event_flag rg))"
proof (rule doLearnerRead_cases [OF assms(1,3)])
  let ?n = "length infos" and ?c = "concurrent_num max_thread streams (length infos)"
  let ?batch = "\<lambda>ix. batch_wait_index (tmt_api tmt) proxy_helper table_id (mq_read_tso mvcc) (mq_resolve_locks mvcc) terminated (map (\<lambda>k. (infos ! k, contents k)) ix)"
  let ?P = "\<lambda>k. \<exists>req. turn_checked answer (mq_read_tso mvcc) (infos ! k, contents k) req
    \<and> turn_waited (mq_resolve_locks mvcc) (mq_read_tso mvcc) (infos ! k) (snd (contents k)) (rr_read_index (answer req))"
  fix begins s
  assume c: "collect_regions infos ks [] = Some snap" and b: "concat (map (batch_indices (?n div ?c) ?n) begins) = [0 ..< ?n]"
    and r: "run_batches ?batch (map (batch_indices (?n div ?c) ?n) begins)
      \<lparr>lr_status = RS_OK, lr_unavailable = InvalidRegionID, lr_storage = ks_storage ks, lr_written = []\<rparr> = Inr (None, s)" "lr_status s = RS_OK"
  have "lr_status s1 = RS_OK \<and> (\<forall>k \<in> set ix. ?P k)" if "?batch ix s1 = Inr (None, s2)" "lr_status s2 = RS_OK" for ix s1 s2
    using batch_wait_index_ok [OF assms(2) that] by (auto simp: split_beta)
  from run_batches_ok [OF r this] have "?P k" using assms(4) unfolding b by simp
  then obtain req where q: "turn_checked answer (mq_read_tso mvcc) (infos ! k, contents k) req"
      "turn_waited (mq_resolve_locks mvcc) (mq_read_tso mvcc) (infos ! k) (snd (contents k)) (rr_read_index (answer req))" by blast
  have "isValidRegion (infos ! k) (fst (contents k)) = Inr RS_OK" using q(1) by (simp add: turn_checked_def)
  from isValidRegion_ok [OF this] q collect_regions_ok [OF c] nth_mem [OF assms(4)] show ?thesis
    by (auto simp: turn_checked_def turn_waited_def)
qed

definition sample_query :: MvccQueryInfo where
  "sample_query = \<lparr>mq_resolve_locks = False, mq_read_tso = 30, mq_regions_query_info =
     [\<lparr>qi_region_id = 10, qi_version = 4, qi_conf_version = 2, qi_range_in_table = (genRawKey 1 0, genRawKey 1 50), qi_required_handle_ranges = [],
        qi_bypass_lock_ts = None\<rparr>]\<rparr>"

definition sample_proxy :: "unit proxy" where
  "sample_proxy reqs = map (\<lambda>r. (\<lparr>rr_region_error = None, rr_read_index = 5, rr_locked = None\<rparr>, rq_region_id r)) reqs"

theorem learner_read_safe_witness:
  "\<exists>ks snap written. doLearnerRead sample_tmt (Some sample_proxy) 1 1 False (\<lambda>k. (sample_region, sample_region)) 1 sample_query ks
       = Inr (Some (LR_Snapshot snap, written, [])) \<and> map_of snap 10 = Some 1 \<and> doCheckIndex 5 (rg_meta sample_region)"
proof -
  let ?ks = "(new_KVStore [] ([] :: RegionDataReadInfo list))\<lparr>ks_regions := [(10, sample_region)]\<rparr>"
  have v: "meta_getRange (rg_meta sample_region) = Inr (sample_keys 0 50)" "peerState sample_region = Normal" "getVersion (rm_state (rg_meta sample_region)) = 4"
      "getConfVersion (rm_state (rg_meta sample_region)) = 2" "has_proxy sample_region" "doCheckIndex 5 (rg_meta sample_region)"
    by (simp_all add: sample_region_def sample_meta_def sample_meta_region_def meta_getRange_def peerState_def meta_peerState_def doCheckIndex_def
        initialApplyState_def RAFT_INIT_LOG_INDEX_def state_defs)
  have "\<exists>snap written. doLearnerRead sample_tmt (Some sample_proxy) 1 1 False (\<lambda>k. (sample_region, sample_region)) 1 sample_query ?ks
       = Inr (Some (LR_Snapshot snap, written, []))"
    by (simp add: doLearnerRead_def regions_to_query_def sample_query_def ks_getRegion_def umap_emplace_def concurrent_num_def batch_indices_def
        batch_wait_index_def isValidRegion_def dumpRegionMetaSnapshot_def v GenRegionReadIndexReq_def batch_read_index_def sample_proxy_def
        region_waitIndex_def Let_def upt_rec) (simp add: new_KVStore_def)
  then obtain snap written where d: "doLearnerRead sample_tmt (Some sample_proxy) 1 1 False (\<lambda>k. (sample_region, sample_region)) 1 sample_query ?ks
       = Inr (Some (LR_Snapshot snap, written, []))" by blast
  have "map_of snap 10 = Some (snapshot_event_flag sample_region) \<and> doCheckIndex 5 (rg_meta sample_region)"
    using learner_read_safe [OF _ _ d, of "mq_regions_query_info sample_query" "\<lambda>r. \<lparr>rr_region_error = None, rr_read_index = 5, rr_locked = None\<rparr>" 0] v
    by (simp add: regions_to_query_def batch_read_index_def sample_proxy_def ks_getRegion_def sample_query_def)
  then show ?thesis using d by (auto simp: sample_region_def)
qed

text \<open>
  C29: the check after a query passes exactly when every region of the query is still the one of the snapshot, no
  snapshot has been applied to it in the meantime and it has the version of the query; otherwise it reports
  exactly the regions that fail.
\<close>

theorem query_validation:
  "validateQueryInfo replaced mvcc snap ks =
     (let failed = filter (\<lambda>q. \<not> (\<exists>rg. ks_getRegion (qi_region_id q) ks = Some rg \<and> map_of snap (qi_region_id q) = Some (snapshot_event_flag rg)
          \<and> \<not> replaced (qi_region_id q) \<and> getVersion (rm_state (rg_meta rg)) = qi_version q)) (mq_regions_query_info mvcc)
      in if failed = [] then None else Some (map qi_region_id failed, validate_region replaced snap ks (last failed)))"
  unfolding validateQueryInfo_def validateQueryInfo_loop
  by (auto simp: Let_def validate_region_ok last_map)

text \<open>
  C30: with at least one thread, which the configuration ensures, the loop that hands out the batches ends and the
  batches contain every region of the query exactly once.
\<close>

theorem learner_read_batches:
  assumes "0 < max_thread"
  shows "doLearnerRead tmt proxy_helper max_thread streams terminated contents table_id mvcc ks \<noteq> Inr None
    \<and> (let c = concurrent_num max_thread streams n in \<exists>begins. (if c \<le> 1 then Some [0] else batch_begins (n div c) n 0) = Some begins
        \<and> concat (map (batch_indices (n div c) n) begins) = [0 ..< n])"
proof -
  have "doLearnerRead tmt proxy_helper max_thread streams terminated contents table_id mvcc ks \<noteq> Inr None"
  proof (cases "regions_to_query table_id mvcc ks")
    case (Inr infos)
    let ?n = "length infos" and ?c = "concurrent_num max_thread streams (length infos)"
    obtain begins where "0 < ?c" "(if ?c \<le> 1 then Some [0] else batch_begins (?n div ?c) ?n 0) = Some begins"
      using batches_cover [OF assms refl, of streams ?n] by blast
    then show ?thesis
      unfolding doLearnerRead_def Inr rbind_Inr Let_def by (cases "collect_regions infos ks []") (auto simp: rbind_eq_Inr throw_def)
  qed (simp add: doLearnerRead_def)
  then show ?thesis using batches_cover [OF assms refl, of streams n] by (simp add: Let_def)
qed

theorem learner_read_batches_witness:
  "doLearnerRead sample_tmt (Some sample_proxy) 4 3 False (\<lambda>k. (sample_region, sample_region)) 1 sample_query (new_KVStore [] []) \<noteq> Inr None
   \<and> (\<exists>begins. batch_begins 2 7 0 = Some begins \<and> concat (map (batch_indices 2 7) begins) = [0 ..< 7])"
  using learner_read_batches [of 4 sample_tmt "Some sample_proxy" 3 False "\<lambda>k. (sample_region, sample_region)" 1 sample_query "new_KVStore [] []" 7]
  by (simp add: concurrent_num_def Let_def del: upt.upt_Suc)

end
