(* ===== verification/RowCodec.thy ===== *)
theory RowCodec
  imports DatumCodec StdMap
begin

unbundle bit_operations_syntax

section \<open>Rows\<close>

text \<open>
  \<open>Storages/Transaction/RowCodec.cpp\<close>: the two formats in which a row is the value of a record. In
  the first format every column is a pair of datums, its identifier and its field. The second format
  starts with the byte 128 and has the identifiers of the columns with and without a value, the
  offsets of the values and the values without a flag, so that the type of a column comes from the
  schema; identifiers and offsets are narrow, or wide in a big row. The part of
  \<open>Storages/Transaction/TiDB.h\<close> that rows depend on (types and flags of columns, tables) is here too.

  Identifiers of columns are \<open>Int64\<close> in the code and compared as signed numbers: here they are integers,
  cast where the code casts them. The loop of the first format is a partial function into \<^typ>\<open>'a option\<close>,
  since the cursor of a datum can move backwards and the loop then runs for ever.
\<close>

subsection \<open>Columns and tables\<close>

type_synonym ColumnID = int

datatype TP =
    TypeDecimal | TypeTiny | TypeShort | TypeLong | TypeFloat | TypeDouble | TypeNull | TypeTimestamp
  | TypeLongLong | TypeInt24 | TypeDate | TypeTime | TypeDatetime | TypeYear | TypeNewDate | TypeVarchar
  | TypeBit | TypeJSON | TypeNewDecimal | TypeEnum | TypeSet | TypeTinyBlob | TypeMediumBlob | TypeLongBlob
  | TypeBlob | TypeVarString | TypeString | TypeGeometry

fun type_codec_flag :: "TP \<Rightarrow> CodecFlag" where
  "type_codec_flag TypeDecimal = CodecFlagDecimal"
| "type_codec_flag TypeTiny = CodecFlagVarInt"
| "type_codec_flag TypeShort = CodecFlagVarInt"
| "type_codec_flag TypeLong = CodecFlagVarInt"
| "type_codec_flag TypeFloat = CodecFlagFloat"
| "type_codec_flag TypeDouble = CodecFlagFloat"
| "type_codec_flag TypeNull = CodecFlagNil"
| "type_codec_flag TypeTimestamp = CodecFlagUInt"
| "type_codec_flag TypeLongLong = CodecFlagInt"
| "type_codec_flag TypeInt24 = CodecFlagVarInt"
| "type_codec_flag TypeDate = CodecFlagUInt"
| "type_codec_flag TypeTime = CodecFlagDuration"
| "type_codec_flag TypeDatetime = CodecFlagUInt"
| "type_codec_flag TypeYear = CodecFlagInt"
| "type_codec_flag TypeNewDate = CodecFlagInt"
| "type_codec_flag TypeVarchar = CodecFlagCompactBytes"
| "type_codec_flag TypeBit = CodecFlagVarInt"
| "type_codec_flag TypeJSON = CodecFlagJson"
| "type_codec_flag TypeNewDecimal = CodecFlagDecimal"
| "type_codec_flag TypeEnum = CodecFlagVarUInt"
| "type_codec_flag TypeSet = CodecFlagVarUInt"
| "type_codec_flag TypeTinyBlob = CodecFlagCompactBytes"
| "type_codec_flag TypeMediumBlob = CodecFlagCompactBytes"
| "type_codec_flag TypeLongBlob = CodecFlagCompactBytes"
| "type_codec_flag TypeBlob = CodecFlagCompactBytes"
| "type_codec_flag TypeVarString = CodecFlagCompactBytes"
| "type_codec_flag TypeString = CodecFlagCompactBytes"
| "type_codec_flag TypeGeometry = CodecFlagCompactBytes"

text \<open>The default value of a column in the schema is a dynamic value, which \<open>ColumnInfo::defaultValueToField\<close>
  converts by the type of the column. That conversion (its switch on the type in \<open>TiDB.cpp\<close>) is not modelled: the
  record holds no default, or the field or exception that the conversion of the default gives.\<close>

record ColumnInfo =
  ci_id :: ColumnID
  ci_name :: string
  ci_tp :: TP
  ci_flag :: UInt32
  ci_flen :: Int32
  ci_decimal :: Int32
  ci_origin_default :: "Field result option"

definition hasNotNullFlag :: "ColumnInfo \<Rightarrow> bool" where
  "hasNotNullFlag column_info \<longleftrightarrow> ci_flag column_info AND 1 \<noteq> 0"

definition hasPriKeyFlag :: "ColumnInfo \<Rightarrow> bool" where
  "hasPriKeyFlag column_info \<longleftrightarrow> ci_flag column_info AND 2 \<noteq> 0"

definition hasUnsignedFlag :: "ColumnInfo \<Rightarrow> bool" where
  "hasUnsignedFlag column_info \<longleftrightarrow> ci_flag column_info AND 32 \<noteq> 0"

definition hasNoDefaultValueFlag :: "ColumnInfo \<Rightarrow> bool" where
  "hasNoDefaultValueFlag column_info \<longleftrightarrow> ci_flag column_info AND 4096 \<noteq> 0"

lemmas column_flags = hasNotNullFlag_def hasPriKeyFlag_def hasUnsignedFlag_def hasNoDefaultValueFlag_def

definition getCodecFlagBase :: "CodecFlag \<Rightarrow> bool \<Rightarrow> CodecFlag" where
  "getCodecFlagBase cf unsigned_flag =
     (case cf of
        CodecFlagVarInt \<Rightarrow> if unsigned_flag then CodecFlagVarUInt else CodecFlagVarInt
      | CodecFlagInt \<Rightarrow> if unsigned_flag then CodecFlagUInt else CodecFlagInt
      | _ \<Rightarrow> cf)"

definition getCodecFlag :: "ColumnInfo \<Rightarrow> CodecFlag" where
  "getCodecFlag column_info = getCodecFlagBase (type_codec_flag (ci_tp column_info)) (hasUnsignedFlag column_info)"

text \<open>An index is the list of the names of its columns.\<close>

record TableInfo =
  ti_columns :: "ColumnInfo list"
  ti_index_infos :: "string list list"
  ti_pk_is_handle :: bool
  ti_is_common_handle :: bool

definition getPrimaryIndexInfo :: "TableInfo \<Rightarrow> string list result" where
  "getPrimaryIndexInfo table_info = (case ti_index_infos table_info of [] \<Rightarrow> Inl OutOfBounds | i # _ \<Rightarrow> Inr i)"

definition getColumn :: "TableInfo \<Rightarrow> nat \<Rightarrow> ColumnInfo result" where
  "getColumn table_info i = (if i < length (ti_columns table_info) then Inr (ti_columns table_info ! i) else Inl OutOfBounds)"

definition inKey :: "TableInfo \<Rightarrow> ColumnInfo \<Rightarrow> bool" where
  "inKey table_info column_info \<longleftrightarrow>
     (ti_pk_is_handle table_info \<or> ti_is_common_handle table_info) \<and> hasPriKeyFlag column_info"

type_synonym ColumnIdToIndex = "(ColumnID \<times> nat) list"

subsection \<open>Decoded rows\<close>

type_synonym DecodedField = "ColumnID \<times> Field"
type_synonym DecodedFields = "DecodedField list"

record DecodedRow =
  has_missing_columns :: bool
  unknown_fields :: DecodedFields
  with_codec_flag :: bool
  decoded_fields :: DecodedFields

fun isSortedByColumnID :: "DecodedFields \<Rightarrow> bool" where
  "isSortedByColumnID (a # b # fs) \<longleftrightarrow> \<not> fst a \<ge> fst b \<and> isSortedByColumnID (b # fs)"
| "isSortedByColumnID fs \<longleftrightarrow> True"

definition new_DecodedRow :: "bool \<Rightarrow> DecodedFields \<Rightarrow> bool \<Rightarrow> DecodedFields \<Rightarrow> DecodedRow result" where
  "new_DecodedRow missing unknown has_codec_flag decoded =
     (if \<not> isSortedByColumnID decoded \<or> \<not> isSortedByColumnID unknown then throw '': should be sorted by column id''
      else Inr \<lparr>has_missing_columns = missing, unknown_fields = unknown, with_codec_flag = has_codec_flag,
        decoded_fields = decoded\<rparr>)"

text \<open>\<open>std::lower_bound\<close> on a sorted vector: the first element that is not smaller.\<close>

definition findByColumnID :: "ColumnID \<Rightarrow> DecodedFields \<Rightarrow> DecodedField option" where
  "findByColumnID col_id row =
     (case dropWhile (\<lambda>e. fst e < col_id) row of
        it # _ \<Rightarrow> if fst it = col_id then Some it else None
      | [] \<Rightarrow> None)"

fun hasMissingColumns :: "DecodedFields \<Rightarrow> TableInfo \<Rightarrow> ColumnIdToIndex \<Rightarrow> bool result" where
  "hasMissingColumns decoded table_info [] = Inr False"
| "hasMissingColumns decoded table_info (id_to_idx # column_lut) =
     rbind (getColumn table_info (snd id_to_idx)) (\<lambda>column_info.
       if findByColumnID (ci_id column_info) decoded \<noteq> None then hasMissingColumns decoded table_info column_lut
       else if \<not> (ti_is_common_handle table_info \<and> hasPriKeyFlag column_info) \<and> hasNoDefaultValueFlag column_info
         \<and> hasNotNullFlag column_info then Inr True
       else hasMissingColumns decoded table_info column_lut)"

subsection \<open>Integers of a row\<close>

text \<open>A number of \<open>w\<close> bytes as a word that is wide enough for all of them; the character after the end of
  the string is 0.\<close>

definition decodeUInt :: "nat \<Rightarrow> nat \<Rightarrow> bytes \<Rightarrow> (UInt64 \<times> nat) result" where
  "decodeUInt w cursor raw_value =
     (if cursor + w \<le> length raw_value + 1 then Inr (load_le (take w (drop cursor (raw_value @ [0]))), cursor + w)
      else Inl OutOfBounds)"

definition encodeUInt :: "nat \<Rightarrow> UInt64 \<Rightarrow> bytes" where
  "encodeUInt w u = mem_of w u"

fun decodeUInts :: "nat \<Rightarrow> nat \<Rightarrow> nat \<Rightarrow> bytes \<Rightarrow> (UInt64 list \<times> nat) result" where
  "decodeUInts w 0 cursor raw_value = Inr ([], cursor)"
| "decodeUInts w (Suc n) cursor raw_value =
     rbind (decodeUInt w cursor raw_value) (\<lambda>(x, cursor1).
     rbind (decodeUInts w n cursor1 raw_value) (\<lambda>(xs, cursor2). Inr (x # xs, cursor2)))"

definition castIntWithSign :: "bool \<Rightarrow> nat \<Rightarrow> UInt64 \<Rightarrow> UInt64" where
  "castIntWithSign is_signed w i = (if is_signed then signed_take_bit (8 * w - 1) i else i)"

definition decodeIntWithLength :: "bool \<Rightarrow> bytes \<Rightarrow> nat \<Rightarrow> UInt64 \<Rightarrow> UInt64 result" where
  "decodeIntWithLength is_signed raw_value pos len =
     (if len \<in> {1, 2, 4, 8}
      then rbind (decodeUInt (unat len) pos raw_value) (\<lambda>(i, _). Inr (castIntWithSign is_signed (unat len) i))
      else throw ''Invalid integer length '')"

definition castIntWithLength :: "bool \<Rightarrow> nat \<Rightarrow> UInt64 \<Rightarrow> UInt64" where
  "castIntWithLength is_signed w i = (if is_signed then signed_take_bit (8 * w - 1) i else take_bit (8 * w) i)"

definition encodeIntWithLength :: "bool \<Rightarrow> UInt64 \<Rightarrow> bytes" where
  "encodeIntWithLength is_signed i =
     (if castIntWithLength is_signed 1 i = i then encodeUInt 1 (castIntWithLength is_signed 1 i)
      else if castIntWithLength is_signed 2 i = i then encodeUInt 2 (castIntWithLength is_signed 2 i)
      else if castIntWithLength is_signed 4 i = i then encodeUInt 4 (castIntWithLength is_signed 4 i)
      else encodeUInt 8 i)"

subsection \<open>Values of columns\<close>

definition str_substr :: "bytes \<Rightarrow> nat \<Rightarrow> UInt64 \<Rightarrow> bytes result" where
  "str_substr s pos n = (if length s < pos then Inl OutOfRange else Inr (take (unat n) (drop pos s)))"

definition decodeNotNullColumn :: "nat \<Rightarrow> bytes \<Rightarrow> UInt64 \<Rightarrow> ColumnInfo \<Rightarrow> Field result" where
  "decodeNotNullColumn cursor raw_value len column_info =
     (let tp = ci_tp column_info in
      if tp \<in> {TypeLongLong, TypeLong, TypeInt24, TypeShort, TypeTiny} then
        (if hasUnsignedFlag column_info then rbind (decodeIntWithLength False raw_value cursor len) (\<lambda>i. Inr (FUInt64 i))
         else rbind (decodeIntWithLength True raw_value cursor len) (\<lambda>i. Inr (FInt64 i)))
      else if tp = TypeYear then rbind (decodeIntWithLength True raw_value cursor len) (\<lambda>i. Inr (FInt64 i))
      else if tp \<in> {TypeFloat, TypeDouble} then rbind (DecodeFloat64 cursor raw_value) (\<lambda>(x, _). Inr (FFloat64 x))
      else if tp \<in> {TypeVarString, TypeVarchar, TypeString, TypeBlob, TypeTinyBlob, TypeMediumBlob, TypeLongBlob, TypeJSON} then
        rbind (str_substr raw_value cursor len) (\<lambda>s. Inr (FString s))
      else if tp = TypeNewDecimal then rbind (DecodeDecimal cursor raw_value) (\<lambda>(f, _). Inr f)
      else if tp \<in> {TypeTimestamp, TypeDate, TypeDatetime, TypeBit, TypeSet, TypeEnum} then
        rbind (decodeIntWithLength False raw_value cursor len) (\<lambda>i. Inr (FUInt64 i))
      else if tp = TypeTime then rbind (decodeIntWithLength True raw_value cursor len) (\<lambda>i. Inr (FInt64 i))
      else throw ''Invalid TP '')"

definition encodeNotNullColumn :: "Field \<Rightarrow> ColumnInfo \<Rightarrow> bytes result" where
  "encodeNotNullColumn field column_info =
     (let tp = ci_tp column_info in
      if tp \<in> {TypeLongLong, TypeLong, TypeInt24, TypeShort, TypeTiny} then
        (if hasUnsignedFlag column_info then rbind (safeGet_UInt64 field) (\<lambda>i. Inr (encodeIntWithLength False i))
         else rbind (safeGet_Int64 field) (\<lambda>i. Inr (encodeIntWithLength True i)))
      else if tp = TypeYear then rbind (safeGet_Int64 field) (\<lambda>i. Inr (encodeIntWithLength True i))
      else if tp \<in> {TypeFloat, TypeDouble} then rbind (safeGet_Float64 field) (\<lambda>x. Inr (EncodeFloat64 x))
      else if tp \<in> {TypeVarString, TypeVarchar, TypeString, TypeBlob, TypeTinyBlob, TypeMediumBlob, TypeLongBlob, TypeJSON} then
        safeGet_String field
      else if tp = TypeNewDecimal then EncodeDecimal field
      else if tp \<in> {TypeTimestamp, TypeDate, TypeDatetime, TypeBit, TypeSet, TypeEnum} then
        rbind (safeGet_UInt64 field) (\<lambda>i. Inr (encodeIntWithLength False i))
      else if tp = TypeTime then rbind (safeGet_Int64 field) (\<lambda>i. Inr (encodeIntWithLength True i))
      else throw ''Invalid TP '')"

subsection \<open>Decoding the second format\<close>

definition ROW_V2 :: UInt8 where "ROW_V2 = 128"
definition BigRowMask :: UInt8 where "BigRowMask = 0x1"

definition ColumnIDType :: "bool \<Rightarrow> nat" where "ColumnIDType is_big = (if is_big then 4 else 1)"
definition ValueOffsetType :: "bool \<Rightarrow> nat" where "ValueOffsetType is_big = (if is_big then 4 else 2)"

record RowDecoderV2 =
  rd_not_null_column_ids :: "ColumnID list"
  rd_null_column_ids :: "ColumnID list"
  rd_value_offsets :: "UInt64 list"
  rd_values_start_pos :: nat

definition decode_header :: "bool \<Rightarrow> bytes \<Rightarrow> RowDecoderV2 result" where
  "decode_header is_big raw_value =
     rbind (decodeUInt 2 2 raw_value) (\<lambda>(num_not_null_columns, cursor1).
     rbind (decodeUInt 2 cursor1 raw_value) (\<lambda>(num_null_columns, cursor2).
     rbind (decodeUInts (ColumnIDType is_big) (unat num_not_null_columns) cursor2 raw_value) (\<lambda>(not_null_ids, cursor3).
     rbind (decodeUInts (ColumnIDType is_big) (unat num_null_columns) cursor3 raw_value) (\<lambda>(null_ids, cursor4).
     rbind (decodeUInts (ValueOffsetType is_big) (unat num_not_null_columns) cursor4 raw_value) (\<lambda>(offsets, cursor5).
       Inr \<lparr>rd_not_null_column_ids = map uint not_null_ids, rd_null_column_ids = map uint null_ids,
         rd_value_offsets = offsets, rd_values_start_pos = cursor5\<rparr>)))))"

text \<open>The flag of a decoded column tells that the schema does not know it.\<close>

definition decodeNullColumn :: "ColumnIdToIndex \<Rightarrow> RowDecoderV2 \<Rightarrow> nat \<Rightarrow> DecodedField \<times> bool" where
  "decodeNullColumn column_lut rd i =
     ((rd_null_column_ids rd ! i, Null), map_of column_lut (rd_null_column_ids rd ! i) = None)"

definition decodeNotNullColumn_at :: "TableInfo \<Rightarrow> ColumnIdToIndex \<Rightarrow> bytes \<Rightarrow> RowDecoderV2 \<Rightarrow> nat \<Rightarrow> (DecodedField \<times> bool) result" where
  "decodeNotNullColumn_at table_info column_lut raw_value rd i =
     (let column_id = rd_not_null_column_ids rd ! i;
          start = (if i \<noteq> 0 then rd_value_offsets rd ! (i - 1) else 0);
          len = rd_value_offsets rd ! i - start;
          cursor = rd_values_start_pos rd + unat start
      in case map_of column_lut column_id of
           None \<Rightarrow> rbind (str_substr raw_value cursor len) (\<lambda>s. Inr ((column_id, FString s), True))
         | Some idx \<Rightarrow> rbind (getColumn table_info idx) (\<lambda>column_info.
             rbind (decodeNotNullColumn cursor raw_value len column_info) (\<lambda>f. Inr ((column_id, f), False))))"

function merge_columns :: "(nat \<Rightarrow> (DecodedField \<times> bool) result) \<Rightarrow> (nat \<Rightarrow> DecodedField \<times> bool) \<Rightarrow> ColumnID list \<Rightarrow> ColumnID list \<Rightarrow>
    nat \<Rightarrow> nat \<Rightarrow> (DecodedField \<times> bool) list result" where
  "merge_columns not_null_column null_column not_null_ids null_ids id_not_null id_null =
     (if id_not_null < length not_null_ids \<or> id_null < length null_ids then
        (let is_null = (if id_not_null < length not_null_ids \<and> id_null < length null_ids
                        then not_null_ids ! id_not_null > null_ids ! id_null else id_null < length null_ids)
         in if is_null
            then rbind (merge_columns not_null_column null_column not_null_ids null_ids id_not_null (id_null + 1)) (\<lambda>res.
              Inr (null_column id_null # res))
            else rbind (not_null_column id_not_null) (\<lambda>r.
              rbind (merge_columns not_null_column null_column not_null_ids null_ids (id_not_null + 1) id_null) (\<lambda>res.
                Inr (r # res))))
      else Inr [])"
  by pat_completeness auto
termination by (relation "measure (\<lambda>(_, _, ns, zs, i, j). (length ns - i) + (length zs - j))") (auto split: if_splits)

declare merge_columns.simps [simp del]

definition RowDecoderV2_decode :: "bool \<Rightarrow> bytes \<Rightarrow> TableInfo \<Rightarrow> ColumnIdToIndex \<Rightarrow> DecodedRow result" where
  "RowDecoderV2_decode is_big raw_value table_info column_lut =
     rbind (decode_header is_big raw_value) (\<lambda>rd.
     rbind (merge_columns (decodeNotNullColumn_at table_info column_lut raw_value rd) (decodeNullColumn column_lut rd)
       (rd_not_null_column_ids rd) (rd_null_column_ids rd) 0 0) (\<lambda>res.
       let unknown = map fst (filter snd res);
           decoded = map fst (filter (\<lambda>r. \<not> snd r) res)
       in rbind (hasMissingColumns decoded table_info column_lut) (\<lambda>missing.
            new_DecodedRow missing unknown False decoded)))"

definition decodeRowV2 :: "bytes \<Rightarrow> TableInfo \<Rightarrow> ColumnIdToIndex \<Rightarrow> DecodedRow result" where
  "decodeRowV2 raw_value table_info column_lut =
     rbind (decodeUInt 1 1 raw_value) (\<lambda>(row_flag, _).
       RowDecoderV2_decode (ucast row_flag AND BigRowMask \<noteq> 0) raw_value table_info column_lut)"

definition decodeUnknownColumnV2 :: "Field \<Rightarrow> ColumnInfo \<Rightarrow> Field result" where
  "decodeUnknownColumnV2 unknown column_info =
     (if unknown = Null then Inr Null
      else rbind (safeGet_String unknown) (\<lambda>raw_value.
        decodeNotNullColumn 0 raw_value (of_nat (length raw_value)) column_info))"

subsection \<open>Decoding the first format\<close>

text \<open>\<open>Field::get\<close> reads the storage of the field as the requested type.\<close>

definition get_ColumnID :: "Field \<Rightarrow> ColumnID result" where
  "get_ColumnID f = (case f of FInt64 x \<Rightarrow> Inr (sint x) | FUInt64 x \<Rightarrow> Inr (sint x) | FFloat64 x \<Rightarrow> Inr (sint x) | _ \<Rightarrow> Inl OutOfBounds)"

partial_function (option) decode_fields :: "bytes \<Rightarrow> nat \<Rightarrow> DecodedFields \<Rightarrow> (DecodedFields \<times> nat) result option" where
  "decode_fields raw_value cursor row_fields =
     (if cursor < length raw_value then
        (case DecodeDatum cursor raw_value of
           Inl e \<Rightarrow> Some (Inl e)
         | Inr (f, cursor1) \<Rightarrow>
             if f = Null then Some (Inr (row_fields, cursor1))
             else (case get_ColumnID f of
                 Inl e \<Rightarrow> Some (Inl e)
               | Inr col_id \<Rightarrow>
                   (case DecodeDatum cursor1 raw_value of
                      Inl e \<Rightarrow> Some (Inl e)
                    | Inr (v, cursor2) \<Rightarrow> decode_fields raw_value cursor2 (row_fields @ [(col_id, v)]))))
      else Some (Inr (row_fields, cursor)))"

definition analyze_schema :: "DecodedFields \<Rightarrow> TableInfo \<Rightarrow> ColumnIdToIndex \<Rightarrow> DecodedRow result" where
  "analyze_schema decoded0 table_info column_lut =
     (let known = (\<lambda>item. map_of column_lut (fst item) \<noteq> None);
          schema_match = (length decoded0 = length column_lut \<and> list_all known decoded0);
          decoded = (if schema_match then decoded0 else filter known decoded0);
          unknown = (if schema_match then [] else filter (\<lambda>item. \<not> known item) decoded0)
      in rbind (hasMissingColumns decoded table_info column_lut) (\<lambda>missing.
           new_DecodedRow missing unknown True decoded))"

definition decodeRowV1 :: "bytes \<Rightarrow> TableInfo \<Rightarrow> ColumnIdToIndex \<Rightarrow> DecodedRow result option" where
  "decodeRowV1 raw_value table_info column_lut =
     map_option (\<lambda>r. rbind r (\<lambda>(row_fields, cursor).
       if cursor \<noteq> length raw_value then throw '': cursor is not end, remaining: ''
       else analyze_schema (sort_key fst row_fields) table_info column_lut))
     (decode_fields raw_value 0 [])"

definition decodeRow :: "bytes \<Rightarrow> TableInfo \<Rightarrow> ColumnIdToIndex \<Rightarrow> DecodedRow result option" where
  "decodeRow raw_value table_info column_lut =
     (if (if raw_value = [] then 0 else hd raw_value) = ROW_V2
      then Some (decodeRowV2 raw_value table_info column_lut)
      else decodeRowV1 raw_value table_info column_lut)"

subsection \<open>Encoding\<close>

definition column_in_key :: "TableInfo \<Rightarrow> nat result" where
  "column_in_key table_info =
     (if ti_pk_is_handle table_info then Inr 1
      else if ti_is_common_handle table_info then rbind (getPrimaryIndexInfo table_info) (\<lambda>idx. Inr (length idx))
      else Inr 0)"

definition field_at :: "Field list \<Rightarrow> nat \<Rightarrow> Field result" where
  "field_at row_fields i = (if i < length row_fields then Inr (row_fields ! i) else Inl OutOfBounds)"

fun encodeRowV1_loop :: "TableInfo \<Rightarrow> Field list \<Rightarrow> ColumnInfo list \<Rightarrow> nat \<Rightarrow> bytes \<Rightarrow> bytes result" where
  "encodeRowV1_loop table_info row_fields [] index ss = Inr ss"
| "encodeRowV1_loop table_info row_fields (column_info # columns) index ss =
     (if inKey table_info column_info then encodeRowV1_loop table_info row_fields columns index ss
      else rbind (EncodeDatum (FInt64 (word_of_int (ci_id column_info))) CodecFlagInt) (\<lambda>bs1.
           rbind (field_at row_fields index) (\<lambda>field.
           rbind (EncodeDatum field (getCodecFlag column_info)) (\<lambda>bs2.
             encodeRowV1_loop table_info row_fields columns (index + 1) (ss @ bs1 @ bs2)))))"

definition encodeRowV1 :: "TableInfo \<Rightarrow> Field list \<Rightarrow> bytes result" where
  "encodeRowV1 table_info row_fields =
     rbind (column_in_key table_info) (\<lambda>n.
       if length (ti_columns table_info) \<noteq> length row_fields + n then throw ''Encoding row has ''
       else encodeRowV1_loop table_info row_fields (ti_columns table_info) 0 [])"

record RowEncoderV2 =
  re_is_big :: bool
  re_value_length :: UInt64
  re_num_not_null_columns :: UInt64
  re_num_null_columns :: UInt64
  re_not_null_column_id_values :: "(ColumnID \<times> bytes) list"
  re_null_column_ids :: "(ColumnID \<times> unit) list"

fun encode_columns :: "TableInfo \<Rightarrow> Field list \<Rightarrow> ColumnInfo list \<Rightarrow> nat \<Rightarrow> RowEncoderV2 \<Rightarrow> RowEncoderV2 result" where
  "encode_columns table_info row_fields [] i_val st = Inr st"
| "encode_columns table_info row_fields (column_info # columns) i_val st =
     (if inKey table_info column_info then encode_columns table_info row_fields columns i_val st
      else
        (let st1 = (if ci_id column_info > 255 then st\<lparr>re_is_big := True\<rparr> else st)
         in rbind (field_at row_fields i_val) (\<lambda>field.
            rbind (if field \<noteq> Null
                   then rbind (encodeNotNullColumn field column_info) (\<lambda>v.
                     Inr (st1\<lparr>re_num_not_null_columns := re_num_not_null_columns st1 + 1,
                       re_value_length := re_value_length st1 + of_nat (length v),
                       re_not_null_column_id_values := fst (map_emplace (ci_id column_info) v (re_not_null_column_id_values st1))\<rparr>))
                   else Inr (st1\<lparr>re_num_null_columns := re_num_null_columns st1 + 1,
                     re_null_column_ids := fst (map_emplace (ci_id column_info) () (re_null_column_ids st1))\<rparr>)) (\<lambda>st2.
              encode_columns table_info row_fields columns (i_val + 1) st2))))"

definition encodeColumnIDs :: "nat \<Rightarrow> RowEncoderV2 \<Rightarrow> bytes" where
  "encodeColumnIDs w st =
     concat (map (\<lambda>p. encodeUInt w (word_of_int (fst p))) (re_not_null_column_id_values st))
     @ concat (map (\<lambda>p. encodeUInt w (word_of_int (fst p))) (re_null_column_ids st))"

fun encodeValueOffsets :: "nat \<Rightarrow> UInt64 \<Rightarrow> (ColumnID \<times> bytes) list \<Rightarrow> bytes" where
  "encodeValueOffsets w offset [] = []"
| "encodeValueOffsets w offset ((_, v) # vs) =
     (let offset' = take_bit (8 * w) (offset + take_bit (8 * w) (of_nat (length v)))
      in encodeUInt w offset' @ encodeValueOffsets w offset' vs)"

definition encodeRowV2 :: "TableInfo \<Rightarrow> Field list \<Rightarrow> bytes result" where
  "encodeRowV2 table_info row_fields =
     rbind (column_in_key table_info) (\<lambda>n.
       if length (ti_columns table_info) \<noteq> length row_fields + n then throw ''Encoding row has ''
       else rbind (encode_columns table_info row_fields (ti_columns table_info) 0
           \<lparr>re_is_big = False, re_value_length = 0, re_num_not_null_columns = 0, re_num_null_columns = 0,
            re_not_null_column_id_values = [], re_null_column_ids = []\<rparr>) (\<lambda>st.
         let is_big = (re_is_big st \<or> re_value_length st > 65535)
         in Inr (encodeUInt 1 (ucast ROW_V2) @ encodeUInt 1 (if is_big then ucast BigRowMask else 0)
              @ encodeUInt 2 (re_num_not_null_columns st) @ encodeUInt 2 (re_num_null_columns st)
              @ encodeColumnIDs (ColumnIDType is_big) st
              @ encodeValueOffsets (ValueOffsetType is_big) 0 (re_not_null_column_id_values st)
              @ concat (map snd (re_not_null_column_id_values st)))))"

subsection \<open>Round trips of numbers and values\<close>

lemma load_le_mem_of_take:
  assumes "w \<le> 8"
  shows "(load_le (mem_of w (x :: UInt64)) :: UInt64) = take_bit (8 * w) x"
proof (rule bit_word_eqI)
  fix k assume k: "k < LENGTH(64)"
  have "k div 8 < w \<longleftrightarrow> k < 8 * w" by auto
  then show "bit (load_le (mem_of w x) :: UInt64) k = bit (take_bit (8 * w) x) k"
    using k by (auto simp: bit_load_le bit_nth_mem_of bit_take_bit_iff)
qed

lemma length_encodeUInt [simp]: "length (encodeUInt w x) = w"
  by (simp add: encodeUInt_def)

lemma decodeUInt_at:
  assumes "w \<le> 8"
  shows "decodeUInt w (length pre) (pre @ encodeUInt w x @ rest) = Inr (take_bit (8 * w) x, length pre + w)"
  using assms by (simp add: decodeUInt_def encodeUInt_def load_le_mem_of_take)

lemma decodeUInts_at:
  assumes "w \<le> 8"
  shows "decodeUInts w (length xs) (length pre) (pre @ concat (map (encodeUInt w) xs) @ rest) =
    Inr (map (take_bit (8 * w)) xs, length pre + w * length xs)"
proof (induction xs arbitrary: pre)
  case (Cons x xs)
  show ?case using decodeUInt_at [OF assms, of pre x "concat (map (encodeUInt w) xs) @ rest"] Cons.IH [of "pre @ encodeUInt w x"]
    by simp
qed simp

lemma castIntWithLength_64: "castIntWithLength is_signed 8 i = i"
proof (rule bit_word_eqI)
  fix k assume k: "k < LENGTH(64)"
  then have "min 63 k = k" by simp
  then show "bit (castIntWithLength is_signed 8 i) k = bit i k" using k
    by (simp add: castIntWithLength_def bit_signed_take_bit_iff bit_take_bit_iff)
qed

lemma cast_back:
  assumes "0 < w"
  shows "castIntWithSign is_signed w (take_bit (8 * w) (castIntWithLength is_signed w i)) = castIntWithLength is_signed w i"
  using assms by (auto simp: castIntWithSign_def castIntWithLength_def signed_take_bit_take_bit)

lemma encodeIntWithLength_cases:
  obtains w where "w \<in> {1, 2, 4, 8}" "encodeIntWithLength is_signed i = encodeUInt w i" "castIntWithLength is_signed w i = i"
  using castIntWithLength_64 [of is_signed i] unfolding encodeIntWithLength_def by (smt (verit) insertCI)

lemma decodeIntWithLength_at:
  "decodeIntWithLength is_signed (pre @ encodeIntWithLength is_signed i @ rest) (length pre)
     (of_nat (length (encodeIntWithLength is_signed i))) = Inr i"
proof -
  obtain w where w: "w \<in> {1, 2, 4, 8}" "encodeIntWithLength is_signed i = encodeUInt w i" "castIntWithLength is_signed w i = i"
    by (rule encodeIntWithLength_cases)
  have "w \<le> 8" "0 < w" "unat (of_nat w :: UInt64) = w" "(of_nat w :: UInt64) \<in> {1, 2, 4, 8}" using w(1) by auto
  then show ?thesis using decodeUInt_at [of w pre i rest] cast_back [of w is_signed i] w(2,3)
    by (simp add: decodeIntWithLength_def)
qed

text \<open>Decimals that the datum codec can hold; every other field is restricted by its column only.\<close>

fun decimal_ok :: "Field \<Rightarrow> bool" where
  "decimal_ok (FDecimal ty v scale) \<longleftrightarrow> \<bar>v\<bar> < 10 ^ 65 \<and> scale \<le> 30"
| "decimal_ok _ \<longleftrightarrow> True"

lemma str_substr_at: "length s < 2 ^ 64 \<Longrightarrow> str_substr (pre @ s @ rest) (length pre) (of_nat (length s)) = Inr s"
  by (simp add: str_substr_def unat_of_nat_64)

lemma safeGet_Inr:
  "safeGet_UInt64 f = Inr x \<longleftrightarrow> f = FUInt64 x" "safeGet_Int64 f = Inr x \<longleftrightarrow> f = FInt64 x"
  "safeGet_Float64 f = Inr x \<longleftrightarrow> f = FFloat64 x" "safeGet_String f = Inr s \<longleftrightarrow> f = FString s"
  by (auto simp: safeGet_UInt64_def safeGet_Int64_def safeGet_Float64_def safeGet_String_def split: Field.splits)

lemma EncodeDecimal_is_decimal: "EncodeDecimal f = Inr bs \<Longrightarrow> \<exists>ty v scale. f = FDecimal ty v scale"
  by (auto simp: EncodeDecimal_def split: Field.splits)

lemma EncodeDecimal_at:
  assumes "EncodeDecimal f = Inr bs" "decimal_ok f"
  shows "DecodeDecimal (length pre) (pre @ bs @ rest) = Inr (datum_image f, length pre + length bs)"
proof -
  obtain ty v scale where f: "f = FDecimal ty v scale" using EncodeDecimal_is_decimal [OF assms(1)] by blast
  then have "nat \<bar>v\<bar> < 10 ^ 65" "scale \<le> 30" using assms(2) by auto
  from DecodeDecimal_EncodeDecimal [OF this, of ty pre rest] show ?thesis using assms(1) f by auto
qed

lemma decodeNotNullColumn_encode:
  assumes "encodeNotNullColumn f c = Inr bs" "decimal_ok f" "length bs < 2 ^ 64"
  shows "decodeNotNullColumn (length pre) (pre @ bs @ rest) (of_nat (length bs)) c = Inr (datum_image f)"
  using assms decodeIntWithLength_at [of _ pre _ rest] str_substr_at [of bs pre rest] DecodeFloat64_EncodeFloat64 [of pre _ rest]
    EncodeDecimal_at [of f bs pre rest]
  by (cases "ci_tp c") (auto simp: encodeNotNullColumn_def decodeNotNullColumn_def rbind_eq_Inr safeGet_Inr split: if_splits)

subsection \<open>What the encoder collects\<close>

definition value_columns :: "TableInfo \<Rightarrow> ColumnInfo list" where
  "value_columns table_info = filter (\<lambda>c. \<not> inKey table_info c) (ti_columns table_info)"

definition not_null_values :: "(ColumnInfo \<times> Field) list \<Rightarrow> (ColumnID \<times> bytes) list" where
  "not_null_values ps = map (\<lambda>(c, f). (ci_id c, projr (encodeNotNullColumn f c))) (filter (\<lambda>p. snd p \<noteq> Null) ps)"

definition null_columns :: "(ColumnInfo \<times> Field) list \<Rightarrow> (ColumnID \<times> unit) list" where
  "null_columns ps = map (\<lambda>(c, f). (ci_id c, ())) (filter (\<lambda>p. snd p = Null) ps)"

lemma collected_Cons [simp]:
  "not_null_values [] = []" "null_columns [] = []"
  "not_null_values ((c, f) # ps) = (if f = Null then not_null_values ps else (ci_id c, projr (encodeNotNullColumn f c)) # not_null_values ps)"
  "null_columns ((c, f) # ps) = (if f = Null then (ci_id c, ()) # null_columns ps else null_columns ps)"
  by (simp_all add: not_null_values_def null_columns_def)

definition collected :: "RowEncoderV2 \<Rightarrow> (ColumnInfo \<times> Field) list \<Rightarrow> RowEncoderV2 \<Rightarrow> bool" where
  "collected st ps st' \<longleftrightarrow> map_inv (re_not_null_column_id_values st') \<and> map_inv (re_null_column_ids st')
    \<and> mset (re_not_null_column_id_values st') = mset (not_null_values ps) + mset (re_not_null_column_id_values st)
    \<and> mset (re_null_column_ids st') = mset (null_columns ps) + mset (re_null_column_ids st)
    \<and> (re_is_big st' \<longleftrightarrow> re_is_big st \<or> (\<exists>p \<in> set ps. ci_id (fst p) > 255))
    \<and> re_value_length st' = re_value_length st + of_nat (sum_list (map (length \<circ> snd) (not_null_values ps)))
    \<and> re_num_not_null_columns st' = re_num_not_null_columns st + of_nat (length (not_null_values ps))
    \<and> re_num_null_columns st' = re_num_null_columns st + of_nat (length (null_columns ps))
    \<and> (\<forall>p \<in> set ps. snd p \<noteq> Null \<longrightarrow> (\<exists>bs. encodeNotNullColumn (snd p) (fst p) = Inr bs))"

definition fresh :: "ColumnID \<Rightarrow> RowEncoderV2 \<Rightarrow> bool" where
  "fresh i st \<longleftrightarrow> i \<notin> fst ` set (re_not_null_column_id_values st) \<and> i \<notin> fst ` set (re_null_column_ids st)"

definition encode_column :: "ColumnInfo \<Rightarrow> Field \<Rightarrow> RowEncoderV2 \<Rightarrow> RowEncoderV2 result" where
  "encode_column c f st =
     (let st1 = (if ci_id c > 255 then st\<lparr>re_is_big := True\<rparr> else st)
      in if f \<noteq> Null
         then rbind (encodeNotNullColumn f c) (\<lambda>v.
           Inr (st1\<lparr>re_num_not_null_columns := re_num_not_null_columns st1 + 1,
             re_value_length := re_value_length st1 + of_nat (length v),
             re_not_null_column_id_values := fst (map_emplace (ci_id c) v (re_not_null_column_id_values st1))\<rparr>))
         else Inr (st1\<lparr>re_num_null_columns := re_num_null_columns st1 + 1,
           re_null_column_ids := fst (map_emplace (ci_id c) () (re_null_column_ids st1))\<rparr>))"

lemma encode_columns_Cons:
  "encode_columns ti fs (c # cs) i st =
     (if inKey ti c then encode_columns ti fs cs i st
      else rbind (field_at fs i) (\<lambda>f. rbind (encode_column c f st) (encode_columns ti fs cs (i + 1))))"
  by (simp add: encode_column_def Let_def)

lemma encode_column_collected:
  assumes "encode_column c f st = Inr st1" "fresh (ci_id c) st" "map_inv (re_not_null_column_id_values st)" "map_inv (re_null_column_ids st)"
  shows "collected st [(c, f)] st1"
proof (cases "f = Null")
  case True
  then show ?thesis using assms map_emplace_absent [of "re_null_column_ids st" "ci_id c" "()"]
    by (auto simp: encode_column_def collected_def fresh_def Let_def)
next
  case False
  then obtain bs where "encodeNotNullColumn f c = Inr bs" using assms(1) by (auto simp: encode_column_def Let_def rbind_eq_Inr)
  then show ?thesis using False assms map_emplace_absent [of "re_not_null_column_id_values st" "ci_id c" bs]
    by (auto simp: encode_column_def collected_def fresh_def Let_def)
qed

lemma collected_trans: "collected st ps st1 \<Longrightarrow> collected st1 qs st2 \<Longrightarrow> collected st (ps @ qs) st2"
  by (auto simp: collected_def not_null_values_def null_columns_def ac_simps)

lemma collected_fresh:
  assumes "collected st [(c, f)] st1" "fresh i st" "i \<noteq> ci_id c"
  shows "fresh i st1"
proof -
  have "set (re_not_null_column_id_values st1) = set (not_null_values [(c, f)]) \<union> set (re_not_null_column_id_values st)"
    "set (re_null_column_ids st1) = set (null_columns [(c, f)]) \<union> set (re_null_column_ids st)"
    using assms(1) unfolding collected_def by (metis set_mset_mset set_mset_union)+
  then show ?thesis using assms(2,3) by (auto simp: fresh_def)
qed

lemma encode_columns_collected:
  assumes "encode_columns ti fs cols i st = Inr st'"
    and "distinct (map ci_id (filter (\<lambda>c. \<not> inKey ti c) cols))" and "\<forall>c \<in> set cols. \<not> inKey ti c \<longrightarrow> fresh (ci_id c) st"
    and "map_inv (re_not_null_column_id_values st)" and "map_inv (re_null_column_ids st)"
  shows "collected st (zip (filter (\<lambda>c. \<not> inKey ti c) cols) (drop i fs)) st' \<and> length (filter (\<lambda>c. \<not> inKey ti c) cols) \<le> length fs - i"
  using assms
proof (induction cols arbitrary: i st)
  case Nil
  then show ?case by (simp add: collected_def)
next
  case (Cons c cols)
  show ?case
  proof (cases "inKey ti c")
    case True
    then show ?thesis using Cons by simp
  next
    case False
    then obtain f st1 where f: "field_at fs i = Inr f" and st1: "encode_column c f st = Inr st1"
      and rest: "encode_columns ti fs cols (i + 1) st1 = Inr st'"
      using Cons.prems(1) by (auto simp: encode_columns_Cons rbind_eq_Inr simp del: encode_columns.simps)
    have d: "drop i fs = f # drop (i + 1) fs" "i < length fs"
      using f by (auto simp: field_at_def Cons_nth_drop_Suc split: if_splits)
    have c1: "collected st [(c, f)] st1" using encode_column_collected [OF st1] Cons.prems False by simp
    have "\<forall>c' \<in> set cols. \<not> inKey ti c' \<longrightarrow> fresh (ci_id c') st1"
    proof (intro ballI impI)
      fix c' assume c': "c' \<in> set cols" "\<not> inKey ti c'"
      then have "ci_id c' \<noteq> ci_id c" using Cons.prems(2) False by (auto simp: image_iff)
      then show "fresh (ci_id c') st1" using collected_fresh [OF c1] Cons.prems(3) c' by simp
    qed
    then have IH: "collected st1 (zip (filter (\<lambda>c. \<not> inKey ti c) cols) (drop (i + 1) fs)) st'
        \<and> length (filter (\<lambda>c. \<not> inKey ti c) cols) \<le> length fs - (i + 1)"
      using c1 Cons.prems(2) False by (intro Cons.IH [OF rest]) (auto simp: collected_def)
    show ?thesis using collected_trans [OF c1 conjunct1 [OF IH]] conjunct2 [OF IH] d False by (simp add: Suc_le_eq)
  qed
qed

subsection \<open>What the decoder reads back\<close>

lemma take_bit_of_nat_small:
  assumes "n < 2 ^ k" "k \<le> 64"
  shows "take_bit k (of_nat n :: UInt64) = of_nat n" and "unat (of_nat n :: UInt64) = n"
proof -
  have "(2 :: nat) ^ k \<le> 2 ^ 64" using assms(2) by (intro power_increasing) simp_all
  then show u: "unat (of_nat n :: UInt64) = n" using assms(1) by (intro unat_of_nat_64) linarith
  show "take_bit k (of_nat n :: UInt64) = of_nat n"
    using assms(1) by (simp add: word_unat_eq_iff unsigned_take_bit_eq u take_bit_nat_eq_self)
qed

lemma uint_take_bit_word_of_int:
  assumes "0 \<le> x" "x < 2 ^ k" "k \<le> 64"
  shows "uint (take_bit k (word_of_int x :: UInt64)) = x"
  using assms by (simp add: unsigned_take_bit_eq uint_word_of_int_eq take_bit_take_bit min_def take_bit_int_eq_self)

fun offsets :: "nat \<Rightarrow> (ColumnID \<times> bytes) list \<Rightarrow> nat list" where
  "offsets acc [] = []"
| "offsets acc ((_, v) # vs) = (acc + length v) # offsets (acc + length v) vs"

lemma length_offsets [simp]: "length (offsets acc vs) = length vs"
  by (induction acc vs rule: offsets.induct) auto

lemma nth_offsets: "i < length vs \<Longrightarrow> offsets acc vs ! i = acc + sum_list (map (length \<circ> snd) (take (Suc i) vs))"
proof (induction acc vs arbitrary: i rule: offsets.induct)
  case (2 acc k v vs)
  then show ?case by (cases i) auto
qed simp

lemma offsets_le: "x \<in> set (offsets acc vs) \<Longrightarrow> x \<le> acc + sum_list (map (length \<circ> snd) vs)"
  by (induction acc vs rule: offsets.induct) fastforce+

lemma encodeValueOffsets_eq:
  assumes "w \<le> 8" "acc + sum_list (map (length \<circ> snd) vs) < 2 ^ (8 * w)"
  shows "encodeValueOffsets w (of_nat acc) vs = concat (map (encodeUInt w) (map of_nat (offsets acc vs)))"
  using assms(2)
proof (induction acc vs rule: offsets.induct)
  case (2 acc k v vs)
  have k: "8 * w \<le> 64" using assms(1) by simp
  have "take_bit (8 * w) (of_nat acc + take_bit (8 * w) (of_nat (length v))) = (of_nat (acc + length v) :: UInt64)"
    using 2(2) take_bit_of_nat_small(1) [OF _ k, of "length v"] take_bit_of_nat_small(1) [OF _ k, of "acc + length v"] by simp
  then show ?case using 2 by (simp add: Let_def)
qed simp

definition row_bytes :: "bool \<Rightarrow> (ColumnID \<times> bytes) list \<Rightarrow> (ColumnID \<times> unit) list \<Rightarrow> bytes" where
  "row_bytes big nn nulls =
     concat (map (encodeUInt (ColumnIDType big)) (map (word_of_int \<circ> fst) nn)) @
     concat (map (encodeUInt (ColumnIDType big)) (map (word_of_int \<circ> fst) nulls)) @
     concat (map (encodeUInt (ValueOffsetType big)) (map of_nat (offsets 0 nn))) @ concat (map snd nn)"

definition fits :: "bool \<Rightarrow> (ColumnID \<times> bytes) list \<Rightarrow> (ColumnID \<times> unit) list \<Rightarrow> bool" where
  "fits big nn nulls \<longleftrightarrow> length nn < 2 ^ 16 \<and> length nulls < 2 ^ 16 \<and>
    (\<forall>i \<in> fst ` set nn \<union> fst ` set nulls. 0 \<le> i \<and> i < 2 ^ (8 * ColumnIDType big)) \<and>
    sum_list (map (length \<circ> snd) nn) < 2 ^ (8 * ValueOffsetType big)"

lemma widths: "ColumnIDType big \<le> 4" "ValueOffsetType big \<le> 4" "8 * ColumnIDType big \<le> 64" "8 * ValueOffsetType big \<le> 64"
  by (auto simp: ColumnIDType_def ValueOffsetType_def)

definition values_start :: "bool \<Rightarrow> (ColumnID \<times> bytes) list \<Rightarrow> (ColumnID \<times> unit) list \<Rightarrow> nat" where
  "values_start big nn nulls = 6 + ColumnIDType big * length nn + ColumnIDType big * length nulls + ValueOffsetType big * length nn"

lemma read_ids:
  assumes "\<forall>i \<in> fst ` set m. 0 \<le> i \<and> i < 2 ^ k" "k \<le> 64"
  shows "map uint (map (take_bit k) (map (word_of_int \<circ> fst) m) :: UInt64 list) = map fst m"
  using assms by (auto simp: uint_take_bit_word_of_int)

lemma read_offsets:
  assumes "sum_list (map (length \<circ> snd) vs) < 2 ^ k" "k \<le> 64"
  shows "map (take_bit k) (map of_nat (offsets 0 vs)) = (map of_nat (offsets 0 vs) :: UInt64 list)"
  using assms by (auto dest!: offsets_le intro!: take_bit_of_nat_small)

lemma length_concat_encode: "length (concat (map (encodeUInt w) xs)) = w * length xs"
  by (induction xs) auto

lemma decode_header_at:
  assumes "fits big nn nulls" and "length hdr = 2"
    and "raw = hdr @ encodeUInt 2 (of_nat (length nn)) @ encodeUInt 2 (of_nat (length nulls)) @ row_bytes big nn nulls"
  shows "decode_header big raw = Inr \<lparr>rd_not_null_column_ids = map fst nn, rd_null_column_ids = map fst nulls,
      rd_value_offsets = map of_nat (offsets 0 nn), rd_values_start_pos = values_start big nn nulls\<rparr>"
    and "raw = take (values_start big nn nulls) raw @ concat (map snd nn)" and "values_start big nn nulls \<le> length raw"
proof -
  let ?c = "ColumnIDType big" and ?o = "ValueOffsetType big"
  let ?n1 = "encodeUInt 2 (of_nat (length nn))" and ?n2 = "encodeUInt 2 (of_nat (length nulls))"
  let ?b1 = "concat (map (encodeUInt ?c) (map (word_of_int \<circ> fst) nn))"
  let ?b2 = "concat (map (encodeUInt ?c) (map (word_of_int \<circ> fst) nulls))"
  let ?b3 = "concat (map (encodeUInt ?o) (map of_nat (offsets 0 nn)))"
  note f = assms(1) [unfolded fits_def]
  have w: "?c \<le> 8" "?o \<le> 8" using widths [of big] by simp_all
  have n1: "decodeUInt 2 2 raw = Inr (of_nat (length nn), 4)"
    using decodeUInt_at [of 2 hdr "of_nat (length nn)"] take_bit_of_nat_small(1) [of "length nn" 16] f assms(2,3) by simp
  have n2: "decodeUInt 2 4 raw = Inr (of_nat (length nulls), 6)"
    using decodeUInt_at [of 2 "hdr @ ?n1" "of_nat (length nulls)"] take_bit_of_nat_small(1) [of "length nulls" 16] f assms(2,3) by simp
  have u: "unat (of_nat (length nn) :: UInt64) = length nn" "unat (of_nat (length nulls) :: UInt64) = length nulls"
    using f take_bit_of_nat_small(2) [of _ 16] by auto
  have b1: "decodeUInts ?c (length nn) 6 raw = Inr (map (take_bit (8 * ?c)) (map (word_of_int \<circ> fst) nn), 6 + ?c * length nn)"
    using decodeUInts_at [OF w(1), of "map (word_of_int \<circ> fst) nn" "hdr @ ?n1 @ ?n2"] assms(2,3) by (simp add: row_bytes_def)
  have l2: "length (hdr @ ?n1 @ ?n2 @ ?b1) = 6 + ?c * length nn"
    and l3: "length (hdr @ ?n1 @ ?n2 @ ?b1 @ ?b2) = 6 + ?c * length nn + ?c * length nulls"
    and l4: "length (hdr @ ?n1 @ ?n2 @ ?b1 @ ?b2 @ ?b3) = values_start big nn nulls"
    using assms(2) by (simp_all add: length_concat_encode values_start_def del: map_map)
  have b2: "decodeUInts ?c (length nulls) (6 + ?c * length nn) raw =
      Inr (map (take_bit (8 * ?c)) (map (word_of_int \<circ> fst) nulls), 6 + ?c * length nn + ?c * length nulls)"
    using decodeUInts_at [OF w(1), of "map (word_of_int \<circ> fst) nulls" "hdr @ ?n1 @ ?n2 @ ?b1" "?b3 @ concat (map snd nn)", unfolded l2] assms(3)
    by (simp add: row_bytes_def del: map_map)
  have b3: "decodeUInts ?o (length nn) (6 + ?c * length nn + ?c * length nulls) raw =
      Inr (map (take_bit (8 * ?o)) (map of_nat (offsets 0 nn)), values_start big nn nulls)"
    using decodeUInts_at [OF w(2), of "map of_nat (offsets 0 nn)" "hdr @ ?n1 @ ?n2 @ ?b1 @ ?b2" "concat (map snd nn)", unfolded l3] assms(3)
    by (simp add: row_bytes_def values_start_def del: map_map)
  show "decode_header big raw = Inr \<lparr>rd_not_null_column_ids = map fst nn, rd_null_column_ids = map fst nulls,
      rd_value_offsets = map of_nat (offsets 0 nn), rd_values_start_pos = values_start big nn nulls\<rparr>"
    using n1 n2 u b1 b2 b3 f read_ids [OF _ widths(3) [of big], of nn] read_ids [OF _ widths(3) [of big], of nulls]
      read_offsets [OF _ widths(4) [of big], of nn]
    by (simp add: decode_header_def)
  have r: "raw = (hdr @ ?n1 @ ?n2 @ ?b1 @ ?b2 @ ?b3) @ concat (map snd nn)" using assms(3) by (simp add: row_bytes_def)
  show "raw = take (values_start big nn nulls) raw @ concat (map snd nn)" "values_start big nn nulls \<le> length raw"
    by (subst (1 2) r, subst l4 [symmetric], simp) (subst r, subst l4 [symmetric], simp)
qed

lemma isSortedByColumnID_iff: "isSortedByColumnID fs \<longleftrightarrow> sorted_wrt (<) (map fst fs)"
proof (induction fs rule: isSortedByColumnID.induct)
  case (1 a b fs)
  then show ?case by (simp only: list.map isSortedByColumnID.simps sorted_wrt2 [OF transp_on_less] not_le)
qed auto

lemma findByColumnID_iff:
  assumes "sorted_wrt (<) (map fst row)"
  shows "findByColumnID i row = map_option (Pair i) (map_of row i)"
  using assms
proof (induction row)
  case (Cons p row)
  then show ?case
  proof (cases "fst p < i")
    case False
    have "map_of row i = None" if "i < fst p" using Cons.prems that by (force simp: map_of_eq_None_iff)
    then show ?thesis using False by (cases p) (auto simp: findByColumnID_def)
  qed (cases p, auto simp: findByColumnID_def)
qed (simp add: findByColumnID_def)

definition lut_ok :: "TableInfo \<Rightarrow> ColumnIdToIndex \<Rightarrow> bool" where
  "lut_ok ti lut \<longleftrightarrow> (\<forall>p \<in> set lut. snd p < length (ti_columns ti) \<and> ci_id (ti_columns ti ! snd p) = fst p)"

text \<open>A column that the row needs and that cannot be filled in.\<close>

definition required :: "TableInfo \<Rightarrow> ColumnInfo \<Rightarrow> bool" where
  "required ti c \<longleftrightarrow> \<not> (ti_is_common_handle ti \<and> hasPriKeyFlag c) \<and> hasNoDefaultValueFlag c \<and> hasNotNullFlag c"

lemma hasMissingColumns_eq:
  assumes "lut_ok ti lut" "sorted_wrt (<) (map fst decoded)"
  shows "hasMissingColumns decoded ti lut =
    Inr (\<exists>p \<in> set lut. fst p \<notin> fst ` set decoded \<and> required ti (ti_columns ti ! snd p))"
  using assms
proof (induction lut)
  case (Cons p lut)
  have f: "findByColumnID (fst p) decoded \<noteq> None \<longleftrightarrow> fst p \<in> fst ` set decoded"
    using findByColumnID_iff [OF Cons.prems(2), of "fst p"] map_of_eq_None_iff [of decoded "fst p"] by auto
  have "getColumn ti (snd p) = Inr (ti_columns ti ! snd p)" "ci_id (ti_columns ti ! snd p) = fst p" "lut_ok ti lut"
    using Cons.prems(1) by (auto simp: lut_ok_def getColumn_def)
  then show ?case using Cons.IH Cons.prems(2) f by (auto simp: required_def)
qed simp

lemma nth_split_concat:
  assumes "i < length nn"
  shows "concat (map snd nn) = concat (map snd (take i nn)) @ snd (nn ! i) @ concat (map snd (drop (Suc i) nn))"
proof -
  have "nn = take i nn @ nn ! i # drop (Suc i) nn" using assms by (rule id_take_nth_drop)
  then have "concat (map snd nn) = concat (map snd (take i nn @ nn ! i # drop (Suc i) nn))" by (rule arg_cong)
  then show ?thesis by simp
qed

lemma decodeNotNullColumn_at_eq:
  assumes "raw = take start raw @ concat (map snd nn)" "start \<le> length raw" "i < length nn" "nn ! i = (k, bs)"
    and "sum_list (map (length \<circ> snd) nn) < 2 ^ 64"
  shows "\<exists>pre rest. decodeNotNullColumn_at ti lut raw \<lparr>rd_not_null_column_ids = map fst nn, rd_null_column_ids = zs,
      rd_value_offsets = map of_nat (offsets 0 nn), rd_values_start_pos = start\<rparr> i =
    (case map_of lut k of None \<Rightarrow> Inr ((k, FString bs), True)
     | Some idx \<Rightarrow> rbind (getColumn ti idx) (\<lambda>c. rbind (decodeNotNullColumn (length pre) (pre @ bs @ rest) (of_nat (length bs)) c)
         (\<lambda>f. Inr ((k, f), False))))"
proof -
  define pre rest where "pre = take start raw @ concat (map snd (take i nn))" and "rest = concat (map snd (drop (Suc i) nn))"
  let ?s = "sum_list (map (length \<circ> snd) (take i nn))"
  have raw: "raw = pre @ bs @ rest"
    using assms(1) nth_split_concat [OF assms(3)] assms(4) by (simp add: pre_def rest_def)
  have len: "length pre = start + ?s" using assms(2) by (simp add: pre_def length_concat comp_def)
  have tk: "map (length \<circ> snd) (take (Suc i) nn) = map (length \<circ> snd) (take i nn) @ [length bs]"
    using assms(3,4) by (simp add: take_Suc_conv_app_nth)
  have total: "sum_list (map (length \<circ> snd) nn) = sum_list (map (length \<circ> snd) (take i nn @ nn ! i # drop (Suc i) nn))"
    using id_take_nth_drop [OF assms(3)] by (rule arg_cong)
  then have le: "?s + length bs < 2 ^ 64" using assms(4,5) by simp
  have off: "(map of_nat (offsets 0 nn) ! i :: UInt64) = of_nat ?s + of_nat (length bs)"
    using assms(3) tk by (simp add: nth_offsets)
  have start: "(if i \<noteq> 0 then map of_nat (offsets 0 nn) ! (i - 1) else 0) = (of_nat ?s :: UInt64)"
    using assms(3) by (cases i) (simp_all add: nth_offsets)
  have u: "unat (of_nat ?s :: UInt64) = ?s" using le by (intro unat_of_nat_64) simp
  have sub: "str_substr raw (length pre) (of_nat (length bs)) = Inr bs" using le raw by (simp add: str_substr_at)
  have k: "map fst nn ! i = k" using assms(3,4) by simp
  show ?thesis
    unfolding decodeNotNullColumn_at_def Let_def RowDecoderV2.select_convs start off u len [symmetric] add_diff_cancel_left' k sub rbind_Inr
    by (rule exI [of _ pre], rule exI [of _ rest], simp only: raw [symmetric])
qed

lemma merge_columns_Inr:
  assumes "\<forall>i < length ns. nf i = Inr (g i) \<and> fst (fst (g i)) = ns ! i" and "\<forall>j < length zs. fst (fst (zf j)) = zs ! j"
    and "sorted_wrt (<) ns" "sorted_wrt (<) zs" "set ns \<inter> set zs = {}"
  shows "\<exists>res. merge_columns nf zf ns zs i j = Inr res \<and> set res = g ` {i..<length ns} \<union> zf ` {j..<length zs}
    \<and> sorted_wrt (<) (map (\<lambda>r. fst (fst r)) res)"
  using assms
proof (induction nf zf ns zs i j rule: merge_columns.induct)
  case (1 nf zf ns zs i j)
  consider (null) "j < length zs" "i < length ns \<longrightarrow> zs ! j < ns ! i"
    | (not_null) "i < length ns" "j < length zs \<longrightarrow> ns ! i < zs ! j" | (finished) "\<not> i < length ns" "\<not> j < length zs"
    using "1.prems"(5) by (metis disjoint_iff linorder_less_linear nth_mem)
  then show ?case
  proof cases
    case null
    then have "\<exists>res. merge_columns nf zf ns zs i (j + 1) = Inr res \<and> set res = g ` {i..<length ns} \<union> zf ` {j + 1..<length zs}
        \<and> sorted_wrt (<) (map (\<lambda>r. fst (fst r)) res)" using "1.IH"(1) [OF _ refl] "1.prems" by (cases "i < length ns") auto
    then obtain res where res: "merge_columns nf zf ns zs i (j + 1) = Inr res"
      "set res = g ` {i..<length ns} \<union> zf ` {j + 1..<length zs}" "sorted_wrt (<) (map (\<lambda>r. fst (fst r)) res)" by blast
    have "zs ! j < fst (fst r)" if "r \<in> set res" for r
      using that res(2) null "1.prems"(1,2) sorted_wrt_nth_less [OF "1.prems"(4)] sorted_wrt_nth_less [OF "1.prems"(3)]
      by (auto simp: Suc_le_eq) (metis le_neq_implies_less less_trans order_le_less_trans)
    moreover have "{j..<length zs} = insert j {j + 1..<length zs}" using null by auto
    ultimately show ?thesis using res null "1.prems"(2) by (subst merge_columns.simps) auto
  next
    case not_null
    then have "\<exists>res. merge_columns nf zf ns zs (i + 1) j = Inr res \<and> set res = g ` {i + 1..<length ns} \<union> zf ` {j..<length zs}
        \<and> sorted_wrt (<) (map (\<lambda>r. fst (fst r)) res)" using "1.IH"(2) [OF _ refl] "1.prems" by (cases "j < length zs") auto
    then obtain res where res: "merge_columns nf zf ns zs (i + 1) j = Inr res"
      "set res = g ` {i + 1..<length ns} \<union> zf ` {j..<length zs}" "sorted_wrt (<) (map (\<lambda>r. fst (fst r)) res)" by blast
    have "ns ! i < fst (fst r)" if "r \<in> set res" for r
      using that res(2) not_null "1.prems"(1,2) sorted_wrt_nth_less [OF "1.prems"(4)] sorted_wrt_nth_less [OF "1.prems"(3)]
      by (auto simp: Suc_le_eq) (metis le_neq_implies_less less_trans order_le_less_trans)
    moreover have "{i..<length ns} = insert i {i + 1..<length ns}" using not_null by auto
    ultimately show ?thesis using res not_null "1.prems"(1) by (subst merge_columns.simps) auto
  next
    case finished
    then show ?thesis by (subst merge_columns.simps) simp
  qed
qed

definition known :: "ColumnIdToIndex \<Rightarrow> ColumnID \<Rightarrow> bool" where
  "known lut k \<longleftrightarrow> map_of lut k \<noteq> None"

lemma sorted_map_filter: "sorted_wrt (<) (map f xs) \<Longrightarrow> sorted_wrt (<) (map f (filter P xs))"
  by (simp add: sorted_wrt_map sorted_wrt_filter)

definition read_value :: "ColumnIdToIndex \<Rightarrow> (ColumnID \<Rightarrow> Field) \<Rightarrow> ColumnID \<times> bytes \<Rightarrow> DecodedField \<times> bool" where
  "read_value lut val p = (if known lut (fst p) then ((fst p, val (fst p)), False) else ((fst p, FString (snd p)), True))"

definition read_null :: "ColumnIdToIndex \<Rightarrow> ColumnID \<times> unit \<Rightarrow> DecodedField \<times> bool" where
  "read_null lut p = ((fst p, Null), \<not> known lut (fst p))"

lemma snd_read [simp]: "snd (read_value lut val p) \<longleftrightarrow> \<not> known lut (fst p)" "snd (read_null lut q) \<longleftrightarrow> \<not> known lut (fst q)"
  by (simp_all add: read_value_def read_null_def)

lemma image_filter_union:
  "fst ` {r \<in> h ` S \<union> h' ` S'. P r} = (\<lambda>p. fst (h p)) ` {p \<in> S. P (h p)} \<union> (\<lambda>p. fst (h' p)) ` {p \<in> S'. P (h' p)}"
  by auto

lemma image_nth_set: "(\<lambda>i. h (xs ! i)) ` {0..<length xs} = h ` set xs"
  by (force simp: set_conv_nth)

lemma merge_read:
  assumes "fits big nn nulls" "map_inv nn" "map_inv nulls" "fst ` set nn \<inter> fst ` set nulls = {}"
    and "raw = take start raw @ concat (map snd nn)" "start \<le> length raw"
    and "rd = \<lparr>rd_not_null_column_ids = map fst nn, rd_null_column_ids = map fst nulls,
      rd_value_offsets = map of_nat (offsets 0 nn), rd_values_start_pos = start\<rparr>"
    and column: "\<And>k bs idx. (k, bs) \<in> set nn \<Longrightarrow> map_of lut k = Some idx \<Longrightarrow> \<exists>c. getColumn ti idx = Inr c
      \<and> (\<forall>pre rest. decodeNotNullColumn (length pre) (pre @ bs @ rest) (of_nat (length bs)) c = Inr (val k))"
  shows "\<exists>res. merge_columns (decodeNotNullColumn_at ti lut raw rd) (decodeNullColumn lut rd) (map fst nn) (map fst nulls) 0 0 = Inr res
      \<and> set res = read_value lut val ` set nn \<union> read_null lut ` set nulls \<and> sorted_wrt (<) (map (\<lambda>r. fst (fst r)) res)"
proof -
  have sum: "sum_list (map (length \<circ> snd) nn) < 2 ^ 64"
    using assms(1) widths(4) [of big] by (auto simp: fits_def ValueOffsetType_def split: if_splits)
  have nf: "decodeNotNullColumn_at ti lut raw rd i = Inr (read_value lut val (nn ! i))" if i: "i < length nn" for i
  proof -
    obtain k bs where kb: "nn ! i = (k, bs)" by fastforce
    then have "(k, bs) \<in> set nn" using nth_mem [OF i] by simp
    then show ?thesis using decodeNotNullColumn_at_eq [OF assms(5,6) i kb sum, of ti lut "map fst nulls"] column [of k bs] assms(7)
      by (cases "map_of lut k") (fastforce simp: read_value_def kb known_def)+
  qed
  have zf: "decodeNullColumn lut rd j = read_null lut (nulls ! j)" if "j < length nulls" for j
    using that assms(7) by (simp add: decodeNullColumn_def read_null_def known_def)
  have "\<exists>res. merge_columns (decodeNotNullColumn_at ti lut raw rd) (decodeNullColumn lut rd) (map fst nn) (map fst nulls) 0 0 = Inr res
      \<and> set res = (\<lambda>i. read_value lut val (nn ! i)) ` {0..<length (map fst nn)} \<union> decodeNullColumn lut rd ` {0..<length (map fst nulls)}
      \<and> sorted_wrt (<) (map (\<lambda>r. fst (fst r)) res)"
    using nf zf assms(2-4) by (intro merge_columns_Inr) (auto simp: read_value_def read_null_def map_inv_def)
  moreover have "decodeNullColumn lut rd ` {0..<length (map fst nulls)} = (\<lambda>j. read_null lut (nulls ! j)) ` {0..<length nulls}"
    by (intro image_cong) (simp_all add: zf)
  ultimately show ?thesis by (simp add: image_nth_set)
qed

definition row_spec :: "TableInfo \<Rightarrow> ColumnIdToIndex \<Rightarrow> bool \<Rightarrow> DecodedFields \<Rightarrow> DecodedFields \<Rightarrow> DecodedRow" where
  "row_spec ti lut flag decoded unknown =
     \<lparr>has_missing_columns = (\<exists>p \<in> set lut. fst p \<notin> fst ` set decoded \<and> required ti (ti_columns ti ! snd p)),
      unknown_fields = unknown, with_codec_flag = flag, decoded_fields = decoded\<rparr>"

definition decoded_parts :: "ColumnIdToIndex \<Rightarrow> (ColumnID \<Rightarrow> Field) \<Rightarrow> (ColumnID \<times> bytes) list \<Rightarrow> (ColumnID \<times> unit) list \<Rightarrow> DecodedFields \<Rightarrow> DecodedFields \<Rightarrow> bool" where
  "decoded_parts lut val nn nulls decoded unknown \<longleftrightarrow> sorted_wrt (<) (map fst decoded) \<and> sorted_wrt (<) (map fst unknown)
    \<and> set decoded = (\<lambda>p. (fst p, val (fst p))) ` {p \<in> set nn. known lut (fst p)} \<union> (\<lambda>p. (fst p, Null)) ` {p \<in> set nulls. known lut (fst p)}
    \<and> set unknown = (\<lambda>p. (fst p, FString (snd p))) ` {p \<in> set nn. \<not> known lut (fst p)} \<union> (\<lambda>p. (fst p, Null)) ` {p \<in> set nulls. \<not> known lut (fst p)}"

lemma RowDecoderV2_decode_eq:
  assumes "fits big nn nulls" "map_inv nn" "map_inv nulls" "fst ` set nn \<inter> fst ` set nulls = {}" "lut_ok ti lut" "length hdr = 2"
    and raw: "raw = hdr @ encodeUInt 2 (of_nat (length nn)) @ encodeUInt 2 (of_nat (length nulls)) @ row_bytes big nn nulls"
    and column: "\<And>k bs idx. (k, bs) \<in> set nn \<Longrightarrow> map_of lut k = Some idx \<Longrightarrow> \<exists>c. getColumn ti idx = Inr c
      \<and> (\<forall>pre rest. decodeNotNullColumn (length pre) (pre @ bs @ rest) (of_nat (length bs)) c = Inr (val k))"
  shows "\<exists>decoded unknown. RowDecoderV2_decode big raw ti lut = Inr (row_spec ti lut False decoded unknown)
    \<and> decoded_parts lut val nn nulls decoded unknown"
proof -
  note h = decode_header_at [OF assms(1,6) raw]
  define rd where "rd = \<lparr>rd_not_null_column_ids = map fst nn, rd_null_column_ids = map fst nulls,
      rd_value_offsets = map of_nat (offsets 0 nn), rd_values_start_pos = values_start big nn nulls\<rparr>"
  have "\<exists>res. merge_columns (decodeNotNullColumn_at ti lut raw rd) (decodeNullColumn lut rd) (map fst nn) (map fst nulls) 0 0 = Inr res
      \<and> set res = read_value lut val ` set nn \<union> read_null lut ` set nulls \<and> sorted_wrt (<) (map (\<lambda>r. fst (fst r)) res)"
    by (rule merge_read [OF assms(1-4) h(2,3) rd_def]) (rule column)
  then obtain res where m: "merge_columns (decodeNotNullColumn_at ti lut raw rd) (decodeNullColumn lut rd) (map fst nn) (map fst nulls) 0 0 = Inr res"
    and res: "set res = read_value lut val ` set nn \<union> read_null lut ` set nulls" and srt: "sorted_wrt (<) (map (\<lambda>r. fst (fst r)) res)"
    by blast
  define decoded unknown where "decoded = map fst (filter (\<lambda>r. \<not> snd r) res)" and "unknown = map fst (filter snd res)"
  have s: "sorted_wrt (<) (map fst decoded)" "sorted_wrt (<) (map fst unknown)"
    using sorted_map_filter [OF srt, of "\<lambda>r. \<not> snd r"] sorted_map_filter [OF srt, of snd] by (simp_all add: decoded_def unknown_def comp_def)
  have "RowDecoderV2_decode big raw ti lut = Inr (row_spec ti lut False decoded unknown)"
    using h(1) m hasMissingColumns_eq [OF assms(5) s(1)] s
    by (simp add: RowDecoderV2_decode_def rd_def decoded_def unknown_def new_DecodedRow_def isSortedByColumnID_iff Let_def row_spec_def)
  moreover have "set decoded = (\<lambda>p. (fst p, val (fst p))) ` {p \<in> set nn. known lut (fst p)} \<union> (\<lambda>p. (fst p, Null)) ` {p \<in> set nulls. known lut (fst p)}"
    "set unknown = (\<lambda>p. (fst p, FString (snd p))) ` {p \<in> set nn. \<not> known lut (fst p)} \<union> (\<lambda>p. (fst p, Null)) ` {p \<in> set nulls. \<not> known lut (fst p)}"
    unfolding decoded_def unknown_def set_map set_filter res image_filter_union
    by (auto simp: read_value_def read_null_def intro!: arg_cong2 [where f = "(\<union>)"] image_cong)
  ultimately show ?thesis using s unfolding decoded_parts_def by blast
qed

subsection \<open>Rows of the second format\<close>

definition row_columns :: "TableInfo \<Rightarrow> Field list \<Rightarrow> (ColumnInfo \<times> Field) list" where
  "row_columns ti fs = zip (value_columns ti) fs"

lemma sum_list_mset: "mset xs = mset ys \<Longrightarrow> sum_list (map f xs) = (sum_list (map f ys) :: nat)"
  by (metis mset_map sum_mset_sum_list)

lemma encodeRowV2_Inr:
  assumes "encodeRowV2 ti fs = Inr raw" "distinct (map ci_id (value_columns ti))"
  obtains big nn nulls where "map_inv nn" "map_inv nulls" "mset nn = mset (not_null_values (row_columns ti fs))"
    "mset nulls = mset (null_columns (row_columns ti fs))" "length (value_columns ti) \<le> length fs"
    "\<forall>p \<in> set (row_columns ti fs). snd p \<noteq> Null \<longrightarrow> (\<exists>bs. encodeNotNullColumn (snd p) (fst p) = Inr bs)"
    "big \<longleftrightarrow> (\<exists>p \<in> set (row_columns ti fs). ci_id (fst p) > 255) \<or> (of_nat (sum_list (map (length \<circ> snd) nn)) :: UInt64) > 65535"
    "raw = [128, if big then 1 else 0] @ encodeUInt 2 (of_nat (length nn)) @ encodeUInt 2 (of_nat (length nulls))
      @ concat (map (encodeUInt (ColumnIDType big)) (map (word_of_int \<circ> fst) nn))
      @ concat (map (encodeUInt (ColumnIDType big)) (map (word_of_int \<circ> fst) nulls))
      @ encodeValueOffsets (ValueOffsetType big) 0 nn @ concat (map snd nn)"
proof -
  let ?st0 = "\<lparr>re_is_big = False, re_value_length = 0, re_num_not_null_columns = 0, re_num_null_columns = 0,
            re_not_null_column_id_values = [], re_null_column_ids = []\<rparr>"
  obtain st where st: "encode_columns ti fs (ti_columns ti) 0 ?st0 = Inr st"
    and raw: "raw = (let is_big = (re_is_big st \<or> re_value_length st > 65535)
         in encodeUInt 1 (ucast ROW_V2) @ encodeUInt 1 (if is_big then ucast BigRowMask else 0)
              @ encodeUInt 2 (re_num_not_null_columns st) @ encodeUInt 2 (re_num_null_columns st)
              @ encodeColumnIDs (ColumnIDType is_big) st
              @ encodeValueOffsets (ValueOffsetType is_big) 0 (re_not_null_column_id_values st)
              @ concat (map snd (re_not_null_column_id_values st)))"
    using assms(1) by (auto simp: encodeRowV2_def rbind_eq_Inr Let_def split: if_splits)
  have c: "collected ?st0 (row_columns ti fs) st" "length (value_columns ti) \<le> length fs"
    using encode_columns_collected [OF st] assms(2) by (simp_all add: value_columns_def row_columns_def fresh_def map_inv_def)
  let ?nn = "re_not_null_column_id_values st" and ?nulls = "re_null_column_ids st"
  let ?big = "re_is_big st \<or> re_value_length st > 65535"
  have m: "mset ?nn = mset (not_null_values (row_columns ti fs))" "mset ?nulls = mset (null_columns (row_columns ti fs))"
    using c(1) by (simp_all add: collected_def)
  have l: "re_num_not_null_columns st = of_nat (length ?nn)" "re_num_null_columns st = of_nat (length ?nulls)"
      "re_value_length st = of_nat (sum_list (map (length \<circ> snd) ?nn))"
    using c(1) mset_eq_length [OF m(1)] mset_eq_length [OF m(2)] sum_list_mset [OF m(1), of "length \<circ> snd"] by (simp_all add: collected_def)
  have "encodeUInt 1 (ucast ROW_V2) = [128]" "encodeUInt 1 (if ?big then ucast BigRowMask else 0) = [if ?big then 1 else 0]"
    by (simp_all add: encodeUInt_def mem_of_def ROW_V2_def BigRowMask_def)
  then show ?thesis using that [of ?nn ?nulls ?big] c m raw l
    by (simp add: collected_def encodeColumnIDs_def Let_def comp_def)
qed

lemma value_column_of:
  assumes "lut_ok ti lut" "map_of lut (ci_id c) = Some idx" "c \<in> set (ti_columns ti)" "distinct (map ci_id (ti_columns ti))"
  shows "getColumn ti idx = Inr c"
proof -
  have i: "idx < length (ti_columns ti)" "ci_id (ti_columns ti ! idx) = ci_id c"
    using assms(1) map_of_SomeD [OF assms(2)] by (force simp: lut_ok_def)+
  then have "ti_columns ti ! idx = c" using assms(3,4) by (metis distinct_map inj_onD nth_mem)
  then show ?thesis using i by (simp add: getColumn_def)
qed

lemma row_columns_distinct:
  assumes "distinct (map ci_id (ti_columns ti))"
  shows "distinct (map ci_id (value_columns ti))" "distinct (map (ci_id \<circ> fst) (row_columns ti fs))"
proof -
  show d: "distinct (map ci_id (value_columns ti))" using assms by (simp add: value_columns_def distinct_map_filter)
  have "map (ci_id \<circ> fst) (row_columns ti fs) = take (length fs) (map ci_id (value_columns ti))"
    by (simp add: row_columns_def take_map min_def flip: map_map) (simp add: map_fst_zip_take min.commute min_def)
  then show "distinct (map (ci_id \<circ> fst) (row_columns ti fs))" using d by (simp only: distinct_take)
qed

definition row_value :: "(ColumnInfo \<times> Field) list \<Rightarrow> ColumnID \<Rightarrow> Field" where
  "row_value ps k = the (map_of (map (\<lambda>(c, f). (ci_id c, datum_image f)) ps) k)"

lemma row_value_eq:
  assumes "distinct (map (ci_id \<circ> fst) ps)" "(c, f) \<in> set ps"
  shows "row_value ps (ci_id c) = datum_image f"
proof -
  have "map fst (map (\<lambda>(c, f). (ci_id c, datum_image f)) ps) = map (ci_id \<circ> fst) ps" by auto
  then have "map_of (map (\<lambda>(c, f). (ci_id c, datum_image f)) ps) (ci_id c) = Some (datum_image f)"
    using assms by (intro map_of_is_SomeI) (metis, force)
  then show ?thesis by (simp add: row_value_def)
qed

lemma not_null_values_mem:
  assumes "(k, bs) \<in> set (not_null_values ps)" "\<forall>p \<in> set ps. snd p \<noteq> Null \<longrightarrow> (\<exists>bs. encodeNotNullColumn (snd p) (fst p) = Inr bs)"
  obtains c f where "(c, f) \<in> set ps" "f \<noteq> Null" "k = ci_id c" "encodeNotNullColumn f c = Inr bs"
  using assms by (force simp: not_null_values_def)

lemma encoded_fits:
  assumes "mset nn = mset (not_null_values ps)" "mset nulls = mset (null_columns ps)" "length ps < 2 ^ 16"
    and "\<forall>p \<in> set ps. 0 \<le> ci_id (fst p) \<and> ci_id (fst p) < 2 ^ 32" "sum_list (map (length \<circ> snd) nn) < 2 ^ 32"
    and big: "big \<longleftrightarrow> (\<exists>p \<in> set ps. ci_id (fst p) > 255) \<or> (of_nat (sum_list (map (length \<circ> snd) nn)) :: UInt64) > 65535"
  shows "fits big nn nulls"
proof -
  have "length (not_null_values ps) \<le> length ps" "length (null_columns ps) \<le> length ps"
    by (simp_all add: not_null_values_def null_columns_def)
  then have l: "length nn < 2 ^ 16" "length nulls < 2 ^ 16"
    using assms(3) mset_eq_length [OF assms(1)] mset_eq_length [OF assms(2)] by linarith+
  have sub: "fst ` set nn \<union> fst ` set nulls \<subseteq> (ci_id \<circ> fst) ` set ps"
    unfolding mset_eq_setD [OF assms(1)] mset_eq_setD [OF assms(2)] by (auto simp: not_null_values_def null_columns_def image_iff) force+
  have u: "unat (of_nat (sum_list (map (length \<circ> snd) nn)) :: UInt64) = sum_list (map (length \<circ> snd) nn)"
    using assms(5) by (intro unat_of_nat_64) simp
  have ids: "0 \<le> i \<and> i < 2 ^ (8 * ColumnIDType big)" if i: "i \<in> (ci_id \<circ> fst) ` set ps" for i
  proof -
    obtain p where p: "p \<in> set ps" "i = ci_id (fst p)" using i by auto
    then have "0 \<le> i" "i < 2 ^ 32" "big \<or> i \<le> 255" using assms(4) big by fastforce+
    then show ?thesis by (auto simp: ColumnIDType_def)
  qed
  have "sum_list (map (length \<circ> snd) nn) < 2 ^ (8 * ValueOffsetType big)"
  proof (cases big)
    case True
    then show ?thesis using assms(5) by (simp add: ValueOffsetType_def)
  next
    case False
    then have "unat (of_nat (sum_list (map (length \<circ> snd) nn)) :: UInt64) \<le> 65535" using big by (simp add: word_less_nat_alt)
    then show ?thesis using False unfolding u by (simp add: ValueOffsetType_def)
  qed
  then show ?thesis using l sub ids unfolding fits_def by blast
qed

lemma decodeRow_big:
  assumes "raw = [128, if big then 1 else 0] @ rest"
  shows "decodeRow raw ti lut = Some (RowDecoderV2_decode big raw ti lut)"
proof -
  have "decodeUInt 1 1 raw = Inr (if big then 1 else 0, 2)" using assms by (simp add: decodeUInt_def)
  then show ?thesis using assms by (simp add: decodeRow_def ROW_V2_def decodeRowV2_def BigRowMask_def)
qed

lemma decodeUnknownColumnV2_encode:
  assumes "encodeNotNullColumn f c = Inr bs" "decimal_ok f" "length bs < 2 ^ 64"
  shows "decodeUnknownColumnV2 (FString bs) c = Inr (datum_image f)"
  using decodeNotNullColumn_encode [OF assms, of "[]" "[]"] by (simp add: decodeUnknownColumnV2_def safeGet_String_def)

lemma encoded_column:
  assumes "lut_ok ti lut" "distinct (map ci_id (ti_columns ti))" "\<forall>f \<in> set fs. decimal_ok f" "length bs < 2 ^ 64"
    and "(c, f) \<in> set (row_columns ti fs)" "encodeNotNullColumn f c = Inr bs" "map_of lut (ci_id c) = Some idx"
  shows "getColumn ti idx = Inr c \<and> (\<forall>pre rest. decodeNotNullColumn (length pre) (pre @ bs @ rest) (of_nat (length bs)) c
    = Inr (row_value (row_columns ti fs) (ci_id c)))"
proof -
  have c: "c \<in> set (ti_columns ti)" "f \<in> set fs"
    using set_zip_leftD [of c f "value_columns ti" fs] set_zip_rightD [of c f "value_columns ti" fs] assms(5)
    by (simp_all add: row_columns_def value_columns_def)
  then show ?thesis using value_column_of [OF assms(1,7) c(1) assms(2)] decodeNotNullColumn_encode [OF assms(6) _ assms(4)] assms(3)
      row_value_eq [OF row_columns_distinct(2) [OF assms(2)] assms(5)] by simp
qed

lemma encoded_disjoint:
  assumes "distinct (map (ci_id \<circ> fst) ps)"
  shows "fst ` set (not_null_values ps) \<inter> fst ` set (null_columns ps) = {}"
  using assms by (induction ps) (auto simp: not_null_values_def null_columns_def image_iff case_prod_unfold)

lemma encoded_row_shape:
  assumes "encodeRowV2 ti fs = Inr raw" and "length raw < 2 ^ 32" and "distinct (map ci_id (ti_columns ti))"
    and "length (ti_columns ti) < 2 ^ 16" and "\<forall>c \<in> set (ti_columns ti). 0 \<le> ci_id c \<and> ci_id c < 2 ^ 32"
  obtains big nn nulls where "map_inv nn" "map_inv nulls" "set nn = set (not_null_values (row_columns ti fs))"
    "set nulls = set (null_columns (row_columns ti fs))" "length (value_columns ti) \<le> length fs" "fits big nn nulls"
    "\<forall>p \<in> set (row_columns ti fs). snd p \<noteq> Null \<longrightarrow> (\<exists>bs. encodeNotNullColumn (snd p) (fst p) = Inr bs)"
    "\<forall>p \<in> set nn. length (snd p) < 2 ^ 64"
    "raw = [128, if big then 1 else 0] @ encodeUInt 2 (of_nat (length nn)) @ encodeUInt 2 (of_nat (length nulls)) @ row_bytes big nn nulls"
proof -
  let ?ps = "row_columns ti fs"
  obtain big nn nulls where e: "map_inv nn" "map_inv nulls" and m: "mset nn = mset (not_null_values ?ps)"
    "mset nulls = mset (null_columns ?ps)" and len: "length (value_columns ti) \<le> length fs"
    and enc: "\<forall>p \<in> set ?ps. snd p \<noteq> Null \<longrightarrow> (\<exists>bs. encodeNotNullColumn (snd p) (fst p) = Inr bs)"
    and big: "big \<longleftrightarrow> (\<exists>p \<in> set ?ps. ci_id (fst p) > 255) \<or> (of_nat (sum_list (map (length \<circ> snd) nn)) :: UInt64) > 65535"
    and raw: "raw = [128, if big then 1 else 0] @ encodeUInt 2 (of_nat (length nn)) @ encodeUInt 2 (of_nat (length nulls))
      @ concat (map (encodeUInt (ColumnIDType big)) (map (word_of_int \<circ> fst) nn))
      @ concat (map (encodeUInt (ColumnIDType big)) (map (word_of_int \<circ> fst) nulls))
      @ encodeValueOffsets (ValueOffsetType big) 0 nn @ concat (map snd nn)"
    by (rule encodeRowV2_Inr [OF assms(1) row_columns_distinct(1) [OF assms(3)]])
  have sum: "sum_list (map (length \<circ> snd) nn) < 2 ^ 32" using assms(2) raw by (simp add: length_concat comp_def)
  have "length ?ps \<le> length (ti_columns ti)"
    by (simp add: row_columns_def value_columns_def) (meson le_trans length_filter_le min.cobounded1)
  moreover have "fst p \<in> set (ti_columns ti)" if "p \<in> set ?ps" for p
    using that set_zip_leftD [of "fst p" "snd p" "value_columns ti" fs] by (simp add: row_columns_def value_columns_def)
  ultimately have fit: "fits big nn nulls" using encoded_fits [OF m _ _ sum big] assms(4,5) by simp
  have short: "\<forall>p \<in> set nn. length (snd p) < 2 ^ 64"
  proof
    fix p assume "p \<in> set nn"
    then show "length (snd p) < 2 ^ 64" using member_le_sum_list [of "length (snd p)" "map (length \<circ> snd) nn"] sum by force
  qed
  have raw': "raw = [128, if big then 1 else 0] @ encodeUInt 2 (of_nat (length nn)) @ encodeUInt 2 (of_nat (length nulls)) @ row_bytes big nn nulls"
    using raw encodeValueOffsets_eq [of "ValueOffsetType big" 0 nn] widths(2) [of big] fit by (simp add: row_bytes_def fits_def)
  show ?thesis by (rule that [OF e mset_eq_setD [OF m(1)] mset_eq_setD [OF m(2)] len fit enc short raw'])
qed

lemma encoded_row_decoded:
  assumes "encodeRowV2 ti fs = Inr raw" and "length raw < 2 ^ 32" and "distinct (map ci_id (ti_columns ti))"
    and "length (ti_columns ti) < 2 ^ 16" and "\<forall>c \<in> set (ti_columns ti). 0 \<le> ci_id c \<and> ci_id c < 2 ^ 32"
    and "\<forall>f \<in> set fs. decimal_ok f" and "lut_ok ti lut"
  obtains decoded unknown nn nulls where "decodeRow raw ti lut = Some (Inr (row_spec ti lut False decoded unknown))"
    "decoded_parts lut (row_value (row_columns ti fs)) nn nulls decoded unknown"
    "set nn = set (not_null_values (row_columns ti fs))" "set nulls = set (null_columns (row_columns ti fs))"
    "\<forall>p \<in> set nn. length (snd p) < 2 ^ 64" "length (value_columns ti) \<le> length fs"
    "\<forall>p \<in> set (row_columns ti fs). snd p \<noteq> Null \<longrightarrow> (\<exists>bs. encodeNotNullColumn (snd p) (fst p) = Inr bs)"
proof -
  let ?ps = "row_columns ti fs"
  obtain big nn nulls where e: "map_inv nn" "map_inv nulls" and sets: "set nn = set (not_null_values ?ps)" "set nulls = set (null_columns ?ps)"
    and len: "length (value_columns ti) \<le> length fs" and fit: "fits big nn nulls"
    and enc: "\<forall>p \<in> set ?ps. snd p \<noteq> Null \<longrightarrow> (\<exists>bs. encodeNotNullColumn (snd p) (fst p) = Inr bs)"
    and short: "\<forall>p \<in> set nn. length (snd p) < 2 ^ 64"
    and raw: "raw = [128, if big then 1 else 0] @ encodeUInt 2 (of_nat (length nn)) @ encodeUInt 2 (of_nat (length nulls)) @ row_bytes big nn nulls"
    by (rule encoded_row_shape [OF assms(1-5)])
  have column: "\<exists>c. getColumn ti idx = Inr c \<and> (\<forall>pre rest. decodeNotNullColumn (length pre) (pre @ bs @ rest) (of_nat (length bs)) c = Inr (row_value ?ps k))"
    if k: "(k, bs) \<in> set nn" "map_of lut k = Some idx" for k bs idx
  proof -
    obtain c f where "(c, f) \<in> set ?ps" "k = ci_id c" "encodeNotNullColumn f c = Inr bs"
      using not_null_values_mem [OF _ enc] k(1) sets(1) by metis
    then show ?thesis using encoded_column [OF assms(7,3,6)] short k by fastforce
  qed
  have disj: "fst ` set nn \<inter> fst ` set nulls = {}" unfolding sets by (rule encoded_disjoint [OF row_columns_distinct(2) [OF assms(3)]])
  have hdr: "length [128 :: byte, if big then 1 else 0] = 2" by simp
  have "\<exists>decoded unknown. RowDecoderV2_decode big raw ti lut = Inr (row_spec ti lut False decoded unknown)
    \<and> decoded_parts lut (row_value ?ps) nn nulls decoded unknown"
    by (rule RowDecoderV2_decode_eq [OF fit e disj assms(7) hdr raw]) (rule column)
  then obtain decoded unknown where r: "RowDecoderV2_decode big raw ti lut = Inr (row_spec ti lut False decoded unknown)"
    "decoded_parts lut (row_value ?ps) nn nulls decoded unknown" by blast
  have "decodeRow raw ti lut = Some (Inr (row_spec ti lut False decoded unknown))" unfolding decodeRow_big [OF raw] r(1) ..
  then show ?thesis by (rule that [OF _ r(2) sets short len enc])
qed

lemma row_column_unique:
  assumes "distinct (map (ci_id \<circ> fst) ps)" "(c, f) \<in> set ps" "(c', f') \<in> set ps" "ci_id c = ci_id c'"
  shows "c = c' \<and> f = f'"
  using assms by (metis (mono_tags, lifting) comp_apply distinct_map fst_conv inj_on_eq_iff prod.inject)

lemma decoded_row_set:
  assumes "distinct (map (ci_id \<circ> fst) ps)"
  shows "(\<lambda>p. (fst p, row_value ps (fst p))) ` {p \<in> set (not_null_values ps). known lut (fst p)}
      \<union> (\<lambda>p. (fst p, Null)) ` {p \<in> set (null_columns ps). known lut (fst p)}
    = {(ci_id c, datum_image f) |c f. (c, f) \<in> set ps \<and> known lut (ci_id c)}" (is "?A \<union> ?B = ?C")
proof -
  have "?A = {(ci_id c, datum_image f) |c f. (c, f) \<in> set ps \<and> f \<noteq> Null \<and> known lut (ci_id c)}"
    using row_value_eq [OF assms] by (force simp: not_null_values_def)
  moreover have "?B = {(ci_id c, datum_image f) |c f. (c, f) \<in> set ps \<and> f = Null \<and> known lut (ci_id c)}"
    by (force simp: null_columns_def)
  ultimately show ?thesis by (simp only:) blast
qed

lemma fst_image_parts:
  "fst ` ((\<lambda>p. (fst p, g p)) ` {p \<in> S. P (fst p)} \<union> (\<lambda>p. (fst p, h p)) ` {p \<in> S'. P (fst p)}) = {k \<in> fst ` S \<union> fst ` S'. P k}"
  by (auto simp: image_Un image_image)

lemma unknown_row_ids:
  assumes "length (value_columns ti) \<le> length fs"
  shows "fst ` ((\<lambda>p. (fst p, FString (snd p))) ` {p \<in> set (not_null_values (row_columns ti fs)). \<not> known lut (fst p)}
      \<union> (\<lambda>p. (fst p, Null)) ` {p \<in> set (null_columns (row_columns ti fs)). \<not> known lut (fst p)})
    = {ci_id c |c. c \<in> set (value_columns ti) \<and> \<not> known lut (ci_id c)}"
proof -
  have "fst ` set (not_null_values ps) \<union> fst ` set (null_columns ps) = (ci_id \<circ> fst) ` set ps" for ps
  proof (induction ps)
    case (Cons p ps)
    then show ?case by (cases p; cases "snd p = Null") (simp_all add: comp_def)
  qed simp
  moreover have "fst ` set (row_columns ti fs) = set (value_columns ti)"
    using assms by (metis list.set_map map_fst_zip_take min.absorb1 row_columns_def take_all_iff order_refl)
  ultimately have ids: "fst ` set (not_null_values (row_columns ti fs)) \<union> fst ` set (null_columns (row_columns ti fs)) = ci_id ` set (value_columns ti)"
    by (metis image_comp)
  show ?thesis unfolding fst_image_parts [where P = "\<lambda>k. \<not> known lut k"] ids by auto
qed

lemma unknown_row_value:
  assumes "distinct (map (ci_id \<circ> fst) (row_columns ti fs))"
    and "\<forall>p \<in> set (row_columns ti fs). snd p \<noteq> Null \<longrightarrow> (\<exists>bs. encodeNotNullColumn (snd p) (fst p) = Inr bs)"
    and "\<forall>f \<in> set fs. decimal_ok f" and "set nn = set (not_null_values (row_columns ti fs))" "set nulls = set (null_columns (row_columns ti fs))"
    and "(c, f) \<in> set (row_columns ti fs)" and "\<forall>p \<in> set nn. length (snd p) < 2 ^ 64"
    and "(ci_id c, u) \<in> (\<lambda>p. (fst p, FString (snd p))) ` {p \<in> set nn. \<not> known lut (fst p)} \<union> (\<lambda>p. (fst p, Null)) ` {p \<in> set nulls. \<not> known lut (fst p)}"
  shows "decodeUnknownColumnV2 u c = Inr (datum_image f)"
proof -
  consider (str) bs where "(ci_id c, bs) \<in> set nn" "u = FString bs" | (null) "(ci_id c, ()) \<in> set nulls" "u = Null"
    using assms(8) by auto
  then show ?thesis
  proof cases
    case (str bs)
    obtain c' f' where c': "(c', f') \<in> set (row_columns ti fs)" "ci_id c = ci_id c'" "encodeNotNullColumn f' c' = Inr bs"
      by (rule not_null_values_mem [OF str(1) [unfolded assms(4)] assms(2)])
    have "encodeNotNullColumn f c = Inr bs" using row_column_unique [OF assms(1,6) c'(1,2)] c'(3) by simp
    moreover have "decimal_ok f" using assms(3,6) by (auto simp: row_columns_def dest: set_zip_rightD)
    moreover have "length bs < 2 ^ 64" using bspec [OF assms(7) str(1)] by simp
    ultimately show ?thesis unfolding str(2) by (rule decodeUnknownColumnV2_encode)
  next
    case null
    then have "f = Null" using row_column_unique [OF assms(1,6)] unfolding assms(5) by (auto simp: null_columns_def)
    then show ?thesis using null by (simp add: decodeUnknownColumnV2_def)
  qed
qed

subsection \<open>Rows of the first format\<close>

lemma decode_fields_at:
  assumes "\<forall>p \<in> set ps. datum_ok (snd p) (getCodecFlag (fst p)) \<and> - (2 ^ 63) \<le> ci_id (fst p) \<and> ci_id (fst p) < 2 ^ 63"
    and "length (ss @ rest) < 2 ^ 64"
    and "rest = concat (map (\<lambda>(c, f). projr (EncodeDatum (FInt64 (word_of_int (ci_id c))) CodecFlagInt) @ projr (EncodeDatum f (getCodecFlag c))) ps)"
  shows "decode_fields (ss @ rest) (length ss) decoded = Some (Inr (decoded @ map (\<lambda>(c, f). (ci_id c, datum_image f)) ps, length (ss @ rest)))"
  using assms
proof (induction ps arbitrary: ss rest decoded)
  case Nil
  then show ?case by (subst decode_fields.simps) simp
next
  case (Cons p ps)
  obtain c f where p: "p = (c, f)" by fastforce
  let ?i = "FInt64 (word_of_int (ci_id c))"
  have okf: "datum_ok f (getCodecFlag c)" and idr: "- (2 ^ 63) \<le> ci_id c" "ci_id c < 2 ^ 63" using Cons.prems(1) p by auto
  define rest1 where "rest1 = concat (map (\<lambda>(c, f). projr (EncodeDatum (FInt64 (word_of_int (ci_id c))) CodecFlagInt) @ projr (EncodeDatum f (getCodecFlag c))) ps)"
  obtain bs2 where b2: "EncodeDatum f (getCodecFlag c) = Inr bs2" using EncodeDatum_roundtrip [OF okf] by blast
  obtain bs1 where b1: "EncodeDatum ?i CodecFlagInt = Inr bs1" using EncodeDatum_roundtrip [of ?i CodecFlagInt] by auto
  have rest: "rest = bs1 @ bs2 @ rest1" using Cons.prems(3) p b1 b2 by (simp add: rest1_def)
  have "bs1 \<noteq> []" using b1 by (auto simp: EncodeDatum_def rbind_eq_Inr Let_def split: if_splits)
  then have lt: "length ss < length (ss @ rest)" using rest by simp
  have d1: "DecodeDatum (length ss) (ss @ rest) = Inr (?i, length (ss @ bs1))"
    using EncodeDatum_roundtrip [of ?i CodecFlagInt ss "bs2 @ rest1"] b1 rest Cons.prems(2) by auto
  have d2: "DecodeDatum (length (ss @ bs1)) (ss @ rest) = Inr (datum_image f, length (ss @ bs1 @ bs2))"
    using EncodeDatum_roundtrip [OF okf, of "ss @ bs1" rest1] b2 rest Cons.prems(2) by auto
  have id: "get_ColumnID ?i = Inr (ci_id c)" using idr by (simp add: get_ColumnID_def signed_of_int signed_take_bit_int_eq_self)
  have "decode_fields (ss @ rest) (length (ss @ bs1 @ bs2)) (decoded @ [(ci_id c, datum_image f)]) =
      Some (Inr ((decoded @ [(ci_id c, datum_image f)]) @ map (\<lambda>(c, f). (ci_id c, datum_image f)) ps, length (ss @ rest)))"
    using Cons.IH [OF _ _ rest1_def, of "ss @ bs1 @ bs2" "decoded @ [(ci_id c, datum_image f)]"] Cons.prems(1,2)
    unfolding rest by simp
  then show ?case using lt d1 d2 id p by (subst decode_fields.simps) (simp del: length_append)
qed

lemma encodeRowV1_loop_Inr:
  assumes "encodeRowV1_loop ti fs cols i ss = Inr raw"
  shows "raw = ss @ concat (map (\<lambda>(c, f). projr (EncodeDatum (FInt64 (word_of_int (ci_id c))) CodecFlagInt) @ projr (EncodeDatum f (getCodecFlag c)))
      (zip (filter (\<lambda>c. \<not> inKey ti c) cols) (drop i fs)))
    \<and> length (filter (\<lambda>c. \<not> inKey ti c) cols) \<le> length fs - i"
  using assms
proof (induction cols arbitrary: i ss)
  case (Cons c cols)
  show ?case
  proof (cases "inKey ti c")
    case False
    then obtain f bs1 bs2 where f: "field_at fs i = Inr f" and b: "EncodeDatum (FInt64 (word_of_int (ci_id c))) CodecFlagInt = Inr bs1"
      "EncodeDatum f (getCodecFlag c) = Inr bs2" and rest: "encodeRowV1_loop ti fs cols (i + 1) (ss @ bs1 @ bs2) = Inr raw"
      using Cons.prems by (auto simp: rbind_eq_Inr)
    have "drop i fs = f # drop (i + 1) fs" "i < length fs" using f by (auto simp: field_at_def Cons_nth_drop_Suc split: if_splits)
    then show ?thesis using Cons.IH [OF rest] b False by (auto simp: Suc_le_eq)
  qed (use Cons in simp)
qed simp

lemma analyze_schema_eq:
  assumes "lut_ok ti lut" "sorted_wrt (<) (map fst decoded0)"
  shows "analyze_schema decoded0 ti lut =
    Inr (row_spec ti lut True (filter (\<lambda>p. known lut (fst p)) decoded0) (filter (\<lambda>p. \<not> known lut (fst p)) decoded0))"
proof -
  have s: "sorted_wrt (<) (map fst (filter P decoded0))" for P using assms(2) by (rule sorted_map_filter)
  have "filter (\<lambda>p. known lut (fst p)) decoded0 = decoded0" "filter (\<lambda>p. \<not> known lut (fst p)) decoded0 = []"
    if "list_all (\<lambda>p. known lut (fst p)) decoded0"
    using that by (auto simp: list_all_iff intro!: filter_True filter_False)
  then have d: "(if length decoded0 = length lut \<and> list_all (\<lambda>p. known lut (fst p)) decoded0 then decoded0
        else filter (\<lambda>p. known lut (fst p)) decoded0) = filter (\<lambda>p. known lut (fst p)) decoded0"
      "(if length decoded0 = length lut \<and> list_all (\<lambda>p. known lut (fst p)) decoded0 then []
        else filter (\<lambda>p. \<not> known lut (fst p)) decoded0) = filter (\<lambda>p. \<not> known lut (fst p)) decoded0" by auto
  show ?thesis unfolding analyze_schema_def Let_def known_def [symmetric] d
    using hasMissingColumns_eq [OF assms(1) s, of "\<lambda>p. known lut (fst p)"] s
    by (simp add: new_DecodedRow_def isSortedByColumnID_iff row_spec_def)
qed

lemma sort_key_strict:
  assumes "distinct (map fst xs)"
  shows "sorted_wrt (<) (map fst (sort_key fst xs))"
  using assms by (simp add: strict_sorted_iff) (metis distinct_map set_sort mset_sort mset_map mset_eq_imp_distinct_iff)

subsection \<open>Properties\<close>

text \<open>
  C7: a row that the encoder of the second format writes is read back by \<open>decodeRow\<close>, for every schema: the fields
  of the columns that the lookup table knows come back sorted by identifier with their values, the bytes
  of the other columns are kept and give the value once the column is known, and the row is marked as
  incomplete exactly when a column of the lookup table is not in the row and cannot be filled in. Narrow
  and big rows are covered.
\<close>

theorem row_v2_roundtrip:
  assumes "encodeRowV2 ti fs = Inr raw" and "length raw < 2 ^ 32" and "distinct (map ci_id (ti_columns ti))"
    and "length (ti_columns ti) < 2 ^ 16" and "\<forall>c \<in> set (ti_columns ti). 0 \<le> ci_id c \<and> ci_id c < 2 ^ 32"
    and "\<forall>f \<in> set fs. decimal_ok f" and "lut_ok ti lut"
  shows "\<exists>decoded unknown. decodeRow raw ti lut = Some (Inr (row_spec ti lut False decoded unknown))
    \<and> sorted_wrt (<) (map fst decoded) \<and> sorted_wrt (<) (map fst unknown)
    \<and> set decoded = {(ci_id c, datum_image f) |c f. (c, f) \<in> set (row_columns ti fs) \<and> known lut (ci_id c)}
    \<and> fst ` set unknown = {ci_id c |c. c \<in> set (value_columns ti) \<and> \<not> known lut (ci_id c)}
    \<and> (\<forall>c f u. (c, f) \<in> set (row_columns ti fs) \<longrightarrow> (ci_id c, u) \<in> set unknown \<longrightarrow> decodeUnknownColumnV2 u c = Inr (datum_image f))"
proof -
  let ?ps = "row_columns ti fs"
  obtain decoded unknown nn nulls where d: "decodeRow raw ti lut = Some (Inr (row_spec ti lut False decoded unknown))"
    and parts: "decoded_parts lut (row_value ?ps) nn nulls decoded unknown"
    and nn: "set nn = set (not_null_values ?ps)" "set nulls = set (null_columns ?ps)" and short: "\<forall>p \<in> set nn. length (snd p) < 2 ^ 64"
    and len: "length (value_columns ti) \<le> length fs"
    and enc: "\<forall>p \<in> set ?ps. snd p \<noteq> Null \<longrightarrow> (\<exists>bs. encodeNotNullColumn (snd p) (fst p) = Inr bs)"
    by (rule encoded_row_decoded [OF assms])
  note dist = row_columns_distinct(2) [OF assms(3)]
  note p = parts [unfolded decoded_parts_def, THEN conjunct1] parts [unfolded decoded_parts_def, THEN conjunct2, THEN conjunct1]
    parts [unfolded decoded_parts_def, THEN conjunct2, THEN conjunct2, THEN conjunct1] parts [unfolded decoded_parts_def, THEN conjunct2, THEN conjunct2, THEN conjunct2]
  have dec: "set decoded = {(ci_id c, datum_image f) |c f. (c, f) \<in> set ?ps \<and> known lut (ci_id c)}"
    unfolding p(3) nn by (rule decoded_row_set [OF dist])
  have unk: "fst ` set unknown = {ci_id c |c. c \<in> set (value_columns ti) \<and> \<not> known lut (ci_id c)}"
    unfolding p(4) nn by (rule unknown_row_ids [OF len])
  have "decodeUnknownColumnV2 u c = Inr (datum_image f)" if "(c, f) \<in> set ?ps" "(ci_id c, u) \<in> set unknown" for c f u
    using that(2) unfolding p(4) by (rule unknown_row_value [OF dist enc assms(6) nn that(1) short])
  then show ?thesis using d p(1,2) dec unk by blast
qed

definition sample_table :: TableInfo where
  "sample_table = \<lparr>ti_columns = [
      \<lparr>ci_id = 1, ci_name = ''id'', ci_tp = TypeLongLong, ci_flag = 3, ci_flen = 20, ci_decimal = 0, ci_origin_default = None\<rparr>,
      \<lparr>ci_id = 2, ci_name = ''name'', ci_tp = TypeVarchar, ci_flag = 0, ci_flen = 20, ci_decimal = 0, ci_origin_default = None\<rparr>,
      \<lparr>ci_id = 300, ci_name = ''n'', ci_tp = TypeLong, ci_flag = 0, ci_flen = 11, ci_decimal = 0, ci_origin_default = None\<rparr>,
      \<lparr>ci_id = 7, ci_name = ''u'', ci_tp = TypeTiny, ci_flag = 32, ci_flen = 3, ci_decimal = 0, ci_origin_default = None\<rparr>],
    ti_index_infos = [], ti_pk_is_handle = True, ti_is_common_handle = False\<rparr>"

definition sample_fields :: "Field list" where
  "sample_fields = [FString [97, 98], FInt64 (- 5), Null]"

definition sample_lut :: ColumnIdToIndex where
  "sample_lut = [(2, 1), (7, 3)]"

lemma sample_facts:
  "distinct (map ci_id (ti_columns sample_table))" "lut_ok sample_table sample_lut"
  "\<forall>c \<in> set (ti_columns sample_table). 0 \<le> ci_id c \<and> ci_id c < 2 ^ 32" "\<forall>f \<in> set sample_fields. decimal_ok f"
  "length (ti_columns sample_table) < 2 ^ 16"
  by (simp_all add: sample_table_def sample_fields_def lut_ok_def sample_lut_def)

theorem row_v2_roundtrip_witness:
  "\<exists>raw decoded unknown. encodeRowV2 sample_table sample_fields = Inr raw
    \<and> decodeRow raw sample_table sample_lut = Some (Inr (row_spec sample_table sample_lut False decoded unknown))
    \<and> set decoded = {(ci_id c, datum_image f) |c f. (c, f) \<in> set (row_columns sample_table sample_fields) \<and> known sample_lut (ci_id c)}"
proof -
  have e: "encodeRowV2 sample_table sample_fields
    = Inr [128, 1, 2, 0, 1, 0, 2, 0, 0, 0, 44, 1, 0, 0, 7, 0, 0, 0, 2, 0, 0, 0, 3, 0, 0, 0, 97, 98, 251]" by code_simp
  show ?thesis using row_v2_roundtrip [OF e _ sample_facts(1,5,3,4,2)] e by fastforce
qed


lemma datum_ok_column_id: "EncodeDatum (FInt64 x) CodecFlagInt = Inr (3 # EncodeInt64 x)"
  by (simp add: EncodeDatum_def EncodeDatum_body_def safeGet_Int64_def)

lemma encoded_v1_fields:
  assumes "encodeRowV1 ti fs = Inr raw" "length raw < 2 ^ 64" "\<forall>c \<in> set (ti_columns ti). - (2 ^ 63) \<le> ci_id c \<and> ci_id c < 2 ^ 63"
    and "\<forall>p \<in> set (row_columns ti fs). datum_ok (snd p) (getCodecFlag (fst p))"
  shows "decode_fields raw 0 [] = Some (Inr (map (\<lambda>(c, f). (ci_id c, datum_image f)) (row_columns ti fs), length raw))"
    and "raw = [] \<or> hd raw = 3"
proof -
  have "encodeRowV1_loop ti fs (ti_columns ti) 0 [] = Inr raw" using assms(1) by (auto simp: encodeRowV1_def rbind_eq_Inr split: if_splits)
  then have raw: "raw = concat (map (\<lambda>(c, f). projr (EncodeDatum (FInt64 (word_of_int (ci_id c))) CodecFlagInt) @ projr (EncodeDatum f (getCodecFlag c))) (row_columns ti fs))"
    using encodeRowV1_loop_Inr by (fastforce simp: row_columns_def value_columns_def)
  have "fst p \<in> set (ti_columns ti)" if "p \<in> set (row_columns ti fs)" for p
    using that set_zip_leftD [of "fst p" "snd p" "value_columns ti" fs] by (simp add: row_columns_def value_columns_def)
  then show "decode_fields raw 0 [] = Some (Inr (map (\<lambda>(c, f). (ci_id c, datum_image f)) (row_columns ti fs), length raw))"
    using decode_fields_at [of "row_columns ti fs" "[]" raw "[]"] assms(2-4) raw by simp
  show "raw = [] \<or> hd raw = 3" unfolding raw by (cases "row_columns ti fs") (auto simp: datum_ok_column_id)
qed

text \<open>
  C8: a row that the encoder of the first format writes is read back by \<open>decodeRow\<close>: the loop ends, the fields of the
  columns that the lookup table knows and those of the others come back, each sorted by identifier and
  with their values, and the row is marked as incomplete exactly when a column of the lookup table is not
  in the row and cannot be filled in.
\<close>

theorem row_v1_roundtrip:
  assumes "encodeRowV1 ti fs = Inr raw" and "length raw < 2 ^ 64" and "distinct (map ci_id (ti_columns ti))"
    and "\<forall>c \<in> set (ti_columns ti). - (2 ^ 63) \<le> ci_id c \<and> ci_id c < 2 ^ 63"
    and "\<forall>p \<in> set (row_columns ti fs). datum_ok (snd p) (getCodecFlag (fst p))" and "lut_ok ti lut"
  shows "\<exists>decoded unknown. decodeRow raw ti lut = Some (Inr (row_spec ti lut True decoded unknown))
    \<and> sorted_wrt (<) (map fst decoded) \<and> sorted_wrt (<) (map fst unknown)
    \<and> set decoded = {(ci_id c, datum_image f) |c f. (c, f) \<in> set (row_columns ti fs) \<and> known lut (ci_id c)}
    \<and> set unknown = {(ci_id c, datum_image f) |c f. (c, f) \<in> set (row_columns ti fs) \<and> \<not> known lut (ci_id c)}"
proof -
  let ?fields = "map (\<lambda>(c, f). (ci_id c, datum_image f)) (row_columns ti fs)"
  let ?d = "sort_key fst ?fields"
  note e = encoded_v1_fields [OF assms(1,2,4,5)]
  have "map fst ?fields = map (ci_id \<circ> fst) (row_columns ti fs)" by auto
  then have s: "sorted_wrt (<) (map fst ?d)" using row_columns_distinct(2) [OF assms(3), of fs] by (intro sort_key_strict) metis
  have "decodeRow raw ti lut = Some (Inr (row_spec ti lut True (filter (\<lambda>p. known lut (fst p)) ?d) (filter (\<lambda>p. \<not> known lut (fst p)) ?d)))"
    using e analyze_schema_eq [OF assms(6) s] by (auto simp: decodeRow_def ROW_V2_def decodeRowV1_def)
  moreover have "set (filter (\<lambda>p. known lut (fst p)) ?d) = {(ci_id c, datum_image f) |c f. (c, f) \<in> set (row_columns ti fs) \<and> known lut (ci_id c)}"
    "set (filter (\<lambda>p. \<not> known lut (fst p)) ?d) = {(ci_id c, datum_image f) |c f. (c, f) \<in> set (row_columns ti fs) \<and> \<not> known lut (ci_id c)}"
    by (auto, blast+)
  ultimately show ?thesis using sorted_map_filter [OF s] by blast
qed

theorem row_v1_roundtrip_witness:
  "\<exists>raw decoded unknown. encodeRowV1 sample_table sample_fields = Inr raw
    \<and> decodeRow raw sample_table sample_lut = Some (Inr (row_spec sample_table sample_lut True decoded unknown))
    \<and> set decoded = {(ci_id c, datum_image f) |c f. (c, f) \<in> set (row_columns sample_table sample_fields) \<and> known sample_lut (ci_id c)}"
proof -
  have e: "encodeRowV1 sample_table sample_fields = Inr [3, 128, 0, 0, 0, 0, 0, 0, 2, 2, 4, 97, 98, 3, 128, 0, 0, 0, 0, 0, 1, 44, 8, 9, 3, 128, 0, 0, 0, 0, 0, 0, 7, 0]"
    by code_simp
  have ok: "\<forall>p \<in> set (row_columns sample_table sample_fields). datum_ok (snd p) (getCodecFlag (fst p))"
    by (simp add: row_columns_def value_columns_def sample_table_def sample_fields_def inKey_def column_flags getCodecFlag_def getCodecFlagBase_def)
  have "\<forall>c \<in> set (ti_columns sample_table). - (2 ^ 63) \<le> ci_id c \<and> ci_id c < 2 ^ 63" by (simp add: sample_table_def)
  from row_v1_roundtrip [OF e _ sample_facts(1) this ok sample_facts(2)] show ?thesis using e by force
qed

text \<open>
  A row of the first format whose second datum is a JSON string of length \<open>2 ^ 64 - 21\<close>: its end is 21 bytes
  before the end of the address space, which is the start of the row.
\<close>

definition endless_row :: bytes where
  "endless_row = [3, 0x80, 0, 0, 0, 0, 0, 0, 1, 10, 0x0c, 0xeb, 0xff, 0xff, 0xff, 0xff, 0xff, 0xff, 0xff, 0xff, 0x01]"

lemma endless_length: "writeVarUInt (- 21) = [0xeb, 0xff, 0xff, 0xff, 0xff, 0xff, 0xff, 0xff, 0xff, 0x01]"
  by code_simp

lemma endless_row_first: "DecodeDatum 0 endless_row = Inr (FInt64 1, 9)"
  by code_simp

lemma endless_row_second: "DecodeDatum 9 endless_row = Inr (FString (drop 10 endless_row), 0)"
proof -
  have "DecodeVarUInt 11 endless_row = Inr (- 21, 21)"
    using DecodeVarUInt_writeVarUInt [of "take 11 endless_row" "- 21" "[]"] by (simp add: endless_length endless_row_def eval_nat_numeral)
  then have "DecodeJson_size 10 endless_row = Inr (- 10)"
    by (simp add: DecodeJson_size_def type_codes str_at_def endless_row_def)
  then have "DecodeJsonAsBinary 10 endless_row = Inr (drop 10 endless_row, 0)"
    by (simp add: DecodeJsonAsBinary_def endless_row_def)
  then show ?thesis by (simp add: DecodeDatum_def str_at_def as_field_def) (simp add: endless_row_def)
qed

lemmas endless_row_steps = endless_row_first endless_row_second

lemma decode_fields_endless: "decode_fields endless_row 0 decoded \<noteq> Some r"
proof
  assume "decode_fields endless_row 0 decoded = Some r"
  then have "endless_row = endless_row \<longrightarrow> (0 :: nat) \<noteq> 0"
  proof (rule decode_fields.raw_induct [where P = "\<lambda>raw cursor _ _. raw = endless_row \<longrightarrow> cursor \<noteq> 0", rotated])
    fix loop raw cursor fs y
    assume IH: "\<And>raw cursor fs y. loop raw cursor fs = Some y \<Longrightarrow> raw = endless_row \<longrightarrow> cursor \<noteq> (0 :: nat)"
      and step: "(if cursor < length raw then
        (case DecodeDatum cursor raw of Inl e \<Rightarrow> Some (Inl e)
         | Inr (f, cursor1) \<Rightarrow> if f = Null then Some (Inr (fs, cursor1))
             else (case get_ColumnID f of Inl e \<Rightarrow> Some (Inl e)
               | Inr col_id \<Rightarrow> (case DecodeDatum cursor1 raw of Inl e \<Rightarrow> Some (Inl e)
                    | Inr (v, cursor2) \<Rightarrow> loop raw cursor2 (fs @ [(col_id, v)]))))
        else Some (Inr (fs, cursor))) = Some y"
    show "raw = endless_row \<longrightarrow> cursor \<noteq> 0"
    proof (intro impI notI)
      assume c: "raw = endless_row" "cursor = 0"
      have "0 < length endless_row" by (simp add: endless_row_def)
      then have "loop endless_row 0 (fs @ [(1, FString (drop 10 endless_row))]) = Some y"
        using step by (simp add: c endless_row_steps get_ColumnID_def)
      then show False using IH by blast
    qed
  qed
  then show False by simp
qed

text \<open>
  C33: the loop of the first format does not end on every input: the length of a JSON string is added to the
  cursor without a check, the sum wraps around, and a row of 21 bytes sends the cursor back to its start for
  ever, whatever the schema; the fields that it collects have no bound in the model.
\<close>

theorem row_v1_endless: "decodeRow endless_row ti lut = None"
proof -
  have "decode_fields endless_row 0 [] = None" using decode_fields_endless [of "[]"] by (cases "decode_fields endless_row 0 []") auto
  moreover have "endless_row \<noteq> [] \<and> hd endless_row \<noteq> ROW_V2" by (simp add: endless_row_def ROW_V2_def)
  ultimately show ?thesis by (simp add: decodeRow_def decodeRowV1_def)
qed

end
