(* ===== verification/BlockReader.thy ===== *)
theory BlockReader
  imports RowCodec RegionData TableHandle
begin

unbundle bit_operations_syntax

section \<open>Blocks of rows\<close>

text \<open>
  \<open>Storages/Transaction/RegionBlockReader.cpp\<close> with its helper, and the parts of \<open>TiDB.cpp\<close>, \<open>Datum.cpp\<close>
  and \<open>PredecodeTiKVValue.cpp\<close> that it uses: committed rows become a block of columns, with one entry in
  every column for each row that is not later than the read and passes the filter. A column is the list
  of its fields. The map from the identifiers to the columns is an association list; it is reserved for
  all of its columns, so its iterators stay valid. The names that are read are distinct.

  A row comes with its key, the type and the time of its write, and its value together with the row that
  background decoding may have left with the value.
\<close>

type_synonym ReadInfo = "RawTiDBPK \<times> UInt8 \<times> Timestamp \<times> (TiKVValue \<times> DecodedRow option) option"

subsection \<open>Default values\<close>

definition genJsonNull :: bytes where
  "genJsonNull = [TYPE_CODE_LITERAL, 0]"

definition GenDefaultField :: "ColumnInfo \<Rightarrow> Field result" where
  "GenDefaultField col_info =
     (case getCodecFlag col_info of
        CodecFlagNil \<Rightarrow> Inr Null
      | CodecFlagBytes \<Rightarrow> Inr (FString [])
      | CodecFlagDecimal \<Rightarrow> rbind (createDecimal (scast (ci_flen col_info)) (scast (ci_decimal col_info))) (\<lambda>type.
          Inr (FDecimal type 0 (ci_decimal col_info)))
      | CodecFlagCompactBytes \<Rightarrow> Inr (FString [])
      | CodecFlagFloat \<Rightarrow> Inr (FFloat64 0)
      | CodecFlagUInt \<Rightarrow> Inr (FUInt64 0)
      | CodecFlagInt \<Rightarrow> Inr (FInt64 0)
      | CodecFlagVarInt \<Rightarrow> Inr (FInt64 0)
      | CodecFlagVarUInt \<Rightarrow> Inr (FUInt64 0)
      | CodecFlagJson \<Rightarrow> Inr (FString genJsonNull)
      | CodecFlagDuration \<Rightarrow> Inr (FInt64 0)
      | _ \<Rightarrow> throw ''Not implemented codec flag: '')"

definition defaultValueToField :: "ColumnInfo \<Rightarrow> Field result" where
  "defaultValueToField column_info =
     (case ci_origin_default column_info of
        None \<Rightarrow> if hasNotNullFlag column_info then GenDefaultField column_info else Inr Null
      | Some converted \<Rightarrow> converted)"

subsection \<open>Flat datums\<close>

definition get_bits :: "Field \<Rightarrow> UInt64 result" where
  "get_bits f = (case f of FInt64 x \<Rightarrow> Inr x | FUInt64 x \<Rightarrow> Inr x | FFloat64 x \<Rightarrow> Inr x | _ \<Rightarrow> Inl OutOfBounds)"

definition DatumFlat :: "Field \<Rightarrow> TP \<Rightarrow> Field result" where
  "DatumFlat orig tp =
     (if orig = Null then Inr orig
      else if tp = TypeEnum then rbind (get_bits orig) (\<lambda>x. Inr (FInt64 x))
      else Inr orig)"

definition concreteOverflow :: "nat \<Rightarrow> Field \<Rightarrow> ColumnInfo \<Rightarrow> bool result" where
  "concreteOverflow w field column_info =
     rbind (get_bits field) (\<lambda>x.
       if hasUnsignedFlag column_info then Inr (x \<noteq> take_bit w x) else Inr (x \<noteq> signed_take_bit (w - 1) x))"

definition datum_overflow :: "Field \<Rightarrow> Field \<Rightarrow> ColumnInfo \<Rightarrow> bool result" where
  "datum_overflow orig field column_info =
     (if orig = Null then Inr False
      else if ci_tp column_info = TypeTiny then concreteOverflow 8 field column_info
      else if ci_tp column_info = TypeShort then concreteOverflow 16 field column_info
      else if ci_tp column_info \<in> {TypeLong, TypeInt24} then concreteOverflow 32 field column_info
      else Inr False)"

definition invalidNull :: "Field \<Rightarrow> ColumnInfo \<Rightarrow> bool" where
  "invalidNull orig column_info \<longleftrightarrow> hasNotNullFlag column_info \<and> orig = Null"

subsection \<open>Types, filters and the order of rows\<close>

datatype DataType = DataTypeInt64 | DataTypeUInt64 | DataTypeString | DataTypeOther string

datatype TMTPKType = INT64 | UINT64 | STRING | UNSPECIFIED

fun getTMTPKType :: "DataType \<Rightarrow> TMTPKType" where
  "getTMTPKType DataTypeInt64 = INT64"
| "getTMTPKType DataTypeUInt64 = UINT64"
| "getTMTPKType DataTypeString = STRING"
| "getTMTPKType (DataTypeOther _) = UNSPECIFIED"

record RegionScanFilter =
  is_full_range_scan :: bool
  int64_ranges :: "HandleRange list"
  uint64_ranges :: "HandleRange list"

definition isValidHandle_u :: "RegionScanFilter \<Rightarrow> HandleID \<Rightarrow> bool" where
  "isValidHandle_u flt handle \<longleftrightarrow> list_ex (\<lambda>range. id_geq_uhandle handle (fst range) \<and> id_less_uhandle handle (snd range)) (uint64_ranges flt)"

definition isValidHandle_i :: "RegionScanFilter \<Rightarrow> HandleID \<Rightarrow> bool" where
  "isValidHandle_i flt handle \<longleftrightarrow> list_ex (\<lambda>range. id_geq_handle handle (fst range) \<and> id_less_handle handle (snd range)) (int64_ranges flt)"

definition filter_u :: "RegionScanFilter \<Rightarrow> HandleID \<Rightarrow> bool" where
  "filter_u flt handle \<longleftrightarrow> \<not> is_full_range_scan flt \<and> \<not> isValidHandle_u flt handle"

definition filter_i :: "RegionScanFilter \<Rightarrow> HandleID \<Rightarrow> bool" where
  "filter_i flt handle \<longleftrightarrow> \<not> is_full_range_scan flt \<and> \<not> isValidHandle_i flt handle"

definition should_skip :: "TMTPKType \<Rightarrow> RegionScanFilter option \<Rightarrow> RawTiDBPK \<Rightarrow> bool" where
  "should_skip pk_type scan_filter pk =
     (if pk_type = STRING then False
      else (case scan_filter of
          None \<Rightarrow> False
        | Some flt \<Rightarrow> if pk_type = UINT64 then filter_u flt (RawTiDBPK_handle pk) else filter_i flt (RawTiDBPK_handle pk)))"

definition negative_handle :: "ReadInfo \<Rightarrow> bool" where
  "negative_handle row \<longleftrightarrow> RawTiDBPK_handle (fst row) AND SIGN_MASK \<noteq> 0"

definition ReorderRegionDataReadList :: "ReadInfo list \<Rightarrow> ReadInfo list" where
  "ReorderRegionDataReadList data_list =
     (if length data_list > 2 then
        (if negative_handle (hd data_list) \<and> \<not> negative_handle (last data_list) then
           (let before = takeWhile negative_handle data_list; after = dropWhile negative_handle data_list
            in rev (rev before @ rev after))
         else data_list)
      else data_list)"

subsection \<open>One row\<close>

record ColTypeInfo =
  ct_column :: "Field list"
  ct_name :: string
  ct_type :: DataType
  ct_index :: nat

type_synonym ColumnDataInfoMap = "(ColumnID \<times> ColTypeInfo) list"

definition EmptyColumnID :: ColumnID where "EmptyColumnID = - 2"
definition TiDBPkColumnID :: ColumnID where "TiDBPkColumnID = - 1"
definition VersionColumnID :: ColumnID where "VersionColumnID = - 1024"
definition DelMarkColumnID :: ColumnID where "DelMarkColumnID = - 1025"
definition InvalidColumnID :: ColumnID where "InvalidColumnID = - 10000"

definition cm_at :: "ColumnID \<Rightarrow> ColumnDataInfoMap \<Rightarrow> ColTypeInfo result" where
  "cm_at col_id column_map = (case map_of column_map col_id of None \<Rightarrow> Inl OutOfBounds | Some ct \<Rightarrow> Inr ct)"

definition cm_insert :: "ColumnID \<Rightarrow> Field \<Rightarrow> ColumnDataInfoMap \<Rightarrow> ColumnDataInfoMap result" where
  "cm_insert col_id f column_map =
     rbind (cm_at col_id column_map) (\<lambda>ct. Inr (AList.update col_id (ct\<lparr>ct_column := ct_column ct @ [f]\<rparr>) column_map))"

text \<open>The fields of a row in the order of the columns to read, and the number of columns of the key that
  the row does not have. \<open>search\<close> holds the decoded fields from the search iterator on.\<close>

fun collect_fields :: "TableInfo \<Rightarrow> DecodedRow \<Rightarrow> DecodedFields \<Rightarrow> (ColumnID \<times> nat) list \<Rightarrow> (DecodedFields \<times> nat) result" where
  "collect_fields table_info row search [] = Inr ([], 0)"
| "collect_fields table_info row search ((col_id, idx) # lut) =
     (let search1 = dropWhile (\<lambda>e. \<not> fst e \<ge> col_id) search
      in if search1 \<noteq> [] \<and> fst (hd search1) = col_id
         then rbind (collect_fields table_info row (tl search1) lut) (\<lambda>(fs, n). Inr (hd search1 # fs, n))
         else rbind (getColumn table_info idx) (\<lambda>column_info.
           case findByColumnID col_id (unknown_fields row) of
             Some it \<Rightarrow>
               if \<not> with_codec_flag row
               then rbind (decodeUnknownColumnV2 (snd it) column_info) (\<lambda>f.
                 rbind (collect_fields table_info row search1 lut) (\<lambda>(fs, n). Inr ((ci_id column_info, f) # fs, n)))
               else rbind (collect_fields table_info row search1 lut) (\<lambda>(fs, n). Inr (it # fs, n))
           | None \<Rightarrow>
               if \<not> (ti_is_common_handle table_info \<and> hasPriKeyFlag column_info)
               then rbind (defaultValueToField column_info) (\<lambda>f.
                 rbind (collect_fields table_info row search1 lut) (\<lambda>(fs, n). Inr ((ci_id column_info, f) # fs, n)))
               else rbind (collect_fields table_info row search1 lut) (\<lambda>(fs, n). Inr (fs, n + 1))))"

fun deleted_fields :: "TableInfo \<Rightarrow> (ColumnID \<times> nat) list \<Rightarrow> DecodedFields result" where
  "deleted_fields table_info [] = Inr []"
| "deleted_fields table_info ((_, idx) # lut) =
     rbind (getColumn table_info idx) (\<lambda>column.
     rbind (if hasNotNullFlag column then GenDefaultField column else Inr Null) (\<lambda>f.
     rbind (deleted_fields table_info lut) (\<lambda>fs. Inr ((ci_id column, f) # fs))))"

text \<open>An exception stops the loop, so does a row whose decoding never ends; \<open>None\<close> inside is the result
  \<open>false\<close> that asks for a newer schema.\<close>

definition pbind :: "'a result option \<Rightarrow> ('a \<Rightarrow> 'b result option) \<Rightarrow> 'b result option" where
  "pbind m f = (case m of None \<Rightarrow> None | Some (Inl e) \<Rightarrow> Some (Inl e) | Some (Inr x) \<Rightarrow> f x)"

definition loaded_row :: "TableInfo \<Rightarrow> ColumnIdToIndex \<Rightarrow> TiKVValue \<times> DecodedRow option \<Rightarrow> DecodedRow result option" where
  "loaded_row table_info column_lut v =
     (case snd v of Some row \<Rightarrow> Some (Inr row) | None \<Rightarrow> decodeRow (fst v) table_info column_lut)"

definition decode_record :: "TableInfo \<Rightarrow> ColumnIdToIndex \<Rightarrow> (ColumnID \<times> nat) list \<Rightarrow> bool \<Rightarrow> ReadInfo \<Rightarrow> (DecodedFields \<times> nat) option result option" where
  "decode_record table_info column_lut visible force_decode r =
     (case r of (pk, wtype, commit_ts, value_ptr) \<Rightarrow>
        if wtype = DelFlag then Some (rbind (deleted_fields table_info visible) (\<lambda>fs. Inr (Some (fs, 0))))
        else (case value_ptr of
            None \<Rightarrow> Some (Inl OutOfBounds)
          | Some v \<Rightarrow> pbind (loaded_row table_info column_lut v) (\<lambda>row.
              Some (if \<not> force_decode \<and> (has_missing_columns row \<or> unknown_fields row \<noteq> []) then Inr None
                else rbind (collect_fields table_info row (decoded_fields row) visible) (\<lambda>res. Inr (Some res))))))"

fun insert_fields :: "TableInfo \<Rightarrow> bool \<Rightarrow> DecodedFields \<Rightarrow> ColumnDataInfoMap \<Rightarrow> ColumnDataInfoMap option result" where
  "insert_fields table_info force_decode [] column_map = Inr (Some column_map)"
| "insert_fields table_info force_decode ((col_id, field) # fs) column_map =
     rbind (cm_at col_id column_map) (\<lambda>col_info.
     rbind (getColumn table_info (ct_index col_info)) (\<lambda>column_info.
     rbind (DatumFlat field (ci_tp column_info)) (\<lambda>unflattened.
     rbind (datum_overflow field unflattened column_info) (\<lambda>overflow.
       if overflow then (if force_decode then throw ''Detected overflow when decoding data '' else Inr None)
       else if invalidNull field column_info then (if force_decode then throw ''Detected invalid null when decoding data '' else Inr None)
       else rbind (cm_insert col_id unflattened column_map) (insert_fields table_info force_decode fs)))))"

fun insert_key_columns :: "ColumnID list \<Rightarrow> nat \<Rightarrow> RawTiDBPK \<Rightarrow> nat \<Rightarrow> ColumnDataInfoMap \<Rightarrow> ColumnDataInfoMap result" where
  "insert_key_columns [] cursor pk index column_map = Inr column_map"
| "insert_key_columns (col_id # ids) cursor pk index column_map =
     (if cursor < length pk then
        rbind (DecodeDatum cursor pk) (\<lambda>(v, cursor1).
        rbind (if col_id \<noteq> EmptyColumnID
               then rbind (cm_at col_id column_map) (\<lambda>ct.
                 if length (ct_column ct) = index then cm_insert col_id v column_map else Inr column_map)
               else Inr column_map) (insert_key_columns ids cursor1 pk index))
      else Inr column_map)"

definition insert_pk :: "TMTPKType \<Rightarrow> ColumnID list \<Rightarrow> RawTiDBPK \<Rightarrow> nat \<Rightarrow> ColumnDataInfoMap \<Rightarrow> ColumnDataInfoMap result" where
  "insert_pk pk_type pk_column_ids pk index column_map =
     (case pk_type of
        UINT64 \<Rightarrow> cm_insert (hd pk_column_ids) (FUInt64 (RawTiDBPK_handle pk)) column_map
      | STRING \<Rightarrow> rbind (cm_insert (hd pk_column_ids) (FString pk) column_map)
          (insert_key_columns (tl pk_column_ids) 0 pk index)
      | _ \<Rightarrow> cm_insert (hd pk_column_ids) (FInt64 (RawTiDBPK_handle pk)) column_map)"

subsection \<open>All rows\<close>

record BlockState =
  bs_delmark :: "bool list"
  bs_version :: "Timestamp list"
  bs_columns :: ColumnDataInfoMap
  bs_index :: nat

definition read_values :: "TableInfo \<Rightarrow> ColumnIdToIndex \<Rightarrow> (ColumnID \<times> nat) list \<Rightarrow> bool \<Rightarrow> ReadInfo \<Rightarrow> ColumnDataInfoMap \<Rightarrow> ColumnDataInfoMap option result option" where
  "read_values table_info column_lut visible force_decode r column_map =
     pbind (decode_record table_info column_lut visible force_decode r) (\<lambda>res.
       Some (case res of
           None \<Rightarrow> Inr None
         | Some (decoded_data, skipped_pk_columns) \<Rightarrow>
             if length decoded_data + skipped_pk_columns \<noteq> length visible then throw ''decode row error.''
             else insert_fields table_info force_decode decoded_data column_map))"

fun setColumnValues :: "TMTPKType \<Rightarrow> ColumnID list \<Rightarrow> (ColumnID \<times> nat) list \<Rightarrow> ColumnIdToIndex \<Rightarrow> Timestamp \<Rightarrow> bool \<Rightarrow> TableInfo \<Rightarrow> bool \<Rightarrow>
    RegionScanFilter option \<Rightarrow> ReadInfo list \<Rightarrow> BlockState \<Rightarrow> BlockState option result option" where
  "setColumnValues pk_type pk_column_ids visible column_lut tso need_decode_value table_info force_decode scan_filter [] st = Some (Inr (Some st))"
| "setColumnValues pk_type pk_column_ids visible column_lut tso need_decode_value table_info force_decode scan_filter (r # data_list) st =
     (case r of (pk, wtype, commit_ts, value_ptr) \<Rightarrow>
        if commit_ts > tso \<or> should_skip pk_type scan_filter pk
        then setColumnValues pk_type pk_column_ids visible column_lut tso need_decode_value table_info force_decode scan_filter data_list st
        else pbind (if need_decode_value then read_values table_info column_lut visible force_decode r (bs_columns st)
                    else Some (Inr (Some (bs_columns st)))) (\<lambda>res.
          case res of
            None \<Rightarrow> Some (Inr None)
          | Some column_map \<Rightarrow> pbind (Some (insert_pk pk_type pk_column_ids pk (bs_index st) column_map)) (\<lambda>column_map1.
              setColumnValues pk_type pk_column_ids visible column_lut tso need_decode_value table_info force_decode scan_filter data_list
                \<lparr>bs_delmark = bs_delmark st @ [wtype = DelFlag], bs_version = bs_version st @ [commit_ts],
                  bs_columns = column_map1, bs_index = bs_index st + 1\<rparr>)))"

subsection \<open>The block\<close>

record ReadPlan =
  rp_column_lut :: ColumnIdToIndex
  rp_read_ids :: "(string \<times> ColumnID) list"
  rp_primary_ids :: "ColumnID list"
  rp_columns :: ColumnDataInfoMap
  rp_handle_col_id :: ColumnID
  rp_visible :: "(ColumnID \<times> nat) list"

definition primary_key_pos :: "string list \<Rightarrow> string \<Rightarrow> nat option" where
  "primary_key_pos idx_cols name = map_of (rev (zip idx_cols [0..<length idx_cols])) name"

definition plan_column :: "TableInfo \<Rightarrow> (string \<times> DataType) list \<Rightarrow> string list \<Rightarrow> nat \<Rightarrow> ColumnInfo \<Rightarrow> ReadPlan \<Rightarrow> ReadPlan result" where
  "plan_column table_info column_type_map idx_cols i column_info plan =
     (let col_id = ci_id column_info; col_name = ci_name column_info;
          is_handle = (ti_pk_is_handle table_info \<and> hasPriKeyFlag column_info);
          plan1 = (if \<not> is_handle then plan\<lparr>rp_column_lut := fst (umap_emplace col_id i (rp_column_lut plan))\<rparr> else plan)
      in if map_of (rp_read_ids plan1) col_name = None then Inr plan1
         else
           (let plan2 = plan1\<lparr>rp_read_ids := AList.update col_name col_id (rp_read_ids plan1),
                  rp_primary_ids := (case primary_key_pos idx_cols col_name of Some k \<Rightarrow> (rp_primary_ids plan1)[k := col_id] | None \<Rightarrow> rp_primary_ids plan1)\<rparr>
            in case map_of column_type_map col_name of
                 None \<Rightarrow> Inl OutOfBounds
               | Some ty \<Rightarrow>
                   (let plan3 = plan2\<lparr>rp_columns := fst (umap_emplace col_id
                          \<lparr>ct_column = [], ct_name = col_name, ct_type = ty, ct_index = i\<rparr> (rp_columns plan2))\<rparr>
                    in Inr (if is_handle then plan3\<lparr>rp_handle_col_id := col_id\<rparr>
                       else plan3\<lparr>rp_visible := rp_visible plan3 @ [(col_id, i)]\<rparr>))))"

fun plan_columns :: "TableInfo \<Rightarrow> (string \<times> DataType) list \<Rightarrow> string list \<Rightarrow> nat \<Rightarrow> ColumnInfo list \<Rightarrow> ReadPlan \<Rightarrow> ReadPlan result" where
  "plan_columns table_info column_type_map idx_cols i [] plan = Inr plan"
| "plan_columns table_info column_type_map idx_cols i (c # cs) plan =
     rbind (plan_column table_info column_type_map idx_cols i c plan) (plan_columns table_info column_type_map idx_cols (i + 1) cs)"

definition tidb_pk_column_name :: string where "tidb_pk_column_name = ''_tidb_rowid''"
definition version_column_name :: string where "version_column_name = ''_INTERNAL_VERSION''"
definition delmark_column_name :: string where "delmark_column_name = ''_INTERNAL_DELMARK''"

datatype BlockColumn = DelMarks "bool list" | Versions "Timestamp list" | Values "Field list"

type_synonym Block = "(string \<times> BlockColumn \<times> ColumnID) list"

definition initial_plan :: "TableInfo \<Rightarrow> string list \<Rightarrow> string list \<Rightarrow> ReadPlan" where
  "initial_plan table_info idx_cols column_names_to_read =
     \<lparr>rp_column_lut = [],
      rp_read_ids = map (\<lambda>name. (name, if name = tidb_pk_column_name then TiDBPkColumnID else InvalidColumnID)) column_names_to_read,
      rp_primary_ids = replicate (length idx_cols) EmptyColumnID, rp_columns = [], rp_handle_col_id = TiDBPkColumnID, rp_visible = []\<rparr>"

definition plan_read :: "TableInfo \<Rightarrow> (string \<times> DataType) list \<Rightarrow> string list \<Rightarrow> ReadPlan result" where
  "plan_read table_info column_type_map column_names_to_read =
     (if length column_names_to_read < 2 then Inl LengthError
      else rbind (if ti_is_common_handle table_info then getPrimaryIndexInfo table_info else Inr []) (\<lambda>idx_cols.
        rbind (plan_columns table_info column_type_map idx_cols 0 (ti_columns table_info) (initial_plan table_info idx_cols column_names_to_read)) (\<lambda>plan.
          if (of_nat (length column_names_to_read) :: UInt64) - 3 \<noteq> of_nat (length (rp_visible plan))
          then throw ''schema does not contain needed columns.''
          else
            (let plan1 = plan\<lparr>rp_visible := sort_key fst (rp_visible plan)\<rparr>
             in Inr (if \<not> ti_pk_is_handle table_info
                then plan1\<lparr>rp_columns := fst (umap_emplace (rp_handle_col_id plan1)
                    \<lparr>ct_column = [], ct_name = tidb_pk_column_name,
                     ct_type = (if ti_is_common_handle table_info then DataTypeString else DataTypeInt64), ct_index = 2 ^ 64 - 1\<rparr> (rp_columns plan1))\<rparr>
                else plan1)))))"

text \<open>
  The columns are moved into the block. A name that is asked for twice would get the moved column the second
  time; the model gives it the column again, so it describes the code for distinct names, as its callers give them.
\<close>

fun make_block :: "(string \<times> ColumnID) list \<Rightarrow> BlockState \<Rightarrow> string list \<Rightarrow> Block result" where
  "make_block read_ids st [] = Inr []"
| "make_block read_ids st (name # names) =
     rbind (if name = delmark_column_name then Inr (name, DelMarks (bs_delmark st), DelMarkColumnID)
            else if name = version_column_name then Inr (name, Versions (bs_version st), VersionColumnID)
            else (case map_of read_ids name of
                None \<Rightarrow> Inl OutOfBounds
              | Some col_id \<Rightarrow> rbind (cm_at col_id (bs_columns st)) (\<lambda>ct. Inr (name, Values (ct_column ct), col_id)))) (\<lambda>col.
       rbind (make_block read_ids st names) (\<lambda>cols. Inr (col # cols)))"

definition read_rows :: "TableInfo \<Rightarrow> string list \<Rightarrow> ReadPlan \<Rightarrow> TMTPKType \<Rightarrow> ReadInfo list \<Rightarrow> Timestamp \<Rightarrow> bool \<Rightarrow> RegionScanFilter option \<Rightarrow>
    BlockState option result option" where
  "read_rows table_info column_names_to_read plan pk_type data_list start_ts force_decode scan_filter =
     setColumnValues pk_type (rp_handle_col_id plan # (if ti_is_common_handle table_info then rp_primary_ids plan else []))
       (rp_visible plan) (rp_column_lut plan) start_ts (length column_names_to_read > 3) table_info force_decode scan_filter data_list
       \<lparr>bs_delmark = [], bs_version = [], bs_columns = rp_columns plan, bs_index = 0\<rparr>"

definition readRegionBlock :: "TableInfo \<Rightarrow> (string \<times> DataType) list \<Rightarrow> string list \<Rightarrow> ReadInfo list \<Rightarrow> Timestamp \<Rightarrow> bool \<Rightarrow> RegionScanFilter option \<Rightarrow>
    Block option result option" where
  "readRegionBlock table_info column_type_map column_names_to_read data_list start_ts force_decode scan_filter =
     pbind (Some (plan_read table_info column_type_map column_names_to_read)) (\<lambda>plan.
     pbind (Some (cm_at (rp_handle_col_id plan) (rp_columns plan))) (\<lambda>handle_col.
       let pk_type = getTMTPKType (ct_type handle_col);
           rows = (if pk_type = UINT64 then ReorderRegionDataReadList data_list else data_list)
       in pbind (read_rows table_info column_names_to_read plan pk_type rows start_ts force_decode scan_filter) (\<lambda>res.
            Some (case res of
                None \<Rightarrow> Inr None
              | Some st \<Rightarrow> rbind (make_block (rp_read_ids plan) st column_names_to_read) (\<lambda>block. Inr (Some block))))))"

subsection \<open>Background decoding\<close>

definition predecode_lut :: "TableInfo \<Rightarrow> ColumnIdToIndex" where
  "predecode_lut table_info =
     fold (\<lambda>(i, column) lut. if ti_pk_is_handle table_info \<and> hasPriKeyFlag column then lut else fst (umap_emplace (ci_id column) i lut))
       (zip [0..<length (ti_columns table_info)] (ti_columns table_info)) []"

definition preDecodeRow :: "TableInfo \<Rightarrow> TiKVValue \<times> DecodedRow option \<Rightarrow> (TiKVValue \<times> DecodedRow option) result option" where
  "preDecodeRow table_info v =
     (case snd v of
        Some row \<Rightarrow> Some (Inr v)
      | None \<Rightarrow> pbind (decodeRow (fst v) table_info (predecode_lut table_info)) (\<lambda>row. Some (Inr (fst v, Some row))))"

subsection \<open>Columns of a row\<close>

lemma pbind_eq_Inr: "pbind m f = Some (Inr y) \<longleftrightarrow> (\<exists>x. m = Some (Inr x) \<and> f x = Some (Inr y))"
  by (auto simp: pbind_def split: option.splits sum.splits)

lemma cm_insert_Inr:
  "cm_insert k f cm = Inr cm' \<Longrightarrow> \<exists>ct. map_of cm k = Some ct \<and> map_of cm' = (map_of cm)(k \<mapsto> ct\<lparr>ct_column := ct_column ct @ [f]\<rparr>)"
  by (auto simp: cm_insert_def cm_at_def rbind_eq_Inr update_conv' split: option.splits)

definition row_sorted :: "DecodedRow \<Rightarrow> bool" where
  "row_sorted row \<longleftrightarrow> sorted_wrt (<) (map fst (decoded_fields row)) \<and> sorted_wrt (<) (map fst (unknown_fields row))"

lemma decodeRow_sorted: "decodeRow bs ti lut = Some (Inr row) \<Longrightarrow> row_sorted row"
  by (auto simp: decodeRow_def decodeRowV2_def RowDecoderV2_decode_def decodeRowV1_def analyze_schema_def Let_def rbind_eq_Inr
      new_DecodedRow_def isSortedByColumnID_iff row_sorted_def split: if_splits)

text \<open>The field of a column in a decoded row: decoded, decoded now that the column is known, or its default.\<close>

definition column_value :: "DecodedRow \<Rightarrow> ColumnInfo \<Rightarrow> Field result" where
  "column_value row c =
     (case map_of (decoded_fields row) (ci_id c) of
        Some f \<Rightarrow> Inr f
      | None \<Rightarrow> (case map_of (unknown_fields row) (ci_id c) of
            Some u \<Rightarrow> if with_codec_flag row then Inr u else decodeUnknownColumnV2 u c
          | None \<Rightarrow> defaultValueToField c))"

definition visible_ok :: "TableInfo \<Rightarrow> (ColumnID \<times> nat) list \<Rightarrow> bool" where
  "visible_ok ti visible \<longleftrightarrow> lut_ok ti visible \<and> sorted_wrt (<) (map fst visible)"

lemma map_of_dropWhile:
  "sorted_wrt (<) (map fst xs) \<Longrightarrow> k \<le> j \<Longrightarrow> map_of (dropWhile (\<lambda>e. \<not> fst e \<ge> k) xs) j = map_of xs (j :: 'a::linorder)"
  by (induction xs) auto

lemma sorted_dropWhile: "sorted_wrt (<) (map fst xs) \<Longrightarrow> sorted_wrt (<) (map fst (dropWhile P xs))"
  by (induction xs) auto

lemma search_hit:
  fixes search :: DecodedFields
  assumes "sorted_wrt (<) (map fst search)"
  shows "(case dropWhile (\<lambda>e. \<not> fst e \<ge> k) search of e # _ \<Rightarrow> fst e = k | [] \<Rightarrow> False) \<longleftrightarrow> map_of search k \<noteq> None"
    and "dropWhile (\<lambda>e. \<not> fst e \<ge> k) search = e # rest \<Longrightarrow> fst e = k \<Longrightarrow> map_of search k = Some (snd e)"
  using assms
proof (induction search)
  case (Cons p search)
  have later: "map_of search k = None" if "k < fst p" "sorted_wrt (<) (map fst (p # search))"
    using that by (auto simp: map_of_eq_None_iff)
  { case 1 then show ?case using Cons.IH(1) later by (cases p) (auto simp: not_le) next
    case 2 then show ?case using Cons.IH(2) by (cases p) (auto split: if_splits) }
qed auto

lemma collect_fields_Inr:
  assumes "collect_fields ti row search visible = Inr (fs, n)" "\<not> ti_is_common_handle ti" "visible_ok ti visible" "row_sorted row"
    and "sorted_wrt (<) (map fst search)" "\<forall>p \<in> set visible. map_of search (fst p) = map_of (decoded_fields row) (fst p)"
  shows "n = 0 \<and> list_all2 (\<lambda>p q. fst q = fst p \<and> column_value row (ti_columns ti ! snd p) = Inr (snd q)) visible fs"
  using assms
proof (induction visible arbitrary: search fs n)
  case (Cons p visible)
  obtain k idx where p: "p = (k, idx)" by fastforce
  let ?s1 = "dropWhile (\<lambda>e. \<not> fst e \<ge> k) search"
  have c: "getColumn ti idx = Inr (ti_columns ti ! idx)" "ci_id (ti_columns ti ! idx) = k"
    using Cons.prems(3) by (auto simp: visible_ok_def lut_ok_def getColumn_def p)
  have v: "visible_ok ti visible" and later: "\<forall>q \<in> set visible. k < fst q"
    using Cons.prems(3) by (auto simp: visible_ok_def lut_ok_def p)
  have keep: "\<forall>q \<in> set visible. map_of ?s1 (fst q) = map_of (decoded_fields row) (fst q)"
    using Cons.prems(5,6) later by (auto simp: map_of_dropWhile less_imp_le)
  have s1: "sorted_wrt (<) (map fst ?s1)" using Cons.prems(5) by (rule sorted_dropWhile)
  show ?case
  proof (cases "?s1 \<noteq> [] \<and> fst (hd ?s1) = k")
    case True
    then obtain x rest where x: "?s1 = (k, x) # rest" by (cases ?s1) (auto simp: prod_eq_iff)
    obtain fs' where fs': "fs = (k, x) # fs'" "collect_fields ti row rest visible = Inr (fs', n)"
      using Cons.prems(1) x by (auto simp: p rbind_eq_Inr)
    have "map_of (decoded_fields row) k = Some x" using search_hit(2) [OF Cons.prems(5) x] Cons.prems(6) p by simp
    then have "column_value row (ti_columns ti ! idx) = Inr x" using c(2) by (simp add: column_value_def)
    moreover have "\<forall>q \<in> set visible. map_of rest (fst q) = map_of (decoded_fields row) (fst q)"
    proof
      fix q assume "q \<in> set visible"
      then have "map_of ?s1 (fst q) = map_of (decoded_fields row) (fst q)" "k < fst q" using keep later by blast+
      then show "map_of rest (fst q) = map_of (decoded_fields row) (fst q)" using x by simp
    qed
    ultimately show ?thesis using Cons.IH [OF fs'(2) Cons.prems(2) v Cons.prems(4)] s1 x fs'(1) p by simp
  next
    case False
    then have "map_of search k = None" using search_hit(1) [OF Cons.prems(5), of k] by (cases ?s1) auto
    then have none: "map_of (decoded_fields row) k = None" using Cons.prems(6) p by simp
    have find: "findByColumnID k (unknown_fields row) = map_option (Pair k) (map_of (unknown_fields row) k)"
      using Cons.prems(4) by (simp add: findByColumnID_iff row_sorted_def)
    obtain f fs' where f: "column_value row (ti_columns ti ! idx) = Inr f" "fs = (k, f) # fs'" "collect_fields ti row ?s1 visible = Inr (fs', n)"
      using Cons.prems(1,2) False c find none
      by (cases "map_of (unknown_fields row) k") (auto simp: p rbind_eq_Inr column_value_def Let_def split: if_splits)
    then show ?thesis using Cons.IH [OF f(3) Cons.prems(2) v Cons.prems(4) s1 keep] p by simp
  qed
qed auto

lemma deleted_fields_Inr:
  assumes "deleted_fields ti visible = Inr fs" "lut_ok ti visible"
  shows "list_all2 (\<lambda>p q. fst q = fst p \<and> (if hasNotNullFlag (ti_columns ti ! snd p) then GenDefaultField (ti_columns ti ! snd p) else Inr Null) = Inr (snd q)) visible fs"
  using assms
proof (induction visible arbitrary: fs)
  case (Cons p visible)
  then have "getColumn ti (snd p) = Inr (ti_columns ti ! snd p)" "ci_id (ti_columns ti ! snd p) = fst p" "lut_ok ti visible"
    by (auto simp: lut_ok_def getColumn_def)
  then show ?case using Cons.prems(1) Cons.IH by (cases p) (auto simp: rbind_eq_Inr)
qed simp

text \<open>What a row stores in a column: the default of a deleted row, the field of the column otherwise.\<close>

definition stored_field :: "TableInfo \<Rightarrow> ColumnIdToIndex \<Rightarrow> ReadInfo \<Rightarrow> ColumnInfo \<Rightarrow> Field \<Rightarrow> bool" where
  "stored_field ti lut r c f \<longleftrightarrow> (case r of (pk, wtype, ts, vp) \<Rightarrow>
     if wtype = DelFlag then (if hasNotNullFlag c then GenDefaultField c else Inr Null) = Inr f
     else (\<exists>v row. vp = Some v \<and> loaded_row ti lut v = Some (Inr row) \<and> column_value row c = Inr f))"

definition row_cell :: "TableInfo \<Rightarrow> ColumnIdToIndex \<Rightarrow> ReadInfo \<Rightarrow> ColumnInfo \<Rightarrow> Field \<Rightarrow> bool" where
  "row_cell ti lut r c x \<longleftrightarrow> (\<exists>f. stored_field ti lut r c f \<and> DatumFlat f (ci_tp c) = Inr x
     \<and> datum_overflow f x c = Inr False \<and> \<not> invalidNull f c)"

definition cache_ok :: "ReadInfo \<Rightarrow> bool" where
  "cache_ok r \<longleftrightarrow> (case r of (pk, wtype, ts, Some (v, Some row)) \<Rightarrow> row_sorted row | _ \<Rightarrow> True)"

lemma decode_record_Inr:
  assumes "decode_record ti lut visible force r = Some (Inr (Some (fs, n)))" "\<not> ti_is_common_handle ti" "visible_ok ti visible" "cache_ok r"
  shows "list_all2 (\<lambda>p q. fst q = fst p \<and> stored_field ti lut r (ti_columns ti ! snd p) (snd q)) visible fs"
proof -
  obtain pk w ts vp where r: "r = (pk, w, ts, vp)" by (rule prod_cases4)
  show ?thesis
  proof (cases "w = DelFlag")
    case True
    then have "deleted_fields ti visible = Inr fs" using assms(1) r by (simp add: decode_record_def rbind_eq_Inr)
    then show ?thesis using deleted_fields_Inr assms(3) True r by (fastforce simp: stored_field_def visible_ok_def)
  next
    case False
    then obtain v row where v: "vp = Some v" "loaded_row ti lut v = Some (Inr row)" "collect_fields ti row (decoded_fields row) visible = Inr (fs, n)"
      using assms(1) r by (auto simp: decode_record_def pbind_eq_Inr rbind_eq_Inr split: option.splits if_splits)
    have "row_sorted row" using v(1,2) assms(4) r decodeRow_sorted by (cases v) (auto simp: loaded_row_def cache_ok_def split: option.splits)
    then have "list_all2 (\<lambda>p q. fst q = fst p \<and> column_value row (ti_columns ti ! snd p) = Inr (snd q)) visible fs"
      using collect_fields_Inr [OF v(3) assms(2,3)] by (simp add: row_sorted_def)
    then show ?thesis by (rule list_all2_mono) (use v(1,2) False r in \<open>cases v, auto simp: stored_field_def\<close>)
  qed
qed

lemma insert_fields_Inr:
  assumes "insert_fields ti force fs cm = Inr (Some cm')" "distinct (map fst fs)"
  shows "(\<forall>k. k \<notin> fst ` set fs \<longrightarrow> map_of cm' k = map_of cm k) \<and> (\<forall>p \<in> set fs. \<exists>ct c x. map_of cm (fst p) = Some ct
    \<and> getColumn ti (ct_index ct) = Inr c \<and> DatumFlat (snd p) (ci_tp c) = Inr x \<and> datum_overflow (snd p) x c = Inr False \<and> \<not> invalidNull (snd p) c
    \<and> map_of cm' (fst p) = Some (ct\<lparr>ct_column := ct_column ct @ [x]\<rparr>))"
  using assms
proof (induction fs arbitrary: cm)
  case (Cons p fs)
  obtain k f where p: "p = (k, f)" by fastforce
  obtain ct c x cm1 where s: "map_of cm k = Some ct" "getColumn ti (ct_index ct) = Inr c" "DatumFlat f (ci_tp c) = Inr x \<and> datum_overflow f x c = Inr False \<and> \<not> invalidNull f c"
    "cm_insert k x cm = Inr cm1" "insert_fields ti force fs cm1 = Inr (Some cm')"
    using Cons.prems(1) by (auto simp: p rbind_eq_Inr cm_at_def split: if_splits option.splits)
  then have m: "map_of cm1 = (map_of cm)(k \<mapsto> ct\<lparr>ct_column := ct_column ct @ [x]\<rparr>)" using cm_insert_Inr [OF s(4)] by auto
  have IH: "(\<forall>k. k \<notin> fst ` set fs \<longrightarrow> map_of cm' k = map_of cm1 k) \<and> (\<forall>p \<in> set fs. \<exists>ct c x. map_of cm1 (fst p) = Some ct
    \<and> getColumn ti (ct_index ct) = Inr c \<and> DatumFlat (snd p) (ci_tp c) = Inr x \<and> datum_overflow (snd p) x c = Inr False \<and> \<not> invalidNull (snd p) c
    \<and> map_of cm' (fst p) = Some (ct\<lparr>ct_column := ct_column ct @ [x]\<rparr>))" using Cons.IH [OF s(5)] Cons.prems(2) by simp
  have k: "k \<notin> fst ` set fs" using Cons.prems(2) p by simp
  have "map_of cm' k = Some (ct\<lparr>ct_column := ct_column ct @ [x]\<rparr>)" using IH k m by simp
  moreover have "map_of cm1 (fst q) = map_of cm (fst q)" if "q \<in> set fs" for q using that k m by auto
  ultimately show ?case using IH s(1-3) m p k by auto
qed simp

lemma read_values_Inr:
  assumes "read_values ti lut visible force r cm = Some (Inr (Some cm'))" "\<not> ti_is_common_handle ti" "visible_ok ti visible" "cache_ok r"
  shows "(\<forall>k. k \<notin> fst ` set visible \<longrightarrow> map_of cm' k = map_of cm k)
    \<and> (\<forall>k ct. map_of cm k = Some ct \<longrightarrow> (k, ct_index ct) \<in> set visible \<longrightarrow>
        (\<exists>x. map_of cm' k = Some (ct\<lparr>ct_column := ct_column ct @ [x]\<rparr>) \<and> row_cell ti lut r (ti_columns ti ! ct_index ct) x))"
proof -
  obtain fs n where fs: "decode_record ti lut visible force r = Some (Inr (Some (fs, n)))" "insert_fields ti force fs cm = Inr (Some cm')"
    using assms(1) by (auto simp: read_values_def pbind_eq_Inr split: option.splits if_splits prod.splits)
  note l = decode_record_Inr [OF fs(1) assms(2-4)]
  have ids: "map fst fs = map fst visible" using l by (induction rule: list_all2_induct) auto
  then have "distinct (map fst fs)" using assms(3) by (simp add: visible_ok_def strict_sorted_iff)
  note ins = insert_fields_Inr [OF fs(2) this]
  have keys: "fst ` set fs = fst ` set visible" using ids by (metis list.set_map)
  have "\<exists>x. map_of cm' k = Some (ct\<lparr>ct_column := ct_column ct @ [x]\<rparr>) \<and> row_cell ti lut r (ti_columns ti ! ct_index ct) x"
    if k: "map_of cm k = Some ct" "(k, ct_index ct) \<in> set visible" for k ct
  proof -
    obtain i where i: "i < length visible" "visible ! i = (k, ct_index ct)" using k(2) by (metis in_set_conv_nth)
    have f: "i < length fs" "fst (fs ! i) = k" "stored_field ti lut r (ti_columns ti ! ct_index ct) (snd (fs ! i))"
      using list_all2_nthD [OF l i(1)] list_all2_lengthD [OF l] i by auto
    have "getColumn ti (ct_index ct) = Inr (ti_columns ti ! ct_index ct)"
      using assms(3) k(2) by (auto simp: visible_ok_def lut_ok_def getColumn_def)
    then show ?thesis using bspec [OF conjunct2 [OF ins] nth_mem [OF f(1)]] f k(1) by (auto simp: row_cell_def)
  qed
  then show ?thesis using ins keys by blast
qed

subsection \<open>Columns of all rows\<close>

definition row_visible :: "Timestamp \<Rightarrow> TMTPKType \<Rightarrow> RegionScanFilter option \<Rightarrow> ReadInfo \<Rightarrow> bool" where
  "row_visible tso pk_type flt r \<longleftrightarrow> (case r of (pk, wtype, ts, v) \<Rightarrow> ts \<le> tso \<and> \<not> should_skip pk_type flt pk)"

definition handle_field :: "TMTPKType \<Rightarrow> RawTiDBPK \<Rightarrow> Field" where
  "handle_field pk_type pk = (case pk_type of
     UINT64 \<Rightarrow> FUInt64 (RawTiDBPK_handle pk) | STRING \<Rightarrow> FString pk | _ \<Rightarrow> FInt64 (RawTiDBPK_handle pk))"

lemma insert_pk_single: "insert_pk pk_type [h] pk i cm = cm_insert h (handle_field pk_type pk) cm"
  by (cases "cm_insert h (FString pk) cm") (auto simp: insert_pk_def handle_field_def split: TMTPKType.split)

text \<open>A column grows by one value for each visible row: the handle, the cell of the row, or nothing when
  the column is not read.\<close>

definition grown :: "TableInfo \<Rightarrow> ColumnIdToIndex \<Rightarrow> TMTPKType \<Rightarrow> ColumnID \<Rightarrow> (ColumnID \<times> nat) list \<Rightarrow> ReadInfo list \<Rightarrow>
    ColumnDataInfoMap \<Rightarrow> ColumnDataInfoMap \<Rightarrow> bool" where
  "grown ti lut pk_type h visible rows cm cm' \<longleftrightarrow> (\<forall>k ct. map_of cm k = Some ct \<longrightarrow>
     (k = h \<longrightarrow> map_of cm' k = Some (ct\<lparr>ct_column := ct_column ct @ map (handle_field pk_type \<circ> fst) rows\<rparr>))
     \<and> ((k, ct_index ct) \<in> set visible \<longrightarrow> (\<exists>vs. map_of cm' k = Some (ct\<lparr>ct_column := ct_column ct @ vs\<rparr>)
         \<and> list_all2 (\<lambda>r x. row_cell ti lut r (ti_columns ti ! ct_index ct) x) rows vs)))"

lemma grown_Nil: "grown ti lut pk_type h visible [] cm cm"
  by (auto simp: grown_def intro!: exI [of _ "[]"])

lemma grown_step:
  assumes "(\<forall>k. k \<notin> fst ` set visible \<longrightarrow> map_of cm1 k = map_of cm k)
    \<and> (\<forall>k ct. map_of cm k = Some ct \<longrightarrow> (k, ct_index ct) \<in> set visible \<longrightarrow>
        (\<exists>x. map_of cm1 k = Some (ct\<lparr>ct_column := ct_column ct @ [x]\<rparr>) \<and> row_cell ti lut r (ti_columns ti ! ct_index ct) x))"
    and "cm_insert h (handle_field pk_type (fst r)) cm1 = Inr cm2" and "grown ti lut pk_type h visible rows cm2 cm3" and "h \<notin> fst ` set visible"
  shows "grown ti lut pk_type h visible (r # rows) cm cm3"
proof -
  obtain hct where h: "map_of cm1 h = Some hct"
    "map_of cm2 = (map_of cm1)(h \<mapsto> hct\<lparr>ct_column := ct_column hct @ [handle_field pk_type (fst r)]\<rparr>)"
    using cm_insert_Inr [OF assms(2)] by blast
  have hcm: "map_of cm h = Some hct" using assms(1,4) h(1) by simp
  show ?thesis unfolding grown_def
  proof (intro allI impI conjI)
    fix k ct assume k: "map_of cm k = Some ct" "k = h"
    then have "map_of cm2 h = Some (ct\<lparr>ct_column := ct_column ct @ [handle_field pk_type (fst r)]\<rparr>)" using h hcm by simp
    then show "map_of cm3 k = Some (ct\<lparr>ct_column := ct_column ct @ map (handle_field pk_type \<circ> fst) (r # rows)\<rparr>)"
      using assms(3) k unfolding grown_def by fastforce
  next
    fix k ct assume k: "map_of cm k = Some ct" "(k, ct_index ct) \<in> set visible"
    then obtain x where x: "map_of cm1 k = Some (ct\<lparr>ct_column := ct_column ct @ [x]\<rparr>)" "row_cell ti lut r (ti_columns ti ! ct_index ct) x"
      using assms(1) by blast
    have "k \<noteq> h" using k(2) assms(4) by force
    then have "map_of cm2 k = Some (ct\<lparr>ct_column := ct_column ct @ [x]\<rparr>)" using h(2) x(1) by simp
    then obtain vs where "map_of cm3 k = Some (ct\<lparr>ct_column := (ct_column ct @ [x]) @ vs\<rparr>)"
      "list_all2 (\<lambda>r x. row_cell ti lut r (ti_columns ti ! ct_index ct) x) rows vs"
      using assms(3) k(2) unfolding grown_def by fastforce
    then show "\<exists>vs. map_of cm3 k = Some (ct\<lparr>ct_column := ct_column ct @ vs\<rparr>)
        \<and> list_all2 (\<lambda>r x. row_cell ti lut r (ti_columns ti ! ct_index ct) x) (r # rows) vs"
      using x(2) by (intro exI [of _ "x # vs"]) simp
  qed
qed

lemma setColumnValues_Inr:
  assumes "setColumnValues pk_type [h] visible lut tso need ti force flt rows st = Some (Inr (Some st'))"
    and "\<not> ti_is_common_handle ti" "visible_ok ti visible" "h \<notin> fst ` set visible" "\<forall>r \<in> set rows. cache_ok r" "need \<or> visible = []"
  shows "let rows' = filter (row_visible tso pk_type flt) rows in
    bs_delmark st' = bs_delmark st @ map (\<lambda>r. fst (snd r) = DelFlag) rows' \<and> bs_version st' = bs_version st @ map (\<lambda>r. fst (snd (snd r))) rows'
    \<and> grown ti lut pk_type h visible rows' (bs_columns st) (bs_columns st')"
  using assms(1,5)
proof (induction rows arbitrary: st)
  case Nil
  then show ?case by (simp add: grown_Nil)
next
  case (Cons r rows)
  obtain pk w ts vp where r: "r = (pk, w, ts, vp)" by (rule prod_cases4)
  show ?case
  proof (cases "row_visible tso pk_type flt r")
    case False
    then have "setColumnValues pk_type [h] visible lut tso need ti force flt rows st = Some (Inr (Some st'))"
      using Cons.prems(1) r by (auto simp: row_visible_def not_le)
    from Cons.IH [OF this] Cons.prems(2) False show ?thesis by simp
  next
    case True
    obtain cm1 cm2 where m: "(if need then read_values ti lut visible force r (bs_columns st) else Some (Inr (Some (bs_columns st)))) = Some (Inr (Some cm1))"
      "cm_insert h (handle_field pk_type (fst r)) cm1 = Inr cm2"
      "setColumnValues pk_type [h] visible lut tso need ti force flt rows \<lparr>bs_delmark = bs_delmark st @ [w = DelFlag], bs_version = bs_version st @ [ts],
        bs_columns = cm2, bs_index = bs_index st + 1\<rparr> = Some (Inr (Some st'))"
      using Cons.prems(1) True unfolding r by (auto simp: row_visible_def not_less [symmetric] pbind_eq_Inr insert_pk_single split: option.splits)
    have step: "(\<forall>k. k \<notin> fst ` set visible \<longrightarrow> map_of cm1 k = map_of (bs_columns st) k)
      \<and> (\<forall>k ct. map_of (bs_columns st) k = Some ct \<longrightarrow> (k, ct_index ct) \<in> set visible \<longrightarrow>
        (\<exists>x. map_of cm1 k = Some (ct\<lparr>ct_column := ct_column ct @ [x]\<rparr>) \<and> row_cell ti lut r (ti_columns ti ! ct_index ct) x))"
    proof (cases need)
      case True
      then show ?thesis using m(1) Cons.prems(2) by (intro read_values_Inr [OF _ assms(2,3)]) auto
    next
      case False
      then show ?thesis using m(1) assms(6) by simp
    qed
    note IH = Cons.IH [OF m(3)]
    have "grown ti lut pk_type h visible (r # filter (row_visible tso pk_type flt) rows) (bs_columns st) (bs_columns st')"
      using IH Cons.prems(2) by (intro grown_step [OF step m(2) _ assms(4)]) (simp add: Let_def)
    then show ?thesis using IH Cons.prems(2) True by (simp add: Let_def r)
  qed
qed

subsection \<open>Planning a read\<close>

definition key_column :: "TableInfo \<Rightarrow> ColumnInfo \<Rightarrow> bool" where
  "key_column ti c \<longleftrightarrow> ti_pk_is_handle ti \<and> hasPriKeyFlag c"

text \<open>A schema of the transaction layer: identifiers of columns are distinct and not negative, a handle is
  one column, and the number of columns is limited.\<close>

definition schema_ok :: "TableInfo \<Rightarrow> bool" where
  "schema_ok ti \<longleftrightarrow> length (ti_columns ti) < 2 ^ 16 \<and> distinct (map ci_id (ti_columns ti)) \<and> (\<forall>c \<in> set (ti_columns ti). 0 \<le> ci_id c)
    \<and> (\<forall>c \<in> set (ti_columns ti). \<forall>c' \<in> set (ti_columns ti). key_column ti c \<longrightarrow> key_column ti c' \<longrightarrow> c = c')"

lemma schema_index:
  assumes "schema_ok ti" "i < length (ti_columns ti)" "j < length (ti_columns ti)" "ci_id (ti_columns ti ! i) = ci_id (ti_columns ti ! j)"
  shows "i = j"
  using assms by (metis (no_types, lifting) distinct_map inj_onD nth_eq_iff_index_eq nth_mem schema_ok_def)

text \<open>The plan after the first \<open>n\<close> columns.\<close>

definition columns_planned :: "TableInfo \<Rightarrow> (string \<times> DataType) list \<Rightarrow> nat \<Rightarrow> ReadPlan \<Rightarrow> bool" where
  "columns_planned ti types n plan \<longleftrightarrow> (\<forall>k ct. map_of (rp_columns plan) k = Some ct \<longrightarrow>
     ct_column ct = [] \<and> ct_index ct < n \<and> ci_id (ti_columns ti ! ct_index ct) = k
     \<and> map_of types (ci_name (ti_columns ti ! ct_index ct)) = Some (ct_type ct)
     \<and> (key_column ti (ti_columns ti ! ct_index ct) \<longrightarrow> k = rp_handle_col_id plan)
     \<and> (\<not> key_column ti (ti_columns ti ! ct_index ct) \<longrightarrow> (k, ct_index ct) \<in> set (rp_visible plan)))"

definition visible_planned :: "TableInfo \<Rightarrow> nat \<Rightarrow> ReadPlan \<Rightarrow> bool" where
  "visible_planned ti n plan \<longleftrightarrow> sorted_wrt (<) (map snd (rp_visible plan)) \<and> (\<forall>p \<in> set (rp_visible plan). snd p < n
     \<and> ci_id (ti_columns ti ! snd p) = fst p \<and> \<not> key_column ti (ti_columns ti ! snd p))"

definition handle_planned :: "TableInfo \<Rightarrow> nat \<Rightarrow> ReadPlan \<Rightarrow> bool" where
  "handle_planned ti n plan \<longleftrightarrow> rp_handle_col_id plan = TiDBPkColumnID
     \<or> (\<exists>i < n. ci_id (ti_columns ti ! i) = rp_handle_col_id plan \<and> key_column ti (ti_columns ti ! i))"

definition names_planned :: "TableInfo \<Rightarrow> string list \<Rightarrow> nat \<Rightarrow> ReadPlan \<Rightarrow> bool" where
  "names_planned ti names n plan \<longleftrightarrow> map fst (rp_read_ids plan) = names \<and> (\<forall>p \<in> set (rp_read_ids plan). snd p = InvalidColumnID \<or> snd p = TiDBPkColumnID
     \<or> (\<exists>i < n. ci_id (ti_columns ti ! i) = snd p \<and> ci_name (ti_columns ti ! i) = fst p))"

definition planned :: "TableInfo \<Rightarrow> (string \<times> DataType) list \<Rightarrow> string list \<Rightarrow> nat \<Rightarrow> ReadPlan \<Rightarrow> bool" where
  "planned ti types names n plan \<longleftrightarrow> columns_planned ti types n plan \<and> visible_planned ti n plan \<and> handle_planned ti n plan \<and> names_planned ti names n plan"

lemmas planned_parts = columns_planned_def visible_planned_def handle_planned_def names_planned_def

lemma planned_initial: "planned ti types names 0 (initial_plan ti idx_cols names)"
  by (auto simp: planned_def planned_parts initial_plan_def comp_def)

lemma planned_Suc: "planned ti types names n plan \<Longrightarrow> planned ti types names (Suc n) plan"
  unfolding planned_def
  by (elim conjE, intro conjI) (fastforce simp: planned_parts less_Suc_eq)+

lemma planned_read_id:
  assumes "planned ti types names (Suc n) plan" "map_of (rp_read_ids plan) (ci_name (ti_columns ti ! n)) \<noteq> None"
  shows "planned ti types names (Suc n) (plan\<lparr>rp_read_ids := AList.update (ci_name (ti_columns ti ! n)) (ci_id (ti_columns ti ! n)) (rp_read_ids plan)\<rparr>)"
proof -
  have "ci_name (ti_columns ti ! n) \<in> fst ` set (rp_read_ids plan)" using assms(2) map_of_eq_None_iff by metis
  then have "map fst (AList.update (ci_name (ti_columns ti ! n)) (ci_id (ti_columns ti ! n)) (rp_read_ids plan)) = names"
    using assms(1) by (simp add: map_fst_update_same planned_def names_planned_def)
  moreover have "snd p = InvalidColumnID \<or> snd p = TiDBPkColumnID \<or> (\<exists>i < Suc n. ci_id (ti_columns ti ! i) = snd p \<and> ci_name (ti_columns ti ! i) = fst p)"
    if p: "p \<in> set (AList.update (ci_name (ti_columns ti ! n)) (ci_id (ti_columns ti ! n)) (rp_read_ids plan))" for p
  proof -
    have "p = (ci_name (ti_columns ti ! n), ci_id (ti_columns ti ! n)) \<or> p \<in> set (rp_read_ids plan)" using p set_update_subset by fastforce
    then show ?thesis using assms(1) unfolding planned_def names_planned_def by auto
  qed
  ultimately show ?thesis using assms(1) by (simp add: planned_def planned_parts)
qed

lemma planned_irrelevant: "planned ti types names n (plan\<lparr>rp_column_lut := lut, rp_primary_ids := ids\<rparr>) \<longleftrightarrow> planned ti types names n plan"
  by (simp add: planned_def planned_parts)

lemma planned_fresh:
  assumes "planned ti types names n plan" "schema_ok ti" "n < length (ti_columns ti)"
  shows "map_of (rp_columns plan) (ci_id (ti_columns ti ! n)) = None"
proof (rule ccontr)
  assume "map_of (rp_columns plan) (ci_id (ti_columns ti ! n)) \<noteq> None"
  then obtain ct where "map_of (rp_columns plan) (ci_id (ti_columns ti ! n)) = Some ct" by auto
  then have "ct_index ct < n" "ci_id (ti_columns ti ! ct_index ct) = ci_id (ti_columns ti ! n)"
    using assms(1) unfolding planned_def columns_planned_def by (metis, metis)
  then show False using schema_index [OF assms(2) _ assms(3), of "ct_index ct"] assms(3) by simp
qed

lemma map_of_snoc: "map_of (m @ [(k, x)]) j = (case map_of m j of Some y \<Rightarrow> Some y | None \<Rightarrow> if j = k then Some x else None)"
  by (simp add: map_add_def split: option.splits)

lemma planned_new_value:
  assumes "planned ti types names n plan" "schema_ok ti" "n < length (ti_columns ti)" "ct_index ct = n \<and> map_of types (ci_name (ti_columns ti ! n)) = Some (ct_type ct)" "ct_column ct = []"
    and "k = ci_id (ti_columns ti ! n)" "\<not> key_column ti (ti_columns ti ! n)"
  shows "planned ti types names (Suc n) (plan\<lparr>rp_columns := rp_columns plan @ [(k, ct)], rp_visible := rp_visible plan @ [(k, n)]\<rparr>)"
proof -
  let ?plan = "plan\<lparr>rp_columns := rp_columns plan @ [(k, ct)], rp_visible := rp_visible plan @ [(k, n)]\<rparr>"
  note p = assms(1) [unfolded planned_def] and p' = planned_Suc [OF assms(1), unfolded planned_def]
  have "columns_planned ti types (Suc n) ?plan"
    using p assms(4-7) unfolding columns_planned_def by (auto simp: map_of_snoc less_Suc_eq split: option.splits if_splits)
  moreover have "visible_planned ti (Suc n) ?plan"
    using p assms(4-7) unfolding visible_planned_def by (auto simp: sorted_wrt_append less_Suc_eq)
  moreover have "handle_planned ti (Suc n) ?plan" "names_planned ti names (Suc n) ?plan" using p' by (simp_all add: planned_parts)
  ultimately show ?thesis by (simp add: planned_def)
qed

lemma planned_new_key:
  assumes "planned ti types names n plan" "schema_ok ti" "n < length (ti_columns ti)" "ct_index ct = n \<and> map_of types (ci_name (ti_columns ti ! n)) = Some (ct_type ct)" "ct_column ct = []"
    and "k = ci_id (ti_columns ti ! n)" "key_column ti (ti_columns ti ! n)"
  shows "planned ti types names (Suc n) (plan\<lparr>rp_columns := rp_columns plan @ [(k, ct)], rp_handle_col_id := k\<rparr>)"
proof -
  let ?plan = "plan\<lparr>rp_columns := rp_columns plan @ [(k, ct)], rp_handle_col_id := k\<rparr>"
  note p = assms(1) [unfolded planned_def] and p' = planned_Suc [OF assms(1), unfolded planned_def]
  have no: "\<not> key_column ti (ti_columns ti ! i)" if "i < n" for i
  proof
    assume "key_column ti (ti_columns ti ! i)"
    then have "ti_columns ti ! i = ti_columns ti ! n" using assms(2,3,7) that unfolding schema_ok_def by (meson less_trans nth_mem)
    then show False using schema_index [OF assms(2) _ assms(3), of i] assms(3) that by simp
  qed
  have "columns_planned ti types (Suc n) ?plan"
    using p assms(4-7) no unfolding columns_planned_def by (auto simp: map_of_snoc less_Suc_eq split: option.splits if_splits)
  moreover have "handle_planned ti (Suc n) ?plan" using assms(6,7) by (auto simp: handle_planned_def)
  moreover have "visible_planned ti (Suc n) ?plan" "names_planned ti names (Suc n) ?plan" using p' by (simp_all add: planned_parts)
  ultimately show ?thesis by (simp add: planned_def)
qed

lemma planned_column:
  assumes "planned ti types names n plan" "schema_ok ti" "n < length (ti_columns ti)" "plan_column ti types idx n (ti_columns ti ! n) plan = Inr plan'"
  shows "planned ti types names (Suc n) plan'"
proof -
  let ?c = "ti_columns ti ! n"
  have f: "map_of (rp_columns plan) (ci_id ?c) = None" by (rule planned_fresh [OF assms(1-3)])
  show ?thesis
  proof (cases "map_of (rp_read_ids plan) (ci_name ?c) = None")
    case True
    then have "plan' = plan\<lparr>rp_column_lut := rp_column_lut plan', rp_primary_ids := rp_primary_ids plan\<rparr>"
      using assms(4) by (auto simp: plan_column_def Let_def split: if_splits)
    then show ?thesis using planned_Suc [OF assms(1)] by (metis planned_irrelevant)
  next
    case False
    define ct where "ct ty = \<lparr>ct_column = [], ct_name = ci_name ?c, ct_type = ty, ct_index = n\<rparr>" for ty
    define plan2 where "plan2 ty = plan\<lparr>rp_columns := rp_columns plan @ [(ci_id ?c, ct ty)]\<rparr>" for ty
    define plan3 where "plan3 ty = (if key_column ti ?c then (plan2 ty)\<lparr>rp_handle_col_id := ci_id ?c\<rparr>
      else (plan2 ty)\<lparr>rp_visible := rp_visible plan @ [(ci_id ?c, n)]\<rparr>)" for ty
    obtain ty where ty: "map_of types (ci_name ?c) = Some ty"
      using assms(4) False by (auto simp: plan_column_def Let_def split: if_splits option.splits)
    have p: "plan' = (plan3 ty)\<lparr>rp_read_ids := AList.update (ci_name ?c) (ci_id ?c) (rp_read_ids (plan3 ty))\<rparr>
        \<lparr>rp_column_lut := rp_column_lut plan', rp_primary_ids := rp_primary_ids plan'\<rparr>"
      using assms(4) False f ty
      by (cases plan) (auto simp: plan_column_def Let_def umap_emplace_def key_column_def plan3_def plan2_def ct_def split: if_splits)
    have "planned ti types names (Suc n) (plan3 ty)"
      using planned_new_value [OF assms(1-3), of "ct ty"] planned_new_key [OF assms(1-3), of "ct ty"] ty by (simp add: plan3_def plan2_def ct_def)
    moreover have "map_of (rp_read_ids (plan3 ty)) (ci_name ?c) \<noteq> None" using False by (simp add: plan3_def plan2_def)
    ultimately have "planned ti types names (Suc n) ((plan3 ty)\<lparr>rp_read_ids := AList.update (ci_name ?c) (ci_id ?c) (rp_read_ids (plan3 ty))\<rparr>)"
      by (rule planned_read_id)
    then show ?thesis by (subst p) (simp only: planned_irrelevant)
  qed
qed

lemma plan_columns_planned:
  assumes "plan_columns ti types idx n cs plan = Inr plan'" "cs = drop n (ti_columns ti)" "planned ti types names n plan" "schema_ok ti" "n \<le> length (ti_columns ti)"
  shows "planned ti types names (length (ti_columns ti)) plan'"
  using assms
proof (induction cs arbitrary: n plan)
  case Nil
  then show ?case by simp
next
  case (Cons c cs)
  have n: "n < length (ti_columns ti)" using Cons.prems(2) by (metis drop_all list.distinct(1) not_le)
  then have c: "c = ti_columns ti ! n" "cs = drop (Suc n) (ti_columns ti)" using Cons.prems(2) by (metis Cons_nth_drop_Suc list.inject)+
  obtain plan1 where p: "plan_column ti types idx n c plan = Inr plan1" "plan_columns ti types idx (Suc n) cs plan1 = Inr plan'"
    using Cons.prems(1) by (auto simp: rbind_eq_Inr)
  have "planned ti types names (Suc n) plan1" using planned_column [OF Cons.prems(3,4) n] p(1) c(1) by simp
  then show ?case using Cons.IH [OF p(2) c(2) _ Cons.prems(4)] n by simp
qed

lemma plan_column_lut:
  "plan_column ti types idx n c plan = Inr plan' \<Longrightarrow>
   rp_column_lut plan' = (if key_column ti c then rp_column_lut plan else fst (umap_emplace (ci_id c) n (rp_column_lut plan)))"
  by (auto simp: plan_column_def Let_def key_column_def split: if_splits option.splits)

lemma plan_columns_lut:
  "plan_columns ti types idx n cs plan = Inr plan' \<Longrightarrow>
   rp_column_lut plan' = fold (\<lambda>(i, column) lut. if ti_pk_is_handle ti \<and> hasPriKeyFlag column then lut else fst (umap_emplace (ci_id column) i lut))
     (zip [n..<n + length cs] cs) (rp_column_lut plan)"
proof (induction cs arbitrary: n plan)
  case (Cons c cs)
  obtain plan1 where p: "plan_column ti types idx n c plan = Inr plan1" "plan_columns ti types idx (Suc n) cs plan1 = Inr plan'"
    using Cons.prems by (auto simp: rbind_eq_Inr)
  have "[n..<n + length (c # cs)] = n # [Suc n..<Suc n + length cs]" using upt_conv_Cons [of n "n + length (c # cs)"] by simp
  then show ?case using Cons.IH [OF p(2)] plan_column_lut [OF p(1)] by (simp add: key_column_def)
qed simp

lemma planned_visible:
  assumes "planned ti types names (length (ti_columns ti)) plan" "schema_ok ti"
  shows "visible_ok ti (sort_key fst (rp_visible plan))" "rp_handle_col_id plan \<notin> fst ` set (rp_visible plan)"
proof -
  have v: "sorted_wrt (<) (map snd (rp_visible plan))" "\<forall>p \<in> set (rp_visible plan). snd p < length (ti_columns ti)
     \<and> ci_id (ti_columns ti ! snd p) = fst p \<and> \<not> key_column ti (ti_columns ti ! snd p)"
    using assms(1) by (auto simp: planned_def visible_planned_def)
  have "map fst (rp_visible plan) = map (\<lambda>i. ci_id (ti_columns ti ! i)) (map snd (rp_visible plan))"
    unfolding map_map by (rule map_cong [OF refl]) (use v(2) in simp)
  moreover have "inj_on (\<lambda>i. ci_id (ti_columns ti ! i)) (set (map snd (rp_visible plan)))"
  proof (rule inj_onI)
    fix i j assume "i \<in> set (map snd (rp_visible plan))" "j \<in> set (map snd (rp_visible plan))" and e: "ci_id (ti_columns ti ! i) = ci_id (ti_columns ti ! j)"
    then have "i < length (ti_columns ti)" "j < length (ti_columns ti)" using v(2) by auto
    then show "i = j" using schema_index [OF assms(2)] e by blast
  qed
  moreover have "distinct (map snd (rp_visible plan))" using v(1) by (simp add: strict_sorted_iff)
  ultimately have "distinct (map fst (rp_visible plan))" by (simp only: distinct_map [where xs = "map snd (rp_visible plan)"] simp_thms)
  then show "visible_ok ti (sort_key fst (rp_visible plan))" using v(2) by (simp add: visible_ok_def lut_ok_def sort_key_strict)
  show "rp_handle_col_id plan \<notin> fst ` set (rp_visible plan)"
  proof
    assume "rp_handle_col_id plan \<in> fst ` set (rp_visible plan)"
    then obtain p where p: "p \<in> set (rp_visible plan)" "fst p = rp_handle_col_id plan" by auto
    then have q: "snd p < length (ti_columns ti)" "ci_id (ti_columns ti ! snd p) = fst p" "\<not> key_column ti (ti_columns ti ! snd p)"
      using bspec [OF v(2) p(1)] by simp_all
    have "0 \<le> ci_id (ti_columns ti ! snd p)" using assms(2) nth_mem [OF q(1)] unfolding schema_ok_def by blast
    then have "rp_handle_col_id plan \<noteq> TiDBPkColumnID" unfolding q(2) p(2) TiDBPkColumnID_def by linarith
    then obtain i where i: "i < length (ti_columns ti)" "ci_id (ti_columns ti ! i) = rp_handle_col_id plan" "key_column ti (ti_columns ti ! i)"
      using assms(1) unfolding planned_def handle_planned_def by blast
    have "i = snd p" by (rule schema_index [OF assms(2) i(1) q(1)]) (simp only: i(2) q(2) p(2))
    then show False using i(3) q(3) by simp
  qed
qed

lemma cm_insert_dom: "cm_insert k f cm = Inr cm' \<Longrightarrow> dom (map_of cm') = dom (map_of cm)"
  by (drule cm_insert_Inr) (auto simp: dom_def split: if_splits)

lemma insert_fields_dom: "insert_fields ti force fs cm = Inr (Some cm') \<Longrightarrow> dom (map_of cm') = dom (map_of cm)"
proof (induction fs arbitrary: cm)
  case (Cons p fs)
  then obtain x cm1 where "cm_insert (fst p) x cm = Inr cm1" "insert_fields ti force fs cm1 = Inr (Some cm')"
    by (cases p) (auto simp: rbind_eq_Inr split: if_splits)
  then show ?case using Cons.IH cm_insert_dom by metis
qed simp

lemma setColumnValues_dom:
  "setColumnValues pk_type [h] visible lut tso need ti force flt rows st = Some (Inr (Some st')) \<Longrightarrow> dom (map_of (bs_columns st')) = dom (map_of (bs_columns st))"
proof (induction rows arbitrary: st)
  case (Cons r rows)
  obtain pk w ts vp where r: "r = (pk, w, ts, vp)" by (rule prod_cases4)
  show ?case
  proof (cases "ts > tso \<or> should_skip pk_type flt pk")
    case False
    obtain cm1 cm2 where m: "(if need then read_values ti lut visible force r (bs_columns st) else Some (Inr (Some (bs_columns st)))) = Some (Inr (Some cm1))"
      "cm_insert h (handle_field pk_type pk) cm1 = Inr cm2"
      "setColumnValues pk_type [h] visible lut tso need ti force flt rows \<lparr>bs_delmark = bs_delmark st @ [w = DelFlag], bs_version = bs_version st @ [ts],
        bs_columns = cm2, bs_index = bs_index st + 1\<rparr> = Some (Inr (Some st'))"
      using Cons.prems False unfolding r by (auto simp: pbind_eq_Inr insert_pk_single split: option.splits)
    have "dom (map_of cm1) = dom (map_of (bs_columns st))"
      using m(1) insert_fields_dom by (fastforce simp: read_values_def pbind_eq_Inr split: if_splits option.splits prod.splits)
    then show ?thesis using Cons.IH [OF m(3)] cm_insert_dom [OF m(2)] by simp
  qed (use Cons r in simp)
qed simp

subsection \<open>The block that is read\<close>

definition handle_column :: "TableInfo \<Rightarrow> ColumnID \<Rightarrow> bool" where
  "handle_column ti k \<longleftrightarrow> (if ti_pk_is_handle ti then \<exists>c \<in> set (ti_columns ti). hasPriKeyFlag c \<and> ci_id c = k else k = TiDBPkColumnID)"

lemma visible_length:
  assumes "planned ti types names (length (ti_columns ti)) plan"
  shows "length (rp_visible plan) \<le> length (ti_columns ti)"
proof -
  have v: "sorted_wrt (<) (map snd (rp_visible plan))" "set (map snd (rp_visible plan)) \<subseteq> {..<length (ti_columns ti)}"
    using assms by (auto simp: planned_def visible_planned_def)
  have "distinct (map snd (rp_visible plan))" using v(1) by (simp add: strict_sorted_iff)
  then have "length (rp_visible plan) = card (set (map snd (rp_visible plan)))" by (metis distinct_card length_map)
  then show ?thesis using card_mono [OF _ v(2)] by simp
qed

lemma visible_count:
  assumes "(of_nat (length names) :: UInt64) - 3 = of_nat m" "2 \<le> length names" "m < 2 ^ 16"
  shows "length names > 3 \<or> m = 0"
proof (rule ccontr)
  assume a: "\<not> (length names > 3 \<or> m = 0)"
  then have u: "unat (of_nat m :: UInt64) = m" using assms(3) by (intro unat_of_nat_64) simp
  consider "length names = 2" | "length names = 3" using a assms(2) by linarith
  then show False
  proof cases
    case 1
    then have "(of_nat m :: UInt64) = - 1" using assms(1) by simp
    then have "unat (of_nat m :: UInt64) = 2 ^ 64 - 1" by (simp add: unsigned_minus_1_eq_mask mask_eq_exp_minus_1)
    then show ?thesis using u assms(3) by simp
  next
    case 2
    then have "unat (of_nat m :: UInt64) = 0" using assms(1) by simp
    then show ?thesis using u a by simp
  qed
qed

lemma plan_read_Inr:
  assumes "plan_read ti types names = Inr plan" "\<not> ti_is_common_handle ti" "schema_ok ti"
  obtains plan0 where "planned ti types names (length (ti_columns ti)) plan0" "rp_visible plan = sort_key fst (rp_visible plan0)"
    "rp_handle_col_id plan = rp_handle_col_id plan0" "rp_read_ids plan = rp_read_ids plan0" "rp_column_lut plan = predecode_lut ti"
    "length names > 3 \<or> rp_visible plan0 = []"
    "map_of (rp_columns plan) = (if ti_pk_is_handle ti then map_of (rp_columns plan0)
      else (map_of (rp_columns plan0))(TiDBPkColumnID \<mapsto> \<lparr>ct_column = [], ct_name = tidb_pk_column_name, ct_type = DataTypeInt64, ct_index = 2 ^ 64 - 1\<rparr>))"
    "\<not> ti_pk_is_handle ti \<longrightarrow> rp_handle_col_id plan0 = TiDBPkColumnID"
proof -
  obtain plan0 where p0: "plan_columns ti types [] 0 (ti_columns ti) (initial_plan ti [] names) = Inr plan0"
    and len: "2 \<le> length names" "(of_nat (length names) :: UInt64) - 3 = of_nat (length (rp_visible plan0))"
    and p: "plan = (if \<not> ti_pk_is_handle ti then plan0\<lparr>rp_visible := sort_key fst (rp_visible plan0),
        rp_columns := fst (umap_emplace (rp_handle_col_id plan0) \<lparr>ct_column = [], ct_name = tidb_pk_column_name, ct_type = DataTypeInt64, ct_index = 2 ^ 64 - 1\<rparr> (rp_columns plan0))\<rparr>
      else plan0\<lparr>rp_visible := sort_key fst (rp_visible plan0)\<rparr>)"
    using assms(1,2) by (auto simp: plan_read_def rbind_eq_Inr Let_def split: if_splits)
  have pl: "planned ti types names (length (ti_columns ti)) plan0"
    by (rule plan_columns_planned [OF p0 _ planned_initial assms(3)]) simp_all
  have lut: "rp_column_lut plan0 = predecode_lut ti"
    using plan_columns_lut [OF p0] by (simp add: predecode_lut_def initial_plan_def)
  have h: "rp_handle_col_id plan0 = TiDBPkColumnID" if "\<not> ti_pk_is_handle ti"
    using pl that by (auto simp: planned_def handle_planned_def key_column_def)
  have "map_of (rp_columns plan0) TiDBPkColumnID = None"
  proof (rule ccontr)
    assume "map_of (rp_columns plan0) TiDBPkColumnID \<noteq> None"
    then obtain ct where "map_of (rp_columns plan0) TiDBPkColumnID = Some ct" by auto
    then have c: "ct_index ct < length (ti_columns ti)" "ci_id (ti_columns ti ! ct_index ct) = TiDBPkColumnID"
      using pl unfolding planned_def columns_planned_def by blast+
    have "0 \<le> ci_id (ti_columns ti ! ct_index ct)" using assms(3) nth_mem [OF c(1)] unfolding schema_ok_def by blast
    then show False unfolding c(2) by (simp add: TiDBPkColumnID_def)
  qed
  then have m: "map_of (fst (umap_emplace TiDBPkColumnID ct (rp_columns plan0))) = (map_of (rp_columns plan0))(TiDBPkColumnID \<mapsto> ct)" for ct
    by (auto simp: umap_emplace_def map_add_def fun_eq_iff split: option.splits)
  have "length (rp_visible plan0) < 2 ^ 16" using visible_length [OF pl] assms(3) unfolding schema_ok_def by linarith
  then have n: "length names > 3 \<or> rp_visible plan0 = []" using visible_count [OF len(2,1)] by simp
  show ?thesis by (rule that [OF pl _ _ _ _ n]) (use p h m lut in auto)
qed

definition block_column :: "(string \<times> ColumnID) list \<Rightarrow> BlockState \<Rightarrow> string \<times> BlockColumn \<times> ColumnID \<Rightarrow> bool" where
  "block_column ids st p \<longleftrightarrow> (if fst p = delmark_column_name then fst (snd p) = DelMarks (bs_delmark st)
    else if fst p = version_column_name then fst (snd p) = Versions (bs_version st)
    else map_of ids (fst p) = Some (snd (snd p)) \<and> (\<exists>ct. map_of (bs_columns st) (snd (snd p)) = Some ct \<and> fst (snd p) = Values (ct_column ct)))"

lemma make_block_Inr:
  assumes "make_block ids st names = Inr block"
  shows "map fst block = names \<and> (\<forall>p \<in> set block. block_column ids st p)"
  using assms
proof (induction names arbitrary: block)
  case (Cons name names)
  obtain col cols where c: "(if name = delmark_column_name then Inr (name, DelMarks (bs_delmark st), DelMarkColumnID)
            else if name = version_column_name then Inr (name, Versions (bs_version st), VersionColumnID)
            else (case map_of ids name of
                None \<Rightarrow> Inl OutOfBounds
              | Some col_id \<Rightarrow> rbind (cm_at col_id (bs_columns st)) (\<lambda>ct. Inr (name, Values (ct_column ct), col_id)))) = Inr col"
    "make_block ids st names = Inr cols" "block = col # cols"
    using Cons.prems unfolding make_block.simps rbind_eq_Inr by blast
  have "fst col = name \<and> block_column ids st col"
    using c(1) by (auto simp: block_column_def cm_at_def rbind_eq_Inr split: if_splits option.splits)
  then show ?case using Cons.IH [OF c(2)] c(3) by simp
qed simp
subsection \<open>The order of unsigned handles\<close>

abbreviation row_handle :: "ReadInfo \<Rightarrow> HandleID" where
  "row_handle r \<equiv> RawTiDBPK_handle (fst r)"

lemma negative_handle_iff: "negative_handle r \<longleftrightarrow> 2 ^ 63 \<le> uint (row_handle r)"
  by (simp add: negative_handle_def and_SIGN_MASK_iff bit_63_iff)

lemma signed_order:
  assumes "row_handle r \<le>s row_handle r'"
  shows "negative_handle r' \<Longrightarrow> negative_handle r" and "negative_handle r = negative_handle r' \<Longrightarrow> row_handle r \<le> row_handle r'"
    and "negative_handle r \<Longrightarrow> \<not> negative_handle r' \<Longrightarrow> row_handle r' < row_handle r"
  using assms uint_lt2p [of "row_handle r"] uint_lt2p [of "row_handle r'"]
  by (auto simp: word_sle_eq sint_conv_uint negative_handle_iff word_le_def word_less_def split: if_splits) (smt (verit) unsigned_greater_eq)+

lemma same_sign_sorted:
  assumes "sorted_wrt (\<lambda>r r'. row_handle r \<le>s row_handle r') rows" "\<forall>r \<in> set rows. negative_handle r = b"
  shows "sorted_wrt (\<lambda>r r'. row_handle r \<le> row_handle r') rows"
  using assms(1) by (rule sorted_wrt_mono_rel [rotated]) (use assms(2) signed_order(2) in blast)

lemma signs_of_sorted:
  assumes "sorted_wrt (\<lambda>r r'. row_handle r \<le>s row_handle r') rows"
  shows "\<forall>r \<in> set (dropWhile negative_handle rows). \<not> negative_handle r"
  using assms
proof (induction rows)
  case (Cons r rows)
  show ?case
  proof (cases "negative_handle r")
    case False
    have "\<not> negative_handle r'" if "r' \<in> set rows" for r'
    proof
      assume "negative_handle r'"
      moreover have "row_handle r \<le>s row_handle r'" using Cons.prems that by simp
      ultimately show False using signed_order(1) False by blast
    qed
    then show ?thesis using False by simp
  next
    case True
    have "\<forall>r \<in> set (dropWhile negative_handle rows). \<not> negative_handle r"
      by (rule Cons.IH) (use Cons.prems in \<open>simp only: sorted_wrt.simps\<close>)
    then show ?thesis by (simp only: dropWhile.simps True if_True)
  qed
qed simp

lemma reorder_sorted:
  assumes "sorted_wrt (\<lambda>r r'. row_handle r \<le>s row_handle r') rows"
  shows "sorted_wrt (\<lambda>r r'. row_handle r \<le> row_handle r') (dropWhile negative_handle rows @ takeWhile negative_handle rows)"
proof -
  let ?a = "takeWhile negative_handle rows" and ?b = "dropWhile negative_handle rows"
  have "sorted_wrt (\<lambda>r r'. row_handle r \<le>s row_handle r') (?a @ ?b)" using assms by (simp only: takeWhile_dropWhile_id)
  then have s: "sorted_wrt (\<lambda>r r'. row_handle r \<le>s row_handle r') ?a" "sorted_wrt (\<lambda>r r'. row_handle r \<le>s row_handle r') ?b"
    by (simp_all only: sorted_wrt_append)
  have n: "\<forall>r \<in> set ?a. negative_handle r = True"
  proof
    fix r assume r: "r \<in> set ?a"
    show "negative_handle r = True" using set_takeWhileD [OF r] by simp
  qed
  have p: "\<forall>r \<in> set ?b. negative_handle r = False" using signs_of_sorted [OF assms] by (simp only: eq_False)
  have "row_handle b \<le> row_handle a" if "a \<in> set ?a" "b \<in> set ?b" for a b
    using bspec [OF n that(1)] bspec [OF p that(2)] by (simp add: negative_handle_iff word_le_def)
  then show ?thesis
    unfolding sorted_wrt_append using same_sign_sorted [OF s(1) n] same_sign_sorted [OF s(2) p] by blast
qed

lemma reorder_identity:
  assumes "sorted_wrt (\<lambda>r r'. row_handle r \<le>s row_handle r') rows" "rows = [] \<or> \<not> (negative_handle (hd rows) \<and> \<not> negative_handle (last rows))"
  shows "sorted_wrt (\<lambda>r r'. row_handle r \<le> row_handle r') rows"
proof (cases rows)
  case (Cons r rs)
  show ?thesis
  proof (cases "negative_handle r")
    case True
    then have l: "negative_handle (last rows)" using assms(2) Cons by simp
    have "negative_handle x" if "x \<in> set rows" for x
    proof (cases "x = last rows")
      case False
      then have "x \<in> set (butlast rows)" using that Cons by (metis append_butlast_last_id list.distinct(1) rotate1.simps(2) set_ConsD set_rotate1)
      moreover have "sorted_wrt (\<lambda>r r'. row_handle r \<le>s row_handle r') (butlast rows @ [last rows])"
        using assms(1) append_butlast_last_id [of rows] Cons by simp
      ultimately have "row_handle x \<le>s row_handle (last rows)" by (simp only: sorted_wrt_append list.set) blast
      then show ?thesis using signed_order(1) l by blast
    qed (use l in simp)
    then have "\<forall>r \<in> set rows. negative_handle r = True" by (simp only: eq_True) blast
    then show ?thesis by (rule same_sign_sorted [OF assms(1)])
  next
    case False
    then have "dropWhile negative_handle rows = rows" using Cons by simp
    then have "\<forall>r \<in> set rows. negative_handle r = False" using signs_of_sorted [OF assms(1)] by (simp only: eq_False)
    then show ?thesis by (rule same_sign_sorted [OF assms(1)])
  qed
qed simp

text \<open>
  C34: for unsigned handles the reader puts rows that come in the order of signed handles into the order of
  unsigned handles. No row is lost or added, and the result is sorted except in one case: two rows of which
  only the first has the sign bit stay as they are, although their unsigned handles are in the wrong order.
\<close>

theorem reorder_unsigned_rows:
  assumes "sorted_wrt (\<lambda>r r'. RawTiDBPK_handle (fst r) \<le>s RawTiDBPK_handle (fst r')) rows"
  shows "mset (ReorderRegionDataReadList rows) = mset rows
    \<and> (sorted_wrt (\<lambda>r r'. RawTiDBPK_handle (fst r) \<le> RawTiDBPK_handle (fst r')) (ReorderRegionDataReadList rows)
       \<longleftrightarrow> \<not> (length rows = 2 \<and> negative_handle (hd rows) \<and> \<not> negative_handle (last rows)))"
proof (cases "length rows > 2 \<and> negative_handle (hd rows) \<and> \<not> negative_handle (last rows)")
  case True
  then have r: "ReorderRegionDataReadList rows = dropWhile negative_handle rows @ takeWhile negative_handle rows"
    by (simp add: ReorderRegionDataReadList_def)
  have "mset (dropWhile negative_handle rows @ takeWhile negative_handle rows) = mset rows"
    by (subst (2) takeWhile_dropWhile_id [of negative_handle rows, symmetric]) (simp only: mset_append add.commute)
  then show ?thesis using reorder_sorted [OF assms] True unfolding r by linarith
next
  case False
  then have r: "ReorderRegionDataReadList rows = rows" by (auto simp: ReorderRegionDataReadList_def)
  show ?thesis
  proof (cases "rows = [] \<or> \<not> (negative_handle (hd rows) \<and> \<not> negative_handle (last rows))")
    case True
    then have "\<not> (length rows = 2 \<and> negative_handle (hd rows) \<and> \<not> negative_handle (last rows))" by fastforce
    then show ?thesis using reorder_identity [OF assms True] unfolding r by blast
  next
    case two: False
    then have "rows \<noteq> []" "length rows \<noteq> 1" by (auto simp: length_Suc_conv)
    then have "length rows = 2" using False two by (cases rows) (auto simp: le_Suc_eq not_less)
    then obtain x y where xy: "rows = [x, y]" by (auto simp: length_Suc_conv numeral_2_eq_2)
    have "row_handle x \<le>s row_handle y" using assms unfolding xy by simp
    then have "row_handle y < row_handle x" using two signed_order(3) [of x y] unfolding xy by simp
    then show ?thesis using two r unfolding xy by (simp add: not_le)
  qed
qed

text \<open>Four rows in the order of signed handles: one with the handle \<open>2 ^ 64 - 1\<close>, one that is deleted, one with two values, and one
  that is committed at time 90.\<close>

definition sample_read_rows :: "ReadInfo list" where
  "sample_read_rows = [
     ([127, 255, 255, 255, 255, 255, 255, 255], PutFlag, 5, Some ([128, 1, 2, 0, 1, 0, 2, 0, 0, 0, 44, 1, 0, 0, 7, 0, 0, 0, 2, 0, 0, 0, 3, 0, 0, 0, 97, 98, 251], None)),
     ([128, 0, 0, 0, 0, 0, 0, 0], DelFlag, 6, None),
     ([128, 0, 0, 0, 0, 0, 0, 1], PutFlag, 7, Some ([128, 1, 2, 0, 1, 0, 2, 0, 0, 0, 44, 1, 0, 0, 7, 0, 0, 0, 2, 0, 0, 0, 3, 0, 0, 0, 97, 98, 251], None)),
     ([128, 0, 0, 0, 0, 0, 0, 2], PutFlag, 90, None)]"

lemma sample_handles: "map (RawTiDBPK_handle \<circ> fst) sample_read_rows = [- 1, 0, 1, 2]"
  by code_simp

theorem reorder_unsigned_rows_witness:
  "length sample_read_rows = 4 \<and> mset (ReorderRegionDataReadList sample_read_rows) = mset sample_read_rows
    \<and> sorted_wrt (\<lambda>r r'. RawTiDBPK_handle (fst r) \<le> RawTiDBPK_handle (fst r')) (ReorderRegionDataReadList sample_read_rows)"
proof -
  have "sorted_wrt (\<le>s) (map (RawTiDBPK_handle \<circ> fst) sample_read_rows)" unfolding sample_handles by (simp add: word_sle_eq)
  then have "sorted_wrt (\<lambda>r r'. RawTiDBPK_handle (fst r) \<le>s RawTiDBPK_handle (fst r')) sample_read_rows" by (simp add: sorted_wrt_map)
  moreover have "length sample_read_rows = 4" by (simp add: sample_read_rows_def)
  ultimately show ?thesis using reorder_unsigned_rows [of sample_read_rows] by simp
qed

text \<open>What a block holds for the visible rows: the marks of deletions, the times of the commits, the handles, and
  for a column of the schema the cells of the rows. The type of the handles comes from the column of the key.\<close>

definition handle_type :: "TableInfo \<Rightarrow> (string \<times> DataType) list \<Rightarrow> TMTPKType \<Rightarrow> bool" where
  "handle_type ti types pk_type \<longleftrightarrow> (if ti_pk_is_handle ti
     then \<exists>c \<in> set (ti_columns ti). \<exists>ty. hasPriKeyFlag c \<and> map_of types (ci_name c) = Some ty \<and> pk_type = getTMTPKType ty
     else pk_type = INT64)"

definition column_of_rows :: "TableInfo \<Rightarrow> TMTPKType \<Rightarrow> ReadInfo list \<Rightarrow> string \<times> BlockColumn \<times> ColumnID \<Rightarrow> bool" where
  "column_of_rows ti pk_type rows p \<longleftrightarrow> (case p of (name, column, k) \<Rightarrow>
     if name = delmark_column_name then column = DelMarks (map (\<lambda>r. fst (snd r) = DelFlag) rows)
     else if name = version_column_name then column = Versions (map (\<lambda>r. fst (snd (snd r))) rows)
     else if handle_column ti k then column = Values (map (handle_field pk_type \<circ> fst) rows)
     else \<exists>c \<in> set (ti_columns ti). \<exists>vs. ci_id c = k \<and> ci_name c = name \<and> column = Values vs
       \<and> list_all2 (\<lambda>r x. row_cell ti (predecode_lut ti) r c x) rows vs)"

lemma handle_type_Inr:
  assumes "planned ti types names (length (ti_columns ti)) plan" "schema_ok ti" "map_of (rp_columns plan) (rp_handle_col_id plan) = Some ct" "ti_pk_is_handle ti"
  shows "handle_type ti types (getTMTPKType (ct_type ct))"
proof -
  let ?c = "ti_columns ti ! ct_index ct"
  have c: "ct_index ct < length (ti_columns ti)" "map_of types (ci_name ?c) = Some (ct_type ct)"
    "\<not> key_column ti ?c \<longrightarrow> (rp_handle_col_id plan, ct_index ct) \<in> set (rp_visible plan)"
    using assms(1,3) unfolding planned_def columns_planned_def by blast+
  have "key_column ti ?c" using c(3) planned_visible(2) [OF assms(1,2)] by (metis fst_conv image_eqI)
  then show ?thesis using assms(4) nth_mem [OF c(1)] c(2) by (auto simp: handle_type_def key_column_def)
qed

lemma handle_column_planned:
  assumes "schema_ok ti" "i < length (ti_columns ti)" "ci_id (ti_columns ti ! i) = k"
  shows "handle_column ti k \<longleftrightarrow> key_column ti (ti_columns ti ! i)"
proof
  assume h: "handle_column ti k"
  have "0 \<le> k" using assms nth_mem [OF assms(2)] unfolding schema_ok_def by blast
  then have "ti_pk_is_handle ti" using h by (auto simp: handle_column_def TiDBPkColumnID_def split: if_splits)
  then obtain j where j: "j < length (ti_columns ti)" "hasPriKeyFlag (ti_columns ti ! j)" "ci_id (ti_columns ti ! j) = k"
    using h unfolding handle_column_def by (auto simp: in_set_conv_nth)
  have "j = i" by (rule schema_index [OF assms(1) j(1) assms(2)]) (simp only: j(3) assms(3))
  then show "key_column ti (ti_columns ti ! i)" using j(2) \<open>ti_pk_is_handle ti\<close> by (simp add: key_column_def)
next
  assume "key_column ti (ti_columns ti ! i)"
  then show "handle_column ti k" using assms(3) nth_mem [OF assms(2)] by (auto simp: handle_column_def key_column_def)
qed

lemma planned_name:
  assumes "planned ti types names (length (ti_columns ti)) plan" "schema_ok ti" "map_of (rp_read_ids plan) name = Some (ci_id (ti_columns ti ! i))" "i < length (ti_columns ti)"
  shows "ci_name (ti_columns ti ! i) = name"
proof -
  have "0 \<le> ci_id (ti_columns ti ! i)" using assms(2) nth_mem [OF assms(4)] unfolding schema_ok_def by blast
  then have "ci_id (ti_columns ti ! i) \<noteq> InvalidColumnID" "ci_id (ti_columns ti ! i) \<noteq> TiDBPkColumnID" by (simp_all add: InvalidColumnID_def TiDBPkColumnID_def)
  moreover have "(name, ci_id (ti_columns ti ! i)) \<in> set (rp_read_ids plan)" using assms(3) by (rule map_of_SomeD)
  ultimately obtain j where j: "j < length (ti_columns ti)" "ci_id (ti_columns ti ! j) = ci_id (ti_columns ti ! i)" "ci_name (ti_columns ti ! j) = name"
    using assms(1) unfolding planned_def names_planned_def by fastforce
  have "j = i" by (rule schema_index [OF assms(2) j(1) assms(4) j(2)])
  then show ?thesis using j(3) by simp
qed

lemma value_column_read:
  assumes "planned ti types names (length (ti_columns ti)) plan" "schema_ok ti" "map_of (rp_columns plan) k = Some ct0"
    and "map_of cm k = Some ct0" "grown ti lut pk_type (rp_handle_col_id plan) (sort_key fst (rp_visible plan)) rows cm cm'"
    and "map_of cm' k = Some ct" "map_of (rp_read_ids plan) name = Some k"
  shows "if handle_column ti k then ct_column ct = map (handle_field pk_type \<circ> fst) rows
    else \<exists>c \<in> set (ti_columns ti). ci_id c = k \<and> ci_name c = name \<and> list_all2 (\<lambda>r x. row_cell ti lut r c x) rows (ct_column ct)"
proof -
  let ?c = "ti_columns ti ! ct_index ct0"
  have c: "ct_column ct0 = []" "ct_index ct0 < length (ti_columns ti)" "ci_id ?c = k"
    "key_column ti ?c \<longrightarrow> k = rp_handle_col_id plan" "\<not> key_column ti ?c \<longrightarrow> (k, ct_index ct0) \<in> set (rp_visible plan)"
    using assms(1,3) unfolding planned_def columns_planned_def by blast+
  show ?thesis
  proof (cases "handle_column ti k")
    case True
    then have "k = rp_handle_col_id plan" using c(4) handle_column_planned [OF assms(2) c(2,3)] by simp
    then have "map_of cm' k = Some (ct0\<lparr>ct_column := ct_column ct0 @ map (handle_field pk_type \<circ> fst) rows\<rparr>)"
      using assms(4,5) unfolding grown_def by blast
    then show ?thesis using True assms(6) c(1) by simp
  next
    case False
    then have "(k, ct_index ct0) \<in> set (sort_key fst (rp_visible plan))" using c(5) handle_column_planned [OF assms(2) c(2,3)] by simp
    then obtain vs where vs: "map_of cm' k = Some (ct0\<lparr>ct_column := ct_column ct0 @ vs\<rparr>)" "list_all2 (\<lambda>r x. row_cell ti lut r ?c x) rows vs"
      using assms(4,5) unfolding grown_def by blast
    have "ct_column ct = vs" using vs(1) assms(6) c(1) by simp
    moreover have "ci_name ?c = name" using planned_name [OF assms(1,2) _ c(2)] assms(7) c(3) by simp
    ultimately show ?thesis using False vs(2) c(3) nth_mem [OF c(2)] by auto
  qed
qed

lemma block_of_rows:
  assumes "plan_read ti types names = Inr plan" "\<not> ti_is_common_handle ti" "schema_ok ti" "\<forall>r \<in> set data. cache_ok r"
    and "read_rows ti names plan pk_type data start_ts force flt = Some (Inr (Some st))" "make_block (rp_read_ids plan) st names = Inr block"
  shows "map fst block = names \<and> (\<forall>p \<in> set block. column_of_rows ti pk_type (filter (row_visible start_ts pk_type flt) data) p)"
proof -
  let ?rows = "filter (row_visible start_ts pk_type flt) data"
  obtain plan0 where pl: "planned ti types names (length (ti_columns ti)) plan0" "rp_visible plan = sort_key fst (rp_visible plan0)"
    "rp_handle_col_id plan = rp_handle_col_id plan0" "rp_read_ids plan = rp_read_ids plan0" "rp_column_lut plan = predecode_lut ti"
    "length names > 3 \<or> rp_visible plan0 = []"
    "map_of (rp_columns plan) = (if ti_pk_is_handle ti then map_of (rp_columns plan0)
      else (map_of (rp_columns plan0))(TiDBPkColumnID \<mapsto> \<lparr>ct_column = [], ct_name = tidb_pk_column_name, ct_type = DataTypeInt64, ct_index = 2 ^ 64 - 1\<rparr>))"
    "\<not> ti_pk_is_handle ti \<longrightarrow> rp_handle_col_id plan0 = TiDBPkColumnID"
    by (rule plan_read_Inr [OF assms(1-3)])
  let ?st0 = "\<lparr>bs_delmark = [], bs_version = [], bs_columns = rp_columns plan, bs_index = 0\<rparr>"
  have s: "setColumnValues pk_type [rp_handle_col_id plan0] (sort_key fst (rp_visible plan0)) (predecode_lut ti) start_ts (length names > 3) ti force flt data ?st0
      = Some (Inr (Some st))"
    using assms(2,5) pl(2,3,5) by (simp add: read_rows_def)
  have h: "rp_handle_col_id plan0 \<notin> fst ` set (sort_key fst (rp_visible plan0))" using planned_visible(2) [OF pl(1) assms(3)] by simp
  have need: "length names > 3 \<or> sort_key fst (rp_visible plan0) = []" using pl(6) by auto
  have g: "bs_delmark st = map (\<lambda>r. fst (snd r) = DelFlag) ?rows" "bs_version st = map (\<lambda>r. fst (snd (snd r))) ?rows"
    "grown ti (predecode_lut ti) pk_type (rp_handle_col_id plan0) (sort_key fst (rp_visible plan0)) ?rows (rp_columns plan) (bs_columns st)"
    using setColumnValues_Inr [OF s assms(2) planned_visible(1) [OF pl(1) assms(3)] h assms(4) need] by (simp_all add: Let_def)
  have "column_of_rows ti pk_type ?rows (name, column, k)" if p: "block_column (rp_read_ids plan) st (name, column, k)" for name column k
  proof (cases "name = delmark_column_name \<or> name = version_column_name")
    case True
    then show ?thesis using p unfolding block_column_def column_of_rows_def prod.case fst_conv snd_conv g(1,2)
      by (cases "name = delmark_column_name") (simp_all only: if_True if_False simp_thms)
  next
    case False
    then obtain ct where ct: "map_of (rp_read_ids plan0) name = Some k" "map_of (bs_columns st) k = Some ct" "column = Values (ct_column ct)"
      using p unfolding block_column_def fst_conv snd_conv pl(4) by (simp only: de_Morgan_disj if_False) blast
    then obtain ct0 where ct0: "map_of (rp_columns plan) k = Some ct0" using setColumnValues_dom [OF s] by (metis BlockState.select_convs(3) domD domI)
    show ?thesis
    proof (cases "\<not> ti_pk_is_handle ti \<and> k = TiDBPkColumnID")
      case True
      have k: "k = rp_handle_col_id plan0" using True pl(8) by simp
      have h: "handle_column ti k" using True by (simp add: handle_column_def)
      have c0: "ct_column ct0 = []" using True pl(7) ct0 by auto
      have "map_of (bs_columns st) k = Some (ct0\<lparr>ct_column := ct_column ct0 @ map (handle_field pk_type \<circ> fst) ?rows\<rparr>)"
        using g(3) ct0 k unfolding grown_def by blast
      then have "ct_column ct = map (handle_field pk_type \<circ> fst) ?rows" using ct(2) c0 by simp
      then show ?thesis using False ct(3) h by (simp add: column_of_rows_def)
    next
      case other: False
      then have "map_of (rp_columns plan0) k = Some ct0" using pl(7) ct0 by (auto split: if_splits)
      from value_column_read [OF pl(1) assms(3) this ct0 g(3) ct(2,1)] show ?thesis
        unfolding column_of_rows_def prod.case ct(3) using False
        by (cases "handle_column ti k") (simp_all only: de_Morgan_disj if_True if_False, blast)
    qed
  qed
  then show ?thesis using make_block_Inr [OF assms(6)] by auto
qed

lemma reorder_set: "set (ReorderRegionDataReadList rows) = set rows"
  by (auto simp: ReorderRegionDataReadList_def dest: set_takeWhileD set_dropWhileD) (metis Un_iff set_append takeWhile_dropWhile_id)+

text \<open>Background decoding does not change what a reader with the same schema gets from a value.\<close>

lemma predecoded_row_same:
  "preDecodeRow ti v = Some (Inr v') \<Longrightarrow> fst v' = fst v \<and> loaded_row ti (predecode_lut ti) v' = loaded_row ti (predecode_lut ti) v"
  by (auto simp: preDecodeRow_def loaded_row_def pbind_eq_Inr split: option.splits)

lemma predecoded_cache_ok:
  "preDecodeRow ti (bs, None) = Some (Inr v) \<Longrightarrow> cache_ok (pk, w, ts, Some v)"
  by (auto simp: preDecodeRow_def cache_ok_def pbind_eq_Inr dest: decodeRow_sorted)

text \<open>
  C6: a block that is read holds the visible rows and only them. Its columns are the columns that were asked
  for, in that order, and every column has one entry for each row that was committed at or before the time
  of the read and passes the filter, in the order of the rows: whether the row is deleted, when it was
  committed, its handle, or its cell in a column of the schema. A cell is the decoded field of the row, the
  default where the row has none, and for a deleted row the empty value of the column's type or null; it is in the
  range of the column's type and is not null where the schema forbids that. The rows come in the order in which the region stores them, or
  reordered when the handle is unsigned.
\<close>

theorem region_block:
  assumes "readRegionBlock ti types names data start_ts force flt = Some (Inr (Some block))" "\<not> ti_is_common_handle ti" "schema_ok ti" "\<forall>r \<in> set data. cache_ok r"
  shows "\<exists>pk_type rows. handle_type ti types pk_type
    \<and> rows = filter (row_visible start_ts pk_type flt) (if pk_type = UINT64 then ReorderRegionDataReadList data else data)
    \<and> map fst block = names \<and> (\<forall>p \<in> set block. column_of_rows ti pk_type rows p)"
proof -
  obtain plan ct st where p: "plan_read ti types names = Inr plan" "map_of (rp_columns plan) (rp_handle_col_id plan) = Some ct"
    "read_rows ti names plan (getTMTPKType (ct_type ct)) (if getTMTPKType (ct_type ct) = UINT64 then ReorderRegionDataReadList data else data) start_ts force flt
      = Some (Inr (Some st))" "make_block (rp_read_ids plan) st names = Inr block"
    using assms(1) by (auto simp: readRegionBlock_def pbind_eq_Inr cm_at_def rbind_eq_Inr Let_def split: option.splits)
  let ?data = "if getTMTPKType (ct_type ct) = UINT64 then ReorderRegionDataReadList data else data"
  have "handle_type ti types (getTMTPKType (ct_type ct))"
  proof (rule plan_read_Inr [OF p(1) assms(2,3)])
    fix plan0 assume "planned ti types names (length (ti_columns ti)) plan0" "rp_handle_col_id plan = rp_handle_col_id plan0"
      "map_of (rp_columns plan) = (if ti_pk_is_handle ti then map_of (rp_columns plan0)
        else (map_of (rp_columns plan0))(TiDBPkColumnID \<mapsto> \<lparr>ct_column = [], ct_name = tidb_pk_column_name, ct_type = DataTypeInt64, ct_index = 2 ^ 64 - 1\<rparr>))"
      "\<not> ti_pk_is_handle ti \<longrightarrow> rp_handle_col_id plan0 = TiDBPkColumnID"
    then show ?thesis using handle_type_Inr [OF _ assms(3)] p(2) by (cases "ti_pk_is_handle ti") (auto simp: handle_type_def)
  qed
  moreover have "\<forall>r \<in> set ?data. cache_ok r" using assms(4) reorder_set by simp
  ultimately show ?thesis using block_of_rows [OF p(1) assms(2,3) _ p(3,4)] by blast
qed

definition sample_types :: "(string \<times> DataType) list" where
  "sample_types = [(''id'', DataTypeUInt64), (''name'', DataTypeString), (''n'', DataTypeOther ''Int32''), (''u'', DataTypeOther ''UInt8'')]"

definition sample_names :: "string list" where
  "sample_names = [delmark_column_name, version_column_name, ''id'', ''name'', ''n'']"

definition sample_block :: Block where
  "sample_block = [(delmark_column_name, DelMarks [True, False, False], DelMarkColumnID), (version_column_name, Versions [6, 7, 5], VersionColumnID),
     (''id'', Values [FUInt64 0, FUInt64 1, FUInt64 (- 1)], 1),
     (''name'', Values [Null, FString [97, 98], FString [97, 98]], 2), (''n'', Values [Null, FInt64 (- 5), FInt64 (- 5)], 300)]"

lemma sample_block_read: "readRegionBlock sample_table sample_types sample_names sample_read_rows 50 True None = Some (Inr (Some sample_block))"
  by code_simp

theorem region_block_witness:
  "readRegionBlock sample_table sample_types sample_names sample_read_rows 50 True None = Some (Inr (Some sample_block))
    \<and> (\<exists>pk_type rows. handle_type sample_table sample_types pk_type
      \<and> rows = filter (row_visible 50 pk_type None) (if pk_type = UINT64 then ReorderRegionDataReadList sample_read_rows else sample_read_rows)
      \<and> map fst sample_block = sample_names \<and> (\<forall>p \<in> set sample_block. column_of_rows sample_table pk_type rows p))"
proof -
  have "schema_ok sample_table" by (simp add: schema_ok_def sample_table_def key_column_def column_flags)
  moreover have "\<forall>r \<in> set sample_read_rows. cache_ok r" by (simp add: sample_read_rows_def cache_ok_def)
  moreover have "\<not> ti_is_common_handle sample_table" by (simp add: sample_table_def)
  ultimately show ?thesis using region_block [OF sample_block_read] sample_block_read by blast
qed

end
