(* ===== verification/Spec2Isabelle.thy ===== *)
theory Spec2Isabelle
  imports ApplySnapshot LearnerRead BlockReader
begin

text \<open>
  A model of the transaction layer of TiFlash (\<open>src/dbms/src/Storages/Transaction\<close>) and the
  theorems that make it correct.

  \<^bold>\<open>The program.\<close>  A TiFlash server holds copies of \<^emph>\<open>regions\<close>: ranges of the ordered key space of
  a distributed store. A proxy feeds the server with the log of each region (write commands, admin
  commands, snapshots, ingested files). The server keeps the uncommitted and committed records of a
  region in memory, moves committed rows to a columnar storage, stores regions on disk, and answers
  reads after it has caught up with the log. The parts and their theories, bottom up:

  \<^item> Codecs. \<open>IntCodec\<close>: fixed width, variable length and float encodings (\<open>DatumCodec.h\<close>,
    \<open>TiKVVarInt.h\<close>, \<open>Endian.h\<close>). \<open>BytesCodec\<close>: memory comparable and compact strings. \<open>DecimalCodec\<close>:
    decimals. \<open>DatumCodec\<close>: one datum with its flag (\<open>EncodeDatum\<close>, \<open>DecodeDatum\<close>, \<open>SkipDatum\<close> of
    \<open>DatumCodec.cpp\<close>). Lemmas: round trips for every width and every tail, order preservation of the
    memory comparable encodings, and that skipping agrees with decoding.

  \<^item> Records. \<open>RecordFormat\<close>: keys of the transaction layer and \<open>CFValues\<close>: values of the write and lock
    column families (\<open>TiKVRecordFormat.h\<close>). Lemmas: the shape that is accepted and what is read from
    it, round trips, and the read past the end of a truncated write record.

  \<^item> Rows. \<open>RowCodec\<close>: the two formats of the value of a row, written and read with the schema of the table
    (\<open>RowCodec.cpp\<close>, \<open>DecodedRow.h\<close>, \<open>TiDB.h\<close>). \<open>BlockReader\<close>: the block of columns that is read from
    the committed rows of a region, with defaults, overflow checks, the filter of handles and decoding in
    the background (\<open>RegionBlockReader.cpp\<close>, \<open>Datum.cpp\<close>, \<open>PredecodeTiKVValue.cpp\<close>). Lemmas: both formats
    read back what was written, with unknown columns apart; a block has one entry per visible row in
    every column; a row that no decoder finishes, and two rows that stay in the wrong order.

  \<^item> Ranges. \<open>RangeKeys\<close>: keys with both infinities, region ranges and ranges of handles
    (\<open>RegionRangeKeys.h\<close>, \<open>TiKVRange.h\<close>). \<open>TableHandle\<close>: ranges of unsigned handles (\<open>CHTableHandle.h\<close>).
    \<open>StdMap\<close> holds the ordered and the unordered map that the rest of the model uses.

  \<^item> One region. \<open>CFData\<close>: the template \<open>RegionCFDataBase\<close> with its three traits. \<open>RegionData\<close>: the three
    column families with their size, locks, split, merge and storing. \<open>RegionMeta\<close>: state, epoch, peers,
    applied index, and the merge and split commands on them (\<open>RegionMeta.cpp\<close>, \<open>RegionState.cpp\<close>).
    \<open>Region\<close>: both together (\<open>Region.cpp\<close>). \<open>RegionFlush\<close>: the scan of committed rows, the flush to the
    storage, the resolution of locks before a read, and the write command (\<open>PartitionStreams.cpp\<close>,
    \<open>Region::handleWriteRaftCmd\<close>). \<open>Serialization\<close> holds the readers and writers of stored messages.
    Lemmas: invariants over all sequences of operations, exact sizes modulo \<open>2 ^ 64\<close>, the value of every
    commit record in the runs in which a transaction has one value for a row (\<open>valued\<close>), what a split and a
    merge do to every record, the ranges and versions after a merge, storing and loading.

  \<^item> Many regions. \<open>RangeIndex\<close>: the index of regions by range (\<open>RegionsRangeIndex.cpp\<close>). \<open>RegionTable\<close>:
    regions by table (\<open>RegionTable.cpp\<close>). \<open>Persister\<close>: pages of stored regions (\<open>RegionPersister.cpp\<close>).
    \<open>KVStore\<close>: the store with its threads of work (\<open>KVStore.cpp\<close>, \<open>BackgroundService.cpp\<close>). \<open>AdminCmd\<close>:
    admin commands from the store to the region. \<open>ApplySnapshot\<close>: snapshots and ingested files
    (\<open>ApplySnapshot.cpp\<close>, \<open>RegionDataMover.cpp\<close>), and the server as a step relation \<open>server_step\<close> with one
    rule per entry point of \<open>ProxyFFI.cpp\<close>. \<open>LearnerRead\<close>: the read and its validation
    (\<open>LearnerRead.cpp\<close>). Lemmas: the index and the table refine plain maps, the invariant of the store
    over every reachable server, each command's effect on the regions it names and on no other, a committed
    merge with the background flush and without it (then the command flushes the target itself), and what a
    successful read guarantees.

  \<^bold>\<open>Conventions.\<close>  Bytes are \<open>8 word\<close>, machine integers are words of their width, so wrap around is
  that of the code. An operation that can throw returns a sum with the exception at the left; undefined
  behaviour of the code (a read past the end, a missing iterator) is the value \<open>OutOfBounds\<close> of the same
  sum. \<open>std::map\<close> is a sorted association list, \<open>std::unordered_map\<close> a distinct one. A shared pointer to a
  region is the identifier of the region in the store, so that an update is seen through every pointer.
  The mutexes are not part of the state: each entry point holds the task lock of its region and is one
  step. An exception that reaches an entry point ends the process (\<open>ProxyFFI.cpp\<close>), so the state after a
  throw is dropped.

  \<^bold>\<open>Parameters.\<close>  The columnar storage (\<open>StorageApi\<close>, \<open>DeltaApi\<close>, \<open>SnapshotApi\<close>), the proxy, the protocol
  buffers (\<open>ProtoEnv\<close>) and the clock are arguments. The theorems hold for all of them, or under the laws
  that the locales state (\<open>container\<close>, \<open>cf_family\<close>, \<open>serializer\<close>, \<open>region_index\<close> and others), which the
  interpretations discharge for the code's own definitions. The clock
  is read once per operation. The state of the storage is what the storage returns: when one of its
  operations throws and the exception is caught (the flushes of \<open>KVStore\<close> and \<open>ApplySnapshot\<close>), the model goes
  on with the state from before that operation, so a write that throws is taken to have written nothing.

  \<^bold>\<open>Termination.\<close>  There is no fuel. Loops are structural recursions or functions with a measure, but for
  two partial functions into \<open>option\<close>. The batches of a learner read do not end for zero threads, and
  \<open>learner_read_batches\<close> proves that they do for every positive number. The fields of a row of the first
  format end for every row that the encoder wrote (\<open>row_v1_roundtrip\<close>), and not for every input
  (\<open>row_v1_endless\<close>); a block is read only from rows whose decoding ends.

  \<^bold>\<open>Not modelled.\<close>  The disk files under the pages and the columnar engine (input and output; parameters
  of the model). The schema syncer (it issues DDL through the interpreter; only the schema version and
  the table are visible here). Collation and type mapping (they serve the query engine). The columns of
  the query engine: a column of a block is the list of its fields, without the narrowing of a
  typed column. The conversion of the default value of a column by its type (the switch of
  \<open>ColumnInfo::defaultValueToField\<close> in \<open>TiDB.cpp\<close>): the schema of the model carries the field or the exception
  that it gives. A block whose columns are asked for twice under one name: the code moves the column once. The theorem on blocks leaves out tables
  with a clustered index, whose key columns come from the key. The query engine, the coprocessor, the server shell and the bundled libraries (they do
  not change regions). The queue of rows for background decoding is left out of \<open>Region\<close>: it fills a cache,
  and \<open>BlockReader\<close> shows that a reader with the same schema gets the same row with and without it. Dropping a table (\<open>removeTable\<close>) is modelled in \<open>RegionTable\<close> but is not a step of the server,
  since it removes regions from the table while the store still holds them. A change of peers is assumed
  to keep the bounds of the region (\<open>same_bounds\<close>), as the protocol does. The batches of a learner read
  run one after the other; what other threads do between the check and the wait is an argument.
\<close>

end
